(* ===== verification/Prelude.thy ===== *)
theory Prelude
  imports
    Main
    "HOL-Library.AList"
    "HOL-Library.Char_ord"
    "HOL-Library.List_Lexorder"
    "HOL-Library.Multiset"
    "HOL-Library.Product_Lexorder"
begin

text \<open>
  Shared vocabulary of the development. Python exceptions are values of
  \<open>py_error\<close>, a computation that may raise is a sum whose left side is the
  exception, a Python dict is an association list in insertion order (a new key is
  appended, an existing one keeps its position, which is what
  \<^const>\<open>AList.update\<close> does), and Python strings are HOL strings read as code
  points below 256, ordered lexicographically as Python orders them.
\<close>

section \<open>Collections of facts\<close>

named_theorems slice_simps \<open>arithmetic of half-open quantity slices\<close>
named_theorems result_simps \<open>case analysis of computations that may raise\<close>

section \<open>Exceptions\<close>

datatype py_error =
    ValueError string
  | AssertionError string
  | KeyError string
  | IndexError
  | ZeroDivisionError
  | OverflowError
  | StopIteration
  | AppError string string
  | CustodyAllocationError string string
  | CustodyGapHoldCompileError string

type_synonym 'a result = "py_error + 'a"

definition bind_res :: "'a result \<Rightarrow> ('a \<Rightarrow> 'b result) \<Rightarrow> 'b result" where
  "bind_res m f = (case m of Inl e \<Rightarrow> Inl e | Inr x \<Rightarrow> f x)"

lemma bind_res_simps [simp]:
  "bind_res (Inl e) f = Inl e"
  "bind_res (Inr x) f = f x"
  by (simp_all add: bind_res_def)

lemma bind_res_eq_Inr [result_simps]:
  "bind_res m f = Inr y \<longleftrightarrow> (\<exists>x. m = Inr x \<and> f x = Inr y)"
  by (cases m) auto

lemma bind_res_eq_Inl [result_simps]:
  "bind_res m f = Inl e \<longleftrightarrow> m = Inl e \<or> (\<exists>x. m = Inr x \<and> f x = Inl e)"
  by (cases m) auto

text \<open>A Python loop that appends one computed item per element and stops at the first
  exception.\<close>

fun map_res :: "('a \<Rightarrow> 'b result) \<Rightarrow> 'a list \<Rightarrow> 'b list result" where
  "map_res f [] = Inr []"
| "map_res f (x # xs) =
     bind_res (f x) (\<lambda>y. bind_res (map_res f xs) (\<lambda>ys. Inr (y # ys)))"

lemma map_res_Inr_iff:
  "map_res f xs = Inr ys \<longleftrightarrow> list_all2 (\<lambda>x y. f x = Inr y) xs ys"
  by (induction xs arbitrary: ys) (auto simp: result_simps list_all2_Cons1)

lemma map_res_total:
  assumes "\<And>x. x \<in> set xs \<Longrightarrow> f x = Inr (g x)"
  shows "map_res f xs = Inr (map g xs)"
  using assms by (induction xs) auto

lemma map_res_choice:
  assumes "\<And>x. x \<in> set xs \<Longrightarrow> \<exists>y. f x = Inr y \<and> Q x y"
  shows "\<exists>ys. map_res f xs = Inr ys \<and> list_all2 Q xs ys"
  using assms
proof (induction xs)
  case Nil
  then show ?case by simp
next
  case (Cons x xs)
  then obtain ys where "map_res f xs = Inr ys" "list_all2 Q xs ys" by auto
  moreover obtain y where "f x = Inr y" "Q x y" using Cons.prems by auto
  ultimately show ?case by auto
qed

lemma list_all2_right_member:
  "list_all2 P xs ys \<Longrightarrow> y \<in> set ys \<Longrightarrow> \<exists>x \<in> set xs. P x y"
  by (induction rule: list_all2_induct) auto

lemma list_all2_left_member:
  "list_all2 P xs ys \<Longrightarrow> x \<in> set xs \<Longrightarrow> \<exists>y \<in> set ys. P x y"
  by (induction rule: list_all2_induct) auto

lemma map_res_length: "map_res f xs = Inr ys \<Longrightarrow> length ys = length xs"
  by (auto simp: map_res_Inr_iff dest: list_all2_lengthD)

lemma map_res_in:
  "map_res f xs = Inr ys \<Longrightarrow> y \<in> set ys \<Longrightarrow> \<exists>x \<in> set xs. f x = Inr y"
  by (induction xs arbitrary: ys) (auto simp: result_simps)

section \<open>Dictionaries in insertion order\<close>

type_synonym ('k, 'v) dict = "('k \<times> 'v) list"

text \<open>\<open>d.setdefault(k, []).append(v)\<close>\<close>

definition dict_append :: "'k \<Rightarrow> 'v \<Rightarrow> ('k, 'v list) dict \<Rightarrow> ('k, 'v list) dict" where
  "dict_append k v d =
     AList.update k ((case map_of d k of None \<Rightarrow> [] | Some vs \<Rightarrow> vs) @ [v]) d"

text \<open>\<open>for x in xs: d.setdefault(key(x), []).append(x)\<close>\<close>

definition group_by :: "('a \<Rightarrow> 'k) \<Rightarrow> 'a list \<Rightarrow> ('k, 'a list) dict" where
  "group_by key xs = fold (\<lambda>x d. dict_append (key x) x d) xs []"

text \<open>\<open>d.get(k, default)\<close>\<close>

definition dict_get :: "('k, 'v) dict \<Rightarrow> 'k \<Rightarrow> 'v \<Rightarrow> 'v" where
  "dict_get d k dflt = (case map_of d k of None \<Rightarrow> dflt | Some v \<Rightarrow> v)"

lemma dict_get_Nil [simp]: "dict_get [] k dflt = dflt"
  by (simp add: dict_get_def)

lemma dict_get_update:
  "dict_get (AList.update k v d) k' dflt = (if k' = k then v else dict_get d k' dflt)"
  by (simp add: dict_get_def update_conv')

lemma map_of_dict_append:
  "map_of (dict_append k v d) k' =
     (if k' = k then Some ((case map_of d k of None \<Rightarrow> [] | Some vs \<Rightarrow> vs) @ [v])
      else map_of d k')"
  by (simp add: dict_append_def update_conv')

lemma distinct_dict_append:
  "distinct (map fst d) \<Longrightarrow> distinct (map fst (dict_append k v d))"
  by (simp add: dict_append_def distinct_update)

lemma fold_dict_append_map_of:
  "map_of (fold (\<lambda>x d. dict_append (key x) x d) xs d) k =
     (case map_of d k of
        None \<Rightarrow> (if \<exists>x \<in> set xs. key x = k then Some (filter (\<lambda>x. key x = k) xs) else None)
      | Some vs \<Rightarrow> Some (vs @ filter (\<lambda>x. key x = k) xs))"
  by (induction xs arbitrary: d) (auto simp: map_of_dict_append split: option.splits)

lemma map_of_group_by:
  "map_of (group_by key xs) k =
     (if \<exists>x \<in> set xs. key x = k then Some (filter (\<lambda>x. key x = k) xs) else None)"
  by (simp add: group_by_def fold_dict_append_map_of)

lemma fold_dict_append_distinct:
  "distinct (map fst d) \<Longrightarrow>
     distinct (map fst (fold (\<lambda>x d. dict_append (key x) x d) xs d))"
  by (induction xs arbitrary: d) (auto simp: distinct_dict_append)

lemma distinct_group_by: "distinct (map fst (group_by key xs))"
  by (simp add: group_by_def fold_dict_append_distinct)

lemma dict_get_group_by:
  "dict_get (group_by key xs) k [] = filter (\<lambda>x. key x = k) xs"
  by (auto simp: dict_get_def map_of_group_by filter_empty_conv)

lemma group_by_member:
  "(k, vs) \<in> set (group_by key xs) \<longleftrightarrow>
     (\<exists>x \<in> set xs. key x = k) \<and> vs = filter (\<lambda>x. key x = k) xs"
proof -
  have "(k, vs) \<in> set (group_by key xs) \<longleftrightarrow> map_of (group_by key xs) k = Some vs"
    by (simp add: distinct_group_by)
  then show ?thesis by (auto simp: map_of_group_by)
qed

lemma group_by_Bex:
  "(\<exists>(k, vs) \<in> set (group_by key xs). \<exists>x \<in> set vs. P vs x)
     \<longleftrightarrow> (\<exists>x \<in> set xs. P (filter (\<lambda>y. key y = key x) xs) x)"
proof
  assume "\<exists>(k, vs) \<in> set (group_by key xs). \<exists>x \<in> set vs. P vs x"
  then obtain k vs x where "(k, vs) \<in> set (group_by key xs)" "x \<in> set vs" "P vs x" by blast
  then show "\<exists>x \<in> set xs. P (filter (\<lambda>y. key y = key x) xs) x"
    by (intro bexI [of _ x]) (auto simp: group_by_member)
next
  assume "\<exists>x \<in> set xs. P (filter (\<lambda>y. key y = key x) xs) x"
  then obtain x where "x \<in> set xs" "P (filter (\<lambda>y. key y = key x) xs) x" by blast
  moreover from this have "(key x, filter (\<lambda>y. key y = key x) xs) \<in> set (group_by key xs)"
    by (auto simp: group_by_member)
  ultimately show "\<exists>(k, vs) \<in> set (group_by key xs). \<exists>x \<in> set vs. P vs x" by fastforce
qed

lemma update_fst_image: "fst ` set (AList.update k v d) = insert k (fst ` set d)"
proof -
  have "dom (map_of (AList.update k v d)) = insert k (dom (map_of d))" by (simp add: update_conv')
  then show ?thesis by (simp only: dom_map_of_conv_image_fst)
qed

lemma update_member:
  "(k', v') \<in> set (AList.update k v d) \<Longrightarrow> k' = k \<and> v' = v \<or> (k', v') \<in> set d" if "distinct (map fst d)"
  using that by (induction d) (auto split: if_splits)

section \<open>Sums over lists\<close>

text \<open>Summing over the values of a dictionary after one of them changed.\<close>

lemma sum_dict_update:
  assumes "distinct (map fst d)" and "f dflt = (0 :: int)"
  shows "(\<Sum>(_, v) \<leftarrow> AList.update k v d. f v) = (\<Sum>(_, v) \<leftarrow> d. f v) - f (dict_get d k dflt) + f v"
  using assms(1)
proof (induction d)
  case Nil
  then show ?case by (simp add: assms(2))
next
  case (Cons p d)
  obtain k' v' where p: "p = (k', v')" by (cases p)
  show ?case
  proof (cases "k' = k")
    case True
    then show ?thesis by (simp add: p dict_get_def)
  next
    case False
    then have "dict_get (p # d) k dflt = dict_get d k dflt" by (auto simp: p dict_get_def)
    then show ?thesis using Cons False by (simp add: p)
  qed
qed

lemma sum_list_filter_split:
  "(\<Sum>x \<leftarrow> xs. (f x :: int)) = (\<Sum>x \<leftarrow> filter P xs. f x) + (\<Sum>x \<leftarrow> filter (\<lambda>x. \<not> P x) xs. f x)"
  by (induction xs) auto

lemma sum_list_filter_if:
  "(\<Sum>x \<leftarrow> filter P xs. (f x :: int)) = (\<Sum>x \<leftarrow> xs. if P x then f x else 0)"
  by (induction xs) auto

lemma sum_list_nonneg_int:
  "(\<And>x. x \<in> set xs \<Longrightarrow> 0 \<le> (f x :: int)) \<Longrightarrow> 0 \<le> (\<Sum>x \<leftarrow> xs. f x)"
  by (induction xs) (auto intro: add_nonneg_nonneg)

text \<open>Regrouping a sum by a key whose values are listed without repetition.\<close>

lemma sum_list_pick:
  "distinct ks \<Longrightarrow>
     (\<Sum>k \<leftarrow> ks. if a = k then (c :: int) else 0) = (if a \<in> set ks then c else 0)"
  by (induction ks) auto

lemma sum_list_regroup:
  assumes "distinct ks" and "\<And>x. x \<in> set xs \<Longrightarrow> key x \<in> set ks"
  shows "(\<Sum>k \<leftarrow> ks. \<Sum>x \<leftarrow> filter (\<lambda>x. key x = k) xs. (f x :: int)) = (\<Sum>x \<leftarrow> xs. f x)"
  using assms(2)
proof (induction xs)
  case Nil
  show ?case by simp
next
  case (Cons y ys)
  have "(\<Sum>k \<leftarrow> ks. \<Sum>x \<leftarrow> filter (\<lambda>x. key x = k) (y # ys). f x)
      = (\<Sum>k \<leftarrow> ks. (if key y = k then f y else 0) + (\<Sum>x \<leftarrow> filter (\<lambda>x. key x = k) ys. f x))"
    by (rule arg_cong [where f = sum_list], rule map_cong) auto
  also have "\<dots> = (\<Sum>k \<leftarrow> ks. if key y = k then f y else 0) + (\<Sum>x \<leftarrow> ys. f x)"
    using Cons by (simp add: sum_list_addf)
  also have "(\<Sum>k \<leftarrow> ks. if key y = k then f y else 0) = f y"
    using assms(1) Cons.prems [of y] by (simp add: sum_list_pick)
  finally show ?case by simp
qed

lemma distinct_map_neq: "distinct (map f (x # xs)) \<Longrightarrow> y \<in> set xs \<Longrightarrow> f y \<noteq> f x"
  by (auto simp: image_iff)

lemma sum_list_split_plus:
  "(\<And>x. x \<in> set xs \<Longrightarrow> (f x :: int) = g x + h x) \<Longrightarrow>
     (\<Sum>x \<leftarrow> xs. f x) = (\<Sum>x \<leftarrow> xs. g x) + (\<Sum>x \<leftarrow> xs. h x)"
  by (induction xs) auto

lemma sum_list_split_minus:
  "(\<And>x. x \<in> set xs \<Longrightarrow> (f x :: int) = g x - h x) \<Longrightarrow>
     (\<Sum>x \<leftarrow> xs. f x) = (\<Sum>x \<leftarrow> xs. g x) - (\<Sum>x \<leftarrow> xs. h x)"
  by (induction xs) auto

text \<open>Summing items over the owner each of them names.\<close>

lemma sum_list_own_pick:
  "distinct (map name obs) \<Longrightarrow> ob \<in> set obs \<Longrightarrow>
     (\<Sum>ob' \<leftarrow> obs. if P ob' \<and> name ob = name ob' then (c :: int) else 0) = (if P ob then c else 0)"
proof (induction obs)
  case (Cons ob' obs)
  show ?case
  proof (cases "ob = ob'")
    case True
    have "map (\<lambda>o'. if P o' \<and> name ob = name o' then c else 0) obs = map (\<lambda>_. 0) obs"
      using True distinct_map_neq [OF Cons.prems(1)] by (intro map_cong) (auto dest: sym)
    then have "(\<Sum>o' \<leftarrow> obs. if P o' \<and> name ob = name o' then c else 0) = 0"
      by (simp only: sum_list_0)
    with True show ?thesis by simp
  next
    case False
    with Cons.prems have "ob \<in> set obs" "name ob \<noteq> name ob'" by (auto simp: image_iff)
    with Cons.IH Cons.prems(1) show ?thesis by simp
  qed
qed simp

lemma sum_list_by_owner:
  assumes "distinct (map name obs)"
    and "\<And>x. x \<in> set xs \<Longrightarrow> own x \<in> set obs \<and> name (own x) = key x"
  shows "(\<Sum>ob \<leftarrow> obs. if P ob then (\<Sum>x \<leftarrow> filter (\<lambda>x. key x = name ob) xs. (f x :: int)) else 0)
    = (\<Sum>x \<leftarrow> xs. if P (own x) then f x else 0)"
  using assms(2)
proof (induction xs)
  case (Cons x xs)
  have "(\<Sum>ob \<leftarrow> obs. if P ob then (\<Sum>y \<leftarrow> filter (\<lambda>y. key y = name ob) (x # xs). f y) else 0)
    = (\<Sum>ob \<leftarrow> obs. (if P ob \<and> key x = name ob then f x else 0)
        + (if P ob then (\<Sum>y \<leftarrow> filter (\<lambda>y. key y = name ob) xs. f y) else 0))"
    by (rule arg_cong [where f = sum_list], rule map_cong) auto
  also have "\<dots> = (\<Sum>ob \<leftarrow> obs. if P ob \<and> name (own x) = name ob then f x else 0)
    + (\<Sum>y \<leftarrow> xs. if P (own y) then f y else 0)"
    using Cons by (simp add: sum_list_addf)
  also have "\<dots> = (if P (own x) then f x else 0) + (\<Sum>y \<leftarrow> xs. if P (own y) then f y else 0)"
    using Cons.prems sum_list_own_pick [OF assms(1), of "own x" P "f x"] by simp
  finally show ?case by simp
qed (simp cong: if_cong)

lemma sum_list_sort_key:
  "(\<Sum>x \<leftarrow> sort_key g xs. (f x :: int)) = (\<Sum>x \<leftarrow> xs. f x)"
proof -
  have "mset (map f (sort_key g xs)) = mset (map f xs)" by simp
  then have "sum_mset (mset (map f (sort_key g xs))) = sum_mset (mset (map f xs))" by simp
  then show ?thesis by (simp only: sum_mset_sum_list)
qed

lemma sum_list_filter_sort:
  "(\<Sum>x \<leftarrow> filter P (sort_key g xs). (f x :: int)) = (\<Sum>x \<leftarrow> filter P xs. f x)"
  by (simp only: sum_list_filter_if sum_list_sort_key)

lemma sorted_first_key:
  fixes f :: "'a \<Rightarrow> int" and g :: "'a \<Rightarrow> int"
  shows "sorted (map f (sort_key (\<lambda>x. (f x, g x)) xs))"
proof -
  have "sorted (map (\<lambda>x. (f x, g x)) (sort_key (\<lambda>x. (f x, g x)) xs))" by simp
  then show ?thesis
    unfolding sorted_map by (rule sorted_wrt_mono_rel [rotated]) auto
qed


lemma distinct_map_sort_key [simp]:
  "distinct (map f (sort_key g xs)) \<longleftrightarrow> distinct (map f xs)"
proof -
  have "mset (map f (sort_key g xs)) = mset (map f xs)" by simp
  then show ?thesis by (rule mset_eq_imp_distinct_iff)
qed

section \<open>Decimal rendering of numbers\<close>

fun nat_str :: "nat \<Rightarrow> string" where
  "nat_str n = (if n < 10 then [char_of (48 + n)] else nat_str (n div 10) @ [char_of (48 + n mod 10)])"

declare nat_str.simps [simp del]

definition int_str :: "int \<Rightarrow> string" where
  "int_str i = (if i < 0 then ''-'' @ nat_str (nat (- i)) else nat_str (nat i))"

section \<open>Python's truth value of strings and optional numbers\<close>

definition py_isspace :: "char \<Rightarrow> bool" where
  "py_isspace c = (let n = of_char c :: nat in
     (9 \<le> n \<and> n \<le> 13) \<or> (28 \<le> n \<and> n \<le> 32) \<or> n = 133 \<or> n = 160)"

definition py_blank :: "string \<Rightarrow> bool" where
  "py_blank s = list_all py_isspace s"

text \<open>\<open>int(x or 0)\<close> of a field that may be absent.\<close>

definition int_or_0 :: "int option \<Rightarrow> int" where
  "int_or_0 v = (case v of None \<Rightarrow> 0 | Some n \<Rightarrow> n)"

text \<open>\<open>str(x or "")\<close> of a field that may be absent.\<close>

definition str_or_empty :: "string option \<Rightarrow> string" where
  "str_or_empty v = (case v of None \<Rightarrow> '''' | Some s \<Rightarrow> s)"

text \<open>\<open>str(x)\<close> of a field that may be \<open>None\<close>.\<close>

definition str_of_opt :: "string option \<Rightarrow> string" where
  "str_of_opt v = (case v of None \<Rightarrow> ''None'' | Some s \<Rightarrow> s)"

text \<open>\<open>a or b\<close> on optional strings: an absent or empty left side gives the right one.\<close>

definition py_or :: "string option \<Rightarrow> string option \<Rightarrow> string option" where
  "py_or a b = (case a of None \<Rightarrow> b | Some s \<Rightarrow> if s = '''' then b else a)"

lemma opt_field_simps [simp]:
  "int_or_0 None = 0" "int_or_0 (Some n) = n"
  "str_or_empty None = ''''" "str_or_empty (Some s) = s"
  by (simp_all add: int_or_0_def str_or_empty_def)

definition py_lstrip :: "string \<Rightarrow> string" where
  "py_lstrip s = dropWhile py_isspace s"

definition py_strip :: "string \<Rightarrow> string" where
  "py_strip s = rev (py_lstrip (rev (py_lstrip s)))"

text \<open>\<open>str.lower\<close> on code points below 256.\<close>

definition py_lower_char :: "char \<Rightarrow> char" where
  "py_lower_char c = (let n = of_char c :: nat in
     if (65 \<le> n \<and> n \<le> 90) \<or> (192 \<le> n \<and> n \<le> 222 \<and> n \<noteq> 215) then char_of (n + 32) else c)"

definition py_lower :: "string \<Rightarrow> string" where
  "py_lower s = map py_lower_char s"

text \<open>\<open>str.upper\<close>, on code points below 256; the capitals of \<open>U+00B5\<close> and \<open>U+00FF\<close> are not among
  them, and these two characters are left as they are.\<close>

definition py_upper_char :: "char \<Rightarrow> string" where
  "py_upper_char c = (let n = of_char c :: nat in
     if n = 223 then ''SS''
     else if (97 \<le> n \<and> n \<le> 122) \<or> (224 \<le> n \<and> n \<le> 254 \<and> n \<noteq> 247) then [char_of (n - 32)] else [c])"

definition py_upper :: "string \<Rightarrow> string" where
  "py_upper s = concat (map py_upper_char s)"

text \<open>\<open>sep.join(xs)\<close>\<close>

fun join_with :: "string \<Rightarrow> string list \<Rightarrow> string" where
  "join_with sep [] = ''''"
| "join_with sep [x] = x"
| "join_with sep (x # y # ys) = x @ sep @ join_with sep (y # ys)"

text \<open>A name between single quotation marks.\<close>

definition quoted :: "string \<Rightarrow> string" where
  "quoted s = [CHR 0x27] @ s @ [CHR 0x27]"

text \<open>Whether \<open>int(s, 16)\<close> returns: optional surrounding whitespace and sign, an
  optional \<open>0x\<close> prefix, hexadecimal digits with single underscores between them.\<close>

definition is_hex_digit :: "char \<Rightarrow> bool" where
  "is_hex_digit c = (let n = of_char c :: nat in
     (48 \<le> n \<and> n \<le> 57) \<or> (65 \<le> n \<and> n \<le> 70) \<or> (97 \<le> n \<and> n \<le> 102))"

fun hex_body :: "string \<Rightarrow> bool" and hex_tail :: "string \<Rightarrow> bool" where
  "hex_body [] = False"
| "hex_body (c # cs) = (is_hex_digit c \<and> hex_tail cs)"
| "hex_tail [] = True"
| "hex_tail (c # cs) = (if c = CHR ''_'' then hex_body cs else is_hex_digit c \<and> hex_tail cs)"

definition py_int16_ok :: "string \<Rightarrow> bool" where
  "py_int16_ok s =
     (let t = py_strip s;
          u = (case t of [] \<Rightarrow> [] | c # cs \<Rightarrow> if c = CHR ''+'' \<or> c = CHR ''-'' then cs else t);
          prefixed = (take 2 u = ''0x'' \<or> take 2 u = ''0X'');
          v = (if prefixed then drop 2 u else u)
      in if prefixed \<and> v \<noteq> [] \<and> hd v = CHR ''_'' then hex_body (tl v) else hex_body v)"

end
