(* ===== verification/Evidence.thy ===== *)
theory Evidence
  imports Prelude
begin

text \<open>
  Canonical observations of custody evidence (\<open>kassiber/core/custody_evidence.py\<close>):
  the arithmetic that turns an imported boundary row into principal, fee and wallet
  movement, the canonical event key, the quantity observation with the checks of its
  \<open>_validate\<close>, and the physical exposure domain a quantity claim may conserve
  (\<open>QuantityDomain\<close> of \<open>kassiber/core/custody_quantity.py\<close>). The hashes of an
  observation are computed from a JSON rendering elsewhere; here they are data that
  \<open>_validate\<close> checks.
\<close>

section \<open>Boundary amounts\<close>

record boundary_amounts =
  ba_direction :: string
  ba_observed_amount_msat :: int
  ba_principal_msat :: int
  ba_fee_msat :: int
  ba_wallet_movement_msat :: int
  ba_wallet_delta_msat :: int

definition normalize_boundary_amounts ::
  "string option \<Rightarrow> int option \<Rightarrow> int option \<Rightarrow> bool \<Rightarrow> boundary_amounts" where
  "normalize_boundary_amounts direction amount_msat fee_msat amount_includes_fee =
     (let normalized_direction = py_lower (py_strip (str_or_empty direction));
          observed = int_or_0 amount_msat;
          fee = int_or_0 fee_msat;
          principal = (if normalized_direction = ''outbound'' \<and> amount_includes_fee
                       then observed - fee else observed);
          wallet_movement = (if normalized_direction = ''outbound''
                             then principal + fee else observed);
          wallet_delta = (if normalized_direction = ''outbound''
                          then - wallet_movement else wallet_movement)
      in \<lparr>ba_direction = normalized_direction,
          ba_observed_amount_msat = observed,
          ba_principal_msat = principal,
          ba_fee_msat = fee,
          ba_wallet_movement_msat = wallet_movement,
          ba_wallet_delta_msat = wallet_delta\<rparr>)"

section \<open>Event keys and observations\<close>

record canonical_event_key =
  ek_chain :: string
  ek_network :: string
  ek_native_namespace :: string
  ek_native_event_id :: string

definition make_event_key :: "string \<Rightarrow> string \<Rightarrow> string \<Rightarrow> string \<Rightarrow> canonical_event_key result" where
  "make_event_key chain network namespace event_id =
     (if chain = '''' \<or> network = '''' \<or> namespace = '''' \<or> event_id = '''' then
        Inl (ValueError ''canonical events require chain, network, namespace, and id'')
      else Inr \<lparr>ek_chain = chain, ek_network = network,
                ek_native_namespace = namespace, ek_native_event_id = event_id\<rparr>)"

record quantity_observation =
  transaction_id :: string
  anchor_transaction_id :: string
  quantity_hash :: string
  evidence_detail_hash :: string
  evidence_payload_json :: string
  event_key :: canonical_event_key
  profile_id :: string
  authoritative_chain_observation :: bool
  observation_authority_reason :: string
  fee_attribution :: string
  wallet_id :: string
  asset :: string
  direction :: string
  amount_msat :: int
  fee_msat :: int
  amount_includes_fee :: bool
  occurred_at :: string

definition hash_well_formed :: "string \<Rightarrow> bool" where
  "hash_well_formed value \<longleftrightarrow>
     length value = 64 \<and> value = py_lower value \<and> py_int16_ok value"

definition validate_observation :: "quantity_observation \<Rightarrow> unit result" where
  "validate_observation ob =
     (if transaction_id ob = '''' \<or> anchor_transaction_id ob = '''' \<or> wallet_id ob = '''' then
        Inl (ValueError ''quantity observations require transaction, anchor, and wallet ids'')
      else if \<not> hash_well_formed (quantity_hash ob) then
        Inl (ValueError ''quantity observation quantity_hash must be lowercase SHA-256'')
      else if \<not> hash_well_formed (evidence_detail_hash ob) then
        Inl (ValueError ''quantity observation evidence_detail_hash must be lowercase SHA-256'')
      else if direction ob \<noteq> ''inbound'' \<and> direction ob \<noteq> ''outbound'' then
        Inl (ValueError ''quantity observation direction must be inbound or outbound'')
      else if asset ob = '''' then
        Inl (ValueError ''quantity observations require an asset'')
      else if amount_msat ob < 0 then
        Inl (ValueError ''quantity observation amount_msat must be non-negative'')
      else if fee_msat ob < 0 then
        Inl (ValueError ''quantity observation fee_msat must be non-negative'')
      else if direction ob = ''inbound'' \<and> amount_includes_fee ob then
        Inl (ValueError ''inbound quantity cannot use amount_includes_fee'')
      else if amount_msat ob = 0 \<and> \<not> (direction ob = ''outbound'' \<and> fee_msat ob > 0) then
        Inl (ValueError ''zero quantity is valid only for a fee-only outbound'')
      else if amount_includes_fee ob \<and> fee_msat ob > amount_msat ob then
        Inl (ValueError ''an included fee cannot exceed the observed amount'')
      else Inr ())"

definition observation_boundary_amounts :: "quantity_observation \<Rightarrow> boundary_amounts" where
  "observation_boundary_amounts ob =
     normalize_boundary_amounts (Some (direction ob)) (Some (amount_msat ob))
       (Some (fee_msat ob)) (amount_includes_fee ob)"

definition principal_msat :: "quantity_observation \<Rightarrow> int" where
  "principal_msat ob = ba_principal_msat (observation_boundary_amounts ob)"

definition wallet_delta_msat :: "quantity_observation \<Rightarrow> int" where
  "wallet_delta_msat ob = ba_wallet_delta_msat (observation_boundary_amounts ob)"

section \<open>Exposure domains\<close>

record quantity_domain =
  qd_network :: string
  qd_exposure :: string
  qd_unit :: string
  qd_rail :: string

definition domain_network :: "string \<Rightarrow> string" where
  "domain_network network =
     (if network = ''liquidv1'' then ''main''
      else if network = ''liquidtestnet'' then ''test''
      else if network = ''elementsregtest'' then ''regtest''
      else network)"

definition domain_from_observation :: "quantity_observation \<Rightarrow> quantity_domain" where
  "domain_from_observation ob =
     \<lparr>qd_network = domain_network (ek_network (event_key ob)),
      qd_exposure = (if asset ob = ''BTC'' \<or> asset ob = ''LBTC'' then ''bitcoin''
                     else ''asset:'' @ asset ob),
      qd_unit = ''msat'',
      qd_rail = ek_chain (event_key ob)\<rparr>"

type_synonym domain_key = "string \<times> string \<times> string"

definition domain_key :: "quantity_domain \<Rightarrow> domain_key" where
  "domain_key d = (qd_network d, qd_exposure d, qd_unit d)"

definition compatible_with :: "quantity_domain \<Rightarrow> quantity_domain \<Rightarrow> bool \<Rightarrow> bool" where
  "compatible_with d other allow_cross_rail =
     (if domain_key d \<noteq> domain_key other then False
      else qd_rail d = qd_rail other \<or> allow_cross_rail)"

section \<open>Facts about valid observations\<close>

abbreviation valid_observation :: "quantity_observation \<Rightarrow> bool" where
  "valid_observation ob \<equiv> validate_observation ob = Inr ()"

lemma lower_strip_direction [simp]:
  "py_lower (py_strip ''outbound'') = ''outbound''"
  "py_lower (py_strip ''inbound'') = ''inbound''"
  by (simp_all add: py_lower_def py_strip_def py_lstrip_def py_isspace_def py_lower_char_def Let_def)

lemma valid_observation_direction:
  "valid_observation ob \<Longrightarrow> direction ob = ''inbound'' \<or> direction ob = ''outbound''"
  by (auto simp: validate_observation_def split: if_splits)

lemma valid_observation_hash:
  "valid_observation ob \<Longrightarrow> quantity_hash ob \<noteq> ''''"
  by (auto simp: validate_observation_def hash_well_formed_def split: if_splits)

lemma principal_outbound:
  "direction ob = ''outbound'' \<Longrightarrow>
     principal_msat ob = (if amount_includes_fee ob then amount_msat ob - fee_msat ob else amount_msat ob)"
  by (simp add: principal_msat_def observation_boundary_amounts_def normalize_boundary_amounts_def Let_def)

lemma principal_inbound:
  "direction ob = ''inbound'' \<Longrightarrow> principal_msat ob = amount_msat ob"
  by (simp add: principal_msat_def observation_boundary_amounts_def normalize_boundary_amounts_def Let_def)

lemma wallet_delta_outbound:
  "direction ob = ''outbound'' \<Longrightarrow> wallet_delta_msat ob = - (principal_msat ob + fee_msat ob)"
  by (simp add: wallet_delta_msat_def principal_msat_def observation_boundary_amounts_def
      normalize_boundary_amounts_def Let_def)

lemma wallet_delta_inbound:
  "direction ob = ''inbound'' \<Longrightarrow> wallet_delta_msat ob = principal_msat ob"
  by (simp add: wallet_delta_msat_def principal_msat_def observation_boundary_amounts_def
      normalize_boundary_amounts_def Let_def)

lemma valid_observation_principal:
  "valid_observation ob \<Longrightarrow> 0 \<le> principal_msat ob \<and> 0 \<le> fee_msat ob"
  using valid_observation_direction [of ob]
  by (auto simp: validate_observation_def principal_outbound principal_inbound split: if_splits)

lemma compatible_domain_key:
  "compatible_with d d' x \<Longrightarrow> domain_key d = domain_key d'"
  by (auto simp: compatible_with_def split: if_splits)

text \<open>
  An accepted observation is arithmetically sound. Principal and fee are
  non-negative, an outbound row debits its wallet by exactly principal plus fee whichever
  of the two import conventions stored it, an inbound row credits exactly its principal,
  and only a fee-only outbound can have principal zero with nothing else moved.
\<close>

theorem observation_amounts:
  assumes "valid_observation ob"
  shows "0 \<le> principal_msat ob \<and> 0 \<le> fee_msat ob
    \<and> (if direction ob = ''outbound''
       then wallet_delta_msat ob = - (principal_msat ob + fee_msat ob) \<and> wallet_delta_msat ob < 0
       else direction ob = ''inbound'' \<and> wallet_delta_msat ob = principal_msat ob
            \<and> 0 < principal_msat ob)"
  using assms valid_observation_direction [OF assms] valid_observation_principal [OF assms]
  by (auto simp: wallet_delta_outbound wallet_delta_inbound principal_outbound principal_inbound
      validate_observation_def split: if_splits)

text \<open>A concrete Bitcoin observation, used by the examples of this development.\<close>

definition sample_observation :: "char \<Rightarrow> string \<Rightarrow> int \<Rightarrow> int \<Rightarrow> quantity_observation" where
  "sample_observation c dir amount fee =
     \<lparr>transaction_id = ''tx-'' @ [c], anchor_transaction_id = ''tx-'' @ [c],
      quantity_hash = replicate 64 c, evidence_detail_hash = replicate 64 c,
      evidence_payload_json = ''{}'',
      event_key = \<lparr>ek_chain = ''bitcoin'', ek_network = ''main'',
                   ek_native_namespace = ''chain'', ek_native_event_id = ''e-'' @ [c]\<rparr>,
      profile_id = ''p'', authoritative_chain_observation = False,
      observation_authority_reason = ''provenance_missing'', fee_attribution = ''unknown'',
      wallet_id = ''w-'' @ [c], asset = ''BTC'', direction = dir,
      amount_msat = amount, fee_msat = fee, amount_includes_fee = False,
      occurred_at = ''2024-01-01''\<rparr>"

lemma sample_hash_ok:
  "hash_well_formed (replicate 64 (CHR ''a''))" "hash_well_formed (replicate 64 (CHR ''b''))"
  "hash_well_formed (replicate 64 (CHR ''c''))" "hash_well_formed (replicate 64 (CHR ''d''))"
  by code_simp+

end
