(* ===== verification/Quantity.thy ===== *)
theory Quantity
  imports Evidence
begin

text \<open>
  The data of custody-quantity arbitration (\<open>kassiber/core/custody_quantity.py\<close>, first
  half): claim states and priorities, half-open msat slices, claims with the checks of
  \<open>QuantityClaim.__post_init__\<close>, arbitrated slices, postings and projections. A
  dataclass whose \<open>__post_init__\<close> may raise is a record together with a constructor
  into the result type; a record value is the object only after that constructor accepted
  it.
\<close>

section \<open>States and priorities\<close>

abbreviation INTERNAL_VERIFIED :: string where "INTERNAL_VERIFIED \<equiv> ''internal_verified''"
abbreviation INTERNAL_REVIEWED :: string where "INTERNAL_REVIEWED \<equiv> ''internal_reviewed''"
abbreviation EXTERNAL_CONFIRMED :: string where "EXTERNAL_CONFIRMED \<equiv> ''external_confirmed''"
abbreviation EXTERNAL_PRESUMED :: string where "EXTERNAL_PRESUMED \<equiv> ''external_presumed''"
abbreviation CUSTODY_SUSPENSE :: string where "CUSTODY_SUSPENSE \<equiv> ''custody_suspense''"
abbreviation CONFLICTING :: string where "CONFLICTING \<equiv> ''conflicting''"

definition claim_states :: "string list" where
  "claim_states = [INTERNAL_VERIFIED, INTERNAL_REVIEWED, EXTERNAL_CONFIRMED, CUSTODY_SUSPENSE]"

definition external_economic_subtypes :: "string list" where
  "external_economic_subtypes = [''payment'', ''disposal'', ''gift'', ''lost'']"

definition target_states :: "string list" where
  "target_states = [INTERNAL_VERIFIED, INTERNAL_REVIEWED]"

definition finalized_states :: "string list" where
  "finalized_states = [INTERNAL_VERIFIED, INTERNAL_REVIEWED, EXTERNAL_CONFIRMED, EXTERNAL_PRESUMED]"

datatype claim_priority = REVIEWED_COMPONENT | EXACT_NATIVE_EVENT | ACCOUNTING_CONVENTION

fun priority_value :: "claim_priority \<Rightarrow> nat" where
  "priority_value REVIEWED_COMPONENT = 10"
| "priority_value EXACT_NATIVE_EVENT = 20"
| "priority_value ACCOUNTING_CONVENTION = 40"

fun priority_name :: "claim_priority \<Rightarrow> string" where
  "priority_name REVIEWED_COMPONENT = ''reviewed_component''"
| "priority_name EXACT_NATIVE_EVENT = ''exact_native_event''"
| "priority_name ACCOUNTING_CONVENTION = ''accounting_convention''"

lemma priority_value_inject: "priority_value p = priority_value q \<longleftrightarrow> p = q"
  by (cases p; cases q) simp_all

instantiation claim_priority :: linorder
begin

definition less_eq_claim_priority :: "claim_priority \<Rightarrow> claim_priority \<Rightarrow> bool" where
  "less_eq_claim_priority p q = (priority_value p \<le> priority_value q)"

definition less_claim_priority :: "claim_priority \<Rightarrow> claim_priority \<Rightarrow> bool" where
  "less_claim_priority p q = (priority_value p < priority_value q)"

instance
  by standard
    (auto simp: less_eq_claim_priority_def less_claim_priority_def priority_value_inject)

end

definition state_priorities :: "string \<Rightarrow> claim_priority list" where
  "state_priorities state =
     (if state = INTERNAL_VERIFIED then [EXACT_NATIVE_EVENT]
      else if state = INTERNAL_REVIEWED then [REVIEWED_COMPONENT]
      else if state = EXTERNAL_CONFIRMED then [REVIEWED_COMPONENT, EXACT_NATIVE_EVENT]
      else if state = CUSTODY_SUSPENSE then
        [REVIEWED_COMPONENT, EXACT_NATIVE_EVENT, ACCOUNTING_CONVENTION]
      else [])"

section \<open>Slices\<close>

record quantity_slice =
  observation_hash :: string
  start_msat :: int
  end_msat :: int

definition make_slice :: "string \<Rightarrow> int \<Rightarrow> int \<Rightarrow> quantity_slice result" where
  "make_slice h s e =
     (if h = '''' then Inl (ValueError ''quantity slices require an observation hash'')
      else if s < 0 \<or> e \<le> s then
        Inl (ValueError ''quantity slices require a non-empty half-open msat range'')
      else Inr \<lparr>observation_hash = h, start_msat = s, end_msat = e\<rparr>)"

definition slice_amount :: "quantity_slice \<Rightarrow> int" where
  "slice_amount s = end_msat s - start_msat s"

definition valid_slice :: "quantity_slice \<Rightarrow> bool" where
  "valid_slice s \<longleftrightarrow> observation_hash s \<noteq> '''' \<and> 0 \<le> start_msat s \<and> start_msat s < end_msat s"

lemma make_slice_Inr [result_simps]:
  "make_slice h s e = Inr x \<longleftrightarrow>
     h \<noteq> '''' \<and> 0 \<le> s \<and> s < e \<and> x = \<lparr>observation_hash = h, start_msat = s, end_msat = e\<rparr>"
  by (auto simp: make_slice_def)

section \<open>Claims\<close>

record quantity_claim =
  claim_id :: string
  claim_source :: quantity_slice
  claim_state :: string
  claim_priority :: claim_priority
  claim_reason :: string
  claim_target :: "quantity_slice option"
  atomic_bundle_id :: "string option"
  destination_kind :: "string option"
  external_economic_subtype :: "string option"
  transfer_kind :: "string option"
  transfer_policy :: "string option"
  claim_component_id :: "string option"
  allow_cross_rail :: bool

definition targetless_reviewed_retained :: "quantity_claim \<Rightarrow> bool" where
  "targetless_reviewed_retained c \<longleftrightarrow>
     claim_state c = INTERNAL_REVIEWED \<and> claim_priority c = REVIEWED_COMPONENT
     \<and> claim_target c = None \<and> destination_kind c = Some ''retained_custody''"

text \<open>The checks of \<open>QuantityClaim.__post_init__\<close>, in order.\<close>

definition make_claim :: "quantity_claim \<Rightarrow> quantity_claim result" where
  "make_claim c =
     (if claim_id c = '''' \<or> claim_reason c = '''' then
        Inl (ValueError ''quantity claims require claim_id and reason'')
      else if claim_state c \<notin> set claim_states then
        Inl (ValueError (''unsupported quantity claim state: '' @ claim_state c))
      else if claim_priority c \<notin> set (state_priorities (claim_state c)) then
        Inl (ValueError (claim_state c @ '' cannot use '' @ priority_name (claim_priority c) @ '' priority''))
      else if claim_state c \<in> set target_states \<and> claim_target c = None
              \<and> \<not> targetless_reviewed_retained c then
        Inl (ValueError (claim_state c @ '' claims require an observed target slice''))
      else if claim_state c \<notin> set target_states \<and> claim_target c \<noteq> None then
        Inl (ValueError (claim_state c @ '' claims cannot consume a target slice''))
      else if (case claim_target c of None \<Rightarrow> False
               | Some t \<Rightarrow> slice_amount t \<noteq> slice_amount (claim_source c)) then
        Inl (ValueError ''source and target quantity slices must conserve exact msat'')
      else if (case atomic_bundle_id c of None \<Rightarrow> False | Some b \<Rightarrow> py_blank b) then
        Inl (ValueError ''atomic_bundle_id cannot be empty'')
      else if destination_kind c \<notin> {None, Some ''external'', Some ''fee'', Some ''retained_custody''} then
        Inl (ValueError ''quantity claim destination_kind is unsupported'')
      else if destination_kind c \<in> {Some ''external'', Some ''fee''}
              \<and> (claim_state c \<noteq> EXTERNAL_CONFIRMED \<or> claim_target c \<noteq> None) then
        Inl (ValueError ''only targetless external_confirmed claims may classify an external destination'')
      else if destination_kind c = Some ''retained_custody''
              \<and> \<not> (claim_state c = INTERNAL_REVIEWED \<and> claim_priority c = REVIEWED_COMPONENT
                   \<and> claim_target c = None) then
        Inl (ValueError ''retained_custody requires a targetless reviewed component claim'')
      else if (case external_economic_subtype c of None \<Rightarrow> False
               | Some t \<Rightarrow> t \<notin> set external_economic_subtypes) then
        Inl (ValueError ''quantity claim external economic subtype is unsupported'')
      else if external_economic_subtype c \<noteq> None
              \<and> \<not> (claim_state c = EXTERNAL_CONFIRMED \<and> claim_priority c = REVIEWED_COMPONENT
                   \<and> claim_target c = None \<and> destination_kind c = Some ''external'') then
        Inl (ValueError ''external economic subtype requires a reviewed external component claim'')
      else if allow_cross_rail c \<and> claim_target c = None then
        Inl (ValueError ''only target claims can bridge custody rails'')
      else Inr c)"

definition effective_bundle_id :: "quantity_claim \<Rightarrow> string option" where
  "effective_bundle_id c =
     (case atomic_bundle_id c of
        Some b \<Rightarrow> Some b
      | None \<Rightarrow> if claim_priority c = REVIEWED_COMPONENT then Some (''single:'' @ claim_id c)
                else None)"

text \<open>A claim object: its constructor accepted it and its slices are slice objects.\<close>

definition valid_claim :: "quantity_claim \<Rightarrow> bool" where
  "valid_claim c \<longleftrightarrow> make_claim c = Inr c \<and> valid_slice (claim_source c)
     \<and> (\<forall>t. claim_target c = Some t \<longrightarrow> valid_slice t)"

lemma make_claim_Inr: "make_claim c = Inr d \<Longrightarrow> d = c"
  by (auto simp: make_claim_def split: if_splits)

lemma valid_claim_id: "valid_claim c \<Longrightarrow> claim_id c \<noteq> ''''"
  by (auto simp: valid_claim_def make_claim_def split: if_splits)

lemma effective_bundle_nonempty:
  "valid_claim c \<Longrightarrow> effective_bundle_id c = Some b \<Longrightarrow> b \<noteq> ''''"
  by (auto simp: valid_claim_def make_claim_def effective_bundle_id_def py_blank_def
      split: if_splits option.splits)

lemma valid_claim_state: "valid_claim c \<Longrightarrow> claim_state c \<in> set claim_states"
  by (auto simp: valid_claim_def make_claim_def split: if_splits)

lemma valid_claim_target:
  "valid_claim c \<Longrightarrow> claim_target c = Some t \<Longrightarrow>
     slice_amount t = slice_amount (claim_source c) \<and> claim_state c \<in> set target_states"
  by (auto simp: valid_claim_def make_claim_def split: if_splits option.splits)

lemma valid_claim_no_target:
  "valid_claim c \<Longrightarrow> claim_target c = None \<Longrightarrow> claim_state c \<in> set target_states \<Longrightarrow>
     destination_kind c = Some ''retained_custody''"
  by (auto simp: valid_claim_def make_claim_def targetless_reviewed_retained_def split: if_splits)

section \<open>Decisions, postings, projections\<close>

record arbitrated_slice =
  dec_source :: quantity_slice
  dec_state :: string
  dec_reason :: string
  selected_claim_id :: "string option"
  dec_atomic_bundle_id :: "string option"
  dec_transfer_kind :: "string option"
  dec_transfer_policy :: "string option"
  dec_component_id :: "string option"
  dec_target :: "quantity_slice option"
  dec_destination_kind :: "string option"
  dec_external_economic_subtype :: "string option"
  contender_claim_ids :: "string list"

definition finalized :: "arbitrated_slice \<Rightarrow> bool" where
  "finalized d \<longleftrightarrow> dec_state d \<in> set finalized_states"

record quantity_posting =
  posting_id :: string
  posting_asset :: string
  location_kind :: string
  location_id :: string
  posting_amount_msat :: int
  posting_state :: string
  posting_observation_hash :: "string option"
  posting_domain :: "quantity_domain option"

record quantity_claim_error =
  err_bundle_id :: string
  err_reasons :: "string list"
  err_claim_ids :: "string list"
  err_source_hashes :: "string list"
  err_involved_hashes :: "string list"

record quantity_projection =
  proj_observations :: "quantity_observation list"
  proj_decisions :: "arbitrated_slice list"
  proj_postings :: "quantity_posting list"
  proj_claim_errors :: "quantity_claim_error list"

text \<open>\<open>QuantityProjection.totals_by_domain\<close>: one running total per domain key, in the
  order the keys are met.\<close>

definition totals_by_domain :: "quantity_posting list \<Rightarrow> (domain_key, int) dict" where
  "totals_by_domain postings =
     fold (\<lambda>p totals.
             case posting_domain p of
               None \<Rightarrow> totals
             | Some d \<Rightarrow> AList.update (domain_key d)
                          (dict_get totals (domain_key d) 0 + posting_amount_msat p) totals)
          postings []"

definition domain_total :: "domain_key \<Rightarrow> quantity_posting list \<Rightarrow> int" where
  "domain_total k postings =
     (\<Sum>p \<leftarrow> postings. if map_option domain_key (posting_domain p) = Some k
                      then posting_amount_msat p else 0)"

lemma domain_total_simps [simp]:
  "domain_total k [] = 0"
  "domain_total k (p # ps) =
     (if map_option domain_key (posting_domain p) = Some k then posting_amount_msat p else 0)
     + domain_total k ps"
  "domain_total k (ps @ qs) = domain_total k ps + domain_total k qs"
  by (simp_all add: domain_total_def)

lemma totals_fold_get:
  "dict_get (fold (\<lambda>p totals.
             case posting_domain p of
               None \<Rightarrow> totals
             | Some d \<Rightarrow> AList.update (domain_key d)
                          (dict_get totals (domain_key d) 0 + posting_amount_msat p) totals)
          postings t) k 0 = dict_get t k 0 + domain_total k postings"
proof (induction postings arbitrary: t)
  case Nil
  then show ?case by simp
next
  case (Cons p ps)
  then show ?case by (cases "posting_domain p") (auto simp: dict_get_update)
qed

lemma totals_by_domain_get: "dict_get (totals_by_domain postings) k 0 = domain_total k postings"
  using totals_fold_get [of postings "[]" k] by (simp add: totals_by_domain_def)

lemma totals_fold_distinct:
  "distinct (map fst t) \<Longrightarrow> distinct (map fst (fold (\<lambda>p totals.
             case posting_domain p of
               None \<Rightarrow> totals
             | Some d \<Rightarrow> AList.update (domain_key d)
                          (dict_get totals (domain_key d) 0 + posting_amount_msat p) totals)
          postings t))"
  by (induction postings arbitrary: t) (auto simp: distinct_update split: option.splits)

lemma totals_by_domain_entry:
  assumes "(k, v) \<in> set (totals_by_domain postings)"
  shows "v = domain_total k postings"
proof -
  have "distinct (map fst (totals_by_domain postings))"
    by (simp add: totals_by_domain_def totals_fold_distinct)
  with assms have "map_of (totals_by_domain postings) k = Some v" by simp
  then show ?thesis using totals_by_domain_get [of postings k] by (simp add: dict_get_def)
qed

end
