(* ===== verification/Arbitration.thy ===== *)
theory Arbitration
  imports Quantity
begin

text \<open>
  Arbitration of quantity claims (\<open>kassiber/core/custody_quantity.py\<close>): validation of
  observations and claim bundles (\<open>_validated_inputs\<close>) and the choice of one
  interpretation for every elementary segment of an outbound observation
  (\<open>_source_decisions\<close>). Sets of strings that the source only sorts or iterates are
  lists without repetition. Every constructor call that could raise is kept in the result
  type; the last section proves which of them can.
\<close>

section \<open>Validated inputs\<close>

type_synonym observation_index = "(string, quantity_observation) dict"

fun index_observations ::
  "quantity_observation list \<Rightarrow> observation_index \<Rightarrow> observation_index result" where
  "index_observations [] by_hash = Inr by_hash"
| "index_observations (ob # obs) by_hash =
     bind_res (validate_observation ob) (\<lambda>_.
       if map_of by_hash (quantity_hash ob) \<noteq> None then
         Inl (ValueError (''duplicate quantity observation hash: '' @ quantity_hash ob))
       else index_observations obs (AList.update (quantity_hash ob) ob by_hash))"

definition claim_order :: "quantity_claim \<Rightarrow> claim_priority \<times> string" where
  "claim_order c = (claim_priority c, claim_id c)"

definition bundle_key :: "quantity_claim \<Rightarrow> string" where
  "bundle_key c = (case effective_bundle_id c of
     Some b \<Rightarrow> if b = '''' then ''claim:'' @ claim_id c else b
   | None \<Rightarrow> ''claim:'' @ claim_id c)"

definition claim_source_reasons :: "observation_index \<Rightarrow> quantity_claim \<Rightarrow> string list" where
  "claim_source_reasons by_hash c =
     (case map_of by_hash (observation_hash (claim_source c)) of
        None \<Rightarrow> [''claim_source_invalid'']
      | Some source \<Rightarrow>
          if direction source \<noteq> ''outbound'' then [''claim_source_invalid'']
          else if principal_msat source < end_msat (claim_source c)
          then [''claim_source_exceeds_principal''] else [])"

definition claim_target_reasons :: "observation_index \<Rightarrow> quantity_claim \<Rightarrow> string list" where
  "claim_target_reasons by_hash c =
     (case claim_target c of
        None \<Rightarrow> []
      | Some t \<Rightarrow>
          (case map_of by_hash (observation_hash t) of
             None \<Rightarrow> [''claim_target_invalid'']
           | Some target \<Rightarrow>
               if direction target \<noteq> ''inbound'' then [''claim_target_invalid'']
               else
                 (if principal_msat target < end_msat t
                  then [''claim_target_exceeds_principal''] else [])
                 @ (case map_of by_hash (observation_hash (claim_source c)) of
                      None \<Rightarrow> []
                    | Some source \<Rightarrow>
                        if direction source = ''outbound''
                           \<and> \<not> compatible_with (domain_from_observation source)
                                 (domain_from_observation target) (allow_cross_rail c)
                        then [''claim_domain_incompatible''] else [])))"

definition bundle_reasons ::
  "observation_index \<Rightarrow> quantity_claim list \<Rightarrow> quantity_claim list \<Rightarrow> string list" where
  "bundle_reasons by_hash normalized_claims members =
     (if length (remdups (map claim_priority members)) \<noteq> 1
      then [''atomic_bundle_priority_mismatch''] else [])
     @ (if \<exists>c \<in> set members. 1 < count_list (map claim_id normalized_claims) (claim_id c)
        then [''duplicate_claim_id''] else [])
     @ concat (map (\<lambda>c. claim_source_reasons by_hash c @ claim_target_reasons by_hash c) members)"

definition claim_source_hashes :: "observation_index \<Rightarrow> quantity_claim \<Rightarrow> string list" where
  "claim_source_hashes by_hash c =
     (case map_of by_hash (observation_hash (claim_source c)) of
        None \<Rightarrow> []
      | Some source \<Rightarrow> if direction source = ''outbound'' then [quantity_hash source] else [])"

definition bundle_source_hashes :: "observation_index \<Rightarrow> quantity_claim list \<Rightarrow> string list" where
  "bundle_source_hashes by_hash members =
     remdups (concat (map (claim_source_hashes by_hash) members))"

definition claim_error ::
  "observation_index \<Rightarrow> quantity_claim list \<Rightarrow> string \<Rightarrow> quantity_claim list \<Rightarrow> quantity_claim_error" where
  "claim_error by_hash normalized_claims bundle_id members =
     \<lparr>err_bundle_id = bundle_id,
      err_reasons = sort (remdups (bundle_reasons by_hash normalized_claims members)),
      err_claim_ids = sort (remdups (map claim_id members)),
      err_source_hashes = sort (bundle_source_hashes by_hash members),
      err_involved_hashes = sort (remdups
        (map (\<lambda>c. observation_hash (claim_source c)) members
         @ concat (map (\<lambda>c. case claim_target c of None \<Rightarrow> [] | Some t \<Rightarrow> [observation_hash t])
                       members)))\<rparr>"

definition suspense_priority :: "quantity_claim list \<Rightarrow> claim_priority" where
  "suspense_priority members =
     (let eligible = filter (\<lambda>p. p \<in> set (state_priorities CUSTODY_SUSPENSE))
                            (map claim_priority members)
      in if eligible = [] then ACCOUNTING_CONVENTION else Min (set eligible))"

definition note_invalid_source ::
  "claim_priority \<Rightarrow> string \<Rightarrow> (string, claim_priority) dict \<Rightarrow> (string, claim_priority) dict" where
  "note_invalid_source priority h d =
     (case map_of d h of
        None \<Rightarrow> AList.update h priority d
      | Some prior \<Rightarrow> if priority < prior then AList.update h priority d else d)"

type_synonym bundle_state =
  "quantity_claim list \<times> quantity_claim_error list \<times> (string, claim_priority) dict"

definition validate_bundle ::
  "observation_index \<Rightarrow> quantity_claim list \<Rightarrow> string \<times> quantity_claim list \<Rightarrow> bundle_state \<Rightarrow> bundle_state" where
  "validate_bundle by_hash normalized_claims = (\<lambda>(bundle_id, members) (valid, errors, invalid).
     if bundle_reasons by_hash normalized_claims members = [] then (valid @ members, errors, invalid)
     else (valid,
           errors @ [claim_error by_hash normalized_claims bundle_id members],
           fold (note_invalid_source (suspense_priority members))
                (bundle_source_hashes by_hash members) invalid))"

definition malformed_claim ::
  "observation_index \<Rightarrow> string \<times> claim_priority \<Rightarrow> quantity_claim result" where
  "malformed_claim by_hash = (\<lambda>(source_hash, priority).
     case map_of by_hash source_hash of
       None \<Rightarrow> Inl (KeyError source_hash)
     | Some source \<Rightarrow>
         bind_res (make_slice source_hash 0 (principal_msat source)) (\<lambda>slice.
           make_claim
             \<lparr>claim_id = ''malformed-claim-bundle:'' @ source_hash,
              claim_source = slice,
              claim_state = CUSTODY_SUSPENSE,
              claim_priority = priority,
              claim_reason = ''malformed_claim_bundle'',
              claim_target = None, atomic_bundle_id = None, destination_kind = None,
              external_economic_subtype = None, transfer_kind = None, transfer_policy = None,
              claim_component_id = None, allow_cross_rail = False\<rparr>))"

definition validated_inputs ::
  "quantity_observation list \<Rightarrow> quantity_claim list
     \<Rightarrow> (observation_index \<times> quantity_claim list \<times> quantity_claim_error list) result" where
  "validated_inputs observations claims =
     bind_res (index_observations observations []) (\<lambda>by_hash.
       let normalized_claims = sort_key claim_order claims;
           bundles = sort_key fst (group_by bundle_key normalized_claims);
           (valid, errors, invalid) =
             fold (validate_bundle by_hash normalized_claims) bundles ([], [], [])
       in bind_res (map_res (malformed_claim by_hash) (sort_key fst invalid)) (\<lambda>malformed.
            Inr (by_hash, sort_key claim_order (valid @ malformed), errors)))"

section \<open>Source decisions\<close>

definition boundaries :: "quantity_observation \<Rightarrow> quantity_claim list \<Rightarrow> int list" where
  "boundaries source source_claims =
     sort (remdups ([0, principal_msat source]
       @ concat (map (\<lambda>c. [start_msat (claim_source c), end_msat (claim_source c)]) source_claims)))"

definition contenders_of :: "quantity_claim list \<Rightarrow> int \<Rightarrow> int \<Rightarrow> quantity_claim list" where
  "contenders_of source_claims s e =
     filter (\<lambda>c. start_msat (claim_source c) \<le> s \<and> e \<le> end_msat (claim_source c)) source_claims"

definition plain_decision :: "quantity_slice \<Rightarrow> string \<Rightarrow> string \<Rightarrow> string list \<Rightarrow> arbitrated_slice" where
  "plain_decision segment state reason contender_ids =
     \<lparr>dec_source = segment, dec_state = state, dec_reason = reason,
      selected_claim_id = None, dec_atomic_bundle_id = None, dec_transfer_kind = None,
      dec_transfer_policy = None, dec_component_id = None, dec_target = None,
      dec_destination_kind = None, dec_external_economic_subtype = None,
      contender_claim_ids = contender_ids\<rparr>"

type_synonym semantic_key =
  "string \<times> (string \<times> int \<times> int) option \<times> string option \<times> string option \<times> string option
     \<times> string option \<times> string option"

definition semantic_key :: "int \<Rightarrow> int \<Rightarrow> quantity_claim \<Rightarrow> semantic_key" where
  "semantic_key s e c =
     (claim_state c,
      map_option (\<lambda>t. let offset = s - start_msat (claim_source c)
                      in (observation_hash t, start_msat t + offset,
                          start_msat t + offset + (e - s))) (claim_target c),
      destination_kind c, external_economic_subtype c, transfer_kind c, transfer_policy c,
      claim_component_id c)"

definition winner_decision :: "quantity_slice \<Rightarrow> quantity_claim \<Rightarrow> arbitrated_slice result" where
  "winner_decision segment winner =
     bind_res
       (case claim_target winner of
          None \<Rightarrow> Inr None
        | Some t \<Rightarrow>
            (let offset = start_msat segment - start_msat (claim_source winner)
             in bind_res (make_slice (observation_hash t) (start_msat t + offset)
                            (start_msat t + offset + slice_amount segment)) (\<lambda>sl. Inr (Some sl))))
       (\<lambda>target. Inr
          \<lparr>dec_source = segment, dec_state = claim_state winner, dec_reason = claim_reason winner,
           selected_claim_id = Some (claim_id winner),
           dec_atomic_bundle_id = effective_bundle_id winner,
           dec_transfer_kind = transfer_kind winner,
           dec_transfer_policy = transfer_policy winner,
           dec_component_id = claim_component_id winner, dec_target = target,
           dec_destination_kind = destination_kind winner,
           dec_external_economic_subtype = external_economic_subtype winner,
           contender_claim_ids = []\<rparr>)"

definition decide_contenders ::
  "quantity_slice \<Rightarrow> quantity_claim list \<Rightarrow> arbitrated_slice result" where
  "decide_contenders segment contenders =
     (let authoritative = filter (\<lambda>c. claim_priority c \<le> EXACT_NATIVE_EVENT) contenders;
          meanings = remdups (map (semantic_key (start_msat segment) (end_msat segment)) authoritative)
      in if 1 < length meanings then
           Inr (plain_decision segment CONFLICTING ''incompatible_reviewed_claims''
                  (sort (remdups (map claim_id authoritative))))
         else
           let strongest = Min (set (map claim_priority contenders));
               winners = filter (\<lambda>c. claim_priority c = strongest) contenders
           in (case winners of
                 [winner] \<Rightarrow> winner_decision segment winner
               | _ \<Rightarrow> Inr (plain_decision segment CONFLICTING ''equal_priority_source_overlap''
                             (sort (map claim_id winners)))))"

definition segment_decision ::
  "quantity_observation \<Rightarrow> quantity_claim list \<Rightarrow> int \<times> int \<Rightarrow> arbitrated_slice result" where
  "segment_decision source source_claims = (\<lambda>(s, e).
     bind_res (make_slice (quantity_hash source) s e) (\<lambda>segment.
       let contenders = contenders_of source_claims s e;
           requires_suspense = (\<exists>c \<in> set source_claims. claim_state c = CUSTODY_SUSPENSE)
       in if contenders = [] then
            Inr (plain_decision segment
                   (if requires_suspense then CUSTODY_SUSPENSE else EXTERNAL_PRESUMED)
                   (if requires_suspense then ''unclaimed_source_residual''
                    else ''unmatched_outbound_default'') [])
          else decide_contenders segment contenders))"

definition segments :: "int list \<Rightarrow> (int \<times> int) list" where
  "segments ordered = filter (\<lambda>(s, e). s \<noteq> e) (zip ordered (tl ordered))"

definition decisions_for_source ::
  "quantity_claim list \<Rightarrow> quantity_observation \<Rightarrow> arbitrated_slice list result" where
  "decisions_for_source claims source =
     (let source_claims = dict_get (group_by (\<lambda>c. observation_hash (claim_source c)) claims)
                            (quantity_hash source) []
      in map_res (segment_decision source source_claims)
           (segments (boundaries source source_claims)))"

definition outbound_order :: "quantity_observation \<Rightarrow> string \<times> string" where
  "outbound_order ob = (occurred_at ob, quantity_hash ob)"

definition source_decisions ::
  "observation_index \<Rightarrow> quantity_claim list \<Rightarrow> arbitrated_slice list result" where
  "source_decisions by_hash claims =
     bind_res (map_res (decisions_for_source claims)
                 (sort_key outbound_order
                    (filter (\<lambda>ob. direction ob = ''outbound'') (map snd by_hash))))
       (\<lambda>dss. Inr (concat dss))"

section \<open>The observation index\<close>

lemma update_fresh: "k \<notin> fst ` set d \<Longrightarrow> AList.update k v d = d @ [(k, v)]"
  by (induction d) auto

lemma index_observations_Inr:
  "index_observations obs d = Inr r \<longleftrightarrow>
     (\<forall>ob \<in> set obs. valid_observation ob) \<and> distinct (map quantity_hash obs)
     \<and> quantity_hash ` set obs \<inter> fst ` set d = {} \<and> r = d @ map (\<lambda>ob. (quantity_hash ob, ob)) obs"
proof (induction obs arbitrary: d)
  case Nil
  then show ?case by auto
next
  case (Cons ob obs)
  show ?case
  proof (cases "valid_observation ob \<and> quantity_hash ob \<notin> fst ` set d")
    case True
    then have "map_of d (quantity_hash ob) = None" by (simp add: map_of_eq_None_iff)
    with True Cons.IH [of "d @ [(quantity_hash ob, ob)]"] show ?thesis
      by (auto simp: update_fresh)
  next
    case False
    then have "\<nexists>r. index_observations (ob # obs) d = Inr r"
      by (auto simp: bind_res_def map_of_eq_None_iff split: sum.splits)
    with False show ?thesis by auto
  qed
qed

lemmas index_observations_result = index_observations_Inr [of _ "[]", simplified]

abbreviation index_of :: "quantity_observation list \<Rightarrow> observation_index" where
  "index_of obs \<equiv> map (\<lambda>ob. (quantity_hash ob, ob)) obs"

text \<open>Observations accepted by \<open>_validated_inputs\<close>.\<close>

definition observations_ok :: "quantity_observation list \<Rightarrow> bool" where
  "observations_ok obs \<longleftrightarrow> (\<forall>ob \<in> set obs. valid_observation ob) \<and> distinct (map quantity_hash obs)"

lemma index_of_lookup:
  assumes "observations_ok obs"
  shows "map_of (index_of obs) h = Some ob \<longleftrightarrow> ob \<in> set obs \<and> quantity_hash ob = h"
proof -
  have "distinct (map fst (index_of obs))"
    using assms by (simp add: observations_ok_def comp_def)
  then have "map_of (index_of obs) h = Some ob \<longleftrightarrow> (h, ob) \<in> set (index_of obs)" by simp
  then show ?thesis by auto
qed

section \<open>Accepted claims\<close>

text \<open>What validation establishes of a claim that reaches arbitration.\<close>

definition claim_ok :: "observation_index \<Rightarrow> quantity_claim \<Rightarrow> bool" where
  "claim_ok by_hash c \<longleftrightarrow> valid_claim c
     \<and> claim_source_reasons by_hash c = [] \<and> claim_target_reasons by_hash c = []"

lemma claim_ok_source:
  assumes "claim_ok by_hash c"
  shows "\<exists>s. map_of by_hash (observation_hash (claim_source c)) = Some s
           \<and> direction s = ''outbound'' \<and> end_msat (claim_source c) \<le> principal_msat s"
  using assms by (auto simp: claim_ok_def claim_source_reasons_def split: option.splits if_splits)

lemma claim_ok_target:
  assumes "claim_ok by_hash c" and "claim_target c = Some t"
  shows "\<exists>s g. map_of by_hash (observation_hash (claim_source c)) = Some s
           \<and> map_of by_hash (observation_hash t) = Some g
           \<and> direction g = ''inbound'' \<and> end_msat t \<le> principal_msat g
           \<and> domain_key (domain_from_observation s) = domain_key (domain_from_observation g)"
  using assms claim_ok_source [OF assms(1)]
  by (auto simp: claim_ok_def claim_target_reasons_def dest: compatible_domain_key
      split: option.splits if_splits)

lemma bundle_reasons_members:
  "bundle_reasons by_hash ncl members = [] \<Longrightarrow> c \<in> set members \<Longrightarrow>
     claim_source_reasons by_hash c = [] \<and> claim_target_reasons by_hash c = []"
  by (auto simp: bundle_reasons_def split: if_splits)

text \<open>Sources whose bundle was rejected are outbound observations of the index.\<close>

definition outbound_hash :: "observation_index \<Rightarrow> string \<Rightarrow> bool" where
  "outbound_hash by_hash h \<longleftrightarrow>
     (\<exists>s. map_of by_hash h = Some s \<and> direction s = ''outbound'')"

lemma claim_source_hashes_outbound:
  assumes "observations_ok obs" and "h \<in> set (claim_source_hashes (index_of obs) c)"
  shows "outbound_hash (index_of obs) h"
proof (cases "map_of (index_of obs) (observation_hash (claim_source c))")
  case None
  with assms(2) show ?thesis by (simp add: claim_source_hashes_def)
next
  case (Some s)
  then have "s \<in> set obs" by (simp add: index_of_lookup [OF assms(1)])
  with assms(2) Some show ?thesis
    by (auto simp: claim_source_hashes_def outbound_hash_def index_of_lookup [OF assms(1)]
        split: if_splits)
qed

lemma bundle_source_hashes_outbound:
  assumes "observations_ok obs" and "h \<in> set (bundle_source_hashes (index_of obs) members)"
  shows "outbound_hash (index_of obs) h"
  using assms claim_source_hashes_outbound [OF assms(1)] by (auto simp: bundle_source_hashes_def)

lemma note_invalid_source_keys:
  "fst ` set (note_invalid_source p h d) \<subseteq> insert h (fst ` set d)"
  by (auto simp: note_invalid_source_def dom_update split: option.splits)

lemma note_invalid_source_distinct:
  "distinct (map fst d) \<Longrightarrow> distinct (map fst (note_invalid_source p h d))"
  by (auto simp: note_invalid_source_def distinct_update split: option.splits)

lemma fold_note_invalid_keys:
  "fst ` set (fold (note_invalid_source p) hs d) \<subseteq> set hs \<union> fst ` set d"
proof (induction hs arbitrary: d)
  case Nil
  then show ?case by simp
next
  case (Cons h hs)
  from Cons.IH [of "note_invalid_source p h d"] note_invalid_source_keys [of p h d]
  show ?case by auto
qed

lemma fold_note_invalid_distinct:
  "distinct (map fst d) \<Longrightarrow> distinct (map fst (fold (note_invalid_source p) hs d))"
  by (induction hs arbitrary: d) (auto simp: note_invalid_source_distinct)

definition bundle_state_ok :: "observation_index \<Rightarrow> quantity_claim set \<Rightarrow> bundle_state \<Rightarrow> bool" where
  "bundle_state_ok by_hash cs = (\<lambda>(valid, errors, invalid).
     (\<forall>c \<in> set valid. c \<in> cs \<and> claim_source_reasons by_hash c = []
        \<and> claim_target_reasons by_hash c = [])
     \<and> (\<forall>h \<in> fst ` set invalid. outbound_hash by_hash h) \<and> distinct (map fst invalid))"

lemma validate_bundle_ok:
  assumes "observations_ok obs" and "bundle_state_ok (index_of obs) cs st"
    and "set (snd b) \<subseteq> cs"
  shows "bundle_state_ok (index_of obs) cs (validate_bundle (index_of obs) ncl b st)"
proof -
  obtain bid members where b: "b = (bid, members)" by (cases b)
  obtain valid errors invalid where st: "st = (valid, errors, invalid)" by (cases st) auto
  have "outbound_hash (index_of obs) h"
    if "h \<in> fst ` set (fold (note_invalid_source p) (bundle_source_hashes (index_of obs) members) invalid)"
    for h p
  proof -
    have "h \<in> set (bundle_source_hashes (index_of obs) members) \<union> fst ` set invalid"
      using that fold_note_invalid_keys by blast
    then show ?thesis
      using bundle_source_hashes_outbound [OF assms(1)] assms(2) st
      by (auto simp: bundle_state_ok_def)
  qed
  then show ?thesis
    using assms bundle_reasons_members [of "index_of obs" ncl members]
    by (auto simp: b st bundle_state_ok_def validate_bundle_def fold_note_invalid_distinct)
qed

lemma fold_validate_bundle_ok:
  assumes "observations_ok obs" and "bundle_state_ok (index_of obs) cs st"
    and "\<And>b. b \<in> set bs \<Longrightarrow> set (snd b) \<subseteq> cs"
  shows "bundle_state_ok (index_of obs) cs (fold (validate_bundle (index_of obs) ncl) bs st)"
  using assms(2,3)
proof (induction bs arbitrary: st)
  case Nil
  then show ?case by simp
next
  case (Cons b bs)
  then show ?case using validate_bundle_ok [OF assms(1) Cons.prems(1), of b ncl] by simp
qed

lemma malformed_claim_result:
  assumes "malformed_claim (index_of obs) (h, p) = Inr c" and "observations_ok obs"
    and "outbound_hash (index_of obs) h"
  shows "claim_ok (index_of obs) c \<and> claim_id c = ''malformed-claim-bundle:'' @ h
    \<and> claim_state c = CUSTODY_SUSPENSE \<and> claim_target c = None
    \<and> observation_hash (claim_source c) = h"
proof -
  obtain s where s: "map_of (index_of obs) h = Some s" "direction s = ''outbound''"
    using assms(3) by (auto simp: outbound_hash_def)
  with assms(1) obtain sl where sl: "make_slice h 0 (principal_msat s) = Inr sl"
    and mk: "make_claim
             \<lparr>claim_id = ''malformed-claim-bundle:'' @ h, claim_source = sl,
              claim_state = CUSTODY_SUSPENSE, claim_priority = p,
              claim_reason = ''malformed_claim_bundle'',
              claim_target = None, atomic_bundle_id = None, destination_kind = None,
              external_economic_subtype = None, transfer_kind = None, transfer_policy = None,
              claim_component_id = None, allow_cross_rail = False\<rparr> = Inr c"
    by (auto simp: malformed_claim_def result_simps)
  note c = make_claim_Inr [OF mk]
  have "make_claim c = Inr c" using mk c by simp
  moreover have "valid_slice sl" "observation_hash sl = h" "end_msat sl = principal_msat s"
    using sl by (auto simp: make_slice_Inr valid_slice_def)
  ultimately show ?thesis
    using s by (simp add: claim_ok_def valid_claim_def c claim_source_reasons_def
        claim_target_reasons_def)
qed

text \<open>Building the suspense claim of a rejected bundle succeeds exactly on a source with
  positive principal.\<close>

lemma malformed_claim_total:
  assumes "observations_ok obs" and "map_of (index_of obs) h = Some s"
  shows "(\<exists>c. malformed_claim (index_of obs) (h, p) = Inr c) \<longleftrightarrow> 0 < principal_msat s"
proof -
  have "quantity_hash s = h" "valid_observation s"
    using assms by (auto simp: index_of_lookup observations_ok_def)
  then have "h \<noteq> ''''" using valid_observation_hash by blast
  then show ?thesis
    using assms(2)
    by (cases p) (auto simp: malformed_claim_def make_slice_def make_claim_def claim_states_def
        state_priorities_def target_states_def bind_res_def split: if_splits)
qed

lemma map_res_malformed:
  assumes "map_res (malformed_claim (index_of obs)) bad = Inr cs" and "observations_ok obs"
    and "\<And>h. h \<in> fst ` set bad \<Longrightarrow> outbound_hash (index_of obs) h"
  shows "\<forall>c \<in> set cs. claim_ok (index_of obs) c"
proof
  fix c assume "c \<in> set cs"
  then obtain hp where "hp \<in> set bad" "malformed_claim (index_of obs) hp = Inr c"
    using map_res_in [OF assms(1)] by blast
  with assms(2,3) malformed_claim_result [of obs "fst hp" "snd hp" c]
  show "claim_ok (index_of obs) c" by force
qed

text \<open>The state of validation after all bundles were examined.\<close>

abbreviation bundle_pass where
  "bundle_pass obs claims \<equiv>
     fold (validate_bundle (index_of obs) (sort_key claim_order claims))
       (sort_key fst (group_by bundle_key (sort_key claim_order claims))) ([], [], [])"

lemma bundle_pass_ok:
  assumes "observations_ok obs"
  shows "bundle_state_ok (index_of obs) (set claims) (bundle_pass obs claims)"
proof (rule fold_validate_bundle_ok [OF assms])
  show "bundle_state_ok (index_of obs) (set claims) ([], [], [])"
    by (simp add: bundle_state_ok_def)
  show "set (snd b) \<subseteq> set claims"
    if "b \<in> set (sort_key fst (group_by bundle_key (sort_key claim_order claims)))" for b
    using that group_by_member [of "fst b" "snd b" bundle_key "sort_key claim_order claims"] by auto
qed

lemma validated_inputs_ok:
  assumes "validated_inputs obs claims = Inr (by_hash, ncl, errs)"
    and "\<forall>c \<in> set claims. valid_claim c"
  shows "by_hash = index_of obs \<and> observations_ok obs \<and> (\<forall>c \<in> set ncl. claim_ok by_hash c)"
proof -
  have idx: "by_hash = index_of obs" "observations_ok obs"
    using assms(1)
    by (auto simp: validated_inputs_def result_simps index_observations_result observations_ok_def
        Let_def split: prod.splits)
  obtain valid errors bad where st: "bundle_pass obs claims = (valid, errors, bad)"
    by (cases "bundle_pass obs claims") auto
  have st_ok: "bundle_state_ok (index_of obs) (set claims) (valid, errors, bad)"
    using bundle_pass_ok [OF idx(2), of claims] by (simp add: st)
  obtain mal where mal: "map_res (malformed_claim (index_of obs)) (sort_key fst bad) = Inr mal"
    and ncl: "ncl = sort_key claim_order (valid @ mal)"
    using assms(1) idx(1) st
    by (auto simp: validated_inputs_def result_simps index_observations_result Let_def)
  have "\<forall>c \<in> set mal. claim_ok (index_of obs) c"
    using st_ok by (intro map_res_malformed [OF mal idx(2)]) (auto simp: bundle_state_ok_def)
  moreover have "\<forall>c \<in> set valid. claim_ok (index_of obs) c"
    using st_ok assms(2) by (auto simp: bundle_state_ok_def claim_ok_def)
  ultimately show ?thesis using idx ncl by auto
qed

section \<open>Segments tile the source\<close>

lemma zip_tl_telescope:
  "xs \<noteq> [] \<Longrightarrow> (\<Sum>(s, e) \<leftarrow> zip xs (tl xs). (e - s :: int)) = last xs - hd xs"
proof (induction xs)
  case Nil
  then show ?case by simp
next
  case (Cons x xs)
  then show ?case by (cases xs) auto
qed

lemma zip_tl_less:
  "sorted xs \<Longrightarrow> distinct xs \<Longrightarrow> (s, e) \<in> set (zip xs (tl xs)) \<Longrightarrow> s < (e :: int)"
proof (induction xs)
  case Nil
  then show ?case by simp
next
  case (Cons x xs)
  then show ?case by (cases xs) (auto simp: less_le)
qed

lemma segments_eq:
  "sorted xs \<Longrightarrow> distinct xs \<Longrightarrow> segments xs = zip xs (tl xs)"
  using zip_tl_less [of xs] by (auto simp: segments_def filter_id_conv)

text \<open>Every listed point is outside the interior of every segment.\<close>

lemma zip_tl_gap:
  "sorted xs \<Longrightarrow> (s, e) \<in> set (zip xs (tl xs)) \<Longrightarrow> b \<in> set xs \<Longrightarrow> b \<le> s \<or> e \<le> (b :: int)"
proof (induction xs)
  case Nil
  then show ?case by simp
next
  case (Cons x xs)
  show ?case
  proof (cases xs)
    case Nil
    with Cons.prems show ?thesis by simp
  next
    case (Cons y ys)
    have "x \<le> s" if "(s, e) \<in> set (zip xs (tl xs))"
      using that \<open>sorted (x # xs)\<close> by (auto dest: set_zip_leftD)
    with Cons.IH Cons.prems Cons show ?thesis by auto
  qed
qed

lemma sorted_le_last: "sorted xs \<Longrightarrow> (x :: int) \<in> set xs \<Longrightarrow> x \<le> last xs"
  by (induction xs) auto

text \<open>Claims accepted for one outbound source.\<close>

definition claims_within :: "quantity_observation \<Rightarrow> quantity_claim list \<Rightarrow> bool" where
  "claims_within source cs \<longleftrightarrow> 0 \<le> principal_msat source
     \<and> (\<forall>c \<in> set cs. valid_slice (claim_source c) \<and> end_msat (claim_source c) \<le> principal_msat source)"

lemma boundaries_set:
  "set (boundaries source cs) = {0, principal_msat source}
     \<union> (\<Union>c \<in> set cs. {start_msat (claim_source c), end_msat (claim_source c)})"
  by (auto simp: boundaries_def)

lemma boundaries_facts:
  assumes "claims_within source cs"
  shows "sorted (boundaries source cs)" "distinct (boundaries source cs)"
    "boundaries source cs \<noteq> []"
    "hd (boundaries source cs) = 0" "last (boundaries source cs) = principal_msat source"
proof -
  show s: "sorted (boundaries source cs)" and d: "distinct (boundaries source cs)"
    by (simp_all add: boundaries_def)
  have range: "0 \<le> b \<and> b \<le> principal_msat source" if "b \<in> set (boundaries source cs)" for b
    using that assms by (auto simp: boundaries_set claims_within_def valid_slice_def)
  have mem: "0 \<in> set (boundaries source cs)" "principal_msat source \<in> set (boundaries source cs)"
    by (simp_all add: boundaries_set)
  then show ne: "boundaries source cs \<noteq> []" by auto
  have "hd (boundaries source cs) \<le> 0"
    using s ne mem(1) by (cases "boundaries source cs") auto
  with range [OF hd_in_set [OF ne]] show "hd (boundaries source cs) = 0" by simp
  have "principal_msat source \<le> last (boundaries source cs)"
    using s mem(2) by (rule sorted_le_last)
  with range [OF last_in_set [OF ne]] show "last (boundaries source cs) = principal_msat source"
    by simp
qed

lemma segments_sum:
  assumes "claims_within source cs"
  shows "(\<Sum>(s, e) \<leftarrow> segments (boundaries source cs). e - s) = principal_msat source"
  using boundaries_facts [OF assms] by (simp add: segments_eq zip_tl_telescope)

lemma segment_bounds:
  assumes "claims_within source cs" and "(s, e) \<in> set (segments (boundaries source cs))"
  shows "0 \<le> s \<and> s < e \<and> e \<le> principal_msat source"
proof -
  note b = boundaries_facts [OF assms(1)]
  have mem: "(s, e) \<in> set (zip (boundaries source cs) (tl (boundaries source cs)))"
    using assms(2) b by (simp add: segments_eq)
  then have "s \<in> set (boundaries source cs)" "e \<in> set (boundaries source cs)"
    using b(3) by (auto dest: set_zip_leftD set_zip_rightD list.set_sel(2))
  then have "0 \<le> s \<and> e \<le> principal_msat source"
    using assms(1) by (auto simp: boundaries_set claims_within_def valid_slice_def)
  with zip_tl_less [OF b(1,2) mem] show ?thesis by simp
qed

text \<open>A claim either covers a segment or does not meet it: arbitration by segments loses
  no partial overlap.\<close>

lemma segment_covered_or_disjoint:
  assumes "claims_within source cs" and "(s, e) \<in> set (segments (boundaries source cs))"
    and "c \<in> set cs"
  shows "c \<in> set (contenders_of cs s e)
    \<or> end_msat (claim_source c) \<le> s \<or> e \<le> start_msat (claim_source c)"
proof -
  note b = boundaries_facts [OF assms(1)]
  have mem: "(s, e) \<in> set (zip (boundaries source cs) (tl (boundaries source cs)))"
    using assms(2) b by (simp add: segments_eq)
  have "start_msat (claim_source c) \<le> s \<or> e \<le> start_msat (claim_source c)"
    "end_msat (claim_source c) \<le> s \<or> e \<le> end_msat (claim_source c)"
    using zip_tl_gap [OF b(1) mem] assms(3) by (auto simp: boundaries_set)
  then show ?thesis using assms(3) by (auto simp: contenders_of_def)
qed

section \<open>Every segment receives one decision\<close>

text \<open>
  What arbitration promises of one decision: it sits on a segment of its source; a
  selected claim comes from the contenders; a target is the matching part of that claim's
  target; and a decision without a target has somewhere to be posted, because an internal
  state without a target always carries a destination kind.
\<close>

definition decides :: "quantity_claim list \<Rightarrow> quantity_slice \<Rightarrow> arbitrated_slice \<Rightarrow> bool" where
  "decides cs segment d \<longleftrightarrow>
     dec_source d = segment \<and>
     (case selected_claim_id d of
        None \<Rightarrow> dec_target d = None \<and> dec_destination_kind d = None
          \<and> dec_state d \<in> {CONFLICTING, CUSTODY_SUSPENSE, EXTERNAL_PRESUMED}
      | Some cid \<Rightarrow> (\<exists>c \<in> set cs. claim_id c = cid \<and> dec_state d = claim_state c
          \<and> dec_destination_kind d = destination_kind c
          \<and> start_msat (claim_source c) \<le> start_msat segment
          \<and> end_msat segment \<le> end_msat (claim_source c)
          \<and> dec_target d = map_option (\<lambda>t.
              \<lparr>observation_hash = observation_hash t,
               start_msat = start_msat t + (start_msat segment - start_msat (claim_source c)),
               end_msat = start_msat t + (start_msat segment - start_msat (claim_source c))
                            + slice_amount segment\<rparr>) (claim_target c)))"

lemma plain_decision_decides:
  "st \<in> {CONFLICTING, CUSTODY_SUSPENSE, EXTERNAL_PRESUMED} \<Longrightarrow>
     decides cs segment (plain_decision segment st reason ids)"
  by (auto simp: decides_def plain_decision_def)

lemma winner_decision_decides:
  assumes "valid_claim c" and "c \<in> set cs" and "valid_slice segment"
    and "start_msat (claim_source c) \<le> start_msat segment"
    and "end_msat segment \<le> end_msat (claim_source c)"
  shows "\<exists>d. winner_decision segment c = Inr d \<and> decides cs segment d
    \<and> selected_claim_id d = Some (claim_id c)"
proof (cases "claim_target c")
  case None
  with assms show ?thesis by (auto simp: winner_decision_def decides_def)
next
  case (Some t)
  with assms(1) have t: "valid_slice t" by (simp add: valid_claim_def)
  with Some assms show ?thesis
    by (auto simp: winner_decision_def decides_def make_slice_def valid_slice_def slice_amount_def Let_def)
qed

lemma decide_contenders_decides:
  assumes "\<forall>c \<in> set cs. valid_claim c" and "valid_slice segment"
    and ct: "contenders = contenders_of cs (start_msat segment) (end_msat segment)"
  shows "\<exists>d. decide_contenders segment contenders = Inr d \<and> decides cs segment d"
proof -
  define winners where
    "winners = filter (\<lambda>c. claim_priority c = Min (claim_priority ` set contenders)) contenders"
  have conflict: "decides cs segment (plain_decision segment CONFLICTING r ids)" for r ids
    by (rule plain_decision_decides) simp
  have single: "\<exists>d. winner_decision segment w = Inr d \<and> decides cs segment d"
    if "winners = [w]" for w
  proof -
    have "w \<in> set winners" by (simp add: that)
    then have "w \<in> set contenders" unfolding winners_def by (rule filter_is_subset [THEN subsetD])
    then have "w \<in> set cs" "start_msat (claim_source w) \<le> start_msat segment"
      "end_msat segment \<le> end_msat (claim_source w)"
      by (auto simp: ct contenders_of_def)
    with assms(1,2) show ?thesis using winner_decision_decides by blast
  qed
  show ?thesis
    unfolding decide_contenders_def Let_def
    using conflict single
    by (auto simp flip: winners_def split: list.splits)
qed

lemma segment_decision_decides:
  assumes "claims_within source cs" and "\<forall>c \<in> set cs. valid_claim c"
    and "quantity_hash source \<noteq> ''''" and seg: "(s, e) \<in> set (segments (boundaries source cs))"
  shows "\<exists>d. segment_decision source cs (s, e) = Inr d
    \<and> decides cs \<lparr>observation_hash = quantity_hash source, start_msat = s, end_msat = e\<rparr> d"
proof -
  let ?seg = "\<lparr>observation_hash = quantity_hash source, start_msat = s, end_msat = e\<rparr>"
  have ok: "make_slice (quantity_hash source) s e = Inr ?seg" and v: "valid_slice ?seg"
    using segment_bounds [OF assms(1) seg] assms(3) by (auto simp: make_slice_def valid_slice_def)
  have "decides cs ?seg (plain_decision ?seg (if b then CUSTODY_SUSPENSE else EXTERNAL_PRESUMED) r ids)"
    for b r ids
    by (rule plain_decision_decides) simp
  with decide_contenders_decides [OF assms(2) v refl] show ?thesis
    by (auto simp: segment_decision_def ok Let_def)
qed

section \<open>Decisions of all sources\<close>

definition postable :: "arbitrated_slice \<Rightarrow> bool" where
  "postable d \<longleftrightarrow> dec_destination_kind d \<noteq> None
     \<or> dec_state d \<in> {EXTERNAL_CONFIRMED, EXTERNAL_PRESUMED, CUSTODY_SUSPENSE, CONFLICTING}"

definition target_ok :: "observation_index \<Rightarrow> quantity_observation \<Rightarrow> arbitrated_slice \<Rightarrow> quantity_slice \<Rightarrow> bool" where
  "target_ok by_hash s d t \<longleftrightarrow>
     valid_slice t \<and> slice_amount t = slice_amount (dec_source d)
     \<and> selected_claim_id d \<noteq> None \<and> selected_claim_id d \<noteq> Some ''''
     \<and> (\<exists>g. map_of by_hash (observation_hash t) = Some g \<and> direction g = ''inbound''
          \<and> end_msat t \<le> principal_msat g
          \<and> domain_key (domain_from_observation s) = domain_key (domain_from_observation g))"

definition decision_ok :: "observation_index \<Rightarrow> arbitrated_slice \<Rightarrow> bool" where
  "decision_ok by_hash d \<longleftrightarrow>
     (\<exists>s. map_of by_hash (observation_hash (dec_source d)) = Some s \<and> direction s = ''outbound''
        \<and> valid_slice (dec_source d) \<and> end_msat (dec_source d) \<le> principal_msat s
        \<and> (case dec_target d of None \<Rightarrow> postable d | Some t \<Rightarrow> target_ok by_hash s d t))"

lemma decides_target_ok:
  assumes c: "claim_ok by_hash c" "claim_id c = cid" "claim_target c = Some ct"
    and src: "map_of by_hash (observation_hash (claim_source c)) = Some s"
    and seg: "valid_slice segment" "start_msat (claim_source c) \<le> start_msat segment"
      "end_msat segment \<le> end_msat (claim_source c)"
    and d: "dec_source d = segment" "selected_claim_id d = Some cid"
    and t: "t = \<lparr>observation_hash = observation_hash ct,
               start_msat = start_msat ct + (start_msat segment - start_msat (claim_source c)),
               end_msat = start_msat ct + (start_msat segment - start_msat (claim_source c))
                            + slice_amount segment\<rparr>"
  shows "target_ok by_hash s d t"
proof -
  have v: "valid_claim c" using c(1) by (simp add: claim_ok_def)
  have am: "slice_amount ct = slice_amount (claim_source c)" using valid_claim_target [OF v c(3)] by simp
  have "valid_slice ct" using v c(3) by (simp add: valid_claim_def)
  then have "valid_slice t" "end_msat t \<le> end_msat ct" "slice_amount t = slice_amount segment"
    using seg am by (auto simp: t valid_slice_def slice_amount_def)
  with claim_ok_target [OF c(1,3)] src d v c(2) valid_claim_id [OF v] show ?thesis
    by (auto simp: target_ok_def t)
qed

lemma decides_decision_ok:
  assumes d: "decides cs segment d" and seg: "valid_slice segment"
    and src: "map_of by_hash (observation_hash segment) = Some s" "direction s = ''outbound''"
      "end_msat segment \<le> principal_msat s"
    and cs: "\<forall>c \<in> set cs. claim_ok by_hash c \<and> observation_hash (claim_source c) = observation_hash segment"
  shows "decision_ok by_hash d"
proof (cases "selected_claim_id d")
  case None
  with d seg src show ?thesis by (auto simp: decides_def decision_ok_def postable_def)
next
  case (Some cid)
  with d obtain c where c: "c \<in> set cs" "claim_id c = cid" "dec_state d = claim_state c"
      "dec_destination_kind d = destination_kind c"
      "start_msat (claim_source c) \<le> start_msat segment" "end_msat segment \<le> end_msat (claim_source c)"
    and tg: "dec_target d = map_option (\<lambda>t.
              \<lparr>observation_hash = observation_hash t,
               start_msat = start_msat t + (start_msat segment - start_msat (claim_source c)),
               end_msat = start_msat t + (start_msat segment - start_msat (claim_source c))
                            + slice_amount segment\<rparr>) (claim_target c)"
    by (auto simp: decides_def)
  have ds: "dec_source d = segment" using d by (simp add: decides_def)
  have ok: "claim_ok by_hash c" "map_of by_hash (observation_hash (claim_source c)) = Some s"
    using cs c(1) src(1) by auto
  show ?thesis
  proof (cases "claim_target c")
    case None
    have v: "valid_claim c" using ok(1) by (simp add: claim_ok_def)
    have "postable d"
      using valid_claim_state [OF v] valid_claim_no_target [OF v None] c(3,4)
      by (auto simp: postable_def claim_states_def target_states_def)
    with None tg ds seg src show ?thesis by (auto simp: decision_ok_def)
  next
    case (Some ct)
    with decides_target_ok [OF ok(1) c(2) Some ok(2) seg c(5,6) ds \<open>selected_claim_id d = Some cid\<close> refl]
      tg ds seg src
    show ?thesis by (auto simp: decision_ok_def)
  qed
qed

abbreviation claims_of :: "quantity_claim list \<Rightarrow> quantity_observation \<Rightarrow> quantity_claim list" where
  "claims_of claims source \<equiv> filter (\<lambda>c. observation_hash (claim_source c) = quantity_hash source) claims"

abbreviation seg_slice :: "quantity_observation \<Rightarrow> int \<times> int \<Rightarrow> quantity_slice" where
  "seg_slice source p \<equiv> \<lparr>observation_hash = quantity_hash source, start_msat = fst p, end_msat = snd p\<rparr>"

lemma claims_of_within:
  assumes "observations_ok obs" and "\<forall>c \<in> set claims. claim_ok (index_of obs) c" and "source \<in> set obs"
  shows "claims_within source (claims_of claims source)"
proof -
  have "end_msat (claim_source c) \<le> principal_msat source \<and> valid_slice (claim_source c)"
    if "c \<in> set (claims_of claims source)" for c
  proof -
    have ok: "claim_ok (index_of obs) c" using that assms(2) by simp
    obtain s where s: "map_of (index_of obs) (observation_hash (claim_source c)) = Some s"
      "end_msat (claim_source c) \<le> principal_msat s"
      using claim_ok_source [OF ok] by auto
    moreover have "map_of (index_of obs) (observation_hash (claim_source c)) = Some source"
      using that assms(3) by (simp add: index_of_lookup [OF assms(1)])
    ultimately show ?thesis using ok by (simp add: claim_ok_def valid_claim_def)
  qed
  then show ?thesis
    using assms(1,3) valid_observation_principal by (auto simp: claims_within_def observations_ok_def)
qed

lemma decisions_for_source_total:
  assumes "observations_ok obs" and "\<forall>c \<in> set claims. claim_ok (index_of obs) c" and "source \<in> set obs"
  shows "\<exists>ds. decisions_for_source claims source = Inr ds
    \<and> list_all2 (\<lambda>p d. decides (claims_of claims source) (seg_slice source p) d)
        (segments (boundaries source (claims_of claims source))) ds"
proof -
  let ?cs = "claims_of claims source" and ?f = "segment_decision source (claims_of claims source)"
  have h: "quantity_hash source \<noteq> ''''"
    using assms(1,3) valid_observation_hash by (auto simp: observations_ok_def)
  have v: "\<forall>c \<in> set ?cs. valid_claim c" using assms(2) by (auto simp: claim_ok_def)
  have each: "\<exists>d. ?f p = Inr d \<and> decides ?cs (seg_slice source p) d"
    if "p \<in> set (segments (boundaries source ?cs))" for p
    using segment_decision_decides [OF claims_of_within [OF assms] v h, of "fst p" "snd p"] that by simp
  then obtain g where g: "\<And>p. p \<in> set (segments (boundaries source ?cs)) \<Longrightarrow>
      ?f p = Inr (g p) \<and> decides ?cs (seg_slice source p) (g p)"
    by metis
  then have "map_res ?f (segments (boundaries source ?cs)) = Inr (map g (segments (boundaries source ?cs)))"
    by (intro map_res_total) blast
  with g show ?thesis
    by (auto simp: decisions_for_source_def dict_get_group_by Let_def list_all2_map2
        intro!: list_all2_same [THEN iffD2])
qed

lemma decides_sources:
  "list_all2 (\<lambda>p d. decides cs (seg_slice source p) d) ps ds \<Longrightarrow>
     map dec_source ds = map (seg_slice source) ps"
  by (induction rule: list_all2_induct) (auto simp: decides_def)

lemma decided_segments_sum:
  assumes "map dec_source ds = map (seg_slice source) ps"
  shows "(\<Sum>d \<leftarrow> ds. slice_amount (dec_source d)) = (\<Sum>(s, e) \<leftarrow> ps. e - s)"
proof -
  have "map (\<lambda>d. slice_amount (dec_source d)) ds = map slice_amount (map dec_source ds)" by simp
  also have "\<dots> = map (\<lambda>(s, e). e - s) ps"
    by (simp only: assms) (auto simp: slice_amount_def)
  finally show ?thesis by simp
qed

text \<open>The amount the decisions give to one source.\<close>

definition decided_amount :: "string \<Rightarrow> arbitrated_slice list \<Rightarrow> int" where
  "decided_amount h ds = (\<Sum>d \<leftarrow> ds. if observation_hash (dec_source d) = h
                          then slice_amount (dec_source d) else 0)"

lemma decided_amount_simps [simp]:
  "decided_amount h [] = 0"
  "decided_amount h (d # ds) =
     (if observation_hash (dec_source d) = h then slice_amount (dec_source d) else 0) + decided_amount h ds"
  "decided_amount h (xs @ ys) = decided_amount h xs + decided_amount h ys"
  by (simp_all add: decided_amount_def)

lemma decided_amount_concat: "decided_amount h (concat dss) = (\<Sum>ds \<leftarrow> dss. decided_amount h ds)"
  by (induction dss) auto

definition source_group_ok :: "observation_index \<Rightarrow> quantity_observation \<Rightarrow> arbitrated_slice list \<Rightarrow> bool" where
  "source_group_ok by_hash source ds \<longleftrightarrow>
     (\<forall>d \<in> set ds. decision_ok by_hash d \<and> observation_hash (dec_source d) = quantity_hash source)
     \<and> decided_amount (quantity_hash source) ds = principal_msat source"

lemma decided_amount_uniform:
  "\<forall>d \<in> set ds. observation_hash (dec_source d) = h \<Longrightarrow>
     decided_amount h ds = (\<Sum>d \<leftarrow> ds. slice_amount (dec_source d))"
  by (induction ds) auto

lemma decided_amount_other:
  "\<forall>d \<in> set ds. observation_hash (dec_source d) \<noteq> h \<Longrightarrow> decided_amount h ds = 0"
  by (induction ds) auto

lemma decisions_for_source_ok:
  assumes "observations_ok obs" and "\<forall>c \<in> set claims. claim_ok (index_of obs) c"
    and "source \<in> set obs" and "direction source = ''outbound''"
  shows "\<exists>ds. decisions_for_source claims source = Inr ds \<and> source_group_ok (index_of obs) source ds"
proof -
  let ?cs = "claims_of claims source" and ?ix = "index_of obs"
  let ?ps = "segments (boundaries source ?cs)"
  note within = claims_of_within [OF assms(1-3)]
  obtain ds where ds: "decisions_for_source claims source = Inr ds"
    and all: "list_all2 (\<lambda>p d. decides ?cs (seg_slice source p) d) ?ps ds"
    using decisions_for_source_total [OF assms(1-3)] by blast
  have lookup: "map_of ?ix (quantity_hash source) = Some source"
    using assms(3) by (simp add: index_of_lookup [OF assms(1)])
  have h: "quantity_hash source \<noteq> ''''"
    using assms(1,3) valid_observation_hash by (auto simp: observations_ok_def)
  have ok: "decision_ok ?ix d \<and> observation_hash (dec_source d) = quantity_hash source"
    if "d \<in> set ds" for d
  proof -
    obtain p where p: "p \<in> set ?ps" "decides ?cs (seg_slice source p) d"
      using list_all2_right_member [OF all \<open>d \<in> set ds\<close>] by blast
    have b: "0 \<le> fst p \<and> fst p < snd p \<and> snd p \<le> principal_msat source"
      using segment_bounds [OF within, of "fst p" "snd p"] p(1) by simp
    have "decision_ok ?ix d"
      using b h lookup assms(2,4)
      by (intro decides_decision_ok [OF p(2), of ?ix source]) (auto simp: valid_slice_def)
    with p(2) show ?thesis by (simp add: decides_def)
  qed
  have "decided_amount (quantity_hash source) ds = principal_msat source"
    using ok decided_segments_sum [OF decides_sources [OF all]] segments_sum [OF within]
    by (simp add: decided_amount_uniform)
  with ds ok show ?thesis by (auto simp: source_group_ok_def)
qed

text \<open>Decisions that cover every outbound observation of an index exactly.\<close>

definition covering :: "quantity_observation list \<Rightarrow> arbitrated_slice list \<Rightarrow> bool" where
  "covering obs ds \<longleftrightarrow> (\<forall>d \<in> set ds. decision_ok (index_of obs) d)
     \<and> (\<forall>ob \<in> set obs. direction ob = ''outbound'' \<longrightarrow> decided_amount (quantity_hash ob) ds = principal_msat ob)"

lemma source_groups_covering:
  assumes "list_all2 (\<lambda>s ds. source_group_ok ix s ds) sources dss"
    and "distinct (map quantity_hash sources)" and "s \<in> set sources"
  shows "decided_amount (quantity_hash s) (concat dss) = principal_msat s"
  using assms
proof (induction rule: list_all2_induct)
  case Nil
  then show ?case by simp
next
  case (Cons x xs ds dss)
  show ?case
  proof (cases "s = x")
    case True
    have "decided_amount (quantity_hash x) es = 0" if "es \<in> set dss" for es
    proof -
      obtain y where "y \<in> set xs" "source_group_ok ix y es"
        using list_all2_right_member [OF Cons.hyps(2) \<open>es \<in> set dss\<close>] by blast
      moreover have "quantity_hash y \<noteq> quantity_hash x"
        using \<open>y \<in> set xs\<close> by (rule distinct_map_neq [OF Cons.prems(1)])
      ultimately show ?thesis by (intro decided_amount_other) (auto simp: source_group_ok_def)
    qed
    then have "decided_amount (quantity_hash x) (concat dss) = 0"
      by (simp add: decided_amount_concat cong: map_cong)
    with True Cons.hyps(1) show ?thesis by (simp add: source_group_ok_def)
  next
    case False
    with Cons.prems(2) have s: "s \<in> set xs" by simp
    then have "quantity_hash s \<noteq> quantity_hash x"
      by (rule distinct_map_neq [OF Cons.prems(1)])
    then have "decided_amount (quantity_hash s) ds = 0"
      using Cons.hyps(1) by (intro decided_amount_other) (auto simp: source_group_ok_def)
    with Cons.IH Cons.prems s show ?thesis by simp
  qed
qed

lemma source_decisions_total:
  assumes "observations_ok obs" and "\<forall>c \<in> set claims. claim_ok (index_of obs) c"
  shows "\<exists>ds. source_decisions (index_of obs) claims = Inr ds \<and> covering obs ds"
proof -
  let ?srcs = "sort_key outbound_order (filter (\<lambda>ob. direction ob = ''outbound'') obs)"
  have snds: "map snd (index_of obs) = obs" by (simp add: comp_def)
  have each: "\<exists>ds. decisions_for_source claims s = Inr ds \<and> source_group_ok (index_of obs) s ds"
    if "s \<in> set ?srcs" for s
    using that by (intro decisions_for_source_ok [OF assms]) simp_all
  obtain dss where m: "map_res (decisions_for_source claims) ?srcs = Inr dss"
    and all: "list_all2 (\<lambda>s ds. source_group_ok (index_of obs) s ds) ?srcs dss"
    using map_res_choice [where f = "decisions_for_source claims" and xs = ?srcs, OF each] by blast
  have ret: "source_decisions (index_of obs) claims = Inr (concat dss)"
    unfolding source_decisions_def snds by (simp add: m)
  have "distinct (map quantity_hash ?srcs)"
    using assms(1) by (simp add: observations_ok_def distinct_map_filter)
  then have "decided_amount (quantity_hash ob) (concat dss) = principal_msat ob"
    if "ob \<in> set obs" "direction ob = ''outbound''" for ob
    using that by (intro source_groups_covering [OF all]) simp_all
  moreover have "decision_ok (index_of obs) d" if "d \<in> set (concat dss)" for d
    using that list_all2_right_member [OF all] by (auto simp: source_group_ok_def)
  ultimately have "covering obs (concat dss)" by (simp add: covering_def)
  with ret show ?thesis by blast
qed

section \<open>Every msat of a source is decided exactly once\<close>

definition decided_times :: "string \<Rightarrow> int \<Rightarrow> arbitrated_slice list \<Rightarrow> nat" where
  "decided_times h x ds = length (filter (\<lambda>s. observation_hash s = h \<and> start_msat s \<le> x \<and> x < end_msat s)
                                   (map dec_source ds))"

definition tiling :: "quantity_observation list \<Rightarrow> arbitrated_slice list \<Rightarrow> bool" where
  "tiling obs ds \<longleftrightarrow> (\<forall>ob \<in> set obs. direction ob = ''outbound'' \<longrightarrow>
     (\<forall>x. 0 \<le> x \<and> x < principal_msat ob \<longrightarrow> decided_times (quantity_hash ob) x ds = 1))"

lemma zip_tl_once:
  "sorted xs \<Longrightarrow> xs \<noteq> [] \<Longrightarrow>
     length (filter (\<lambda>(s, e). s \<le> x \<and> x < e) (zip xs (tl xs)))
       = (if hd xs \<le> x \<and> x < last xs then 1 else 0)"
  for x :: int
proof (induction xs)
  case (Cons y xs)
  show ?case
  proof (cases xs)
    case Nil
    then show ?thesis by simp
  next
    case (Cons z zs)
    then have "length (filter (\<lambda>(s, e). s \<le> x \<and> x < e) (zip xs (tl xs)))
        = (if z \<le> x \<and> x < last xs then 1 else 0)"
      using Cons.IH Cons.prems(1) by simp
    moreover have "y \<le> z" "z \<le> last xs"
      using Cons Cons.prems(1) sorted_le_last [of xs z] by auto
    ultimately show ?thesis using Cons by auto
  qed
qed simp

lemma segments_once:
  assumes "claims_within source cs" and "0 \<le> x" and "x < principal_msat source"
  shows "length (filter (\<lambda>(s, e). s \<le> x \<and> x < e) (segments (boundaries source cs))) = 1"
  using boundaries_facts [OF assms(1)] assms(2,3) by (simp add: segments_eq zip_tl_once)

lemma source_group_times:
  assumes "map dec_source ds = map (seg_slice source) ps"
  shows "decided_times h x ds
    = (if quantity_hash source = h then length (filter (\<lambda>(s, e). s \<le> x \<and> x < e) ps) else 0)"
  unfolding decided_times_def assms by (simp add: filter_map comp_def case_prod_unfold)

lemma decided_times_append: "decided_times h x (ds @ es) = decided_times h x ds + decided_times h x es"
  by (simp add: decided_times_def)

lemma decided_times_concat:
  assumes "list_all2 (\<lambda>s ds. \<exists>ps. map dec_source ds = map (seg_slice s) ps
      \<and> (\<forall>x. 0 \<le> x \<and> x < principal_msat s \<longrightarrow> length (filter (\<lambda>(a, b). a \<le> x \<and> x < b) ps) = 1)) srcs dss"
    and "distinct (map quantity_hash srcs)" and "0 \<le> x" and "x < principal_msat ob" and "ob \<in> set srcs"
  shows "decided_times (quantity_hash ob) x (concat dss) = 1"
  using assms(1,2,5)
proof (induction rule: list_all2_induct)
  case (Cons s srcs ds dss)
  have other: "decided_times h x (concat dss) = 0" if "h \<notin> quantity_hash ` set srcs" for h
    using Cons.hyps(2) that
    by (induction rule: list_all2_induct)
      (auto simp: decided_times_append source_group_times decided_times_def [of _ _ "[]"])
  obtain ps where ps: "map dec_source ds = map (seg_slice s) ps"
    "\<forall>x. 0 \<le> x \<and> x < principal_msat s \<longrightarrow> length (filter (\<lambda>(a, b). a \<le> x \<and> x < b) ps) = 1"
    using Cons.hyps(1) by blast
  show ?case
  proof (cases "ob = s")
    case True
    with Cons.prems(1) have "decided_times (quantity_hash ob) x (concat dss) = 0" by (intro other) simp
    with True ps assms(3,4) show ?thesis
      by (simp add: decided_times_append source_group_times [OF ps(1)])
  next
    case False
    with Cons.prems have "ob \<in> set srcs" "quantity_hash s \<noteq> quantity_hash ob" by (auto simp: image_iff)
    with Cons.IH Cons.prems(1) show ?thesis
      by (simp add: decided_times_append source_group_times [OF ps(1)])
  qed
qed simp

lemma source_decisions_tiling:
  assumes obs: "observations_ok obs" and claims: "\<forall>c \<in> set claims. claim_ok (index_of obs) c"
    and ds: "source_decisions (index_of obs) claims = Inr ds"
  shows "tiling obs ds"
proof -
  let ?srcs = "sort_key outbound_order (filter (\<lambda>ob. direction ob = ''outbound'') obs)"
  let ?Q = "\<lambda>s ds. \<exists>ps. map dec_source ds = map (seg_slice s) ps
      \<and> (\<forall>x. 0 \<le> x \<and> x < principal_msat s \<longrightarrow> length (filter (\<lambda>(a, b). a \<le> x \<and> x < b) ps) = 1)"
  have each: "\<exists>es. decisions_for_source claims s = Inr es \<and> ?Q s es" if "s \<in> set ?srcs" for s
  proof -
    have s: "s \<in> set obs" using that by simp
    obtain es where "decisions_for_source claims s = Inr es"
      "list_all2 (\<lambda>p d. decides (claims_of claims s) (seg_slice s p) d)
         (segments (boundaries s (claims_of claims s))) es"
      using decisions_for_source_total [OF obs claims s] by blast
    then show ?thesis
      using decides_sources segments_once [OF claims_of_within [OF obs claims s]] by blast
  qed
  obtain dss where dss: "map_res (decisions_for_source claims) ?srcs = Inr dss" "list_all2 ?Q ?srcs dss"
    using map_res_choice [where f = "decisions_for_source claims" and xs = ?srcs, OF each] by blast
  have "map snd (index_of obs) = obs" by (simp add: comp_def)
  then have "ds = concat dss" using ds dss(1) by (simp add: source_decisions_def)
  moreover have "distinct (map quantity_hash ?srcs)"
    using obs by (simp add: observations_ok_def distinct_map_filter)
  ultimately show ?thesis
    using decided_times_concat [OF dss(2)] by (simp add: tiling_def)
qed

section \<open>Who wins a segment\<close>

lemma source_decisions_member:
  assumes "source_decisions (index_of obs) claims = Inr ds" and "d \<in> set ds"
  shows "\<exists>s \<in> set obs. \<exists>p \<in> set (segments (boundaries s (claims_of claims s))).
    direction s = ''outbound'' \<and> segment_decision s (claims_of claims s) p = Inr d"
proof -
  have "map snd (index_of obs) = obs" by (simp add: comp_def)
  then obtain dss where dss: "map_res (decisions_for_source claims)
      (sort_key outbound_order (filter (\<lambda>ob. direction ob = ''outbound'') obs)) = Inr dss"
    "ds = concat dss"
    using assms(1) by (auto simp: source_decisions_def result_simps)
  obtain es where es: "es \<in> set dss" "d \<in> set es" using assms(2) dss(2) by auto
  then obtain s where "s \<in> set obs" "direction s = ''outbound''" "decisions_for_source claims s = Inr es"
    using map_res_in [OF dss(1)] by fastforce
  then show ?thesis
    using es(2) map_res_in by (fastforce simp: decisions_for_source_def dict_get_group_by Let_def)
qed

lemma segment_decision_source:
  "segment_decision s cs p = Inr d \<Longrightarrow> dec_source d = seg_slice s p"
  by (cases p) (auto simp: segment_decision_def decide_contenders_def winner_decision_def plain_decision_def
      make_slice_Inr result_simps Let_def split: if_splits list.splits)

text \<open>A claim that covers a whole slice of its own source.\<close>

definition covers :: "quantity_claim \<Rightarrow> quantity_slice \<Rightarrow> bool" where
  "covers c sl \<longleftrightarrow> observation_hash (claim_source c) = observation_hash sl
     \<and> start_msat (claim_source c) \<le> start_msat sl \<and> end_msat sl \<le> end_msat (claim_source c)"

text \<open>
  \<open>c\<close> won the slice of \<open>d\<close> against all claims that cover it: every other one has a strictly
  weaker priority, and the reviewed and native ones among them all agree on its meaning.
\<close>

definition wins :: "quantity_claim list \<Rightarrow> quantity_claim \<Rightarrow> arbitrated_slice \<Rightarrow> bool" where
  "wins claims c d \<longleftrightarrow> c \<in> set claims \<and> covers c (dec_source d) \<and> winner_decision (dec_source d) c = Inr d
     \<and> (\<forall>c' \<in> set claims. covers c' (dec_source d) \<longrightarrow> c' = c \<or> claim_priority c < claim_priority c')
     \<and> (\<forall>c' \<in> set claims. covers c' (dec_source d) \<and> claim_priority c' \<le> EXACT_NATIVE_EVENT \<longrightarrow>
          semantic_key (start_msat (dec_source d)) (end_msat (dec_source d)) c'
          = semantic_key (start_msat (dec_source d)) (end_msat (dec_source d)) c)"

lemma length_remdups_le_1:
  "\<not> 1 < length (remdups xs) \<Longrightarrow> x \<in> set xs \<Longrightarrow> y \<in> set xs \<Longrightarrow> x = y"
proof -
  assume "\<not> 1 < length (remdups xs)" and xy: "x \<in> set xs" "y \<in> set xs"
  then have "card (set xs) \<le> 1" by (simp add: length_remdups_card_conv)
  then have "card {x, y} \<le> 1" using xy card_mono [of "set xs" "{x, y}"] by auto
  then show "x = y" by (cases "x = y") auto
qed

lemma decide_contenders_wins:
  assumes "decide_contenders seg cs = Inr d" and "selected_claim_id d \<noteq> None"
  shows "\<exists>c \<in> set cs. winner_decision seg c = Inr d
    \<and> (\<forall>c' \<in> set cs. c' = c \<or> claim_priority c < claim_priority c')
    \<and> (\<forall>c' \<in> set cs. claim_priority c' \<le> EXACT_NATIVE_EVENT \<longrightarrow>
         semantic_key (start_msat seg) (end_msat seg) c' = semantic_key (start_msat seg) (end_msat seg) c)"
proof -
  let ?key = "semantic_key (start_msat seg) (end_msat seg)"
  let ?auth = "filter (\<lambda>c. claim_priority c \<le> EXACT_NATIVE_EVENT) cs"
  let ?min = "Min (set (map claim_priority cs))"
  have few: "\<not> 1 < length (remdups (map ?key ?auth))"
    using assms by (auto simp: decide_contenders_def plain_decision_def Let_def)
  with assms obtain c where c: "filter (\<lambda>c. claim_priority c = ?min) cs = [c]" "winner_decision seg c = Inr d"
    by (auto simp: decide_contenders_def plain_decision_def Let_def split: list.splits)
  have "c \<in> set (filter (\<lambda>c. claim_priority c = ?min) cs)" by (simp only: c(1)) simp
  then have cmem: "c \<in> set cs" "claim_priority c = ?min" by auto
  have weaker: "c' = c \<or> claim_priority c < claim_priority c'" if "c' \<in> set cs" for c'
  proof (cases "claim_priority c' = ?min")
    case True
    then have "c' \<in> set (filter (\<lambda>c. claim_priority c = ?min) cs)" using that by simp
    then show ?thesis by (simp only: c(1)) simp
  next
    case False
    moreover have "?min \<le> claim_priority c'" using that by simp
    ultimately show ?thesis using cmem(2) by (metis le_neq_trans)
  qed
  have "?key c' = ?key c" if "c' \<in> set cs" "claim_priority c' \<le> EXACT_NATIVE_EVENT" for c'
  proof -
    have "claim_priority c \<le> claim_priority c'" using weaker [OF that(1)] by auto
    then have "claim_priority c \<le> EXACT_NATIVE_EVENT" using that(2) by (rule order_trans)
    with cmem(1) that show ?thesis by (intro length_remdups_le_1 [OF few]) auto
  qed
  with c(2) cmem(1) weaker show ?thesis by blast
qed

lemma source_decision_wins:
  assumes "source_decisions (index_of obs) claims = Inr ds" and "d \<in> set ds"
    and "selected_claim_id d \<noteq> None"
  shows "\<exists>c. wins claims c d"
proof -
  obtain s p where sp: "segment_decision s (claims_of claims s) p = Inr d"
    using source_decisions_member [OF assms(1,2)] by blast
  let ?cs = "contenders_of (claims_of claims s) (fst p) (snd p)"
  note src = segment_decision_source [OF sp]
  have "decide_contenders (dec_source d) ?cs = Inr d"
    using sp assms(3) src
    by (cases p) (auto simp: segment_decision_def plain_decision_def make_slice_Inr result_simps Let_def
        split: if_splits)
  moreover have "c \<in> set ?cs \<longleftrightarrow> c \<in> set claims \<and> covers c (dec_source d)" for c
    by (auto simp: contenders_of_def covers_def src)
  ultimately show ?thesis
    using decide_contenders_wins [of "dec_source d" ?cs d] assms(3) unfolding wins_def by blast
qed

lemma winner_fields:
  "winner_decision seg c = Inr d \<Longrightarrow>
     dec_source d = seg \<and> dec_state d = claim_state c \<and> selected_claim_id d = Some (claim_id c)"
  by (auto simp: winner_decision_def result_simps)

section \<open>Unresolved custody never becomes a presumed disposal\<close>

lemma suspense_source:
  assumes "source_decisions (index_of obs) claims = Inr ds" and "d \<in> set ds"
    and "\<forall>c \<in> set claims. valid_claim c"
    and "c \<in> set claims" and "claim_state c = CUSTODY_SUSPENSE"
    and "observation_hash (claim_source c) = observation_hash (dec_source d)"
  shows "dec_state d \<noteq> EXTERNAL_PRESUMED"
proof (cases "selected_claim_id d")
  case None
  obtain s p where sp: "segment_decision s (claims_of claims s) p = Inr d"
    using source_decisions_member [OF assms(1,2)] by blast
  have "c \<in> set (claims_of claims s)"
    using assms(4,6) segment_decision_source [OF sp] by simp
  then have "\<exists>c \<in> set (claims_of claims s). claim_state c = CUSTODY_SUSPENSE" using assms(5) by blast
  with sp None show ?thesis
    by (cases p) (auto simp: segment_decision_def decide_contenders_def plain_decision_def winner_decision_def
        make_slice_Inr result_simps Let_def split: if_splits list.splits)
next
  case (Some cid)
  then obtain w where "wins claims w d" using source_decision_wins [OF assms(1,2)] by auto
  then have "dec_state d = claim_state w" "w \<in> set claims"
    using winner_fields by (auto simp: wins_def)
  then show ?thesis using assms(3) valid_claim_state [of w] by (auto simp: claim_states_def)
qed

section \<open>Bundles are accepted as a whole\<close>

text \<open>Accepted claims come in whole bundles and carry unique ids; the sources of every
  rejected bundle are noted.\<close>

definition bundles_whole :: "observation_index \<Rightarrow> quantity_claim list \<Rightarrow> (string \<times> quantity_claim list) list
    \<Rightarrow> bundle_state \<Rightarrow> bool" where
  "bundles_whole by_hash ncl bs = (\<lambda>(valid, errors, invalid).
     (\<forall>(b, ms) \<in> set bs. bundle_reasons by_hash ncl ms = [] \<longrightarrow> set ms \<subseteq> set valid)
     \<and> (\<forall>(b, ms) \<in> set bs. bundle_reasons by_hash ncl ms \<noteq> [] \<longrightarrow>
          set (bundle_source_hashes by_hash ms) \<subseteq> fst ` set invalid)
     \<and> (\<forall>c \<in> set valid. \<exists>(b, ms) \<in> set bs. c \<in> set ms \<and> bundle_reasons by_hash ncl ms = []))"

lemma note_invalid_source_dom:
  "fst ` set (note_invalid_source p h d) = insert h (fst ` set d)"
proof (cases "map_of d h")
  case None
  then show ?thesis by (auto simp: note_invalid_source_def dom_update)
next
  case (Some q)
  then have "h \<in> fst ` set d" by (force dest: map_of_SomeD)
  with Some show ?thesis by (auto simp: note_invalid_source_def dom_update)
qed

lemma fold_note_invalid_dom:
  "fst ` set (fold (note_invalid_source p) hs d) = set hs \<union> fst ` set d"
  by (induction hs arbitrary: d) (auto simp: note_invalid_source_dom)

lemma validate_bundle_whole:
  assumes "bundles_whole by_hash ncl bs st"
  shows "bundles_whole by_hash ncl (bs @ [b]) (validate_bundle by_hash ncl b st)"
proof -
  obtain bid members where b: "b = (bid, members)" by (cases b)
  obtain valid errors invalid where st: "st = (valid, errors, invalid)" by (cases st) auto
  show ?thesis
    using assms
    by (auto simp: b st bundles_whole_def validate_bundle_def fold_note_invalid_dom)
qed

lemma fold_validate_whole:
  "bundles_whole by_hash ncl done st \<Longrightarrow>
     bundles_whole by_hash ncl (done @ bs) (fold (validate_bundle by_hash ncl) bs st)"
proof (induction bs arbitrary: "done" st)
  case (Cons b bs)
  then show ?case using Cons.IH [OF validate_bundle_whole [OF Cons.prems, of b]] by simp
qed simp

lemma bundle_pass_whole:
  "bundles_whole (index_of obs) (sort_key claim_order claims)
     (sort_key fst (group_by bundle_key (sort_key claim_order claims))) (bundle_pass obs claims)"
proof -
  have "bundles_whole (index_of obs) (sort_key claim_order claims) [] ([], [], [])"
    by (simp add: bundles_whole_def)
  from fold_validate_whole [OF this] show ?thesis by simp
qed

abbreviation accepted_claims :: "quantity_observation list \<Rightarrow> quantity_claim list \<Rightarrow> quantity_claim list" where
  "accepted_claims obs claims \<equiv> fst (bundle_pass obs claims)"

abbreviation bundle_of :: "quantity_claim list \<Rightarrow> quantity_claim \<Rightarrow> quantity_claim list" where
  "bundle_of claims c \<equiv> filter (\<lambda>c'. bundle_key c' = bundle_key c) (sort_key claim_order claims)"

lemma accepted_iff:
  "c \<in> set (accepted_claims obs claims) \<longleftrightarrow>
     c \<in> set claims \<and> bundle_reasons (index_of obs) (sort_key claim_order claims) (bundle_of claims c) = []"
proof -
  let ?ncl = "sort_key claim_order claims"
  obtain valid errors bad where st: "bundle_pass obs claims = (valid, errors, bad)"
    by (cases "bundle_pass obs claims") auto
  note whole = bundle_pass_whole [of obs claims, unfolded st bundles_whole_def, simplified]
  show ?thesis
  proof
    assume "c \<in> set (accepted_claims obs claims)"
    then obtain b ms where "(b, ms) \<in> set (group_by bundle_key ?ncl)" "c \<in> set ms"
      "bundle_reasons (index_of obs) ?ncl ms = []"
      using whole by (force simp: st)
    then show "c \<in> set claims \<and> bundle_reasons (index_of obs) ?ncl (bundle_of claims c) = []"
      by (auto simp: group_by_member)
  next
    assume c: "c \<in> set claims \<and> bundle_reasons (index_of obs) ?ncl (bundle_of claims c) = []"
    then have "(bundle_key c, bundle_of claims c) \<in> set (group_by bundle_key ?ncl)"
      by (auto simp: group_by_member)
    with whole c show "c \<in> set (accepted_claims obs claims)" by (force simp: st)
  qed
qed

lemma rejected_source_noted:
  assumes "c \<in> set claims" and "c \<notin> set (accepted_claims obs claims)"
    and "h \<in> set (claim_source_hashes (index_of obs) c)"
  shows "h \<in> fst ` set (snd (snd (bundle_pass obs claims)))"
proof -
  let ?ncl = "sort_key claim_order claims"
  obtain valid errors bad where st: "bundle_pass obs claims = (valid, errors, bad)"
    by (cases "bundle_pass obs claims") auto
  note whole = bundle_pass_whole [of obs claims, unfolded st bundles_whole_def, simplified]
  have "(bundle_key c, bundle_of claims c) \<in> set (group_by bundle_key ?ncl)"
    using assms(1) by (auto simp: group_by_member)
  moreover have "bundle_reasons (index_of obs) ?ncl (bundle_of claims c) \<noteq> []"
    using assms(1,2) by (simp add: accepted_iff)
  moreover have "h \<in> set (bundle_source_hashes (index_of obs) (bundle_of claims c))"
    using assms(1,3) by (auto simp: bundle_source_hashes_def)
  ultimately show ?thesis using whole by (force simp: st)
qed

lemma count_list_two:
  "x \<in> set xs \<Longrightarrow> y \<in> set xs \<Longrightarrow> f x = f y \<Longrightarrow> x \<noteq> y \<Longrightarrow> 1 < count_list (map f xs) (f x)"
proof (induction xs)
  case (Cons z zs)
  have pos: "0 < count_list (map f zs) (f v)" if "v \<in> set zs" for v
    using that by (metis count_list_0_iff image_eqI image_set neq0_conv)
  consider "x \<in> set zs" "y \<in> set zs" | "x = z" "y \<in> set zs" | "y = z" "x \<in> set zs"
    using Cons.prems by auto
  then show ?case
  proof cases
    case 1
    with Cons.IH Cons.prems show ?thesis by (auto intro: less_trans)
  next
    case 2
    with pos [of y] Cons.prems(3) show ?thesis by simp
  next
    case 3
    with pos [of x] Cons.prems(3) show ?thesis by simp
  qed
qed simp

lemma accepted_id_unique:
  assumes "c \<in> set (accepted_claims obs claims)" and "c' \<in> set claims" and "claim_id c' = claim_id c"
  shows "c' = c"
proof (rule ccontr)
  assume "c' \<noteq> c"
  moreover have c: "c \<in> set claims" using assms(1) by (simp add: accepted_iff)
  ultimately have "1 < count_list (map claim_id (sort_key claim_order claims)) (claim_id c)"
    using assms(2,3) count_list_two [of c "sort_key claim_order claims" c' claim_id] by simp
  then have "bundle_reasons (index_of obs) (sort_key claim_order claims) (bundle_of claims c) \<noteq> []"
    using c by (auto simp: bundle_reasons_def)
  with assms(1) show False by (simp add: accepted_iff)
qed

lemma accepted_bundle_mate:
  assumes "c \<in> set (accepted_claims obs claims)" and "c' \<in> set claims"
    and "effective_bundle_id c = Some b" and "effective_bundle_id c' = Some b" and "b \<noteq> ''''"
  shows "c' \<in> set (accepted_claims obs claims)"
proof -
  have "bundle_key c' = bundle_key c" using assms(3-5) by (simp add: bundle_key_def)
  with assms(1,2) show ?thesis by (simp add: accepted_iff)
qed

text \<open>The claims that reach arbitration: the accepted ones and one suspense claim for each
  source of a rejected bundle.\<close>

lemma validated_inputs_claims:
  assumes "validated_inputs obs claims = Inr (ix, ncl, errs)"
  shows "set ncl = set (accepted_claims obs claims)
      \<union> {c. \<exists>hp \<in> set (snd (snd (bundle_pass obs claims))). malformed_claim (index_of obs) hp = Inr c}"
    and "\<forall>hp \<in> set (snd (snd (bundle_pass obs claims))). \<exists>c \<in> set ncl. malformed_claim (index_of obs) hp = Inr c"
proof -
  obtain valid errors bad where st: "bundle_pass obs claims = (valid, errors, bad)"
    by (cases "bundle_pass obs claims") auto
  have ix: "ix = index_of obs" "index_observations obs [] = Inr (index_of obs)"
    using assms by (auto simp: validated_inputs_def result_simps index_observations_result Let_def
        split: prod.splits)
  then obtain mal where mal: "map_res (malformed_claim (index_of obs)) (sort_key fst bad) = Inr mal"
    and ncl: "ncl = sort_key claim_order (valid @ mal)"
    using assms st by (auto simp: validated_inputs_def result_simps Let_def)
  note all = mal [unfolded map_res_Inr_iff]
  have each: "\<exists>c \<in> set mal. malformed_claim (index_of obs) hp = Inr c" if "hp \<in> set bad" for hp
    using list_all2_left_member [OF all, of hp] that by simp
  have "set mal = {c. \<exists>hp \<in> set bad. malformed_claim (index_of obs) hp = Inr c}"
    using each list_all2_right_member [OF all] by fastforce
  then show "set ncl = set (accepted_claims obs claims)
      \<union> {c. \<exists>hp \<in> set (snd (snd (bundle_pass obs claims))). malformed_claim (index_of obs) hp = Inr c}"
    by (simp add: ncl st)
  show "\<forall>hp \<in> set (snd (snd (bundle_pass obs claims))). \<exists>c \<in> set ncl. malformed_claim (index_of obs) hp = Inr c"
    using each by (auto simp: ncl st)
qed

end
