(* ===== verification/Fail_Closed.thy ===== *)
theory Fail_Closed
  imports Arbitration
begin

text \<open>
  The two passes that fail closed after source arbitration
  (\<open>_fail_closed_destination_overlaps\<close> and \<open>_fail_closed_atomic_bundles\<close> of
  \<open>kassiber/core/custody_quantity.py\<close>): no two decisions may consume the same inbound
  msat, and a bundle whose claims were not all selected in full is withdrawn as a whole.
\<close>

section \<open>Destination overlaps\<close>

text \<open>\<open>dataclasses.replace(decision, state=CONFLICTING, ...)\<close>\<close>

definition conflict_decision :: "string \<Rightarrow> string list \<Rightarrow> arbitrated_slice \<Rightarrow> arbitrated_slice" where
  "conflict_decision reason contenders d =
     d\<lparr>dec_state := CONFLICTING, dec_reason := reason, selected_claim_id := None,
       dec_target := None, dec_destination_kind := None, dec_external_economic_subtype := None,
       contender_claim_ids := contenders\<rparr>"

text \<open>A decision with a target, its position in the decision list and that target.\<close>

type_synonym targeted = "nat \<times> arbitrated_slice \<times> quantity_slice"

abbreviation tgt :: "targeted \<Rightarrow> quantity_slice" where "tgt x \<equiv> snd (snd x)"

definition targeted_decisions :: "arbitrated_slice list \<Rightarrow> targeted list" where
  "targeted_decisions decisions =
     concat (map (\<lambda>(i, d). case dec_target d of None \<Rightarrow> [] | Some t \<Rightarrow> [(i, d, t)])
                 (List.enumerate 0 decisions))"

definition cluster_contenders :: "targeted list \<Rightarrow> string list" where
  "cluster_contenders cluster =
     remdups (concat (map (\<lambda>(_, d, _). case selected_claim_id d of
                              None \<Rightarrow> [] | Some s \<Rightarrow> if s = '''' then [] else [s]) cluster))"

definition mark_cluster :: "targeted list \<Rightarrow> (nat, string list) dict \<Rightarrow> (nat, string list) dict" where
  "mark_cluster cluster conflicts =
     (if length cluster < 2 then conflicts
      else fold (\<lambda>(i, _, _) d. AList.update i (remdups (dict_get d i [] @ cluster_contenders cluster)) d)
             cluster conflicts)"

fun cluster_targets ::
  "targeted list \<Rightarrow> targeted list \<Rightarrow> int \<Rightarrow> (nat, string list) dict \<Rightarrow> (nat, string list) dict" where
  "cluster_targets [] cluster cluster_end conflicts = mark_cluster cluster conflicts"
| "cluster_targets (x # xs) cluster cluster_end conflicts =
     (let flush = (cluster \<noteq> [] \<and> cluster_end \<le> start_msat (tgt x));
          conflicts' = (if flush then mark_cluster cluster conflicts else conflicts);
          cluster' = (if flush then [] else cluster) @ [x];
          cluster_end' = max (if 1 < length cluster' then cluster_end else - 1) (end_msat (tgt x))
      in cluster_targets xs cluster' cluster_end' conflicts')"

definition destination_conflicts :: "arbitrated_slice list \<Rightarrow> (nat, string list) dict" where
  "destination_conflicts decisions =
     fold (\<lambda>(_, targeted) conflicts.
             cluster_targets (sort_key (\<lambda>x. (start_msat (tgt x), end_msat (tgt x))) targeted)
               [] (- 1) conflicts)
          (group_by (\<lambda>x. observation_hash (tgt x)) (targeted_decisions decisions)) []"

definition fail_closed_destination_overlaps :: "arbitrated_slice list \<Rightarrow> arbitrated_slice list" where
  "fail_closed_destination_overlaps decisions =
     (let conflicts = destination_conflicts decisions
      in map (\<lambda>(i, d). let ids = dict_get conflicts i [] in
                if ids \<noteq> []
                then conflict_decision ''destination_slice_claimed_twice'' (sort ids) d
                else d)
             (List.enumerate 0 decisions))"

section \<open>Atomic bundles\<close>

record selected_totals =
  source_amount_msat :: int
  target_amount_msat :: int
  has_target :: bool

definition add_selected ::
  "arbitrated_slice \<Rightarrow> (string, selected_totals) dict \<Rightarrow> (string, selected_totals) dict" where
  "add_selected d totals =
     (case selected_claim_id d of
        None \<Rightarrow> totals
      | Some cid \<Rightarrow>
          (let selected = dict_get totals cid
                 \<lparr>source_amount_msat = 0, target_amount_msat = 0, has_target = False\<rparr>;
               selected1 = selected\<lparr>source_amount_msat :=
                 source_amount_msat selected + slice_amount (dec_source d)\<rparr>;
               selected2 = (case dec_target d of
                   None \<Rightarrow> selected1
                 | Some t \<Rightarrow> selected1\<lparr>has_target := True,
                     target_amount_msat := target_amount_msat selected1 + slice_amount t\<rparr>)
           in AList.update cid selected2 totals))"

definition selected_claim_totals :: "arbitrated_slice list \<Rightarrow> (string, selected_totals) dict" where
  "selected_claim_totals decisions = fold add_selected decisions []"

definition claim_fully_selected :: "quantity_claim \<Rightarrow> (string, selected_totals) dict \<Rightarrow> bool" where
  "claim_fully_selected c totals =
     (case map_of totals (claim_id c) of
        None \<Rightarrow> False
      | Some selected \<Rightarrow>
          if source_amount_msat selected \<noteq> slice_amount (claim_source c) then False
          else (case claim_target c of
                  None \<Rightarrow> \<not> has_target selected
                | Some t \<Rightarrow> target_amount_msat selected = slice_amount t))"

definition atomic_bundles :: "quantity_claim list \<Rightarrow> (string, quantity_claim list) dict" where
  "atomic_bundles claims =
     group_by (\<lambda>c. case effective_bundle_id c of Some b \<Rightarrow> b | None \<Rightarrow> '''')
       (filter (\<lambda>c. effective_bundle_id c \<noteq> None) claims)"

definition invalid_bundles :: "arbitrated_slice list \<Rightarrow> quantity_claim list \<Rightarrow> string list" where
  "invalid_bundles decisions claims =
     map fst (filter (\<lambda>(_, members).
       \<not> list_all (\<lambda>m. claim_fully_selected m (selected_claim_totals decisions)) members)
       (atomic_bundles claims))"

definition claim_to_bundle :: "string list \<Rightarrow> quantity_claim list \<Rightarrow> (string, string) dict" where
  "claim_to_bundle invalid claims =
     fold (\<lambda>c d. case effective_bundle_id c of
                   None \<Rightarrow> d
                 | Some b \<Rightarrow> if b \<in> set invalid then AList.update (claim_id c) b d else d) claims []"

definition fail_closed_atomic_bundles ::
  "arbitrated_slice list \<Rightarrow> quantity_claim list \<Rightarrow> arbitrated_slice list" where
  "fail_closed_atomic_bundles decisions claims =
     (let bundles = atomic_bundles claims;
          invalid = invalid_bundles decisions claims
      in if invalid = [] then decisions
         else map (\<lambda>d.
           case map_of (claim_to_bundle invalid claims) (str_or_empty (selected_claim_id d)) of
             None \<Rightarrow> d
           | Some b \<Rightarrow>
               conflict_decision ''atomic_bundle_incomplete''
                 (sort (remdups (contender_claim_ids d
                          @ map claim_id (dict_get bundles b [])))) d) decisions)"

section \<open>The contract of a fail-closed pass\<close>

text \<open>A decision is left alone or withdrawn as conflicting on the same source slice.\<close>

definition weakened :: "arbitrated_slice \<Rightarrow> arbitrated_slice \<Rightarrow> bool" where
  "weakened d d' \<longleftrightarrow> d' = d \<or> (\<exists>reason ids. d' = conflict_decision reason ids d)"

lemma weakened_source: "weakened d d' \<Longrightarrow> dec_source d' = dec_source d"
  by (auto simp: weakened_def conflict_decision_def)

lemma weakened_kept: "weakened d d' \<Longrightarrow> dec_target d' \<noteq> None \<or> finalized d' \<Longrightarrow> d' = d"
  by (auto simp: weakened_def conflict_decision_def finalized_def finalized_states_def)

lemma weakened_selected: "weakened d d' \<Longrightarrow> selected_claim_id d' \<noteq> None \<Longrightarrow> d' = d"
  by (auto simp: weakened_def conflict_decision_def)

lemma weakened_ok: "weakened d d' \<Longrightarrow> decision_ok by_hash d \<Longrightarrow> decision_ok by_hash d'"
  by (auto simp: weakened_def conflict_decision_def decision_ok_def postable_def)

definition overlap :: "quantity_slice \<Rightarrow> quantity_slice \<Rightarrow> bool" where
  "overlap t u \<longleftrightarrow> observation_hash t = observation_hash u
     \<and> start_msat t < end_msat u \<and> start_msat u < end_msat t"

definition targets_disjoint :: "arbitrated_slice list \<Rightarrow> bool" where
  "targets_disjoint ds \<longleftrightarrow> (\<forall>i < length ds. \<forall>j < length ds. i \<noteq> j \<longrightarrow>
     (\<forall>t u. dec_target (ds ! i) = Some t \<longrightarrow> dec_target (ds ! j) = Some u \<longrightarrow> \<not> overlap t u))"

lemma decided_amount_cong:
  "map dec_source ds = map dec_source ds' \<Longrightarrow> decided_amount h ds = decided_amount h ds'"
proof (induction ds arbitrary: ds')
  case (Cons d ds)
  then obtain d' ds'' where "ds' = d' # ds''" "dec_source d' = dec_source d"
    "map dec_source ds = map dec_source ds''"
    by (cases ds') auto
  with Cons.IH show ?case by simp
qed simp

locale fail_closed_pass =
  fixes pass :: "arbitrated_slice list \<Rightarrow> arbitrated_slice list"
  assumes pass_weakens: "list_all2 weakened ds (pass ds)"
begin

lemma pass_length: "length (pass ds) = length ds"
  using pass_weakens [of ds] by (simp add: list_all2_lengthD)

lemma pass_nth: "i < length ds \<Longrightarrow> weakened (ds ! i) (pass ds ! i)"
  using pass_weakens [of ds] by (simp add: list_all2_conv_all_nth)

lemma pass_sources: "map dec_source (pass ds) = map dec_source ds"
  by (rule nth_equalityI) (simp_all add: pass_length weakened_source [OF pass_nth])

lemma pass_covering:
  assumes "covering obs ds"
  shows "covering obs (pass ds)"
proof -
  have "decision_ok (index_of obs) d'" if "d' \<in> set (pass ds)" for d'
    using list_all2_right_member [OF pass_weakens that] assms weakened_ok
    by (auto simp: covering_def)
  moreover have "decided_amount h (pass ds) = decided_amount h ds" for h
    by (rule decided_amount_cong) (rule pass_sources)
  ultimately show ?thesis using assms by (simp add: covering_def)
qed

lemma pass_tiling: "tiling obs ds \<Longrightarrow> tiling obs (pass ds)"
  by (simp add: tiling_def decided_times_def pass_sources)

lemma pass_finalized:
  assumes "d \<in> set (pass ds)" and "finalized d"
  shows "d \<in> set ds"
  using list_all2_right_member [OF pass_weakens assms(1)] weakened_kept assms(2) by blast

lemma pass_selected:
  assumes "d \<in> set (pass ds)" and "selected_claim_id d = Some cid"
  shows "d \<in> set ds"
  using list_all2_right_member [OF pass_weakens assms(1)] weakened_selected assms(2) by fastforce

lemma pass_disjoint:
  assumes "targets_disjoint ds"
  shows "targets_disjoint (pass ds)"
proof -
  have "pass ds ! i = ds ! i" if "i < length ds" "dec_target (pass ds ! i) = Some t" for i t
    using weakened_kept [OF pass_nth [OF that(1)]] that(2) by simp
  then show ?thesis
    using assms unfolding targets_disjoint_def pass_length by metis
qed

end

lemma list_all2_enumerate_map:
  assumes "\<And>i d. P d (f (i, d))"
  shows "list_all2 P ds (map f (List.enumerate n ds))"
  using assms by (induction ds arbitrary: n) auto

interpretation overlap_pass: fail_closed_pass fail_closed_destination_overlaps
proof
  show "list_all2 weakened ds (fail_closed_destination_overlaps ds)" for ds
    unfolding fail_closed_destination_overlaps_def Let_def
    by (rule list_all2_enumerate_map) (auto simp: weakened_def)
qed

interpretation bundle_pass: fail_closed_pass "\<lambda>ds. fail_closed_atomic_bundles ds claims" for claims
proof
  show "list_all2 weakened ds (fail_closed_atomic_bundles ds claims)" for ds
    by (auto simp: fail_closed_atomic_bundles_def Let_def weakened_def list_all2_map2
        list_all2_same split: option.splits)
qed

section \<open>The sweep marks exactly the overlapping targets\<close>

definition marked :: "(nat, string list) dict \<Rightarrow> nat \<Rightarrow> bool" where
  "marked conflicts i \<longleftrightarrow> dict_get conflicts i [] \<noteq> []"

definition entry_ok :: "targeted \<Rightarrow> bool" where
  "entry_ok x \<longleftrightarrow> valid_slice (tgt x) \<and> selected_claim_id (fst (snd x)) \<noteq> None
     \<and> selected_claim_id (fst (snd x)) \<noteq> Some ''''"

lemma cluster_contenders_nonempty:
  assumes "\<forall>x \<in> set cluster. entry_ok x" and "cluster \<noteq> []"
  shows "cluster_contenders cluster \<noteq> []"
proof -
  obtain i d t rest where c: "cluster = (i, d, t) # rest"
    using assms(2) by (cases cluster) auto
  with assms(1) obtain s where "selected_claim_id d = Some s" "s \<noteq> ''''"
    by (auto simp: entry_ok_def)
  then have "s \<in> set (cluster_contenders cluster)"
    by (simp add: cluster_contenders_def c)
  then show ?thesis by auto
qed

lemma marked_fold_update:
  "ids \<noteq> [] \<Longrightarrow>
     marked (fold (\<lambda>(i, _, _) d. AList.update i (remdups (dict_get d i [] @ ids)) d) xs conflicts) i
     \<longleftrightarrow> marked conflicts i \<or> i \<in> fst ` set xs"
  by (induction xs arbitrary: conflicts) (auto simp: marked_def dict_get_update split: if_splits)

lemma marked_mark_cluster:
  assumes "\<forall>x \<in> set cluster. entry_ok x"
  shows "marked (mark_cluster cluster conflicts) i
    \<longleftrightarrow> marked conflicts i \<or> (2 \<le> length cluster \<and> i \<in> fst ` set cluster)"
proof (cases "length cluster < 2")
  case True
  then show ?thesis by (simp add: mark_cluster_def)
next
  case False
  then have "cluster \<noteq> []" by auto
  with assms False show ?thesis
    by (simp add: mark_cluster_def marked_fold_update cluster_contenders_nonempty)
qed

text \<open>Some other entry of the list meets the target of \<open>x\<close>.\<close>

definition meets :: "targeted list \<Rightarrow> targeted \<Rightarrow> bool" where
  "meets xs x \<longleftrightarrow> (\<exists>y \<in> set xs. y \<noteq> x \<and> overlap (tgt x) (tgt y))"

text \<open>
  The running cluster: its latest end is the cluster end, and as soon as it has two
  members each of them meets another one, because a member joins only while it starts
  before the latest end.
\<close>

definition cluster_inv :: "targeted list \<Rightarrow> int \<Rightarrow> bool" where
  "cluster_inv cl ce \<longleftrightarrow>
     (cl \<noteq> [] \<longrightarrow> (\<forall>x \<in> set cl. end_msat (tgt x) \<le> ce) \<and> (\<exists>x \<in> set cl. end_msat (tgt x) = ce))
     \<and> (2 \<le> length cl \<longrightarrow> (\<forall>x \<in> set cl. meets cl x))"

lemma cluster_inv_single: "valid_slice (tgt x) \<Longrightarrow> cluster_inv [x] (max (- 1) (end_msat (tgt x)))"
  by (auto simp: cluster_inv_def valid_slice_def)

lemma overlap_sym: "overlap t u \<Longrightarrow> overlap u t"
  by (auto simp: overlap_def)

lemma cluster_inv_join:
  assumes inv: "cluster_inv cl ce" and ne: "cl \<noteq> []" and x: "x \<notin> set cl" "start_msat (tgt x) < ce"
    and ok: "\<forall>y \<in> set (x # cl). valid_slice (tgt y) \<and> observation_hash (tgt y) = h"
    and le: "\<forall>y \<in> set cl. start_msat (tgt y) \<le> start_msat (tgt x)"
  shows "cluster_inv (cl @ [x]) (max ce (end_msat (tgt x)))"
proof -
  obtain y where y: "y \<in> set cl" "end_msat (tgt y) = ce"
    using inv ne by (auto simp: cluster_inv_def)
  have xy: "overlap (tgt x) (tgt y)"
    using ok le x y by (auto simp: overlap_def valid_slice_def)
  have "meets (cl @ [x]) z" if "z \<in> set (cl @ [x])" for z
  proof -
    consider "z = x" | "z = y" | "z \<in> set cl" "z \<noteq> y"
      using \<open>z \<in> set (cl @ [x])\<close> by auto
    then show ?thesis
    proof cases
      case 1
      with xy y x show ?thesis by (auto simp: meets_def)
    next
      case 2
      with overlap_sym [OF xy] x y show ?thesis by (auto simp: meets_def)
    next
      case 3
      then have "2 \<le> length cl"
        using y(1) by (cases cl; cases "tl cl") auto
      with inv 3 show ?thesis by (auto simp: cluster_inv_def meets_def)
    qed
  qed
  moreover have "\<exists>z \<in> set (cl @ [x]). end_msat (tgt z) = max ce (end_msat (tgt x))"
    using y by (cases "end_msat (tgt x) \<le> ce") (auto simp: max_def)
  ultimately show ?thesis
    using inv ne by (auto simp: cluster_inv_def)
qed

lemma cluster_targets_marked:
  assumes "cluster_inv cl ce" and "distinct (cl @ xs)" and "\<forall>x \<in> set (cl @ xs). entry_ok x"
    and "\<forall>x \<in> set (cl @ xs). observation_hash (tgt x) = h"
    and "sorted (map (\<lambda>x. start_msat (tgt x)) (cl @ xs))"
  shows "marked (cluster_targets xs cl ce conflicts) i
    \<longleftrightarrow> marked conflicts i \<or> (\<exists>x \<in> set (cl @ xs). fst x = i \<and> meets (cl @ xs) x)"
  using assms
proof (induction xs arbitrary: cl ce conflicts)
  case Nil
  have "2 \<le> length cl \<and> i \<in> fst ` set cl \<longleftrightarrow> (\<exists>x \<in> set cl. fst x = i \<and> meets cl x)"
  proof
    assume "2 \<le> length cl \<and> i \<in> fst ` set cl"
    with Nil.prems(1) show "\<exists>x \<in> set cl. fst x = i \<and> meets cl x"
      by (auto simp: cluster_inv_def)
  next
    assume "\<exists>x \<in> set cl. fst x = i \<and> meets cl x"
    then obtain x y where "x \<in> set cl" "y \<in> set cl" "y \<noteq> x" "fst x = i"
      unfolding meets_def by blast
    then show "2 \<le> length cl \<and> i \<in> fst ` set cl"
      by (cases cl; cases "tl cl") auto
  qed
  with Nil.prems(3) show ?case by (simp add: marked_mark_cluster)
next
  case (Cons x xs)
  have valid: "valid_slice (tgt x)" using Cons.prems(3) by (simp add: entry_ok_def)
  show ?case
  proof (cases "cl \<noteq> [] \<and> ce \<le> start_msat (tgt x)")
    case True
    have apart: "\<not> overlap (tgt y) (tgt z)" "\<not> overlap (tgt z) (tgt y)"
      if "y \<in> set cl" "z \<in> set (x # xs)" for y z
    proof -
      have "start_msat (tgt x) \<le> start_msat (tgt z)"
        using Cons.prems(5) that(2) by (auto simp: sorted_append)
      moreover have "end_msat (tgt y) \<le> ce" using Cons.prems(1) that(1) True by (auto simp: cluster_inv_def)
      ultimately show "\<not> overlap (tgt y) (tgt z)" "\<not> overlap (tgt z) (tgt y)"
        using True by (auto simp: overlap_def)
    qed
    have IH: "marked (cluster_targets xs [x] (max (- 1) (end_msat (tgt x))) (mark_cluster cl conflicts)) i
      \<longleftrightarrow> marked (mark_cluster cl conflicts) i \<or> (\<exists>z \<in> set ([x] @ xs). fst z = i \<and> meets ([x] @ xs) z)"
      using Cons.prems valid
      by (intro Cons.IH) (auto simp: sorted_append intro: cluster_inv_single)
    have "2 \<le> length cl \<and> i \<in> fst ` set cl \<longleftrightarrow> (\<exists>y \<in> set cl. fst y = i \<and> meets (cl @ x # xs) y)"
    proof
      assume "2 \<le> length cl \<and> i \<in> fst ` set cl"
      with Cons.prems(1) show "\<exists>y \<in> set cl. fst y = i \<and> meets (cl @ x # xs) y"
        by (fastforce simp: cluster_inv_def meets_def)
    next
      assume "\<exists>y \<in> set cl. fst y = i \<and> meets (cl @ x # xs) y"
      then obtain y z where "y \<in> set cl" "z \<in> set cl" "z \<noteq> y" "fst y = i"
        using apart unfolding meets_def set_append by blast
      then show "2 \<le> length cl \<and> i \<in> fst ` set cl"
        by (cases cl; cases "tl cl") auto
    qed
    moreover have "meets (cl @ x # xs) z \<longleftrightarrow> meets ([x] @ xs) z" if "z \<in> set (x # xs)" for z
      using apart that unfolding meets_def by (simp only: set_append set_simps) blast
    ultimately show ?thesis
      using True IH Cons.prems(3) by (auto simp: marked_mark_cluster Let_def)
  next
    case False
    let ?ce = "max (if 1 < length (cl @ [x]) then ce else - 1) (end_msat (tgt x))"
    have "cluster_inv (cl @ [x]) ?ce"
    proof (cases "cl = []")
      case True
      with valid show ?thesis by (simp add: cluster_inv_single)
    next
      case ne: False
      with False have "start_msat (tgt x) < ce" by simp
      moreover have "\<forall>y \<in> set cl. start_msat (tgt y) \<le> start_msat (tgt x)"
        using Cons.prems(5) by (auto simp: sorted_append)
      moreover have "\<forall>y \<in> set (x # cl). valid_slice (tgt y) \<and> observation_hash (tgt y) = h"
        using Cons.prems(3,4) by (auto simp: entry_ok_def)
      ultimately show ?thesis
        using cluster_inv_join [OF Cons.prems(1) ne] Cons.prems(2) ne by auto
    qed
    then have "marked (cluster_targets xs (cl @ [x]) ?ce conflicts) i
      \<longleftrightarrow> marked conflicts i \<or> (\<exists>z \<in> set ((cl @ [x]) @ xs). fst z = i \<and> meets ((cl @ [x]) @ xs) z)"
      using Cons.prems by (intro Cons.IH) auto
    moreover have "cluster_targets (x # xs) cl ce conflicts = cluster_targets xs (cl @ [x]) ?ce conflicts"
      using False by (auto simp: Let_def)
    ultimately show ?thesis by simp
  qed
qed

text \<open>Every group is swept on its own; a group holds all targets of one observation.\<close>

lemma sweep_group_marked:
  assumes "distinct xs" and "\<forall>x \<in> set xs. entry_ok x \<and> observation_hash (tgt x) = h"
  shows "marked (cluster_targets (sort_key (\<lambda>x. (start_msat (tgt x), end_msat (tgt x))) xs) [] (- 1) conflicts) i
    \<longleftrightarrow> marked conflicts i \<or> (\<exists>x \<in> set xs. fst x = i \<and> meets xs x)"
proof -
  let ?key = "\<lambda>x. (start_msat (tgt x), end_msat (tgt x))"
  have "sorted (map (\<lambda>x. start_msat (tgt x)) ([] @ sort_key ?key xs))"
    by (simp add: sorted_first_key)
  moreover have "cluster_inv [] (- 1)" by (simp add: cluster_inv_def)
  ultimately have "marked (cluster_targets (sort_key ?key xs) [] (- 1) conflicts) i
    \<longleftrightarrow> marked conflicts i \<or> (\<exists>x \<in> set ([] @ sort_key ?key xs). fst x = i \<and> meets ([] @ sort_key ?key xs) x)"
    using assms by (intro cluster_targets_marked) auto
  then show ?thesis by (simp add: meets_def)
qed

lemma sweep_groups_marked:
  assumes "\<And>h xs. (h, xs) \<in> set gs \<Longrightarrow>
      distinct xs \<and> (\<forall>x \<in> set xs. entry_ok x \<and> observation_hash (tgt x) = h)"
  shows "marked (fold (\<lambda>(_, xs) conflicts.
           cluster_targets (sort_key (\<lambda>x. (start_msat (tgt x), end_msat (tgt x))) xs) [] (- 1) conflicts)
           gs conflicts) i
    \<longleftrightarrow> marked conflicts i \<or> (\<exists>(h, xs) \<in> set gs. \<exists>x \<in> set xs. fst x = i \<and> meets xs x)"
  using assms
proof (induction gs arbitrary: conflicts)
  case (Cons g gs)
  obtain h xs where g: "g = (h, xs)" by (cases g)
  have "distinct xs" "\<forall>x \<in> set xs. entry_ok x \<and> observation_hash (tgt x) = h"
    using Cons.prems [of h xs] g by auto
  note sweep = sweep_group_marked [OF this]
  have rest: "distinct ys \<and> (\<forall>x \<in> set ys. entry_ok x \<and> observation_hash (tgt x) = k)"
    if "(k, ys) \<in> set gs" for k ys
    using Cons.prems [of k ys] that by simp
  show ?case
    by (simp add: g Cons.IH [OF rest] sweep disj_assoc)
qed simp

lemma targeted_member:
  "(i, d, t) \<in> set (targeted_decisions ds)
     \<longleftrightarrow> i < length ds \<and> d = ds ! i \<and> dec_target d = Some t"
  by (force simp: targeted_decisions_def in_set_enumerate_eq split: option.splits)

lemma targeted_distinct: "distinct (targeted_decisions ds)"
proof -
  let ?f = "\<lambda>(i, d). case dec_target d of None \<Rightarrow> [] | Some t \<Rightarrow> [(i, d, t)]"
  have "distinct (concat (map ?f (List.enumerate n ds)))
      \<and> (\<forall>x \<in> set (concat (map ?f (List.enumerate n ds))). n \<le> fst x)" for n
    by (induction ds arbitrary: n) (fastforce split: option.splits)+
  then show ?thesis by (simp add: targeted_decisions_def)
qed

definition overlapped :: "arbitrated_slice list \<Rightarrow> nat \<Rightarrow> bool" where
  "overlapped ds i \<longleftrightarrow> (\<exists>j t u. i < length ds \<and> j < length ds \<and> i \<noteq> j
     \<and> dec_target (ds ! i) = Some t \<and> dec_target (ds ! j) = Some u \<and> overlap t u)"

lemma meets_overlapped:
  "(\<exists>x \<in> set (targeted_decisions ds). fst x = i \<and> meets (targeted_decisions ds) x) \<longleftrightarrow> overlapped ds i"
  (is "?L \<longleftrightarrow> _")
proof
  assume ?L
  then obtain d t j e u where "(i, d, t) \<in> set (targeted_decisions ds)"
    "(j, e, u) \<in> set (targeted_decisions ds)" "(j, e, u) \<noteq> (i, d, t)" "overlap t u"
    by (force simp: meets_def)
  then show "overlapped ds i" unfolding targeted_member overlapped_def by auto
next
  assume "overlapped ds i"
  then obtain j t u where "(i, ds ! i, t) \<in> set (targeted_decisions ds)"
    "(j, ds ! j, u) \<in> set (targeted_decisions ds)" "i \<noteq> j" "overlap t u"
    unfolding targeted_member overlapped_def by auto
  then show ?L by (force simp: meets_def)
qed

text \<open>Decisions whose targets are slice objects of a selected claim, as arbitration makes them.\<close>

definition targets_wf :: "arbitrated_slice list \<Rightarrow> bool" where
  "targets_wf ds \<longleftrightarrow> (\<forall>d \<in> set ds. \<forall>t. dec_target d = Some t \<longrightarrow>
     valid_slice t \<and> selected_claim_id d \<noteq> None \<and> selected_claim_id d \<noteq> Some '''')"

lemma covering_targets_wf: "covering obs ds \<Longrightarrow> targets_wf ds"
  by (fastforce simp: covering_def decision_ok_def target_ok_def targets_wf_def)

lemma destination_conflicts_marked:
  assumes "targets_wf ds"
  shows "marked (destination_conflicts ds) i \<longleftrightarrow> overlapped ds i"
proof -
  let ?T = "targeted_decisions ds"
  let ?gs = "group_by (\<lambda>x. observation_hash (tgt x)) ?T"
  have ok: "entry_ok x" if "x \<in> set ?T" for x
    using assms that by (cases x) (auto simp: targeted_member entry_ok_def targets_wf_def)
  have "distinct xs \<and> (\<forall>x \<in> set xs. entry_ok x \<and> observation_hash (tgt x) = h)"
    if "(h, xs) \<in> set ?gs" for h xs
    using ok that targeted_distinct [of ds] by (auto simp: group_by_member)
  note swept = sweep_groups_marked [OF this]
  have "meets (filter (\<lambda>y. observation_hash (tgt y) = observation_hash (tgt x)) ?T) x \<longleftrightarrow> meets ?T x" for x
    by (simp only: meets_def overlap_def set_filter mem_Collect_eq Bex_def) (rule iff_exI, auto)
  then have "(\<exists>(h, xs) \<in> set ?gs. \<exists>x \<in> set xs. fst x = i \<and> meets xs x)
    \<longleftrightarrow> (\<exists>x \<in> set ?T. fst x = i \<and> meets ?T x)"
    by (simp only: group_by_Bex)
  then show ?thesis
    using swept [where conflicts = "[]" and i = i] by (simp add: destination_conflicts_def marked_def meets_overlapped)
qed

lemma overlaps_nth:
  assumes "targets_wf ds" and "i < length ds"
  shows "fail_closed_destination_overlaps ds ! i =
    (if overlapped ds i
     then conflict_decision ''destination_slice_claimed_twice''
            (sort (dict_get (destination_conflicts ds) i [])) (ds ! i)
     else ds ! i)"
  using assms destination_conflicts_marked [OF assms(1), of i]
  by (auto simp: fail_closed_destination_overlaps_def Let_def nth_enumerate_eq marked_def)

lemma overlaps_disjoint:
  assumes "targets_wf ds"
  shows "targets_disjoint (fail_closed_destination_overlaps ds)"
  unfolding targets_disjoint_def overlap_pass.pass_length
proof (intro allI impI notI)
  fix i j t u
  assume ij: "i < length ds" "j < length ds" "i \<noteq> j"
    and t: "dec_target (fail_closed_destination_overlaps ds ! i) = Some t"
    and u: "dec_target (fail_closed_destination_overlaps ds ! j) = Some u" and o: "overlap t u"
  have "\<not> overlapped ds i" "dec_target (ds ! i) = Some t" "dec_target (ds ! j) = Some u"
    using t u overlaps_nth [OF assms ij(1)] overlaps_nth [OF assms ij(2)]
    by (auto simp: conflict_decision_def split: if_splits)
  then show False using o ij by (auto simp: overlapped_def)
qed

text \<open>
  the destination sweep withdraws exactly the decisions whose inbound slice overlaps
  the slice of another decision: such a decision becomes conflicting without target and
  without selected claim, every other decision is returned unchanged, in place.
\<close>

theorem destination_sweep_exact:
  assumes "targets_wf ds" and "i < length ds"
  shows "if overlapped ds i
    then \<exists>ids. fail_closed_destination_overlaps ds ! i
               = conflict_decision ''destination_slice_claimed_twice'' ids (ds ! i)
    else fail_closed_destination_overlaps ds ! i = ds ! i"
  using overlaps_nth [OF assms] by auto

text \<open>Two decisions whose targets share the msat 5 to 10 of an inbound observation.\<close>

definition sample_overlap :: "arbitrated_slice list" where
  "sample_overlap =
     [(plain_decision \<lparr>observation_hash = ''out1'', start_msat = 0, end_msat = 10\<rparr> INTERNAL_REVIEWED ''r'' [])
        \<lparr>selected_claim_id := Some ''k1'',
         dec_target := Some \<lparr>observation_hash = ''in'', start_msat = 0, end_msat = 10\<rparr>\<rparr>,
      (plain_decision \<lparr>observation_hash = ''out2'', start_msat = 0, end_msat = 10\<rparr> INTERNAL_REVIEWED ''r'' [])
        \<lparr>selected_claim_id := Some ''k2'',
         dec_target := Some \<lparr>observation_hash = ''in'', start_msat = 5, end_msat = 15\<rparr>\<rparr>]"

theorem destination_sweep_exact_witness:
  "dec_target (fail_closed_destination_overlaps sample_overlap ! 1) = None
   \<and> dec_state (fail_closed_destination_overlaps sample_overlap ! 1) = CONFLICTING"
proof -
  have "targets_wf sample_overlap"
    by (simp add: targets_wf_def sample_overlap_def plain_decision_def valid_slice_def)
  moreover have "overlapped sample_overlap 1"
    unfolding overlapped_def
    by (rule exI [of _ 0]) (simp add: sample_overlap_def plain_decision_def overlap_def)
  ultimately show ?thesis
    using destination_sweep_exact [of sample_overlap 1]
    by (auto simp: sample_overlap_def conflict_decision_def)
qed

section \<open>Bundles are selected as a whole or not at all\<close>

definition selects :: "string \<Rightarrow> arbitrated_slice \<Rightarrow> bool" where
  "selects cid d \<longleftrightarrow> selected_claim_id d = Some cid"

definition selected_source :: "string \<Rightarrow> arbitrated_slice list \<Rightarrow> int" where
  "selected_source cid ds = (\<Sum>d \<leftarrow> filter (selects cid) ds. slice_amount (dec_source d))"

definition selected_target :: "string \<Rightarrow> arbitrated_slice list \<Rightarrow> int" where
  "selected_target cid ds = (\<Sum>d \<leftarrow> filter (selects cid) ds.
     case dec_target d of None \<Rightarrow> 0 | Some t \<Rightarrow> slice_amount t)"

abbreviation no_selection :: selected_totals where
  "no_selection \<equiv> \<lparr>source_amount_msat = 0, target_amount_msat = 0, has_target = False\<rparr>"

lemma add_selected_get:
  "map_of (add_selected d totals) cid =
     (if selects cid d then
        Some \<lparr>source_amount_msat = source_amount_msat (dict_get totals cid no_selection)
                + slice_amount (dec_source d),
              target_amount_msat = target_amount_msat (dict_get totals cid no_selection)
                + (case dec_target d of None \<Rightarrow> 0 | Some t \<Rightarrow> slice_amount t),
              has_target = (has_target (dict_get totals cid no_selection) \<or> dec_target d \<noteq> None)\<rparr>
      else map_of totals cid)"
  by (auto simp: add_selected_def selects_def Let_def update_conv' split: option.splits)

lemma add_selected_dict_get:
  "dict_get (add_selected d totals) cid dflt =
     (case map_of (add_selected d totals) cid of None \<Rightarrow> dflt | Some v \<Rightarrow> v)"
  by (simp add: dict_get_def)

lemma selected_claim_totals_step:
  "map_of (fold add_selected ds totals) cid =
     (if filter (selects cid) ds = [] then map_of totals cid
      else let old = dict_get totals cid no_selection
           in Some \<lparr>source_amount_msat = source_amount_msat old + selected_source cid ds,
                    target_amount_msat = target_amount_msat old + selected_target cid ds,
                    has_target = (has_target old
                      \<or> (\<exists>d \<in> set (filter (selects cid) ds). dec_target d \<noteq> None))\<rparr>)"
proof (induction ds arbitrary: totals)
  case (Cons d ds)
  show ?case
    by (cases "selects cid d"; cases "filter (selects cid) ds = []")
      (auto simp: Cons.IH add_selected_get add_selected_dict_get selected_source_def
        selected_target_def Let_def dict_get_def filter_empty_conv)
qed (simp add: selected_source_def)

lemma claim_fully_selected_iff:
  "claim_fully_selected c (selected_claim_totals ds) \<longleftrightarrow>
     (\<exists>d \<in> set ds. selects (claim_id c) d)
     \<and> selected_source (claim_id c) ds = slice_amount (claim_source c)
     \<and> (case claim_target c of
          None \<Rightarrow> \<forall>d \<in> set ds. selects (claim_id c) d \<longrightarrow> dec_target d = None
        | Some t \<Rightarrow> selected_target (claim_id c) ds = slice_amount t)"
  by (auto simp: claim_fully_selected_def selected_claim_totals_def selected_claim_totals_step
      filter_empty_conv Let_def split: option.splits)

lemma claim_fully_selected_cong:
  assumes "filter (selects (claim_id c)) ds' = filter (selects (claim_id c)) ds"
  shows "claim_fully_selected c (selected_claim_totals ds')
     \<longleftrightarrow> claim_fully_selected c (selected_claim_totals ds)"
  using assms
  by (simp add: claim_fully_selected_def selected_claim_totals_def selected_claim_totals_step
      selected_source_def selected_target_def)

lemma claim_to_bundle_get:
  "map_of (fold (\<lambda>c d. case effective_bundle_id c of
                   None \<Rightarrow> d
                 | Some b \<Rightarrow> if b \<in> set invalid then AList.update (claim_id c) b d else d) claims dict) cid
     \<noteq> None \<longleftrightarrow>
   map_of dict cid \<noteq> None
     \<or> (\<exists>c \<in> set claims. claim_id c = cid \<and> (\<exists>b. effective_bundle_id c = Some b \<and> b \<in> set invalid))"
proof (induction claims arbitrary: dict)
  case (Cons c claims)
  show ?case
    by (simp only: fold.simps comp_apply Cons.IH) (auto simp: update_conv' split: option.splits if_splits)
qed simp

lemma claim_to_bundle_dom:
  "map_of (claim_to_bundle invalid claims) cid \<noteq> None \<longleftrightarrow>
     (\<exists>c \<in> set claims. claim_id c = cid \<and> (\<exists>b. effective_bundle_id c = Some b \<and> b \<in> set invalid))"
  by (simp only: claim_to_bundle_def claim_to_bundle_get) simp

lemma atomic_bundles_member:
  "(b, ms) \<in> set (atomic_bundles claims) \<longleftrightarrow>
     ms \<noteq> [] \<and> ms = filter (\<lambda>c. effective_bundle_id c = Some b) claims"
proof -
  have "filter (\<lambda>c. (case effective_bundle_id c of Some b \<Rightarrow> b | None \<Rightarrow> '''') = b)
          (filter (\<lambda>c. effective_bundle_id c \<noteq> None) claims)
      = filter (\<lambda>c. effective_bundle_id c = Some b) claims"
    unfolding filter_filter by (rule filter_cong) auto
  moreover have "(\<exists>c \<in> set (filter (\<lambda>c. effective_bundle_id c \<noteq> None) claims).
      (case effective_bundle_id c of Some b \<Rightarrow> b | None \<Rightarrow> '''') = b)
    \<longleftrightarrow> filter (\<lambda>c. effective_bundle_id c = Some b) claims \<noteq> []"
    by (force simp: filter_empty_conv)
  ultimately show ?thesis
    unfolding atomic_bundles_def group_by_member by auto
qed

lemma invalid_bundles_iff:
  "b \<in> set (invalid_bundles ds claims) \<longleftrightarrow>
     (\<exists>c \<in> set claims. effective_bundle_id c = Some b
        \<and> \<not> claim_fully_selected c (selected_claim_totals ds))"
proof -
  have "b \<in> set (invalid_bundles ds claims) \<longleftrightarrow>
    (\<exists>ms. (b, ms) \<in> set (atomic_bundles claims)
       \<and> (\<exists>c \<in> set ms. \<not> claim_fully_selected c (selected_claim_totals ds)))"
    by (force simp: invalid_bundles_def list_all_iff)
  then show ?thesis
    unfolding atomic_bundles_member by (auto simp: filter_empty_conv)
qed

text \<open>Claims in different bundles have different ids; ids are not empty.\<close>

definition bundle_ids_apart :: "quantity_claim list \<Rightarrow> bool" where
  "bundle_ids_apart claims \<longleftrightarrow> (\<forall>c \<in> set claims. claim_id c \<noteq> ''''
     \<and> (\<forall>c' \<in> set claims. claim_id c' = claim_id c \<longrightarrow> effective_bundle_id c' = effective_bundle_id c))"

text \<open>The claims of an invalid bundle lose every decision, the others keep theirs.\<close>

definition withdrawn :: "arbitrated_slice list \<Rightarrow> quantity_claim list \<Rightarrow> string \<Rightarrow> bool" where
  "withdrawn ds claims cid \<longleftrightarrow> (\<exists>c \<in> set claims. claim_id c = cid
     \<and> (\<exists>b. effective_bundle_id c = Some b \<and> b \<in> set (invalid_bundles ds claims)))"

lemma bundle_pass_selects:
  "filter (selects cid) (fail_closed_atomic_bundles ds claims)
     = (if withdrawn ds claims cid then [] else filter (selects cid) ds)"
proof (cases "invalid_bundles ds claims = []")
  case True
  then show ?thesis by (simp add: fail_closed_atomic_bundles_def withdrawn_def)
next
  case False
  let ?get = "\<lambda>d. map_of (claim_to_bundle (invalid_bundles ds claims) claims)
                    (str_or_empty (selected_claim_id d))"
  have get: "?get d \<noteq> None \<longleftrightarrow> withdrawn ds claims (str_or_empty (selected_claim_id d))" for d
    by (simp only: claim_to_bundle_dom withdrawn_def)
  define f where "f d = (case ?get d of None \<Rightarrow> d
    | Some b \<Rightarrow> conflict_decision ''atomic_bundle_incomplete''
        (sort (remdups (contender_claim_ids d @ map claim_id (dict_get (atomic_bundles claims) b [])))) d)"
    for d
  have pass: "fail_closed_atomic_bundles ds claims = map f ds"
    using False by (simp add: fail_closed_atomic_bundles_def Let_def f_def)
  have step: "selects cid (f d) \<longleftrightarrow> selects cid d \<and> \<not> withdrawn ds claims cid" for d
    using get [of d] by (auto simp: f_def selects_def conflict_decision_def split: option.splits)
  have keep: "f d = d" if "selects cid d" "\<not> withdrawn ds claims cid" for d
    using get [of d] that by (auto simp: f_def selects_def split: option.splits)
  show ?thesis
    unfolding pass using keep by (auto simp: filter_map comp_def step intro!: map_idI)
qed

lemma bundle_pass_all_or_nothing:
  assumes "bundle_ids_apart claims" and "c \<in> set claims" and "c' \<in> set claims"
    and "effective_bundle_id c = Some b" and "effective_bundle_id c' = Some b"
    and "d \<in> set (fail_closed_atomic_bundles ds claims)" and "selects (claim_id c) d"
  shows "claim_fully_selected c' (selected_claim_totals (fail_closed_atomic_bundles ds claims))"
proof -
  have "filter (selects (claim_id c)) (fail_closed_atomic_bundles ds claims) \<noteq> []"
    using assms(6,7) by (auto simp: filter_empty_conv)
  then have "\<not> withdrawn ds claims (claim_id c)" by (auto simp: bundle_pass_selects)
  with assms(2,4) have valid: "b \<notin> set (invalid_bundles ds claims)"
    unfolding withdrawn_def by blast
  with assms(3,5) have "claim_fully_selected c' (selected_claim_totals ds)"
    by (auto simp: invalid_bundles_iff)
  moreover have "\<not> withdrawn ds claims (claim_id c')"
    using valid assms(1,3,5) unfolding withdrawn_def bundle_ids_apart_def by fastforce
  ultimately show ?thesis
    using claim_fully_selected_cong [of c' "fail_closed_atomic_bundles ds claims" ds]
    by (simp add: bundle_pass_selects)
qed

end
