(* ===== verification/Projection.thy ===== *)
theory Projection
  imports Fail_Closed
begin

text \<open>
  Postings and the balanced projection (\<open>_uncovered_inbound_slices\<close>,
  \<open>_build_postings\<close> and \<open>project_quantities\<close> of
  \<open>kassiber/core/custody_quantity.py\<close>), with the proof that the balance assertion at
  the end of the projection can never fire.
\<close>

section \<open>Postings\<close>

fun uncovered_loop ::
  "string \<Rightarrow> int \<Rightarrow> quantity_slice list \<Rightarrow> int \<Rightarrow> quantity_slice list result" where
  "uncovered_loop h cursor [] size_msat =
     (if cursor < size_msat then bind_res (make_slice h cursor size_msat) (\<lambda>s. Inr [s])
      else Inr [])"
| "uncovered_loop h cursor (item # rest) size_msat =
     bind_res (if cursor < start_msat item
               then bind_res (make_slice h cursor (start_msat item)) (\<lambda>s. Inr [s])
               else Inr [])
       (\<lambda>gap. bind_res (uncovered_loop h (end_msat item) rest size_msat) (\<lambda>more. Inr (gap @ more)))"

definition uncovered_inbound_slices ::
  "quantity_observation \<Rightarrow> quantity_slice list \<Rightarrow> quantity_slice list result" where
  "uncovered_inbound_slices ob consumed =
     uncovered_loop (quantity_hash ob) 0 consumed (principal_msat ob)"

definition observed_postings :: "quantity_observation \<Rightarrow> quantity_posting list" where
  "observed_postings ob =
     [\<lparr>posting_id = ''observed:'' @ quantity_hash ob, posting_asset = asset ob,
       location_kind = ''wallet'', location_id = wallet_id ob,
       posting_amount_msat = wallet_delta_msat ob, posting_state = ''observed'',
       posting_observation_hash = Some (quantity_hash ob),
       posting_domain = Some (domain_from_observation ob)\<rparr>]
     @ (if direction ob = ''outbound'' \<and> fee_msat ob \<noteq> 0 then
          [\<lparr>posting_id = ''fee:'' @ quantity_hash ob, posting_asset = asset ob,
            location_kind = ''fee'', location_id = ''network_fee'',
            posting_amount_msat = fee_msat ob, posting_state = EXTERNAL_CONFIRMED,
            posting_observation_hash = Some (quantity_hash ob),
            posting_domain = Some (domain_from_observation ob)\<rparr>]
        else [])"

definition decision_location :: "arbitrated_slice \<Rightarrow> string option" where
  "decision_location d =
     (case dec_destination_kind d of
        Some k \<Rightarrow> Some k
      | None \<Rightarrow>
          if dec_state d = EXTERNAL_CONFIRMED \<or> dec_state d = EXTERNAL_PRESUMED then Some ''external''
          else if dec_state d = CUSTODY_SUSPENSE then Some ''custody_suspense''
          else if dec_state d = CONFLICTING then Some ''conflicting''
          else None)"

definition slice_suffix :: "quantity_slice \<Rightarrow> string" where
  "slice_suffix s = observation_hash s @ '':'' @ int_str (start_msat s) @ '':'' @ int_str (end_msat s)"

definition decision_postings ::
  "observation_index \<Rightarrow> arbitrated_slice \<Rightarrow> quantity_posting list result" where
  "decision_postings by_hash d =
     (case dec_target d of
        Some _ \<Rightarrow> Inr []
      | None \<Rightarrow>
          (case map_of by_hash (observation_hash (dec_source d)) of
             None \<Rightarrow> Inl (KeyError (observation_hash (dec_source d)))
           | Some source \<Rightarrow>
               (case decision_location d of
                  None \<Rightarrow> Inl (ValueError
                    (''internal quantity decision has no observed target: '' @ dec_state d))
                | Some kind \<Rightarrow> Inr
                    [\<lparr>posting_id = ''decision:'' @ slice_suffix (dec_source d),
                      posting_asset = asset source, location_kind = kind,
                      location_id = (case selected_claim_id d of
                          Some s \<Rightarrow> if s = '''' then dec_reason d else s | None \<Rightarrow> dec_reason d),
                      posting_amount_msat = slice_amount (dec_source d),
                      posting_state = dec_state d,
                      posting_observation_hash = Some (quantity_hash source),
                      posting_domain = Some (domain_from_observation source)\<rparr>])))"

definition targets_by_observation :: "arbitrated_slice list \<Rightarrow> (string, quantity_slice list) dict" where
  "targets_by_observation decisions =
     map (\<lambda>(h, targets). (h, sort_key (\<lambda>s. (start_msat s, end_msat s)) targets))
       (group_by observation_hash
         (concat (map (\<lambda>d. case dec_target d of None \<Rightarrow> [] | Some t \<Rightarrow> [t]) decisions)))"

definition origin_posting :: "quantity_observation \<Rightarrow> quantity_slice \<Rightarrow> quantity_posting" where
  "origin_posting ob item =
     \<lparr>posting_id = ''origin:'' @ slice_suffix item, posting_asset = asset ob,
      location_kind = ''external_origin'', location_id = ''unclassified_origin'',
      posting_amount_msat = - slice_amount item, posting_state = ''unclassified_origin'',
      posting_observation_hash = Some (quantity_hash ob),
      posting_domain = Some (domain_from_observation ob)\<rparr>"

definition origin_postings ::
  "(string, quantity_slice list) dict \<Rightarrow> quantity_observation \<Rightarrow> quantity_posting list result" where
  "origin_postings targets ob =
     (if direction ob \<noteq> ''inbound'' then Inr []
      else bind_res (uncovered_inbound_slices ob (dict_get targets (quantity_hash ob) []))
             (\<lambda>items. Inr (map (origin_posting ob) items)))"

definition build_postings ::
  "quantity_observation list \<Rightarrow> arbitrated_slice list \<Rightarrow> quantity_posting list result" where
  "build_postings observations decisions =
     (let by_hash = fold (\<lambda>ob d. AList.update (quantity_hash ob) ob d) observations [];
          observed = concat (map observed_postings (sort_key quantity_hash observations))
      in bind_res (map_res (decision_postings by_hash) decisions) (\<lambda>decided.
         bind_res (map_res (origin_postings (targets_by_observation decisions)) observations) (\<lambda>origins.
           Inr (sort_key posting_id (observed @ concat decided @ concat origins)))))"

section \<open>The projection\<close>

definition decision_order :: "arbitrated_slice \<Rightarrow> string \<times> int \<times> int" where
  "decision_order d = (observation_hash (dec_source d), start_msat (dec_source d), end_msat (dec_source d))"

definition project_quantities ::
  "quantity_observation list \<Rightarrow> quantity_claim list \<Rightarrow> quantity_projection result" where
  "project_quantities observations claims =
     bind_res (validated_inputs observations claims) (\<lambda>(by_hash, normalized_claims, claim_errors).
     bind_res (source_decisions by_hash normalized_claims) (\<lambda>decided.
       let decisions = fail_closed_atomic_bundles (fail_closed_destination_overlaps decided)
                         normalized_claims
       in bind_res (build_postings (map snd by_hash) decisions) (\<lambda>postings.
          let projection =
                \<lparr>proj_observations = sort_key quantity_hash (map snd by_hash),
                 proj_decisions = sort_key decision_order decisions,
                 proj_postings = postings,
                 proj_claim_errors = claim_errors\<rparr>
          in if filter (\<lambda>(_, amount). amount \<noteq> 0) (totals_by_domain (proj_postings projection)) \<noteq> []
             then Inl (AssertionError ''custody quantity projection is unbalanced'')
             else Inr projection)))"

section \<open>Uncovered inbound slices\<close>

lemma uncovered_loop_sum:
  assumes "h \<noteq> ''''" and "0 \<le> cursor" and "cursor \<le> size_msat"
    and "sorted_wrt (\<lambda>a b. end_msat a \<le> start_msat b) items"
    and "\<forall>t \<in> set items. cursor \<le> start_msat t \<and> start_msat t < end_msat t \<and> end_msat t \<le> size_msat"
  shows "\<exists>gaps. uncovered_loop h cursor items size_msat = Inr gaps
    \<and> (\<Sum>g \<leftarrow> gaps. slice_amount g) = size_msat - cursor - (\<Sum>t \<leftarrow> items. slice_amount t)"
  using assms(2-)
proof (induction items arbitrary: cursor)
  case Nil
  with assms(1) show ?case by (auto simp: make_slice_def slice_amount_def)
next
  case (Cons t items)
  have "0 \<le> end_msat t" "end_msat t \<le> size_msat" using Cons.prems by auto
  moreover have "\<forall>u \<in> set items. end_msat t \<le> start_msat u \<and> start_msat u < end_msat u \<and> end_msat u \<le> size_msat"
    using Cons.prems by auto
  ultimately obtain gaps where rest: "uncovered_loop h (end_msat t) items size_msat = Inr gaps"
    and sum: "(\<Sum>g \<leftarrow> gaps. slice_amount g) = size_msat - end_msat t - (\<Sum>u \<leftarrow> items. slice_amount u)"
    using Cons.IH [of "end_msat t"] Cons.prems(3) by auto
  show ?case
    using Cons.prems assms(1) rest sum by (auto simp: make_slice_def slice_amount_def)
qed

abbreviation targets_of :: "arbitrated_slice list \<Rightarrow> quantity_slice list" where
  "targets_of ds \<equiv> concat (map (\<lambda>d. case dec_target d of None \<Rightarrow> [] | Some t \<Rightarrow> [t]) ds)"

lemma targets_disjoint_Cons:
  assumes "targets_disjoint (d # ds)"
  shows "targets_disjoint ds"
    and "dec_target d = Some t \<Longrightarrow> u \<in> set (targets_of ds) \<Longrightarrow> \<not> overlap t u \<and> \<not> overlap u t"
proof -
  show "targets_disjoint ds"
    using assms unfolding targets_disjoint_def by (metis Suc_less_eq length_Cons nat.inject nth_Cons_Suc)
  assume t: "dec_target d = Some t" and "u \<in> set (targets_of ds)"
  then obtain j where "j < length ds" "dec_target (ds ! j) = Some u"
    by (auto simp: in_set_conv_nth split: option.splits)
  then have "\<not> overlap t u"
    using assms [unfolded targets_disjoint_def, rule_format, of 0 "Suc j" t u] t by simp
  then show "\<not> overlap t u \<and> \<not> overlap u t" using overlap_sym by blast
qed

lemma targets_of_apart:
  assumes "targets_disjoint ds" and "targets_wf ds"
  shows "distinct (targets_of ds)
    \<and> (\<forall>t \<in> set (targets_of ds). \<forall>u \<in> set (targets_of ds). t \<noteq> u \<longrightarrow> \<not> overlap t u)"
  using assms
proof (induction ds)
  case (Cons d ds)
  have IH: "distinct (targets_of ds)"
    "\<forall>t \<in> set (targets_of ds). \<forall>u \<in> set (targets_of ds). t \<noteq> u \<longrightarrow> \<not> overlap t u"
    using Cons.IH targets_disjoint_Cons(1) [OF Cons.prems(1)] Cons.prems(2) by (auto simp: targets_wf_def)
  show ?case
  proof (cases "dec_target d")
    case None
    with IH show ?thesis by simp
  next
    case (Some t)
    have "overlap t t"
      using Some Cons.prems(2) by (auto simp: targets_wf_def overlap_def valid_slice_def)
    then have "t \<notin> set (targets_of ds)"
      using targets_disjoint_Cons(2) [OF Cons.prems(1) Some] by blast
    with IH Some targets_disjoint_Cons(2) [OF Cons.prems(1) Some] show ?thesis by auto
  qed
qed simp

lemma sorted_apart_chain:
  assumes "sorted (map start_msat ts)" and "distinct ts"
    and "\<forall>t \<in> set ts. valid_slice t \<and> observation_hash t = h"
    and "\<forall>t \<in> set ts. \<forall>u \<in> set ts. t \<noteq> u \<longrightarrow> \<not> overlap t u"
  shows "sorted_wrt (\<lambda>a b. end_msat a \<le> start_msat b) ts"
  using assms
proof (induction ts)
  case (Cons t ts)
  have "end_msat t \<le> start_msat u" if "u \<in> set ts" for u
  proof -
    have "start_msat t \<le> start_msat u" "t \<noteq> u" using Cons.prems(1,2) that by auto
    moreover have "\<not> overlap t u" using Cons.prems(4) that calculation by auto
    ultimately show ?thesis
      using Cons.prems(3) that by (auto simp: overlap_def valid_slice_def)
  qed
  with Cons show ?case by simp
qed simp

lemma targets_by_observation_get:
  "dict_get (targets_by_observation ds) h []
     = sort_key (\<lambda>s. (start_msat s, end_msat s)) (filter (\<lambda>t. observation_hash t = h) (targets_of ds))"
  by (auto simp: targets_by_observation_def dict_get_def map_of_map map_of_group_by filter_empty_conv)

section \<open>The balance of the postings\<close>

abbreviation ob_key :: "quantity_observation \<Rightarrow> domain_key" where
  "ob_key ob \<equiv> domain_key (domain_from_observation ob)"

text \<open>The observation a hash names in the index.\<close>

definition ob_at :: "quantity_observation list \<Rightarrow> string \<Rightarrow> quantity_observation" where
  "ob_at obs h = (case map_of (index_of obs) h of Some ob \<Rightarrow> ob | None \<Rightarrow> hd obs)"

lemma index_fold_update:
  "distinct (map quantity_hash obs) \<Longrightarrow> quantity_hash ` set obs \<inter> fst ` set d = {} \<Longrightarrow>
     fold (\<lambda>ob d. AList.update (quantity_hash ob) ob d) obs d = d @ index_of obs"
  by (induction obs arbitrary: d) (auto simp: update_fresh)

lemma domain_total_concat: "domain_total k (concat pss) = (\<Sum>ps \<leftarrow> pss. domain_total k ps)"
  by (induction pss) auto

lemma domain_total_sort: "domain_total k (sort_key f ps) = domain_total k ps"
  unfolding domain_total_def by (rule sum_list_sort_key)

lemma observed_total:
  assumes "valid_observation ob"
  shows "domain_total k (observed_postings ob) = (if ob_key ob = k
    then (if direction ob = ''outbound'' then - principal_msat ob else principal_msat ob) else 0)"
  using valid_observation_direction [OF assms]
  by (auto simp: observed_postings_def wallet_delta_outbound wallet_delta_inbound)

lemma decision_postings_total:
  assumes "decision_ok (index_of obs) d"
  shows "\<exists>ps. decision_postings (index_of obs) d = Inr ps \<and> (\<forall>k. domain_total k ps =
    (if ob_key (ob_at obs (observation_hash (dec_source d))) = k \<and> dec_target d = None
     then slice_amount (dec_source d) else 0))"
  using assms
  by (auto simp: decision_ok_def decision_postings_def postable_def decision_location_def ob_at_def
      split: option.splits)

lemma origin_sum:
  "domain_total k (map (origin_posting ob) items)
     = (if ob_key ob = k then - (\<Sum>i \<leftarrow> items. slice_amount i) else 0)"
  by (induction items) (auto simp: origin_posting_def)

lemma origin_postings_total:
  assumes obs: "observations_ok obs" and cov: "covering obs ds" and dis: "targets_disjoint ds"
    and ob: "ob \<in> set obs"
  shows "\<exists>ps. origin_postings (targets_by_observation ds) ob = Inr ps \<and> (\<forall>k. domain_total k ps =
    (if direction ob = ''inbound'' \<and> ob_key ob = k
     then (\<Sum>t \<leftarrow> filter (\<lambda>t. observation_hash t = quantity_hash ob) (targets_of ds). slice_amount t)
          - principal_msat ob else 0))"
proof (cases "direction ob = ''inbound''")
  case True
  let ?T = "filter (\<lambda>t. observation_hash t = quantity_hash ob) (targets_of ds)"
  let ?S = "sort_key (\<lambda>s. (start_msat s, end_msat s)) ?T"
  have valid: "valid_observation ob" using obs ob by (auto simp: observations_ok_def)
  note apart = targets_of_apart [OF dis covering_targets_wf [OF cov]]
  have bound: "valid_slice t \<and> end_msat t \<le> principal_msat ob" if "t \<in> set ?T" for t
  proof -
    obtain d where "d \<in> set ds" "dec_target d = Some t" "observation_hash t = quantity_hash ob"
      using \<open>t \<in> set ?T\<close> by (auto split: option.splits)
    then obtain s where "target_ok (index_of obs) s d t"
      using cov by (auto simp: covering_def decision_ok_def)
    moreover have "map_of (index_of obs) (observation_hash t) = Some ob"
      using ob \<open>observation_hash t = quantity_hash ob\<close> by (simp add: index_of_lookup [OF obs])
    ultimately show ?thesis by (auto simp: target_ok_def)
  qed
  have "sorted_wrt (\<lambda>a b. end_msat a \<le> start_msat b) ?S"
    using apart bound by (intro sorted_apart_chain [where h = "quantity_hash ob"])
      (auto simp: sorted_first_key)
  moreover have "\<forall>t \<in> set ?S. 0 \<le> start_msat t \<and> start_msat t < end_msat t \<and> end_msat t \<le> principal_msat ob"
    using bound by (auto simp: valid_slice_def)
  ultimately obtain gaps where "uncovered_inbound_slices ob ?S = Inr gaps"
    "(\<Sum>g \<leftarrow> gaps. slice_amount g) = principal_msat ob - (\<Sum>t \<leftarrow> ?S. slice_amount t)"
    using uncovered_loop_sum [of "quantity_hash ob" 0 "principal_msat ob" ?S]
      valid_observation_hash [OF valid] valid_observation_principal [OF valid]
    by (auto simp: uncovered_inbound_slices_def)
  with True show ?thesis
    by (simp add: origin_postings_def targets_by_observation_get origin_sum sum_list_sort_key)
next
  case False
  then show ?thesis by (simp add: origin_postings_def)
qed

lemma ob_at_lookup:
  assumes "observations_ok obs" and "map_of (index_of obs) h = Some ob"
  shows "ob_at obs h = ob" and "ob \<in> set obs" and "quantity_hash ob = h"
  using assms index_of_lookup [OF assms(1), of h ob] by (auto simp: ob_at_def)

lemma source_owner:
  assumes "observations_ok obs" and "decision_ok (index_of obs) d"
  shows "ob_at obs (observation_hash (dec_source d)) \<in> set obs
    \<and> quantity_hash (ob_at obs (observation_hash (dec_source d))) = observation_hash (dec_source d)
    \<and> direction (ob_at obs (observation_hash (dec_source d))) = ''outbound''"
  using assms(2) ob_at_lookup [OF assms(1)] by (auto simp only: decision_ok_def)

lemma target_owner:
  assumes "observations_ok obs" and "decision_ok (index_of obs) d" and "dec_target d = Some t"
  shows "ob_at obs (observation_hash t) \<in> set obs
    \<and> quantity_hash (ob_at obs (observation_hash t)) = observation_hash t
    \<and> direction (ob_at obs (observation_hash t)) = ''inbound''
    \<and> slice_amount t = slice_amount (dec_source d)
    \<and> ob_key (ob_at obs (observation_hash t)) = ob_key (ob_at obs (observation_hash (dec_source d)))"
proof -
  obtain s g where s: "map_of (index_of obs) (observation_hash (dec_source d)) = Some s"
    and g: "map_of (index_of obs) (observation_hash t) = Some g" "direction g = ''inbound''"
      "ob_key s = ob_key g" "slice_amount t = slice_amount (dec_source d)"
    using assms(2,3) by (auto simp only: decision_ok_def target_ok_def option.case)
  with ob_at_lookup [OF assms(1) s] ob_at_lookup [OF assms(1) g(1)] show ?thesis by simp
qed

text \<open>
  Sources and targets of the same decision lie in the same domain, so summing the decided
  amounts by source equals summing them by target.
\<close>

lemma decided_by_source:
  assumes "observations_ok obs" and "covering obs ds"
  shows "(\<Sum>ob \<leftarrow> obs. if ob_key ob = k \<and> direction ob = ''outbound'' then principal_msat ob else 0)
    = (\<Sum>d \<leftarrow> ds. if ob_key (ob_at obs (observation_hash (dec_source d))) = k
                 then slice_amount (dec_source d) else 0)"
proof -
  let ?own = "\<lambda>d. ob_at obs (observation_hash (dec_source d))"
  have own: "?own d \<in> set obs \<and> quantity_hash (?own d) = observation_hash (dec_source d)
      \<and> direction (?own d) = ''outbound''" if "d \<in> set ds" for d
    using source_owner [OF assms(1), of d] assms(2) that by (auto simp: covering_def)
  have "(\<Sum>ob \<leftarrow> obs. if ob_key ob = k \<and> direction ob = ''outbound'' then principal_msat ob else 0)
    = (\<Sum>ob \<leftarrow> obs. if ob_key ob = k \<and> direction ob = ''outbound''
         then (\<Sum>d \<leftarrow> filter (\<lambda>d. observation_hash (dec_source d) = quantity_hash ob) ds.
                 slice_amount (dec_source d)) else 0)"
    using assms(2)
    by (intro arg_cong [where f = sum_list] map_cong)
      (auto simp: covering_def decided_amount_def sum_list_filter_if)
  also have "\<dots> = (\<Sum>d \<leftarrow> ds. if ob_key (?own d) = k \<and> direction (?own d) = ''outbound''
      then slice_amount (dec_source d) else 0)"
    using assms(1) own by (intro sum_list_by_owner) (auto simp: observations_ok_def)
  also have "\<dots> = (\<Sum>d \<leftarrow> ds. if ob_key (?own d) = k then slice_amount (dec_source d) else 0)"
    using own by (intro arg_cong [where f = sum_list] map_cong) auto
  finally show ?thesis .
qed

lemma targets_sum:
  "(\<Sum>t \<leftarrow> targets_of ds. (f t :: int)) = (\<Sum>d \<leftarrow> ds. case dec_target d of None \<Rightarrow> 0 | Some t \<Rightarrow> f t)"
  by (induction ds) (auto split: option.splits)

lemma decided_by_target:
  assumes "observations_ok obs" and "covering obs ds"
  shows "(\<Sum>ob \<leftarrow> obs. if ob_key ob = k \<and> direction ob = ''inbound''
      then (\<Sum>t \<leftarrow> filter (\<lambda>t. observation_hash t = quantity_hash ob) (targets_of ds). slice_amount t) else 0)
    = (\<Sum>d \<leftarrow> ds. if ob_key (ob_at obs (observation_hash (dec_source d))) = k \<and> dec_target d \<noteq> None
                 then slice_amount (dec_source d) else 0)"
proof -
  let ?own = "\<lambda>t. ob_at obs (observation_hash t)"
  have d: "?own t \<in> set obs \<and> quantity_hash (?own t) = observation_hash t
      \<and> direction (?own t) = ''inbound'' \<and> slice_amount t = slice_amount (dec_source d)
      \<and> ob_key (?own t) = ob_key (?own (dec_source d))"
    if "d \<in> set ds" "dec_target d = Some t" for d t
    using target_owner [OF assms(1), of d t] assms(2) that by (auto simp: covering_def)
  have "?own t \<in> set obs \<and> quantity_hash (?own t) = observation_hash t" if "t \<in> set (targets_of ds)" for t
    using d that by (auto split: option.splits)
  then have "(\<Sum>ob \<leftarrow> obs. if ob_key ob = k \<and> direction ob = ''inbound''
      then (\<Sum>t \<leftarrow> filter (\<lambda>t. observation_hash t = quantity_hash ob) (targets_of ds). slice_amount t) else 0)
    = (\<Sum>t \<leftarrow> targets_of ds. if ob_key (?own t) = k \<and> direction (?own t) = ''inbound'' then slice_amount t else 0)"
    using assms(1) by (intro sum_list_by_owner) (auto simp: observations_ok_def)
  also have "\<dots> = (\<Sum>d \<leftarrow> ds. if ob_key (?own (dec_source d)) = k \<and> dec_target d \<noteq> None
                 then slice_amount (dec_source d) else 0)"
    unfolding targets_sum
  proof (intro arg_cong [where f = sum_list] map_cong refl)
    fix x assume "x \<in> set ds"
    then show "(case dec_target x of None \<Rightarrow> 0 | Some t \<Rightarrow>
          if ob_key (?own t) = k \<and> direction (?own t) = ''inbound'' then slice_amount t else 0)
      = (if ob_key (?own (dec_source x)) = k \<and> dec_target x \<noteq> None then slice_amount (dec_source x) else 0)"
      by (cases "dec_target x") (simp_all add: d)
  qed
  finally show ?thesis .
qed

lemma list_all2_sum:
  "list_all2 (\<lambda>x ps. domain_total k ps = f x) xs pss \<Longrightarrow> domain_total k (concat pss) = (\<Sum>x \<leftarrow> xs. f x)"
  by (induction rule: list_all2_induct) auto

lemma build_postings_balanced:
  assumes obs: "observations_ok obs" and cov: "covering obs ds" and dis: "targets_disjoint ds"
  shows "\<exists>ps. build_postings obs ds = Inr ps \<and> (\<forall>k. domain_total k ps = 0)"
proof -
  let ?ix = "index_of obs" and ?T = "targets_by_observation ds"
  let ?own = "\<lambda>d. ob_key (ob_at obs (observation_hash (dec_source d)))"
  let ?tsum = "\<lambda>ob. \<Sum>t \<leftarrow> filter (\<lambda>t. observation_hash t = quantity_hash ob) (targets_of ds). slice_amount t"
  let ?dec = "\<lambda>k d. if ?own d = k \<and> dec_target d = None then slice_amount (dec_source d) else 0"
  let ?org = "\<lambda>k ob. if direction ob = ''inbound'' \<and> ob_key ob = k then ?tsum ob - principal_msat ob else 0"
  have ix: "fold (\<lambda>ob d. AList.update (quantity_hash ob) ob d) obs [] = ?ix"
    using obs index_fold_update [of obs "[]"] by (simp add: observations_ok_def)
  have dok: "decision_ok ?ix d" if "d \<in> set ds" for d using cov that by (simp add: covering_def)
  obtain decided where decided: "map_res (decision_postings ?ix) ds = Inr decided"
    "list_all2 (\<lambda>d ps. \<forall>k. domain_total k ps = ?dec k d) ds decided"
    using map_res_choice [where f = "decision_postings ?ix" and xs = ds,
        OF decision_postings_total [OF dok]] by blast
  obtain origins where origins: "map_res (origin_postings ?T) obs = Inr origins"
    "list_all2 (\<lambda>ob ps. \<forall>k. domain_total k ps = ?org k ob) obs origins"
    using map_res_choice [where f = "origin_postings ?T" and xs = obs,
        OF origin_postings_total [OF obs cov dis]] by blast
  let ?obd = "concat (map observed_postings (sort_key quantity_hash obs))"
  let ?ps = "sort_key posting_id (?obd @ concat decided @ concat origins)"
  have "domain_total k ?ps = 0" for k
  proof -
    let ?in = "\<Sum>ob \<leftarrow> obs. if ob_key ob = k \<and> direction ob = ''inbound'' then principal_msat ob else 0"
    have "domain_total k ?obd = ?in
        - (\<Sum>ob \<leftarrow> obs. if ob_key ob = k \<and> direction ob = ''outbound'' then principal_msat ob else 0)"
      unfolding domain_total_concat map_map comp_def sum_list_sort_key
      using obs valid_observation_direction
      by (intro sum_list_split_minus) (auto simp: observed_total observations_ok_def)
    moreover have "domain_total k (concat decided) = (\<Sum>d \<leftarrow> ds. ?dec k d)"
      by (rule list_all2_sum) (rule list_all2_mono [OF decided(2)], erule allE)
    moreover have "domain_total k (concat origins) = (\<Sum>ob \<leftarrow> obs. ?org k ob)"
      by (rule list_all2_sum) (rule list_all2_mono [OF origins(2)], erule allE)
    moreover have "(\<Sum>ob \<leftarrow> obs. ?org k ob)
      = (\<Sum>ob \<leftarrow> obs. if ob_key ob = k \<and> direction ob = ''inbound'' then ?tsum ob else 0) - ?in"
      by (rule sum_list_split_minus) simp
    moreover have "(\<Sum>d \<leftarrow> ds. if ?own d = k then slice_amount (dec_source d) else 0)
      = (\<Sum>d \<leftarrow> ds. ?dec k d)
        + (\<Sum>d \<leftarrow> ds. if ?own d = k \<and> dec_target d \<noteq> None then slice_amount (dec_source d) else 0)"
      by (rule sum_list_split_plus) simp
    ultimately show ?thesis
      using decided_by_source [OF obs cov, of k] decided_by_target [OF obs cov, of k]
      by (simp only: domain_total_sort domain_total_simps)
  qed
  with decided(1) origins(1) show ?thesis
    by (simp add: build_postings_def Let_def ix)
qed

section \<open>The projection returns, and balanced\<close>

text \<open>The sources of rejected bundles, as validation collects them.\<close>

definition rejected_sources :: "quantity_observation list \<Rightarrow> quantity_claim list \<Rightarrow> string list" where
  "rejected_sources obs claims = map fst (snd (snd (bundle_pass obs claims)))"

lemma validated_inputs_total:
  assumes obs: "observations_ok obs"
  shows "(\<exists>r. validated_inputs obs claims = Inr r)
    \<longleftrightarrow> (\<forall>h \<in> set (rejected_sources obs claims). 0 < principal_msat (ob_at obs h))"
proof -
  obtain valid errors bad where st: "bundle_pass obs claims = (valid, errors, bad)"
    by (cases "bundle_pass obs claims") auto
  have ix: "index_observations obs [] = Inr (index_of obs)"
    using obs by (simp add: index_observations_result observations_ok_def)
  have bad: "outbound_hash (index_of obs) h" if "h \<in> fst ` set bad" for h
    using bundle_pass_ok [OF obs, of claims] that by (auto simp: st bundle_state_ok_def)
  have each: "(\<exists>c. malformed_claim (index_of obs) (h, p) = Inr c) \<longleftrightarrow> 0 < principal_msat (ob_at obs h)"
    if "(h, p) \<in> set bad" for h p
  proof -
    have "h \<in> fst ` set bad" using that by force
    with bad obtain s where s: "map_of (index_of obs) h = Some s" by (force simp: outbound_hash_def)
    then show ?thesis
      using malformed_claim_total [OF obs s] ob_at_lookup(1) [OF obs s] by simp
  qed
  have "(\<exists>cs. map_res (malformed_claim (index_of obs)) (sort_key fst bad) = Inr cs)
    \<longleftrightarrow> (\<forall>hp \<in> set bad. \<exists>c. malformed_claim (index_of obs) hp = Inr c)"
    (is "?L \<longleftrightarrow> ?R")
  proof
    assume ?L
    then obtain cs where "list_all2 (\<lambda>hp c. malformed_claim (index_of obs) hp = Inr c) (sort_key fst bad) cs"
      by (auto simp: map_res_Inr_iff)
    then show ?R using list_all2_left_member by fastforce
  next
    assume ?R
    then show ?L
      using map_res_choice [where f = "malformed_claim (index_of obs)" and xs = "sort_key fst bad"
          and Q = "\<lambda>_ _. True"] by auto
  qed
  also have "\<dots> \<longleftrightarrow> (\<forall>h \<in> set (rejected_sources obs claims). 0 < principal_msat (ob_at obs h))"
    using each by (auto simp: rejected_sources_def st)
  finally show ?thesis
    by (simp add: validated_inputs_def ix Let_def st result_simps)
qed

text \<open>The decisions of a projection: arbitration, then the two fail-closed passes.\<close>

definition final_decisions :: "arbitrated_slice list \<Rightarrow> quantity_claim list \<Rightarrow> arbitrated_slice list" where
  "final_decisions decided claims =
     fail_closed_atomic_bundles (fail_closed_destination_overlaps decided) claims"

lemma final_decisions_ok:
  assumes "covering obs decided"
  shows "covering obs (final_decisions decided claims)"
    and "targets_disjoint (final_decisions decided claims)"
  unfolding final_decisions_def
  using assms covering_targets_wf overlaps_disjoint
  by (blast intro: bundle_pass.pass_covering overlap_pass.pass_covering bundle_pass.pass_disjoint)+

lemma selected_kept:
  assumes "d \<in> set (final_decisions decided claims)" and "selected_claim_id d = Some cid"
  shows "d \<in> set decided"
  using assms bundle_pass.pass_selected overlap_pass.pass_selected
  unfolding final_decisions_def by blast

lemma finalized_kept:
  assumes "d \<in> set (final_decisions decided claims)" and "finalized d"
  shows "d \<in> set decided"
  using assms bundle_pass.pass_finalized overlap_pass.pass_finalized
  unfolding final_decisions_def by blast

lemma project_quantities_validated:
  assumes val: "validated_inputs obs claims = Inr (ix, ncl, errs)"
    and claims: "\<forall>c \<in> set claims. valid_claim c"
  shows "\<exists>decided postings. source_decisions ix ncl = Inr decided \<and> covering obs decided
    \<and> build_postings obs (final_decisions decided ncl) = Inr postings
    \<and> (\<forall>k. domain_total k postings = 0)
    \<and> project_quantities obs claims = Inr
        \<lparr>proj_observations = sort_key quantity_hash obs,
         proj_decisions = sort_key decision_order (final_decisions decided ncl),
         proj_postings = postings, proj_claim_errors = errs\<rparr>"
proof -
  have ok: "ix = index_of obs" "observations_ok obs" "\<forall>c \<in> set ncl. claim_ok (index_of obs) c"
    using validated_inputs_ok [OF val claims] by auto
  obtain decided where dec: "source_decisions ix ncl = Inr decided" "covering obs decided"
    using source_decisions_total [OF ok(2,3)] ok(1) by auto
  obtain postings where post: "build_postings obs (final_decisions decided ncl) = Inr postings"
    "\<forall>k. domain_total k postings = 0"
    using build_postings_balanced [OF ok(2) final_decisions_ok [OF dec(2)]] by blast
  have "filter (\<lambda>(_, amount). amount \<noteq> 0) (totals_by_domain postings) = []"
    using totals_by_domain_entry post(2) by (fastforce simp: filter_empty_conv)
  moreover have "map snd ix = obs" using ok(1) by (simp add: comp_def)
  ultimately have "project_quantities obs claims = Inr
        \<lparr>proj_observations = sort_key quantity_hash obs,
         proj_decisions = sort_key decision_order (final_decisions decided ncl),
         proj_postings = postings, proj_claim_errors = errs\<rparr>"
    using val dec(1) post(1)
    by (simp add: project_quantities_def Let_def final_decisions_def [symmetric])
  with dec post show ?thesis by blast
qed

lemma decided_times_sort: "decided_times h x (sort_key f ds) = decided_times h x ds"
proof -
  have "mset (map dec_source (sort_key f ds)) = mset (map dec_source ds)" by simp
  then have "size (filter_mset P (mset (map dec_source (sort_key f ds))))
      = size (filter_mset P (mset (map dec_source ds)))" for P
    by simp
  then show ?thesis unfolding decided_times_def by (simp only: mset_filter [symmetric] size_mset)
qed

lemma domains_balanced:
  "(\<forall>k. domain_total k ps = 0) \<Longrightarrow> (\<forall>(k, v) \<in> set (totals_by_domain ps). v = 0)"
  by (auto dest: totals_by_domain_entry)

text \<open>Example inputs: two outbound boundaries and one inbound, and a bundle of two reviewed
  claims on them.\<close>

definition sample_observations :: "quantity_observation list" where
  "sample_observations =
     [sample_observation (CHR ''a'') ''outbound'' 100 3, sample_observation (CHR ''b'') ''inbound'' 60 0,
      sample_observation (CHR ''c'') ''outbound'' 50 0]"

definition sample_claims :: "quantity_claim list" where
  "sample_claims =
     [\<lparr>claim_id = ''k1'',
       claim_source = \<lparr>observation_hash = replicate 64 (CHR ''a''), start_msat = 0, end_msat = 60\<rparr>,
       claim_state = INTERNAL_REVIEWED, claim_priority = REVIEWED_COMPONENT, claim_reason = ''reviewed'',
       claim_target = Some \<lparr>observation_hash = replicate 64 (CHR ''b''), start_msat = 0, end_msat = 60\<rparr>,
       atomic_bundle_id = Some ''bundle'', destination_kind = None, external_economic_subtype = None,
       transfer_kind = None, transfer_policy = None, claim_component_id = None, allow_cross_rail = False\<rparr>,
      \<lparr>claim_id = ''k2'',
       claim_source = \<lparr>observation_hash = replicate 64 (CHR ''c''), start_msat = 0, end_msat = 50\<rparr>,
       claim_state = EXTERNAL_CONFIRMED, claim_priority = REVIEWED_COMPONENT, claim_reason = ''reviewed'',
       claim_target = None, atomic_bundle_id = Some ''bundle'', destination_kind = Some ''external'',
       external_economic_subtype = None, transfer_kind = None, transfer_policy = None,
       claim_component_id = None, allow_cross_rail = False\<rparr>]"

lemma sample_observations_ok: "observations_ok sample_observations"
  by (simp add: observations_ok_def sample_observations_def validate_observation_def
      sample_observation_def sample_hash_ok)

lemma sample_claims_valid: "\<forall>c \<in> set sample_claims. valid_claim c"
  by (simp add: sample_claims_def valid_claim_def valid_slice_def make_claim_def claim_states_def
      state_priorities_def target_states_def slice_amount_def py_blank_def py_isspace_def)

lemma sample_rejected: "rejected_sources sample_observations sample_claims = []"
  by code_simp
lemma projection_returns:
  assumes "observations_ok obs" and "\<forall>c \<in> set claims. valid_claim c"
    and "rejected_sources obs claims = []"
  shows "\<exists>p. project_quantities obs claims = Inr p"
proof -
  have "\<exists>r. validated_inputs obs claims = Inr r"
    unfolding validated_inputs_total [OF assms(1)] by (simp add: assms(3))
  then obtain ix ncl errs where "validated_inputs obs claims = Inr (ix, ncl, errs)" by auto
  from project_quantities_validated [OF this assms(2)] show ?thesis by blast
qed

lemmas sample_projection =
  projection_returns [OF sample_observations_ok sample_claims_valid sample_rejected]

lemma project_quantities_parts:
  assumes "project_quantities obs claims = Inr p" and "\<forall>c \<in> set claims. valid_claim c"
  obtains ncl errs decided where
    "validated_inputs obs claims = Inr (index_of obs, ncl, errs)" "observations_ok obs"
    "\<forall>c \<in> set ncl. claim_ok (index_of obs) c"
    "source_decisions (index_of obs) ncl = Inr decided" "covering obs decided"
    "proj_decisions p = sort_key decision_order (final_decisions decided ncl)"
    "\<forall>k. domain_total k (proj_postings p) = 0"
proof -
  obtain ix ncl errs where val: "validated_inputs obs claims = Inr (ix, ncl, errs)"
    using assms(1) by (auto simp: project_quantities_def result_simps)
  from validated_inputs_ok [OF this assms(2)] have
    ok: "ix = index_of obs" "observations_ok obs" "\<forall>c \<in> set ncl. claim_ok (index_of obs) c" by auto
  from project_quantities_validated [OF val assms(2)] ok val assms(1) that show thesis by auto
qed

text \<open>
  C1: on validated observations and claim objects, the projection raises exactly when a
  rejected claim bundle names an outbound observation without principal (it then cannot
  build the suspense slice of that source); in every other case it returns a projection
  whose totals are zero in every exposure domain. Neither the balance assertion, nor the
  missing-target error, nor a slice error of the postings can occur.
\<close>

theorem projection_total:
  assumes "observations_ok obs" and "\<forall>c \<in> set claims. valid_claim c"
  shows "if \<exists>h \<in> set (rejected_sources obs claims). principal_msat (ob_at obs h) \<le> 0
    then \<exists>e. project_quantities obs claims = Inl e
    else \<exists>p. project_quantities obs claims = Inr p \<and> (\<forall>k. domain_total k (proj_postings p) = 0)"
proof (cases "\<exists>r. validated_inputs obs claims = Inr r")
  case True
  then obtain ix ncl errs where "validated_inputs obs claims = Inr (ix, ncl, errs)" by auto
  from project_quantities_validated [OF this assms(2)]
  have "\<exists>p. project_quantities obs claims = Inr p \<and> (\<forall>k. domain_total k (proj_postings p) = 0)" by auto
  then show ?thesis using True validated_inputs_total [OF assms(1), of claims] by fastforce
next
  case False
  then obtain e where "validated_inputs obs claims = Inl e" by (cases "validated_inputs obs claims") auto
  then have "project_quantities obs claims = Inl e" by (simp add: project_quantities_def)
  moreover obtain h where "h \<in> set (rejected_sources obs claims)" "principal_msat (ob_at obs h) \<le> 0"
    using False unfolding validated_inputs_total [OF assms(1)] by fastforce
  ultimately show ?thesis by auto
qed

theorem projection_total_witness:
  "\<exists>p. project_quantities sample_observations sample_claims = Inr p
     \<and> (\<forall>k. domain_total k (proj_postings p) = 0)"
  using projection_total [OF sample_observations_ok sample_claims_valid] by (simp add: sample_rejected)

text \<open>
  C2: in a projection every msat of the principal of every outbound observation lies in the
  source slice of exactly one decision.
\<close>

theorem projection_decides_once:
  assumes "project_quantities obs claims = Inr p" and "\<forall>c \<in> set claims. valid_claim c"
    and "ob \<in> set obs" and "direction ob = ''outbound''" and "0 \<le> x" and "x < principal_msat ob"
  shows "decided_times (quantity_hash ob) x (proj_decisions p) = 1"
proof -
  obtain ncl errs decided where d: "observations_ok obs" "\<forall>c \<in> set ncl. claim_ok (index_of obs) c"
    "source_decisions (index_of obs) ncl = Inr decided"
    "proj_decisions p = sort_key decision_order (final_decisions decided ncl)"
    by (rule project_quantities_parts [OF assms(1,2)])
  have "tiling obs (final_decisions decided ncl)"
    unfolding final_decisions_def
    by (intro bundle_pass.pass_tiling overlap_pass.pass_tiling source_decisions_tiling [OF d(1-3)])
  then show ?thesis using assms(3-) by (simp add: d(4) decided_times_sort tiling_def)
qed

theorem projection_decides_once_witness:
  "\<exists>p. project_quantities sample_observations sample_claims = Inr p
     \<and> decided_times (replicate 64 (CHR ''a'')) 99 (proj_decisions p) = 1"
proof -
  obtain p where p: "project_quantities sample_observations sample_claims = Inr p"
    using sample_projection by blast
  have "decided_times (quantity_hash (sample_observation (CHR ''a'') ''outbound'' 100 3)) 99 (proj_decisions p) = 1"
    by (rule projection_decides_once [OF p sample_claims_valid])
      (simp_all add: sample_observations_def sample_observation_def principal_outbound)
  with p show ?thesis by (simp add: sample_observation_def)
qed

section \<open>Inbound msat are consumed at most once\<close>

definition consumes :: "string \<Rightarrow> int \<Rightarrow> quantity_slice \<Rightarrow> bool" where
  "consumes h y t \<longleftrightarrow> observation_hash t = h \<and> start_msat t \<le> y \<and> y < end_msat t"

definition consumed_times :: "string \<Rightarrow> int \<Rightarrow> arbitrated_slice list \<Rightarrow> nat" where
  "consumed_times h y ds =
     length (filter (\<lambda>d. case dec_target d of None \<Rightarrow> False | Some t \<Rightarrow> consumes h y t) ds)"

lemma length_filter_sort_key: "length (filter P (sort_key f xs)) = length (filter P xs)"
proof -
  have "size (filter_mset P (mset (sort_key f xs))) = size (filter_mset P (mset xs))" by simp
  then show ?thesis by (simp only: mset_filter [symmetric] size_mset)
qed

lemma consumed_times_targets: "consumed_times h y ds = length (filter (consumes h y) (targets_of ds))"
  by (induction ds) (auto simp: consumed_times_def split: option.splits)

lemma at_most_one:
  "distinct xs \<Longrightarrow> (\<And>x y. x \<in> set xs \<Longrightarrow> y \<in> set xs \<Longrightarrow> x = y) \<Longrightarrow> length xs \<le> 1"
proof -
  assume "distinct xs" and all: "\<And>x y. x \<in> set xs \<Longrightarrow> y \<in> set xs \<Longrightarrow> x = y"
  then have "card (set xs) \<le> 1" by (cases "set xs = {}") (auto intro!: card_le_Suc0_iff_eq [THEN iffD2, simplified])
  then show "length xs \<le> 1" using \<open>distinct xs\<close> by (simp add: distinct_card)
qed

lemma consumed_once:
  assumes "targets_disjoint ds" and "targets_wf ds"
  shows "consumed_times h y ds \<le> 1"
  unfolding consumed_times_targets
proof (rule at_most_one)
  show "distinct (filter (consumes h y) (targets_of ds))"
    using targets_of_apart [OF assms] by simp
  show "t = u" if "t \<in> set (filter (consumes h y) (targets_of ds))"
    "u \<in> set (filter (consumes h y) (targets_of ds))" for t u
  proof (rule ccontr)
    assume "t \<noteq> u"
    then have "\<not> overlap t u" using targets_of_apart [OF assms] that by auto
    with that show False by (auto simp: consumes_def overlap_def)
  qed
qed

text \<open>
  C3: in a projection no msat of an inbound observation is the target of two decisions, and
  every target lies inside the principal of an inbound observation of the same exposure
  domain as its source, and carries exactly the amount of its source slice.
\<close>

theorem projection_consumes_once:
  assumes "project_quantities obs claims = Inr p" and "\<forall>c \<in> set claims. valid_claim c"
  shows "consumed_times h y (proj_decisions p) \<le> 1
    \<and> (\<forall>d \<in> set (proj_decisions p). \<forall>t. dec_target d = Some t \<longrightarrow>
         (\<exists>g \<in> set obs. quantity_hash g = observation_hash t \<and> direction g = ''inbound''
            \<and> 0 \<le> start_msat t \<and> end_msat t \<le> principal_msat g
            \<and> ob_key g = ob_key (ob_at obs (observation_hash (dec_source d)))
            \<and> slice_amount t = slice_amount (dec_source d)))"
proof -
  obtain ncl errs decided where d: "observations_ok obs" "covering obs decided"
    "proj_decisions p = sort_key decision_order (final_decisions decided ncl)"
    by (rule project_quantities_parts [OF assms(1,2)])
  note fin = final_decisions_ok [OF d(2), of ncl]
  have "consumed_times h y (proj_decisions p) \<le> 1"
    using consumed_once [OF fin(2) covering_targets_wf [OF fin(1)], of h y]
    by (simp add: d(3) consumed_times_def length_filter_sort_key)
  moreover have "\<exists>g \<in> set obs. quantity_hash g = observation_hash t \<and> direction g = ''inbound''
            \<and> 0 \<le> start_msat t \<and> end_msat t \<le> principal_msat g
            \<and> ob_key g = ob_key (ob_at obs (observation_hash (dec_source e)))
            \<and> slice_amount t = slice_amount (dec_source e)"
    if e: "e \<in> set (proj_decisions p)" and t: "dec_target e = Some t" for e t
  proof -
    have ok: "decision_ok (index_of obs) e" using fin(1) e by (simp add: d(3) covering_def)
    note own = target_owner [OF d(1) ok t]
    obtain g where g: "map_of (index_of obs) (observation_hash t) = Some g"
      "end_msat t \<le> principal_msat g" "valid_slice t"
      using ok t by (auto simp only: decision_ok_def target_ok_def option.case)
    then show ?thesis
      using own ob_at_lookup(1) [OF d(1) g(1)] by (intro bexI [of _ g]) (auto simp: valid_slice_def)
  qed
  ultimately show ?thesis by blast
qed

theorem projection_consumes_once_witness:
  "\<exists>p. project_quantities sample_observations sample_claims = Inr p
     \<and> consumed_times (replicate 64 (CHR ''b'')) 5 (proj_decisions p) \<le> 1"
  using sample_projection projection_consumes_once [OF _ sample_claims_valid] by blast

text \<open>
  C5: a decision of a projection that selects a claim was won by that claim: the claim
  covers the whole slice, the decision carries the claim's state and the matching part of
  its target, every other accepted claim covering the slice has a strictly weaker priority,
  and all reviewed or native claims covering it agree on its meaning.
\<close>

theorem projection_winners:
  assumes "project_quantities obs claims = Inr p" and "\<forall>c \<in> set claims. valid_claim c"
    and "d \<in> set (proj_decisions p)" and "selected_claim_id d = Some cid"
  shows "\<exists>ncl errs c. validated_inputs obs claims = Inr (index_of obs, ncl, errs)
    \<and> claim_id c = cid \<and> wins ncl c d"
proof -
  obtain ncl errs decided where v: "validated_inputs obs claims = Inr (index_of obs, ncl, errs)"
    "source_decisions (index_of obs) ncl = Inr decided"
    "proj_decisions p = sort_key decision_order (final_decisions decided ncl)"
    by (rule project_quantities_parts [OF assms(1,2)])
  have "d \<in> set decided"
    using assms(3,4) selected_kept [of d decided ncl] by (simp add: v(3))
  then obtain c where "wins ncl c d" using source_decision_wins [OF v(2)] assms(4) by auto
  moreover from this have "winner_decision (dec_source d) c = Inr d" by (simp add: wins_def)
  from winner_fields [OF this] have "claim_id c = cid" using assms(4) by simp
  ultimately show ?thesis using v(1) by blast
qed

theorem projection_winners_witness:
  "\<exists>p. project_quantities sample_observations sample_claims = Inr p
     \<and> (\<forall>d \<in> set (proj_decisions p). \<forall>cid. selected_claim_id d = Some cid \<longrightarrow>
          (\<exists>ncl errs c. validated_inputs sample_observations sample_claims
               = Inr (index_of sample_observations, ncl, errs) \<and> claim_id c = cid \<and> wins ncl c d))"
  using sample_projection projection_winners [OF _ sample_claims_valid] by blast

section \<open>Rejected and suspended sources\<close>

text \<open>
  C6: an outbound observation named by a rejected claim bundle, or by an accepted
  custody-suspense claim, has no presumed-external decision: unresolved custody never
  silently becomes a disposal.
\<close>

theorem projection_suspense:
  assumes "project_quantities obs claims = Inr p" and "\<forall>c \<in> set claims. valid_claim c"
    and "c \<in> set claims" and "ob \<in> set obs" and "direction ob = ''outbound''"
    and "observation_hash (claim_source c) = quantity_hash ob"
    and "c \<notin> set (accepted_claims obs claims) \<or> claim_state c = CUSTODY_SUSPENSE"
    and "d \<in> set (proj_decisions p)" and "observation_hash (dec_source d) = quantity_hash ob"
  shows "dec_state d \<noteq> EXTERNAL_PRESUMED"
proof
  assume presumed: "dec_state d = EXTERNAL_PRESUMED"
  obtain ncl errs decided where v: "validated_inputs obs claims = Inr (index_of obs, ncl, errs)"
    "observations_ok obs" "\<forall>c \<in> set ncl. claim_ok (index_of obs) c"
    "source_decisions (index_of obs) ncl = Inr decided"
    "proj_decisions p = sort_key decision_order (final_decisions decided ncl)"
    by (rule project_quantities_parts [OF assms(1,2)])
  have "finalized d" using presumed by (simp add: finalized_def finalized_states_def)
  then have d: "d \<in> set decided"
    using assms(8) finalized_kept [of d decided ncl] by (simp add: v(5))
  have "\<exists>w \<in> set ncl. claim_state w = CUSTODY_SUSPENSE \<and> observation_hash (claim_source w) = quantity_hash ob"
  proof (cases "c \<in> set (accepted_claims obs claims)")
    case True
    with assms(6,7) show ?thesis using validated_inputs_claims(1) [OF v(1)] by blast
  next
    case False
    have look: "map_of (index_of obs) (quantity_hash ob) = Some ob"
      using assms(4) by (simp add: index_of_lookup [OF v(2)])
    then have "quantity_hash ob \<in> set (claim_source_hashes (index_of obs) c)"
      using assms(5,6) by (simp add: claim_source_hashes_def)
    from rejected_source_noted [OF assms(3) False this]
    obtain q where "(quantity_hash ob, q) \<in> set (snd (snd (bundle_pass obs claims)))" by force
    with validated_inputs_claims(2) [OF v(1)]
    obtain w where w: "w \<in> set ncl" "malformed_claim (index_of obs) (quantity_hash ob, q) = Inr w"
      by blast
    moreover have "outbound_hash (index_of obs) (quantity_hash ob)"
      using look assms(5) by (simp add: outbound_hash_def)
    ultimately show ?thesis using malformed_claim_result [OF w(2) v(2)] by blast
  qed
  then show False
    using suspense_source [OF v(4) d] v(3) presumed assms(9) by (auto simp: claim_ok_def)
qed

definition sample_bad_claim :: quantity_claim where
  "sample_bad_claim = (hd sample_claims)\<lparr>claim_source :=
     \<lparr>observation_hash = replicate 64 (CHR ''a''), start_msat = 60, end_msat = 120\<rparr>\<rparr>"

lemma sample_bad_rejected:
  "accepted_claims sample_observations [sample_bad_claim] = []"
  "rejected_sources sample_observations [sample_bad_claim] = [replicate 64 (CHR ''a'')]"
  by code_simp+

lemma sample_bad_valid: "\<forall>c \<in> set [sample_bad_claim]. valid_claim c"
  by (simp add: sample_bad_claim_def sample_claims_def valid_claim_def valid_slice_def make_claim_def
      claim_states_def state_priorities_def target_states_def slice_amount_def py_blank_def py_isspace_def)

theorem projection_suspense_witness:
  "\<exists>p. project_quantities sample_observations [sample_bad_claim] = Inr p
     \<and> (\<forall>d \<in> set (proj_decisions p). observation_hash (dec_source d) = replicate 64 (CHR ''a'')
          \<longrightarrow> dec_state d \<noteq> EXTERNAL_PRESUMED)"
proof -
  let ?ob = "sample_observation (CHR ''a'') ''outbound'' 100 3"
  have "ob_at sample_observations (replicate 64 (CHR ''a'')) = ?ob"
    by (simp add: ob_at_def sample_observations_def sample_observation_def)
  then have "\<exists>r. validated_inputs sample_observations [sample_bad_claim] = Inr r"
    unfolding validated_inputs_total [OF sample_observations_ok] sample_bad_rejected(2)
    by (simp add: principal_outbound sample_observation_def)
  then obtain ix ncl errs where
    "validated_inputs sample_observations [sample_bad_claim] = Inr (ix, ncl, errs)" by auto
  from project_quantities_validated [OF this sample_bad_valid]
  obtain p where p: "project_quantities sample_observations [sample_bad_claim] = Inr p" by blast
  have "dec_state d \<noteq> EXTERNAL_PRESUMED"
    if "d \<in> set (proj_decisions p)" "observation_hash (dec_source d) = replicate 64 (CHR ''a'')" for d
  proof (rule projection_suspense [OF p sample_bad_valid, of sample_bad_claim ?ob])
    show "sample_bad_claim \<notin> set (accepted_claims sample_observations [sample_bad_claim])
        \<or> claim_state sample_bad_claim = CUSTODY_SUSPENSE"
      by (simp only: sample_bad_rejected(1)) simp
  qed (use that in \<open>simp_all add: sample_observations_def sample_observation_def sample_bad_claim_def\<close>)
  with p show ?thesis by blast
qed

section \<open>Bundles are selected as a whole\<close>

abbreviation reserved_id :: "string \<Rightarrow> bool" where
  "reserved_id s \<equiv> take 23 s = ''malformed-claim-bundle:''"

lemma malformed_id:
  assumes "malformed_claim ix (h, q) = Inr c"
  shows "claim_id c = ''malformed-claim-bundle:'' @ h"
proof -
  obtain source sl where "make_claim
             \<lparr>claim_id = ''malformed-claim-bundle:'' @ h, claim_source = sl,
              claim_state = CUSTODY_SUSPENSE, claim_priority = q,
              claim_reason = ''malformed_claim_bundle'',
              claim_target = None, atomic_bundle_id = None, destination_kind = None,
              external_economic_subtype = None, transfer_kind = None, transfer_policy = None,
              claim_component_id = None, allow_cross_rail = False\<rparr> = Inr c"
    using assms by (auto simp: malformed_claim_def result_simps split: option.splits)
  from make_claim_Inr [OF this] show ?thesis by simp
qed

lemma accepted_bundle_ids_apart:
  assumes val: "validated_inputs obs claims = Inr (index_of obs, ncl, errs)" and obs: "observations_ok obs"
    and claims: "\<forall>c \<in> set claims. valid_claim c" and free: "\<forall>c \<in> set claims. \<not> reserved_id (claim_id c)"
  shows "bundle_ids_apart ncl"
proof -
  let ?bad = "snd (snd (bundle_pass obs claims))"
  have split: "c \<in> set (accepted_claims obs claims) \<and> \<not> reserved_id (claim_id c)
      \<or> (\<exists>h q. (h, q) \<in> set ?bad \<and> malformed_claim (index_of obs) (h, q) = Inr c
           \<and> claim_id c = ''malformed-claim-bundle:'' @ h \<and> reserved_id (claim_id c))"
    if "c \<in> set ncl" for c
  proof -
    consider "c \<in> set (accepted_claims obs claims)"
      | h q where "(h, q) \<in> set ?bad" "malformed_claim (index_of obs) (h, q) = Inr c"
      using \<open>c \<in> set ncl\<close> validated_inputs_claims(1) [OF val] by auto
    then show ?thesis
    proof cases
      case 1
      moreover from this have "c \<in> set claims" unfolding accepted_iff by blast
      ultimately show ?thesis using free by blast
    next
      case 2
      moreover from malformed_id [OF this(2)] have "reserved_id (claim_id c)" by simp
      ultimately show ?thesis using malformed_id by blast
    qed
  qed
  have keys: "distinct (map fst ?bad)"
    using bundle_pass_ok [OF obs, of claims]
    by (cases "bundle_pass obs claims") (simp add: bundle_state_ok_def)
  have same: "c' = c" if c: "c \<in> set ncl" and c': "c' \<in> set ncl" and eq: "claim_id c' = claim_id c" for c c'
  proof (cases "reserved_id (claim_id c)")
    case True
    obtain h q where hq: "(h, q) \<in> set ?bad" "malformed_claim (index_of obs) (h, q) = Inr c"
      "claim_id c = ''malformed-claim-bundle:'' @ h"
      using split [OF c] True by blast
    obtain h' q' where hq': "(h', q') \<in> set ?bad" "malformed_claim (index_of obs) (h', q') = Inr c'"
      "claim_id c = ''malformed-claim-bundle:'' @ h'"
      using split [OF c'] True unfolding eq by blast
    have "h' = h" using hq(3) hq'(3) by simp
    moreover have "q' = q" using keys hq'(1) hq(1) unfolding calculation by (rule eq_key_imp_eq_value)
    ultimately show ?thesis using hq(2) hq'(2) by simp
  next
    case False
    then have acc: "c \<in> set (accepted_claims obs claims)" "c' \<in> set (accepted_claims obs claims)"
      using split [OF c] split [OF c'] unfolding eq by blast+
    from acc(2) have "c' \<in> set claims" unfolding accepted_iff by blast
    then show ?thesis by (rule accepted_id_unique [OF acc(1) _ eq])
  qed
  have "claim_id c \<noteq> ''''" if "c \<in> set ncl" for c
    using validated_inputs_ok [OF val claims] that valid_claim_id by (auto simp: claim_ok_def)
  with same show ?thesis unfolding bundle_ids_apart_def by metis
qed

text \<open>
  C4: when a projection selects one claim of an atomic bundle for some slice, every claim of
  the bundle is selected for the whole amount of its source, and for the whole amount of its
  target when it has one. (Caller claims do not use the ids reserved for the suspense claims
  of rejected bundles.)
\<close>

theorem projection_bundle_atomic:
  assumes "project_quantities obs claims = Inr p" and "\<forall>c \<in> set claims. valid_claim c"
    and "\<forall>c \<in> set claims. \<not> reserved_id (claim_id c)"
    and "c \<in> set claims" and "effective_bundle_id c = Some b"
    and "c' \<in> set claims" and "effective_bundle_id c' = Some b"
    and "d \<in> set (proj_decisions p)" and "selects (claim_id c) d"
  shows "selected_source (claim_id c') (proj_decisions p) = slice_amount (claim_source c')
    \<and> (case claim_target c' of None \<Rightarrow> True
       | Some t \<Rightarrow> selected_target (claim_id c') (proj_decisions p) = slice_amount t)"
proof -
  obtain ncl errs decided where v: "validated_inputs obs claims = Inr (index_of obs, ncl, errs)"
    "observations_ok obs" "source_decisions (index_of obs) ncl = Inr decided"
    "proj_decisions p = sort_key decision_order (final_decisions decided ncl)"
    by (rule project_quantities_parts [OF assms(1,2)])
  have d: "d \<in> set (final_decisions decided ncl)" using assms(8) by (simp add: v(4))
  have "d \<in> set decided" using selected_kept [OF d] assms(9) by (simp add: selects_def)
  then obtain w where w: "wins ncl w d" using source_decision_wins [OF v(3)] assms(9) by (auto simp: selects_def)
  then have wid: "w \<in> set ncl" "claim_id w = claim_id c"
    using winner_fields [of "dec_source d" w d] assms(9) by (auto simp: wins_def selects_def)
  have wacc: "w \<in> set (accepted_claims obs claims)"
  proof (rule ccontr)
    assume "w \<notin> set (accepted_claims obs claims)"
    then obtain h q where "malformed_claim (index_of obs) (h, q) = Inr w"
      using wid(1) validated_inputs_claims(1) [OF v(1)] by auto
    from malformed_id [OF this] have "reserved_id (claim_id c)" by (simp add: wid(2) [symmetric])
    then show False using assms(3,4) by blast
  qed
  have "c = w" by (rule accepted_id_unique [OF wacc assms(4) wid(2) [symmetric]])
  with wacc have acc: "c \<in> set (accepted_claims obs claims)" by (simp only:)
  have "b \<noteq> ''''"
    using assms(2,4,5) effective_bundle_nonempty by blast
  from accepted_bundle_mate [OF acc assms(6,5,7) this]
  have "c \<in> set ncl" "c' \<in> set ncl" using acc validated_inputs_claims(1) [OF v(1)] by auto
  then have "claim_fully_selected c' (selected_claim_totals (final_decisions decided ncl))"
    using bundle_pass_all_or_nothing [OF accepted_bundle_ids_apart [OF v(1,2) assms(2,3)], of c c' b d]
      assms(5,7,9) d by (simp add: final_decisions_def)
  then show ?thesis
    unfolding claim_fully_selected_iff v(4) selected_source_def selected_target_def
    by (auto simp: sum_list_filter_sort split: option.splits)
qed

theorem projection_bundle_atomic_witness:
  "\<exists>p. project_quantities sample_observations sample_claims = Inr p
     \<and> (\<forall>d \<in> set (proj_decisions p). selects ''k1'' d \<longrightarrow>
          selected_source ''k2'' (proj_decisions p) = 50)"
proof -
  let ?k1 = "sample_claims ! 0" and ?k2 = "sample_claims ! 1"
  obtain p where p: "project_quantities sample_observations sample_claims = Inr p"
    using sample_projection by blast
  have facts: "\<forall>c \<in> set sample_claims. \<not> reserved_id (claim_id c)"
    "?k1 \<in> set sample_claims" "effective_bundle_id ?k1 = Some ''bundle''"
    "?k2 \<in> set sample_claims" "effective_bundle_id ?k2 = Some ''bundle''"
    "claim_id ?k1 = ''k1''" "claim_id ?k2 = ''k2''" "slice_amount (claim_source ?k2) = 50"
    by (simp_all add: sample_claims_def effective_bundle_id_def slice_amount_def)
  have "selected_source ''k2'' (proj_decisions p) = 50"
    if d: "d \<in> set (proj_decisions p)" "selects ''k1'' d" for d
    using projection_bundle_atomic [OF p sample_claims_valid facts(1-5) d(1)] d(2)
    by (simp only: facts(6-8))
  with p show ?thesis by blast
qed

section \<open>The projection does not depend on the order of the claims\<close>

lemma sort_key_perm:
  assumes "mset xs = mset ys" and "inj_on f (set xs)"
  shows "sort_key f xs = sort_key f ys"
proof (rule properties_for_sort_key)
  show "mset (sort_key f ys) = mset xs" using assms(1) by (simp only: mset_sort)
  show "sorted (map f (sort_key f ys))" by simp
  fix k assume "k \<in> set (sort_key f ys)"
  then have "k \<in> set xs" using mset_eq_setD [OF assms(1)] by simp
  have "filter (\<lambda>x. f k = f x) zs = replicate (count (mset zs) k) k" if "set zs \<subseteq> set xs" for zs
    using that assms(2) \<open>k \<in> set xs\<close>
    by (induction zs) (auto simp: inj_on_def)
  then show "filter (\<lambda>x. f k = f x) (sort_key f ys) = filter (\<lambda>x. f k = f x) xs"
    using assms(1) mset_eq_setD [OF assms(1)] by simp
qed

text \<open>
  C7: the projection does not depend on the order in which the claims are listed, as long as
  no two different claims share both priority and id.
\<close>

theorem projection_claim_order:
  assumes "mset claims = mset claims'" and "inj_on claim_order (set claims)"
  shows "project_quantities obs claims = project_quantities obs claims'"
  using sort_key_perm [OF assms] by (simp add: project_quantities_def validated_inputs_def)

theorem projection_claim_order_witness:
  "project_quantities sample_observations sample_claims
     = project_quantities sample_observations (rev sample_claims)"
  by (rule projection_claim_order) (simp_all add: sample_claims_def claim_order_def)

end
