(* ===== verification/Flow_Network.thy ===== *)
theory Flow_Network
  imports Bipartite_Flow
begin

text \<open>
  Correctness of the exact bipartite flow. A locale states the cut argument for net flows on
  any finite node set and is interpreted on the nodes of the model's graph; the loops of
  \<open>allocate_bipartite_flow_msat\<close> are then shown to keep a net flow, to return, and to stop
  either at the full supply or at a saturated cut.
\<close>

section \<open>Net flows and cuts\<close>

definition net_out :: "'n set \<Rightarrow> ('n \<times> 'n \<Rightarrow> int) \<Rightarrow> 'n \<Rightarrow> int" where
  "net_out N f u = (\<Sum>v \<in> N. f (u, v))"

definition net_flow :: "'n set \<Rightarrow> 'n \<Rightarrow> 'n \<Rightarrow> ('n \<times> 'n \<Rightarrow> int) \<Rightarrow> bool" where
  "net_flow N s t f \<longleftrightarrow> (\<forall>u v. f (u, v) = - f (v, u)) \<and> (\<forall>u \<in> N - {s, t}. net_out N f u = 0)"

locale flow_network =
  fixes N :: "'n set" and s t :: 'n
  assumes finite_nodes: "finite N" and source_node: "s \<in> N" and sink_node: "t \<in> N" and source_sink: "s \<noteq> t"
begin

lemma inner_flow_zero:
  assumes "net_flow N s t f"
  shows "(\<Sum>u \<in> R. \<Sum>v \<in> R. f (u, v)) = 0"
proof -
  have anti: "f (u, v) = - f (v, u)" for u v using assms unfolding net_flow_def by blast
  have "(\<Sum>u \<in> R. \<Sum>v \<in> R. f (u, v)) = (\<Sum>u \<in> R. \<Sum>v \<in> R. - f (v, u))"
    by (intro sum.cong refl) (rule anti)
  also have "\<dots> = - (\<Sum>u \<in> R. \<Sum>v \<in> R. f (v, u))" by (simp add: sum_negf)
  also have "(\<Sum>u \<in> R. \<Sum>v \<in> R. f (v, u)) = (\<Sum>u \<in> R. \<Sum>v \<in> R. f (u, v))" by (rule sum.swap)
  finally show ?thesis by simp
qed

lemma cut_value:
  assumes f: "net_flow N s t f" and R: "R \<subseteq> N" "s \<in> R" "t \<notin> R"
  shows "(\<Sum>u \<in> R. \<Sum>v \<in> N - R. f (u, v)) = net_out N f s"
proof -
  have fin: "finite R" using R(1) finite_nodes by (rule finite_subset)
  have split: "net_out N f u = (\<Sum>v \<in> R. f (u, v)) + (\<Sum>v \<in> N - R. f (u, v))" for u
    unfolding net_out_def by (subst sum.subset_diff [OF R(1) finite_nodes]) (rule add.commute)
  have "(\<Sum>u \<in> R. net_out N f u) = net_out N f s + (\<Sum>u \<in> R - {s}. net_out N f u)"
    using fin R(2) by (simp add: sum.remove)
  also have "(\<Sum>u \<in> R - {s}. net_out N f u) = 0"
    using f R by (intro sum.neutral) (auto simp: net_flow_def)
  finally have "(\<Sum>u \<in> R. net_out N f u) = net_out N f s" by simp
  then show ?thesis
    using inner_flow_zero [OF f, of R] by (simp add: split sum.distrib)
qed

lemma sink_value:
  assumes f: "net_flow N s t f"
  shows "net_out N f t = - net_out N f s"
proof -
  have anti: "f (u, v) = - f (v, u)" for u v using f unfolding net_flow_def by blast
  have "N - (N - {t}) = {t}" using sink_node by auto
  then have "(\<Sum>u \<in> N - {t}. f (u, t)) = net_out N f s"
    using cut_value [OF f, of "N - {t}"] source_node source_sink by simp
  moreover have "f (t, t) = 0" using anti [of t t] by simp
  then have "net_out N f t = (\<Sum>u \<in> N - {t}. f (t, u))"
    unfolding net_out_def using finite_nodes sink_node by (simp add: sum.remove)
  moreover have "(\<Sum>u \<in> N - {t}. f (t, u)) = (\<Sum>u \<in> N - {t}. - f (u, t))"
    by (intro sum.cong refl) (rule anti)
  ultimately show ?thesis by (simp add: sum_negf)
qed

text \<open>A flow that saturates a cut is at least as large as any flow the cut allows.\<close>

lemma saturated_cut_max:
  assumes f: "net_flow N s t f" and g: "net_flow N s t g" and R: "R \<subseteq> N" "s \<in> R" "t \<notin> R"
    and le: "\<And>u v. u \<in> R \<Longrightarrow> v \<in> N - R \<Longrightarrow> g (u, v) \<le> f (u, v)"
  shows "net_out N g s \<le> net_out N f s"
proof -
  have "(\<Sum>u \<in> R. \<Sum>v \<in> N - R. g (u, v)) \<le> (\<Sum>u \<in> R. \<Sum>v \<in> N - R. f (u, v))"
    by (intro sum_mono le)
  then show ?thesis using cut_value [OF f R] cut_value [OF g R] by simp
qed

end

definition flow_nodes :: "(string, int) dict \<Rightarrow> (string, int) dict \<Rightarrow> flow_node set" where
  "flow_nodes supplies demands = {RootSource, RootSink} \<union> OutNode ` fst ` set supplies \<union> InNode ` fst ` set demands"

lemma flow_nodes_simps:
  "RootSource \<in> flow_nodes supplies demands" "RootSink \<in> flow_nodes supplies demands"
  "OutNode k \<in> flow_nodes supplies demands \<longleftrightarrow> k \<in> fst ` set supplies"
  "InNode k \<in> flow_nodes supplies demands \<longleftrightarrow> k \<in> fst ` set demands"
  by (auto simp: flow_nodes_def)

interpretation bip: flow_network "flow_nodes supplies demands" RootSource RootSink for supplies demands
  by unfold_locales (auto simp: flow_nodes_def)

section \<open>The search tree\<close>

definition tree_ok :: "(flow_edge \<Rightarrow> int) \<Rightarrow> parents \<Rightarrow> bool" where
  "tree_ok r ps \<longleftrightarrow> ps \<noteq> [] \<and> ps ! 0 = (RootSource, None) \<and> distinct (map fst ps)
     \<and> (\<forall>i. 0 < i \<and> i < length ps \<longrightarrow>
          (\<exists>j < i. snd (ps ! i) = Some (fst (ps ! j)) \<and> 0 < r (fst (ps ! j), fst (ps ! i))))"

lemma tree_ok_root: "tree_ok r [(RootSource, None)]"
  by (auto simp: tree_ok_def)

lemma tree_ok_snoc:
  assumes "tree_ok r ps" and "u \<in> fst ` set ps" and "v \<notin> fst ` set ps" and "0 < r (u, v)"
  shows "tree_ok r (ps @ [(v, Some u)])"
proof -
  obtain j where j: "j < length ps" "fst (ps ! j) = u"
    using assms(2) by (auto simp: in_set_conv_nth)
  have "\<exists>k < i. snd ((ps @ [(v, Some u)]) ! i) = Some (fst ((ps @ [(v, Some u)]) ! k))
      \<and> 0 < r (fst ((ps @ [(v, Some u)]) ! k), fst ((ps @ [(v, Some u)]) ! i))"
    if i: "0 < i" "i < length (ps @ [(v, Some u)])" for i
  proof (cases "i < length ps")
    case True
    then obtain k where "k < i" "snd (ps ! i) = Some (fst (ps ! k))" "0 < r (fst (ps ! k), fst (ps ! i))"
      using assms(1) i(1) unfolding tree_ok_def by blast
    with True show ?thesis by (intro exI [of _ k]) (simp add: nth_append)
  next
    case False
    with i(2) have "i = length ps" by simp
    with j assms(4) show ?thesis by (intro exI [of _ j]) (simp add: nth_append)
  qed
  then show ?thesis
    using assms(1,3) unfolding tree_ok_def by (auto simp: nth_append)
qed

lemma visit_neighbors_inv:
  assumes "tree_ok (res_of r) ps" and "node \<in> fst ` set ps" and "set q \<subseteq> fst ` set ps"
    and "visit_neighbors r node vs (ps, q) = (ps', q')"
  shows "tree_ok (res_of r) ps' \<and> fst ` set ps \<subseteq> fst ` set ps' \<and> set q \<subseteq> set q'
    \<and> set q' \<subseteq> fst ` set ps' \<and> fst ` set ps' - fst ` set ps \<subseteq> set q'
    \<and> (RootSink \<in> fst ` set ps' \<or> (\<forall>v \<in> set vs. 0 < res_of r (node, v) \<longrightarrow> v \<in> fst ` set ps'))"
  using assms
proof (induction vs arbitrary: ps q)
  case (Cons v vs)
  show ?case
  proof (cases "v \<in> fst ` set ps \<or> res_of r (node, v) \<le> 0")
    case True
    then have "visit_neighbors r node vs (ps, q) = (ps', q')" using Cons.prems(4) by simp
    from Cons.IH [OF Cons.prems(1-3) this] True show ?thesis by auto
  next
    case False
    let ?ps = "ps @ [(v, Some node)]"
    have t: "tree_ok (res_of r) ?ps"
      using tree_ok_snoc [OF Cons.prems(1,2)] False by simp
    show ?thesis
    proof (cases "v = RootSink")
      case True
      then have "ps' = ?ps" "q' = q @ [v]" using Cons.prems(4) False by auto
      with t True Cons.prems(3) show ?thesis by auto
    next
      case neq: False
      then have step: "visit_neighbors r node vs (?ps, q @ [v]) = (ps', q')" using Cons.prems(4) False by simp
      have "node \<in> fst ` set ?ps" "set (q @ [v]) \<subseteq> fst ` set ?ps" using Cons.prems(2,3) by auto
      from Cons.IH [OF t this step] show ?thesis by auto
    qed
  qed
qed auto

text \<open>Every visited node that left the queue has all its open neighbors visited.\<close>

definition explored :: "(flow_node, flow_node list) dict \<Rightarrow> (flow_edge, int) dict \<Rightarrow> parents \<Rightarrow> flow_node list \<Rightarrow> bool" where
  "explored adj r ps q \<longleftrightarrow> (\<forall>u \<in> fst ` set ps - set q. \<forall>v \<in> set (dict_get adj u []).
     0 < res_of r (u, v) \<longrightarrow> v \<in> fst ` set ps)"

lemma bfs_loop_correct:
  assumes "tree_ok (res_of r) ps" and "set q \<subseteq> fst ` set ps"
    and "RootSink \<in> fst ` set ps \<or> explored adj r ps q"
  shows "tree_ok (res_of r) (bfs_loop adj r ps q)
    \<and> (RootSink \<in> fst ` set (bfs_loop adj r ps q) \<or> explored adj r (bfs_loop adj r ps q) [])"
  using assms
proof (induction adj r ps q rule: bfs_loop.induct)
  case (1 adj r ps q)
  show ?case
  proof (cases "q = [] \<or> RootSink \<in> fst ` set ps")
    case True
    then have "bfs_loop adj r ps q = ps" by (cases q) (simp_all add: bfs_loop.simps)
    with True 1(2-4) show ?thesis by auto
  next
    case False
    then obtain node rest where q: "q = node # rest" by (cases q) auto
    obtain ps' q' where v: "visit_neighbors r node (dict_get adj node []) (ps, rest) = (ps', q')"
      by fastforce
    have step: "bfs_loop adj r ps q = bfs_loop adj r ps' q'"
      using False v by (subst bfs_loop.simps) (simp add: q)
    have inv: "tree_ok (res_of r) ps'" "set q' \<subseteq> fst ` set ps'"
      "fst ` set ps \<subseteq> fst ` set ps'" "set rest \<subseteq> set q'" "fst ` set ps' - fst ` set ps \<subseteq> set q'"
      "RootSink \<in> fst ` set ps' \<or> (\<forall>v \<in> set (dict_get adj node []). 0 < res_of r (node, v) \<longrightarrow> v \<in> fst ` set ps')"
      using visit_neighbors_inv [OF 1(2) _ _ v] 1(3) q by auto
    have "RootSink \<in> fst ` set ps' \<or> explored adj r ps' q'"
    proof (cases "RootSink \<in> fst ` set ps'")
      case no: False
      have "x \<in> fst ` set ps'" if "u \<in> fst ` set ps' - set q'" "x \<in> set (dict_get adj u [])" "0 < res_of r (u, x)" for u x
      proof (cases "u = node")
        case True
        with that inv(6) no show ?thesis by blast
      next
        case False
        then have "u \<in> fst ` set ps - set q" using that(1) inv(4,5) q by auto
        moreover have "explored adj r ps q" using 1(4) no inv(3) by blast
        ultimately show ?thesis using that inv(3) unfolding explored_def by blast
      qed
      then show ?thesis unfolding explored_def by blast
    qed simp
    then show ?thesis
      using 1(1) [OF q _ v [symmetric]] False inv(1,2) unfolding step by blast
  qed
qed
section \<open>The augmenting path\<close>

fun back_walk :: "flow_node \<Rightarrow> flow_edge list \<Rightarrow> bool" where
  "back_walk node [] \<longleftrightarrow> node = RootSource"
| "back_walk node ((p, n) # es) \<longleftrightarrow> n = node \<and> back_walk p es"

lemma tree_lookup:
  assumes "tree_ok r ps" and "i < length ps"
  shows "map_of ps (fst (ps ! i)) = Some (snd (ps ! i))"
  using assms by (simp add: tree_ok_def)

lemma walk_up_tree:
  assumes "tree_ok r ps" and "i < length ps"
  shows "\<exists>path. walk_up ps (fst (ps ! i)) = Some path \<and> back_walk (fst (ps ! i)) path
    \<and> (\<forall>e \<in> set path. 0 < r e) \<and> distinct (map snd path)
    \<and> snd ` set path \<subseteq> (\<lambda>k. fst (ps ! k)) ` {..i}"
  using assms(2)
proof (induction i rule: less_induct)
  case (less i)
  show ?case
  proof (cases "i = 0")
    case True
    then have "walk_up ps (fst (ps ! i)) = Some []"
      using tree_lookup [OF assms(1) less.prems] assms(1) by (subst walk_up.simps) (simp add: tree_ok_def)
    with True assms(1) show ?thesis by (simp add: tree_ok_def)
  next
    case False
    then obtain j where j: "j < i" "snd (ps ! i) = Some (fst (ps ! j))" "0 < r (fst (ps ! j), fst (ps ! i))"
      using assms(1) less.prems unfolding tree_ok_def by blast
    obtain path where path: "walk_up ps (fst (ps ! j)) = Some path" "back_walk (fst (ps ! j)) path"
      "\<forall>e \<in> set path. 0 < r e" "distinct (map snd path)" "snd ` set path \<subseteq> (\<lambda>k. fst (ps ! k)) ` {..j}"
      using less.IH [OF j(1)] j(1) less.prems by auto
    have "walk_up ps (fst (ps ! i)) = Some ((fst (ps ! j), fst (ps ! i)) # path)"
      using tree_lookup [OF assms(1) less.prems] j(2) path(1) by (subst walk_up.simps) simp
    moreover have "fst (ps ! i) \<noteq> fst (ps ! k)" if "k \<le> j" for k
    proof -
      have "distinct (map fst ps)" using assms(1) by (simp add: tree_ok_def)
      then show ?thesis
        using that j(1) less.prems nth_eq_iff_index_eq [of "map fst ps" i k] by auto
    qed
    then have "fst (ps ! i) \<notin> snd ` set path" using path(5) by auto
    moreover have "snd ` set path \<subseteq> (\<lambda>k. fst (ps ! k)) ` {..i}" using path(5) j(1) by fastforce
    ultimately show ?thesis using path j(3) by auto
  qed
qed

lemma walk_up_sink:
  assumes "tree_ok r ps" and "RootSink \<in> fst ` set ps"
  shows "\<exists>path. walk_up ps RootSink = Some path \<and> back_walk RootSink path
    \<and> (\<forall>e \<in> set path. 0 < r e) \<and> distinct path"
proof -
  obtain i where i: "i < length ps" "fst (ps ! i) = RootSink"
    using assms(2) by (auto simp: in_set_conv_nth)
  from walk_up_tree [OF assms(1) i(1)] show ?thesis unfolding i(2) by (auto simp: distinct_map)
qed

lemma path_increment_facts:
  assumes "0 < x" and "\<forall>e \<in> set path. 0 < res_of r e"
  shows "0 < path_increment r path x \<and> path_increment r path x \<le> x
    \<and> (\<forall>e \<in> set path. path_increment r path x \<le> res_of r e)"
  using assms
proof (induction path arbitrary: x)
  case (Cons e path)
  have "0 < min x (res_of r e)" using Cons.prems by simp
  from Cons.IH [OF this] Cons.prems(2)
  show ?case by (simp add: path_increment_def)
qed (simp add: path_increment_def)

lemma push_edge_get:
  "res_of (push_edge inc (p, n) r) (u, v) =
     res_of r (u, v) - (if (u, v) = (p, n) then inc else 0) + (if (v, u) = (p, n) then inc else 0)"
proof (cases "p = n")
  case True
  then show ?thesis by (cases "u = n"; cases "v = n") (simp_all add: push_edge_def Let_def dict_get_update)
next
  case False
  then show ?thesis
    by (cases "u = p"; cases "u = n"; cases "v = n"; cases "v = p")
      (simp_all add: push_edge_def Let_def dict_get_update)
qed

lemma push_edge_get':
  "res_of (push_edge inc e r) (u, v) =
     res_of r (u, v) - inc * of_bool (e = (u, v)) + inc * of_bool (e = (v, u))"
proof -
  obtain p n where e: "e = (p, n)" by (cases e)
  have "(if (u, v) = (p, n) then inc else 0) = inc * of_bool (e = (u, v))"
    "(if (v, u) = (p, n) then inc else 0) = inc * of_bool (e = (v, u))"
    unfolding e by (simp_all only: of_bool_def split: if_splits) auto
  then show ?thesis using push_edge_get [of inc p n r u v] unfolding e by (simp only:)
qed

lemma push_path_get:
  "res_of (push_path inc path r) (u, v) =
     res_of r (u, v) - inc * int (count_list path (u, v)) + inc * int (count_list path (v, u))"
proof (induction path arbitrary: r)
  case (Cons e path)
  have count: "int (count_list (e # path) x) = of_bool (e = x) + int (count_list path x)" for x by simp
  have "push_path inc (e # path) r = push_path inc path (push_edge inc e r)"
    by (simp add: push_path_def)
  then show ?case
    by (simp only: Cons.IH push_edge_get' count distrib_left)
qed (simp add: push_path_def)

lemma back_walk_net:
  assumes "finite N" and "back_walk node path" and "fst ` set path \<subseteq> N" and "snd ` set path \<subseteq> N"
  shows "(\<Sum>v \<in> N. int (count_list path (u, v)) - int (count_list path (v, u)))
    = (if u = RootSource then 1 else 0) - (if u = node then 1 else 0)"
  using assms(2-4)
proof (induction node path rule: back_walk.induct)
  case (2 node p n es)
  have n: "n = node" "back_walk p es" "p \<in> N" "n \<in> N" using 2(2-4) by auto
  have "(\<Sum>v \<in> N. int (count_list ((p, n) # es) (u, v)) - int (count_list ((p, n) # es) (v, u)))
    = (\<Sum>v \<in> N. (int (count_list es (u, v)) - int (count_list es (v, u)))
        + ((if v = n then if u = p then 1 else 0 else 0) - (if v = p then if u = n then 1 else 0 else 0)))"
    by (intro sum.cong refl) auto
  also have "\<dots> = ((if u = RootSource then 1 else 0) - (if u = p then 1 else 0))
      + ((if u = p then 1 else 0) - (if u = n then 1 else 0))"
    using 2(1) n 2(3,4) assms(1) by (simp add: sum.distrib sum_subtractf)
  finally show ?case using n(1) by simp
qed simp

section \<open>The loop keeps a net flow\<close>

text \<open>The capacities of a graph on the nodes \<open>N\<close>.\<close>

definition caps_ok :: "flow_node set \<Rightarrow> (flow_edge \<Rightarrow> int) \<Rightarrow> (flow_node, flow_node list) dict \<Rightarrow> bool" where
  "caps_ok N c adj \<longleftrightarrow> finite N \<and> RootSource \<in> N \<and> RootSink \<in> N \<and> (\<forall>e. 0 \<le> c e)
     \<and> (\<forall>u v. 0 < c (u, v) \<longrightarrow> u \<in> N \<and> v \<in> N \<and> v \<in> set (dict_get adj u []) \<and> u \<in> set (dict_get adj v []))"

text \<open>Residuals \<open>r\<close> of a net flow of value \<open>m\<close> under the capacities \<open>c\<close>.\<close>

definition flow_state :: "flow_node set \<Rightarrow> (flow_edge \<Rightarrow> int) \<Rightarrow> (flow_edge \<Rightarrow> int) \<Rightarrow> int \<Rightarrow> bool" where
  "flow_state N c r m \<longleftrightarrow> (\<forall>e. 0 \<le> r e) \<and> (\<forall>u v. r (u, v) + r (v, u) = c (u, v) + c (v, u))
     \<and> net_flow N RootSource RootSink (\<lambda>e. c e - r e) \<and> net_out N (\<lambda>e. c e - r e) RootSource = m"

lemma open_edge:
  assumes "caps_ok N c adj" and "flow_state N c r m" and "0 < r (u, v)"
  shows "u \<in> N \<and> v \<in> N \<and> v \<in> set (dict_get adj u [])"
proof -
  have "r (u, v) + r (v, u) = c (u, v) + c (v, u)" "0 \<le> r (v, u)" "0 \<le> c (u, v)" "0 \<le> c (v, u)"
    using assms(1,2) by (auto simp: caps_ok_def flow_state_def)
  with assms(3) have "0 < c (u, v) \<or> 0 < c (v, u)" by linarith
  with assms(1) show ?thesis by (auto simp: caps_ok_def)
qed

lemma distinct_count_list: "distinct xs \<Longrightarrow> count_list xs x \<le> 1"
  by (induction xs) auto

lemma flow_state_push:
  assumes caps: "caps_ok N c adj" and st: "flow_state N c (res_of r) m"
    and walk: "back_walk RootSink path" and dist: "distinct path"
    and inc: "0 \<le> inc" "\<forall>e \<in> set path. inc \<le> res_of r e" "\<forall>e \<in> set path. 0 < res_of r e"
  shows "flow_state N c (res_of (push_path inc path r)) (m + inc)"
proof -
  let ?r' = "res_of (push_path inc path r)"
  define k where "k u v = int (count_list path (u, v)) - int (count_list path (v, u))" for u v
  have r': "?r' (u, v) = res_of r (u, v) - inc * k u v" for u v
    by (simp add: push_path_get k_def right_diff_distrib)
  have anti: "k u v = - k v u" for u v by (simp add: k_def)
  have nodes: "fst ` set path \<subseteq> N" "snd ` set path \<subseteq> N"
    using open_edge [OF caps st] inc(3) by fastforce+
  have net: "(\<Sum>v \<in> N. k u v) = (if u = RootSource then 1 else 0) - (if u = RootSink then 1 else 0)" for u
    using back_walk_net [OF _ walk nodes, of u] caps by (simp add: k_def caps_ok_def)
  have nonneg: "0 \<le> ?r' (u, v)" for u v
  proof -
    have "k u v \<le> 1" using distinct_count_list [OF dist, of "(u, v)"] by (simp add: k_def)
    show ?thesis
    proof (cases "k u v \<le> 0")
      case True
      then have "inc * k u v \<le> 0" using inc(1) by (simp add: mult_nonneg_nonpos)
      moreover have "0 \<le> res_of r (u, v)" using st by (auto simp: flow_state_def)
      ultimately show ?thesis by (simp add: r')
    next
      case False
      with \<open>k u v \<le> 1\<close> have "k u v = 1" by simp
      then have "0 < count_list path (u, v)" by (simp add: k_def)
      then have "(u, v) \<in> set path" by (metis count_notin not_less_zero)
      then show ?thesis using inc(2) \<open>k u v = 1\<close> by (simp add: r')
    qed
  qed
  have sum: "?r' (u, v) + ?r' (v, u) = c (u, v) + c (v, u)" for u v
    using st anti [of u v] by (simp add: flow_state_def r')
  have out: "net_out N (\<lambda>e. c e - ?r' e) u = net_out N (\<lambda>e. c e - res_of r e) u + inc * (\<Sum>v \<in> N. k u v)" for u
    unfolding net_out_def sum_distrib_left sum.distrib [symmetric] by (intro sum.cong refl) (simp add: r')
  have "c (u, v) - ?r' (u, v) = - (c (v, u) - ?r' (v, u))" for u v using sum [of u v] by simp
  then show ?thesis
    using st nonneg sum unfolding flow_state_def net_flow_def by (auto simp: out net)
qed

text \<open>A set of nodes with the source, without the sink, and with no open edge leaving it.\<close>

definition saturated_cut :: "flow_node set \<Rightarrow> (flow_edge \<Rightarrow> int) \<Rightarrow> flow_node set \<Rightarrow> bool" where
  "saturated_cut N r R \<longleftrightarrow> R \<subseteq> N \<and> RootSource \<in> R \<and> RootSink \<notin> R \<and> (\<forall>u \<in> R. \<forall>v \<in> N - R. r (u, v) \<le> 0)"

lemma tree_in_nodes:
  assumes "caps_ok N c adj" and "flow_state N c r m" and "tree_ok r ps"
  shows "fst ` set ps \<subseteq> N"
proof
  fix v assume "v \<in> fst ` set ps"
  then obtain i where i: "i < length ps" "fst (ps ! i) = v" by (auto simp: in_set_conv_nth)
  show "v \<in> N"
  proof (cases "i = 0")
    case True
    then show ?thesis using assms(1,3) i(2) by (auto simp: tree_ok_def caps_ok_def)
  next
    case False
    then obtain j where "0 < r (fst (ps ! j), fst (ps ! i))"
      using assms(3) i(1) unfolding tree_ok_def by blast
    then show ?thesis using open_edge [OF assms(1,2)] i(2) by blast
  qed
qed

lemma bfs_no_path_cut:
  assumes caps: "caps_ok N c adj" and st: "flow_state N c (res_of r) m"
    and ps: "ps = bfs_loop adj r [(RootSource, None)] [RootSource]" and no: "RootSink \<notin> fst ` set ps"
  shows "saturated_cut N (res_of r) (fst ` set ps)"
proof -
  have "explored adj r [(RootSource, None)] [RootSource]" by (simp add: explored_def)
  then have bfs: "tree_ok (res_of r) ps" "explored adj r ps []"
    using bfs_loop_correct [OF tree_ok_root, of "[RootSource]" adj r] no unfolding ps by auto
  have "RootSource \<in> fst ` set ps"
    using bfs(1) nth_mem [of 0 ps] unfolding tree_ok_def by force
  moreover have "res_of r (u, v) \<le> 0" if "u \<in> fst ` set ps" "v \<in> N - fst ` set ps" for u v
  proof (rule ccontr)
    assume "\<not> res_of r (u, v) \<le> 0"
    then have "0 < res_of r (u, v)" by simp
    with open_edge [OF caps st this] bfs(2) that show False unfolding explored_def by auto
  qed
  ultimately show ?thesis
    using tree_in_nodes [OF caps st bfs(1)] no unfolding saturated_cut_def by blast
qed

lemma augment_loop_correct:
  assumes caps: "caps_ok N c adj" and "flow_state N c (res_of r) m" and "m \<le> total_supply"
  shows "\<exists>r' m'. augment_loop adj total_supply r m = Some (r', m') \<and> flow_state N c (res_of r') m'
    \<and> m' \<le> total_supply \<and> (m' = total_supply \<or> (\<exists>R. saturated_cut N (res_of r') R))"
  using assms(2,3)
proof (induction "nat (total_supply - m)" arbitrary: r m rule: less_induct)
  case less
  let ?ps = "bfs_loop adj r [(RootSource, None)] [RootSource]"
  consider "total_supply \<le> m" | "m < total_supply" "RootSink \<notin> fst ` set ?ps"
    | "m < total_supply" "RootSink \<in> fst ` set ?ps"
    by linarith
  then show ?case
  proof cases
    case 1
    then have "augment_loop adj total_supply r m = Some (r, m)" by (subst augment_loop.simps) simp
    with 1 less.prems show ?thesis by auto
  next
    case 2
    then have "augment_loop adj total_supply r m = Some (r, m)" by (subst augment_loop.simps) simp
    with less.prems bfs_no_path_cut [OF caps less.prems(1) refl 2(2)] show ?thesis by blast
  next
    case 3
    have "tree_ok (res_of r) ?ps"
      using bfs_loop_correct [OF tree_ok_root, of "[RootSource]" adj r] by (simp add: explored_def)
    from walk_up_sink [OF this 3(2)] obtain path where path: "walk_up ?ps RootSink = Some path"
      "back_walk RootSink path" "\<forall>e \<in> set path. 0 < res_of r e" "distinct path" by blast
    define inc where "inc = path_increment r path (total_supply - m)"
    have inc: "0 < inc" "inc \<le> total_supply - m" "\<forall>e \<in> set path. inc \<le> res_of r e"
      using path_increment_facts [of "total_supply - m" path r] 3(1) path(3) by (auto simp: inc_def)
    have step: "augment_loop adj total_supply r m = augment_loop adj total_supply (push_path inc path r) (m + inc)"
      using 3 path(1) by (subst augment_loop.simps) (simp add: inc_def Let_def)
    have "flow_state N c (res_of (push_path inc path r)) (m + inc)"
      using inc by (intro flow_state_push [OF caps less.prems(1) path(2,4) _ _ path(3)]) auto
    with less.hyps [of "m + inc" "push_path inc path r"] inc show ?thesis unfolding step by simp
  qed
qed

section \<open>The graph of supplies, demands and reviewed edges\<close>

type_synonym capped_edge = "flow_node \<times> flow_node \<times> int"

definition edge_list ::
  "(string, int) dict \<Rightarrow> (string, int) dict \<Rightarrow> (string \<times> string) list \<Rightarrow> int \<Rightarrow> capped_edge list" where
  "edge_list supplies demands reviewed total_supply =
     map (\<lambda>(out_id, amount). (RootSource, OutNode out_id, amount)) supplies
     @ map (\<lambda>(in_id, amount). (InNode in_id, RootSink, amount)) demands
     @ map (\<lambda>(out_id, in_id). (OutNode out_id, InNode in_id, total_supply)) reviewed"

definition cap_sum :: "capped_edge list \<Rightarrow> flow_edge \<Rightarrow> int" where
  "cap_sum L e = (\<Sum>(l, r, x) \<leftarrow> L. if (l, r) = e then max 0 x else 0)"

lemma build_graph_fold:
  "build_graph supplies demands reviewed total_supply
     = fold (\<lambda>(l, r, x). add_edge l r x) (edge_list supplies demands reviewed total_supply) empty_graph"
  by (simp add: build_graph_def edge_list_def fold_map comp_def case_prod_unfold)

lemma dict_get_set_default: "dict_get (set_default k v d) k' v = dict_get d k' v"
  by (auto simp: set_default_def dict_get_def update_conv' split: option.splits)

lemma set_default_adj: "dict_get (set_default k [] d) u [] = dict_get d u []"
  by (rule dict_get_set_default)

lemma link_neighbor_get:
  "set (dict_get (link_neighbor l r adj) u []) = set (dict_get adj u []) \<union> (if u = l then {r} else {})"
  by (auto simp: link_neighbor_def Let_def dict_get_update)

lemma add_edge_get:
  "res_of (capacity (add_edge l r x g)) e = res_of (capacity g) e + (if (l, r) = e then max 0 x else 0)"
  "res_of (residual (add_edge l r x g)) e = res_of (residual g) e + (if (l, r) = e then max 0 x else 0)"
  "set (dict_get (adjacency (add_edge l r x g)) u [])
     = set (dict_get (adjacency g) u []) \<union> (if u = l then {r} else {}) \<union> (if u = r then {l} else {})"
  by (simp_all add: add_edge_def Let_def dict_get_update dict_get_set_default link_neighbor_get set_default_adj)

lemma fold_add_edge_get:
  "res_of (capacity (fold (\<lambda>(l, r, x). add_edge l r x) L g)) e = res_of (capacity g) e + cap_sum L e"
  "res_of (residual (fold (\<lambda>(l, r, x). add_edge l r x) L g)) e = res_of (residual g) e + cap_sum L e"
  by (induction L arbitrary: g) (auto simp: cap_sum_def add_edge_get)

lemma fold_add_edge_adj:
  "v \<in> set (dict_get (adjacency (fold (\<lambda>(l, r, x). add_edge l r x) L g)) u []) \<longleftrightarrow>
     v \<in> set (dict_get (adjacency g) u []) \<or> (\<exists>x. (u, v, x) \<in> set L \<or> (v, u, x) \<in> set L)"
  by (induction L arbitrary: g) (auto simp: add_edge_get split: if_splits)

lemma cap_sum_pos: "0 < cap_sum L (u, v) \<Longrightarrow> \<exists>x. (u, v, x) \<in> set L"
  by (induction L) (auto simp: cap_sum_def split: if_splits)

lemma cap_sum_nonneg: "0 \<le> cap_sum L e"
  unfolding cap_sum_def by (rule sum_list_nonneg_int) auto

lemma reviewed_edges_iff:
  "e \<in> set (reviewed_edges supplies demands es seen) \<longleftrightarrow>
     e \<in> set es \<and> e \<notin> set seen \<and> fst e \<in> fst ` set supplies \<and> snd e \<in> fst ` set demands"
  by (induction es arbitrary: seen) auto

lemma reviewed_edges_distinct:
  "distinct (reviewed_edges supplies demands es seen)"
  by (induction es arbitrary: seen) (auto simp: reviewed_edges_iff)

lemma build_graph_caps:
  assumes "\<forall>e \<in> set reviewed. fst e \<in> fst ` set supplies \<and> snd e \<in> fst ` set demands"
  shows "caps_ok (flow_nodes supplies demands) (cap_sum (edge_list supplies demands reviewed total_supply))
    (adjacency (build_graph supplies demands reviewed total_supply))"
proof -
  let ?L = "edge_list supplies demands reviewed total_supply"
  have fst_mem: "a \<in> fst ` set d" if "(a, x) \<in> set d" for a and x :: int and d
    using that by force
  have ends: "a \<in> fst ` set supplies \<and> b \<in> fst ` set demands" if "(a, b) \<in> set reviewed" for a b
    using assms that by force
  have nodes: "u \<in> flow_nodes supplies demands \<and> v \<in> flow_nodes supplies demands" if "(u, v, x) \<in> set ?L" for u v x
    using that by (auto simp: edge_list_def flow_nodes_simps dest: fst_mem ends)
  show ?thesis
    unfolding caps_ok_def build_graph_fold fold_add_edge_adj
    using bip.finite_nodes bip.source_node bip.sink_node cap_sum_nonneg cap_sum_pos [of ?L] nodes by blast
qed

lemma initial_flow_state:
  "flow_state (flow_nodes supplies demands) (cap_sum (edge_list supplies demands reviewed total_supply))
     (res_of (residual (build_graph supplies demands reviewed total_supply))) 0"
proof -
  have "res_of (residual (build_graph supplies demands reviewed total_supply))
      = cap_sum (edge_list supplies demands reviewed total_supply)"
    by (rule ext) (simp add: build_graph_fold fold_add_edge_get empty_graph_def)
  then show ?thesis by (simp add: flow_state_def net_flow_def net_out_def cap_sum_nonneg)
qed

end
