(* ===== verification/Flow_Exact.thy ===== *)
theory Flow_Exact
  imports Flow_Network
begin

text \<open>
  What an exact allocation is, and the proof that \<open>allocate_bipartite_flow_msat\<close> returns one
  exactly when one exists.
\<close>

section \<open>Exact flows\<close>

text \<open>Amounts on known, reviewed edges that use up every supply and fill every demand.\<close>

definition exact_flow ::
  "(string, int) dict \<Rightarrow> (string, int) dict \<Rightarrow> (string \<times> string) list \<Rightarrow> (string \<times> string \<Rightarrow> int) \<Rightarrow> bool" where
  "exact_flow supplies demands edges fl \<longleftrightarrow>
     (\<forall>e. 0 \<le> fl e)
     \<and> (\<forall>e. fl e \<noteq> 0 \<longrightarrow> e \<in> set edges \<and> fst e \<in> fst ` set supplies \<and> snd e \<in> fst ` set demands)
     \<and> (\<forall>(k, a) \<in> set supplies. (\<Sum>i \<in> fst ` set demands. fl (k, i)) = a)
     \<and> (\<forall>(i, b) \<in> set demands. (\<Sum>k \<in> fst ` set supplies. fl (k, i)) = b)"

definition flow_of :: "(string \<times> string \<times> int) list \<Rightarrow> string \<times> string \<Rightarrow> int" where
  "flow_of fs e = (\<Sum>(k, i, a) \<leftarrow> fs. if (k, i) = e then a else 0)"

lemma sum_dict:
  "distinct (map fst d) \<Longrightarrow> (\<Sum>(_, a) \<leftarrow> d. (a :: int)) = (\<Sum>k \<in> fst ` set d. dict_get d k 0)"
proof (induction d)
  case (Cons p d)
  obtain k a where p: "p = (k, a)" by (cases p)
  have k: "k \<notin> fst ` set d" using Cons.prems by (simp add: p)
  have "(\<Sum>x \<in> fst ` set d. dict_get (p # d) x 0) = (\<Sum>x \<in> fst ` set d. dict_get d x 0)"
    using k by (intro sum.cong refl) (auto simp: dict_get_def p)
  moreover have "dict_get (p # d) k 0 = a" by (simp add: dict_get_def p)
  ultimately show ?case using Cons k by (simp add: p)
qed simp

lemma dict_get_member: "distinct (map fst d) \<Longrightarrow> (k, a) \<in> set d \<Longrightarrow> dict_get d k dflt = a"
  by (simp add: dict_get_def)

lemma dict_get_absent: "k \<notin> fst ` set d \<Longrightarrow> dict_get d k dflt = dflt"
  by (simp add: dict_get_def map_of_eq_None_iff [THEN iffD2] split: option.split)

lemma dict_all_iff:
  "distinct (map fst d) \<Longrightarrow> (\<forall>(k, a) \<in> set d. P k a) \<longleftrightarrow> (\<forall>k \<in> fst ` set d. P k (dict_get d k 0))"
  by (force simp: dict_get_member)

lemma exact_flowI:
  assumes "distinct (map fst supplies)" and "distinct (map fst demands)"
    and "\<And>k i. 0 \<le> fl (k, i)"
    and "\<And>k i. fl (k, i) \<noteq> 0 \<Longrightarrow> (k, i) \<in> set edges \<and> k \<in> fst ` set supplies \<and> i \<in> fst ` set demands"
    and "\<And>k. k \<in> fst ` set supplies \<Longrightarrow> (\<Sum>i \<in> fst ` set demands. fl (k, i)) = dict_get supplies k 0"
    and "\<And>i. i \<in> fst ` set demands \<Longrightarrow> (\<Sum>k \<in> fst ` set supplies. fl (k, i)) = dict_get demands i 0"
  shows "exact_flow supplies demands edges fl"
  unfolding exact_flow_def dict_all_iff [OF assms(1)] dict_all_iff [OF assms(2)]
  using assms(3-) by auto

lemma sum_dict_pick:
  "distinct (map fst d) \<Longrightarrow> (\<Sum>(k, a) \<leftarrow> d. if k = x then (a :: int) else 0) = dict_get d x 0"
proof (induction d)
  case (Cons p d)
  obtain k a where p: "p = (k, a)" by (cases p)
  have "dict_get d x 0 = 0" if "k = x" using Cons.prems that by (intro dict_get_absent) (simp add: p)
  then show ?case using Cons by (auto simp: p dict_get_def)
qed simp

text \<open>The capacities of the graph, read off the inputs.\<close>

definition caps :: "(string, int) dict \<Rightarrow> (string, int) dict \<Rightarrow> (string \<times> string) list \<Rightarrow> int \<Rightarrow> flow_edge \<Rightarrow> int" where
  "caps supplies demands reviewed total_supply = cap_sum (edge_list supplies demands reviewed total_supply)"

lemma cap_sum_append: "cap_sum (xs @ ys) e = cap_sum xs e + cap_sum ys e"
  by (simp add: cap_sum_def)

lemma caps_values:
  assumes "distinct (map fst supplies)" and "distinct (map fst demands)" and "distinct reviewed"
    and "\<forall>(_, a) \<in> set supplies. 0 \<le> a" and "\<forall>(_, a) \<in> set demands. 0 \<le> a" and "0 \<le> total_supply"
  shows "caps supplies demands reviewed total_supply (RootSource, OutNode k) = dict_get supplies k 0"
    and "caps supplies demands reviewed total_supply (InNode i, RootSink) = dict_get demands i 0"
    and "caps supplies demands reviewed total_supply (OutNode k, InNode i)
           = (if (k, i) \<in> set reviewed then total_supply else 0)"
    and "\<not> (\<exists>k. u = RootSource \<and> v = OutNode k) \<Longrightarrow> \<not> (\<exists>i. u = InNode i \<and> v = RootSink) \<Longrightarrow>
         \<not> (\<exists>k i. u = OutNode k \<and> v = InNode i) \<Longrightarrow> caps supplies demands reviewed total_supply (u, v) = 0"
proof -
  have s: "cap_sum (map (\<lambda>(out_id, amount). (RootSource, OutNode out_id, amount)) supplies) (u, v)
      = (case (u, v) of (RootSource, OutNode k) \<Rightarrow> dict_get supplies k 0 | _ \<Rightarrow> 0)" for u v
  proof -
    have "cap_sum (map (\<lambda>(out_id, amount). (RootSource, OutNode out_id, amount)) supplies) (RootSource, OutNode k)
        = (\<Sum>(k', a) \<leftarrow> supplies. if k' = k then a else 0)" for k
      unfolding cap_sum_def map_map using assms(4)
      by (intro arg_cong [where f = sum_list] map_cong) auto
    moreover have "cap_sum (map (\<lambda>(out_id, amount). (RootSource, OutNode out_id, amount)) d) (u, v) = 0"
      if "\<nexists>k. u = RootSource \<and> v = OutNode k" for d u v
      using that by (induction d) (auto simp: cap_sum_def)
    ultimately show ?thesis
      using sum_dict_pick [OF assms(1)] by (auto split: flow_node.splits)
  qed
  have d: "cap_sum (map (\<lambda>(in_id, amount). (InNode in_id, RootSink, amount)) demands) (u, v)
      = (case (u, v) of (InNode i, RootSink) \<Rightarrow> dict_get demands i 0 | _ \<Rightarrow> 0)" for u v
  proof -
    have "cap_sum (map (\<lambda>(in_id, amount). (InNode in_id, RootSink, amount)) demands) (InNode i, RootSink)
        = (\<Sum>(i', a) \<leftarrow> demands. if i' = i then a else 0)" for i
      unfolding cap_sum_def map_map using assms(5)
      by (intro arg_cong [where f = sum_list] map_cong) auto
    moreover have "cap_sum (map (\<lambda>(in_id, amount). (InNode in_id, RootSink, amount)) d) (u, v) = 0"
      if "\<nexists>i. u = InNode i \<and> v = RootSink" for d u v
      using that by (induction d) (auto simp: cap_sum_def)
    ultimately show ?thesis
      using sum_dict_pick [OF assms(2)] by (auto split: flow_node.splits)
  qed
  have e: "cap_sum (map (\<lambda>(out_id, in_id). (OutNode out_id, InNode in_id, total_supply)) reviewed) (u, v)
      = (case (u, v) of (OutNode k, InNode i) \<Rightarrow> if (k, i) \<in> set reviewed then total_supply else 0 | _ \<Rightarrow> 0)" for u v
    using assms(3,6) by (induction reviewed) (auto simp: cap_sum_def split: flow_node.splits if_splits)
  show "caps supplies demands reviewed total_supply (RootSource, OutNode k) = dict_get supplies k 0"
    "caps supplies demands reviewed total_supply (InNode i, RootSink) = dict_get demands i 0"
    "caps supplies demands reviewed total_supply (OutNode k, InNode i)
       = (if (k, i) \<in> set reviewed then total_supply else 0)"
    by (simp_all add: caps_def edge_list_def cap_sum_append s d e)
  show "\<not> (\<exists>k. u = RootSource \<and> v = OutNode k) \<Longrightarrow> \<not> (\<exists>i. u = InNode i \<and> v = RootSink) \<Longrightarrow>
         \<not> (\<exists>k i. u = OutNode k \<and> v = InNode i) \<Longrightarrow> caps supplies demands reviewed total_supply (u, v) = 0"
    by (auto simp: caps_def edge_list_def cap_sum_append s d e split: flow_node.splits)
qed

lemma sum_flow_nodes:
  "(\<Sum>v \<in> flow_nodes supplies demands. (h v :: int)) = h RootSource + h RootSink
     + (\<Sum>k \<in> fst ` set supplies. h (OutNode k)) + (\<Sum>i \<in> fst ` set demands. h (InNode i))"
proof -
  let ?O = "OutNode ` fst ` set supplies" and ?I = "InNode ` fst ` set demands"
  have "flow_nodes supplies demands = {RootSource, RootSink} \<union> (?O \<union> ?I)" by (auto simp: flow_nodes_def)
  moreover have "sum h ({RootSource, RootSink} \<union> (?O \<union> ?I)) = sum h {RootSource, RootSink} + (sum h ?O + sum h ?I)"
    by (subst sum.union_disjoint; (simp; fail)?) (auto intro: sum.union_disjoint)
  moreover have "sum h ?O = (\<Sum>k \<in> fst ` set supplies. h (OutNode k))"
    "sum h ?I = (\<Sum>i \<in> fst ` set demands. h (InNode i))"
    by (rule sum.reindex_cong [of OutNode], auto simp: inj_on_def) (rule sum.reindex_cong [of InNode], auto simp: inj_on_def)
  ultimately show ?thesis by simp
qed

section \<open>A full flow is exact\<close>

text \<open>Inputs of the search: distinct keys, no negative amounts, equal totals.\<close>

definition flow_inputs :: "(string, int) dict \<Rightarrow> (string, int) dict \<Rightarrow> int \<Rightarrow> bool" where
  "flow_inputs supplies demands total_supply \<longleftrightarrow>
     distinct (map fst supplies) \<and> distinct (map fst demands)
     \<and> (\<forall>(_, a) \<in> set supplies. 0 \<le> a) \<and> (\<forall>(_, a) \<in> set demands. 0 \<le> a)
     \<and> (\<Sum>(_, a) \<leftarrow> supplies. a) = total_supply \<and> (\<Sum>(_, a) \<leftarrow> demands. a) = total_supply"

lemma flow_inputs_total: "flow_inputs supplies demands total_supply \<Longrightarrow> 0 \<le> total_supply"
  using sum_list_nonneg_int [of supplies snd] by (fastforce simp: flow_inputs_def case_prod_unfold)

lemma flow_inputs_caps:
  assumes "flow_inputs supplies demands total_supply" and "distinct reviewed"
  shows "caps supplies demands reviewed total_supply (RootSource, OutNode k) = dict_get supplies k 0"
    and "caps supplies demands reviewed total_supply (InNode i, RootSink) = dict_get demands i 0"
    and "caps supplies demands reviewed total_supply (OutNode k, InNode i)
           = (if (k, i) \<in> set reviewed then total_supply else 0)"
    and "\<not> (\<exists>k. u = RootSource \<and> v = OutNode k) \<Longrightarrow> \<not> (\<exists>i. u = InNode i \<and> v = RootSink) \<Longrightarrow>
         \<not> (\<exists>k i. u = OutNode k \<and> v = InNode i) \<Longrightarrow> caps supplies demands reviewed total_supply (u, v) = 0"
  using caps_values [of supplies demands reviewed total_supply] assms flow_inputs_total [OF assms(1)]
  unfolding flow_inputs_def by blast+

lemma full_flow_exact:
  assumes inp: "flow_inputs supplies demands total_supply" and dist: "distinct reviewed"
    and known: "\<forall>e \<in> set reviewed. fst e \<in> fst ` set supplies \<and> snd e \<in> fst ` set demands"
    and st: "flow_state (flow_nodes supplies demands) (caps supplies demands reviewed total_supply) r total_supply"
  shows "exact_flow supplies demands reviewed
    (\<lambda>(k, i). caps supplies demands reviewed total_supply (OutNode k, InNode i) - r (OutNode k, InNode i))"
proof -
  let ?N = "flow_nodes supplies demands" and ?c = "caps supplies demands reviewed total_supply"
  let ?S = "fst ` set supplies" and ?D = "fst ` set demands"
  note cv = flow_inputs_caps [OF inp dist]
  define f where "f e = ?c e - r e" for e
  have nf: "net_flow ?N RootSource RootSink f" and val: "net_out ?N f RootSource = total_supply"
    using st by (simp_all add: flow_state_def f_def [abs_def])
  have anti: "f (u, v) = - f (v, u)" for u v using nf unfolding net_flow_def by blast
  have rpos: "0 \<le> r e" and pair: "r (u, v) + r (v, u) = ?c (u, v) + ?c (v, u)" for e u v
    using st unfolding flow_state_def by blast+
  have zero: "f (u, v) = 0" if "?c (u, v) = 0" "?c (v, u) = 0" for u v
    using pair [of u v] rpos [of "(u, v)"] rpos [of "(v, u)"] that by (simp add: f_def)
  have diag: "f (u, u) = 0" for u using anti [of u u] by simp
  have no: "f (RootSource, RootSink) = 0" "f (RootSource, InNode i) = 0" "f (OutNode k, RootSink) = 0"
    "f (OutNode k, OutNode k') = 0" "f (InNode i, InNode i') = 0" for k k' i i'
    by (rule zero; rule cv(4); simp)+
  have le_s: "f (RootSource, OutNode k) \<le> dict_get supplies k 0" for k
    using rpos [of "(RootSource, OutNode k)"] by (simp add: f_def cv)
  have le_d: "f (InNode i, RootSink) \<le> dict_get demands i 0" for i
    using rpos [of "(InNode i, RootSink)"] by (simp add: f_def cv)
  have out_S: "net_out ?N f RootSource = (\<Sum>k \<in> ?S. f (RootSource, OutNode k))"
    by (simp add: net_out_def sum_flow_nodes diag no)
  have out_T: "net_out ?N f RootSink = - (\<Sum>i \<in> ?D. f (InNode i, RootSink))"
    unfolding net_out_def sum_flow_nodes
    using anti [of RootSink RootSource] anti [of RootSink "OutNode _"] no diag
    by (simp add: anti [of RootSink "InNode _"] anti [of RootSink "OutNode _"] sum_negf)
  have full_s: "f (RootSource, OutNode k) = dict_get supplies k 0" if "k \<in> ?S" for k
  proof (rule sum_mono_inv [where I = ?S])
    show "(\<Sum>k \<in> ?S. f (RootSource, OutNode k)) = (\<Sum>k \<in> ?S. dict_get supplies k 0)"
      using val out_S inp sum_dict [of supplies] by (simp add: flow_inputs_def)
  qed (use le_s that in auto)
  have full_d: "f (InNode i, RootSink) = dict_get demands i 0" if "i \<in> ?D" for i
  proof (rule sum_mono_inv [where I = ?D])
    show "(\<Sum>i \<in> ?D. f (InNode i, RootSink)) = (\<Sum>i \<in> ?D. dict_get demands i 0)"
      using bip.sink_value [OF nf] val out_T inp sum_dict [of demands] by (simp add: flow_inputs_def)
  qed (use le_d that in auto)
  have rows: "(\<Sum>i \<in> ?D. f (OutNode k, InNode i)) = dict_get supplies k 0" if "k \<in> ?S" for k
  proof -
    have "net_out ?N f (OutNode k) = 0" using nf that unfolding net_flow_def by (simp add: flow_nodes_simps)
    then show ?thesis
      using full_s [OF that] anti [of "OutNode k" RootSource] by (simp add: net_out_def sum_flow_nodes no)
  qed
  have cols: "(\<Sum>k \<in> ?S. f (OutNode k, InNode i)) = dict_get demands i 0" if "i \<in> ?D" for i
  proof -
    have "net_out ?N f (InNode i) = 0" using nf that unfolding net_flow_def by (simp add: flow_nodes_simps)
    then show ?thesis
      using full_d [OF that] anti [of "InNode i" RootSource]
      by (simp add: net_out_def sum_flow_nodes no anti [of "InNode i" "OutNode _"] sum_negf)
  qed
  have pos: "0 \<le> f (OutNode k, InNode i)" for k i
    using pair [of "OutNode k" "InNode i"] rpos [of "(InNode i, OutNode k)"] cv(4) [of "InNode i" "OutNode k"]
    by (simp add: f_def)
  have only: "f (OutNode k, InNode i) = 0" if "(k, i) \<notin> set reviewed" for k i
    using that cv(3) cv(4) [of "InNode i" "OutNode k"] by (intro zero) auto
  have "exact_flow supplies demands reviewed (\<lambda>(k, i). f (OutNode k, InNode i))"
  proof (rule exact_flowI)
    show "distinct (map fst supplies)" "distinct (map fst demands)" using inp by (simp_all add: flow_inputs_def)
    fix k i
    show "0 \<le> (case (k, i) of (k, i) \<Rightarrow> f (OutNode k, InNode i))" using pos by simp
    assume "(case (k, i) of (k, i) \<Rightarrow> f (OutNode k, InNode i)) \<noteq> 0"
    then have "(k, i) \<in> set reviewed" using only by force
    then show "(k, i) \<in> set reviewed \<and> k \<in> ?S \<and> i \<in> ?D" using known by force
  qed (simp_all add: rows cols)
  then show ?thesis by (simp add: f_def)
qed

section \<open>No exact flow is missed\<close>

fun flow_net :: "(string, int) dict \<Rightarrow> (string, int) dict \<Rightarrow> (string \<times> string \<Rightarrow> int) \<Rightarrow> flow_edge \<Rightarrow> int" where
  "flow_net supplies demands fl (RootSource, OutNode k) = dict_get supplies k 0"
| "flow_net supplies demands fl (OutNode k, RootSource) = - dict_get supplies k 0"
| "flow_net supplies demands fl (InNode i, RootSink) = dict_get demands i 0"
| "flow_net supplies demands fl (RootSink, InNode i) = - dict_get demands i 0"
| "flow_net supplies demands fl (OutNode k, InNode i) = fl (k, i)"
| "flow_net supplies demands fl (InNode i, OutNode k) = - fl (k, i)"
| "flow_net supplies demands fl e = 0"

lemma exact_flow_sums:
  assumes "distinct (map fst supplies)" and "distinct (map fst demands)" and "exact_flow supplies demands edges fl"
  shows "k \<in> fst ` set supplies \<Longrightarrow> (\<Sum>i \<in> fst ` set demands. fl (k, i)) = dict_get supplies k 0"
    and "i \<in> fst ` set demands \<Longrightarrow> (\<Sum>k \<in> fst ` set supplies. fl (k, i)) = dict_get demands i 0"
  using assms(3) unfolding exact_flow_def dict_all_iff [OF assms(1)] dict_all_iff [OF assms(2)] by blast+

lemma exact_flow_totals:
  assumes "distinct (map fst supplies)" and "distinct (map fst demands)" and "exact_flow supplies demands edges fl"
  shows "(\<Sum>(_, a) \<leftarrow> supplies. a) = (\<Sum>(_, a) \<leftarrow> demands. a)"
proof -
  have "(\<Sum>(_, a) \<leftarrow> supplies. a) = (\<Sum>k \<in> fst ` set supplies. \<Sum>i \<in> fst ` set demands. fl (k, i))"
    by (simp add: sum_dict [OF assms(1)] exact_flow_sums(1) [OF assms])
  also have "\<dots> = (\<Sum>i \<in> fst ` set demands. \<Sum>k \<in> fst ` set supplies. fl (k, i))" by (rule sum.swap)
  also have "\<dots> = (\<Sum>(_, a) \<leftarrow> demands. a)"
    by (simp add: sum_dict [OF assms(2)] exact_flow_sums(2) [OF assms])
  finally show ?thesis .
qed

lemma flow_net_flow:
  assumes "distinct (map fst supplies)" and "distinct (map fst demands)" and "exact_flow supplies demands edges fl"
  shows "net_flow (flow_nodes supplies demands) RootSource RootSink (flow_net supplies demands fl)"
    and "net_out (flow_nodes supplies demands) (flow_net supplies demands fl) RootSource = (\<Sum>(_, a) \<leftarrow> supplies. a)"
proof -
  let ?g = "flow_net supplies demands fl"
  have "?g (u, v) = - ?g (v, u)" for u v by (cases u; cases v) simp_all
  moreover have "net_out (flow_nodes supplies demands) ?g u = 0"
    if "u \<in> flow_nodes supplies demands - {RootSource, RootSink}" for u
    using that by (cases u)
      (simp_all add: flow_nodes_simps net_out_def sum_flow_nodes exact_flow_sums [OF assms] sum_negf)
  ultimately show "net_flow (flow_nodes supplies demands) RootSource RootSink ?g"
    unfolding net_flow_def by blast
  show "net_out (flow_nodes supplies demands) ?g RootSource = (\<Sum>(_, a) \<leftarrow> supplies. a)"
    by (simp add: net_out_def sum_flow_nodes sum_dict [OF assms(1)])
qed

lemma flow_net_within:
  assumes inp: "flow_inputs supplies demands total_supply"
    and fl: "exact_flow supplies demands edges fl"
    and rev: "set reviewed = {e \<in> set edges. fst e \<in> fst ` set supplies \<and> snd e \<in> fst ` set demands}"
    and dist: "distinct reviewed"
  shows "flow_net supplies demands fl (u, v) \<le> caps supplies demands reviewed total_supply (u, v)"
proof -
  note cv = flow_inputs_caps [OF inp dist]
  have keys: "distinct (map fst supplies)" "distinct (map fst demands)" using inp by (simp_all add: flow_inputs_def)
  have c0: "0 \<le> caps supplies demands reviewed total_supply e" for e by (simp add: caps_def cap_sum_nonneg)
  have pos: "0 \<le> dict_get supplies k 0" "0 \<le> dict_get demands k 0" for k
    using inp by (auto simp: flow_inputs_def dict_get_def dest!: map_of_SomeD split: option.split)
  have fl0: "0 \<le> fl e" for e using fl unfolding exact_flow_def by blast
  have "fl (k, i) \<le> total_supply" "(k, i) \<in> set reviewed" if "fl (k, i) \<noteq> 0" for k i
  proof -
    have mem: "(k, i) \<in> set edges" "k \<in> fst ` set supplies" "i \<in> fst ` set demands"
      using fl that unfolding exact_flow_def by force+
    then show "(k, i) \<in> set reviewed" by (simp add: rev)
    have "fl (k, i) \<le> (\<Sum>i \<in> fst ` set demands. fl (k, i))"
      using mem(3) fl0 by (intro member_le_sum) auto
    also have "\<dots> = dict_get supplies k 0" by (rule exact_flow_sums(1) [OF keys fl mem(2)])
    also have "\<dots> \<le> (\<Sum>k \<in> fst ` set supplies. dict_get supplies k 0)"
      using mem(2) pos by (intro member_le_sum) auto
    also have "\<dots> = total_supply" using inp sum_dict [OF keys(1)] by (simp add: flow_inputs_def)
    finally show "fl (k, i) \<le> total_supply" .
  qed
  then have "fl (k, i) \<le> caps supplies demands reviewed total_supply (OutNode k, InNode i)" for k i
    using flow_inputs_total [OF inp] by (cases "fl (k, i) = 0") (auto simp: cv(3))
  then show ?thesis
    using c0 pos fl0 by (cases u; cases v) (simp_all add: cv order_trans [OF _ c0])
qed

lemma cut_no_exact_flow:
  assumes inp: "flow_inputs supplies demands total_supply" and fl: "exact_flow supplies demands edges fl"
    and rev: "set reviewed = {e \<in> set edges. fst e \<in> fst ` set supplies \<and> snd e \<in> fst ` set demands}"
    and dist: "distinct reviewed"
    and st: "flow_state (flow_nodes supplies demands) (caps supplies demands reviewed total_supply) r m"
    and cut: "saturated_cut (flow_nodes supplies demands) r R"
  shows "total_supply \<le> m"
proof -
  let ?N = "flow_nodes supplies demands" and ?c = "caps supplies demands reviewed total_supply"
  have keys: "distinct (map fst supplies)" "distinct (map fst demands)" using inp by (simp_all add: flow_inputs_def)
  have "net_out ?N (flow_net supplies demands fl) RootSource \<le> net_out ?N (\<lambda>e. ?c e - r e) RootSource"
  proof (rule bip.saturated_cut_max)
    show "net_flow ?N RootSource RootSink (\<lambda>e. ?c e - r e)" using st by (simp add: flow_state_def)
    show "net_flow ?N RootSource RootSink (flow_net supplies demands fl)" by (rule flow_net_flow(1) [OF keys fl])
    show "R \<subseteq> ?N" "RootSource \<in> R" "RootSink \<notin> R" using cut by (simp_all add: saturated_cut_def)
    show "flow_net supplies demands fl (u, v) \<le> ?c (u, v) - r (u, v)" if "u \<in> R" "v \<in> ?N - R" for u v
    proof -
      have "r (u, v) \<le> 0" using cut that by (simp add: saturated_cut_def)
      then show ?thesis using flow_net_within [OF inp fl rev dist, of u v] by linarith
    qed
  qed
  then show ?thesis
    using flow_net_flow(2) [OF keys fl] st inp by (simp add: flow_state_def flow_inputs_def)
qed

section \<open>The allocation\<close>

lemma flow_amounts_value:
  assumes "distinct reviewed"
    and "\<And>k i. 0 \<le> res_of (capacity g) (OutNode k, InNode i) - res_of r (OutNode k, InNode i)"
  shows "flow_of (flow_amounts g r reviewed) (k, i) = (if (k, i) \<in> set reviewed
    then res_of (capacity g) (OutNode k, InNode i) - res_of r (OutNode k, InNode i) else 0)"
  using assms(1)
proof (induction reviewed)
  case (Cons e reviewed)
  obtain k' i' where e: "e = (k', i')" by (cases e)
  show ?case
    using Cons assms(2) [of k' i'] by (auto simp: e flow_amounts_def flow_of_def Let_def)
qed (simp add: flow_amounts_def flow_of_def)

lemma flow_amounts_shape:
  "distinct reviewed \<Longrightarrow> distinct (map (\<lambda>(k, i, _). (k, i)) (flow_amounts g r reviewed))"
  "(k, i, a) \<in> set (flow_amounts g r reviewed) \<Longrightarrow> 0 < a \<and> (k, i) \<in> set reviewed"
proof -
  have sub: "set (map (\<lambda>(k, i, _). (k, i)) (flow_amounts g r es)) \<subseteq> set es" for es
    by (induction es) (auto simp: flow_amounts_def Let_def)
  show "distinct reviewed \<Longrightarrow> distinct (map (\<lambda>(k, i, _). (k, i)) (flow_amounts g r reviewed))"
  proof (induction reviewed)
    case (Cons e es)
    have "e \<notin> set (map (\<lambda>(k, i, _). (k, i)) (flow_amounts g r es))" using sub [of es] Cons.prems by auto
    moreover have "distinct (map (\<lambda>(k, i, _). (k, i)) (flow_amounts g r es))" using Cons by simp
    ultimately show ?case by (cases e) (auto simp: flow_amounts_def Let_def)
  qed (simp add: flow_amounts_def)
  show "(k, i, a) \<in> set (flow_amounts g r reviewed) \<Longrightarrow> 0 < a \<and> (k, i) \<in> set reviewed"
    by (auto simp: flow_amounts_def Let_def split: if_splits)
qed

definition allocation_ok ::
  "(string, int) dict \<Rightarrow> (string, int) dict \<Rightarrow> (string \<times> string) list \<Rightarrow> (string \<times> string \<times> int) list \<Rightarrow> bool" where
  "allocation_ok supplies demands edges fs \<longleftrightarrow> exact_flow supplies demands edges (flow_of fs)
     \<and> distinct (map (\<lambda>(k, i, _). (k, i)) fs) \<and> (\<forall>(_, _, a) \<in> set fs. 0 < a)"

lemma exact_flow_edges:
  "exact_flow supplies demands reviewed fl \<Longrightarrow> set reviewed \<subseteq> set edges \<Longrightarrow> exact_flow supplies demands edges fl"
  unfolding exact_flow_def by auto

lemma exact_flowD:
  "exact_flow supplies demands edges fl \<Longrightarrow> 0 \<le> fl e"
  "exact_flow supplies demands edges fl \<Longrightarrow> e \<notin> set edges \<Longrightarrow> fl e = 0"
  unfolding exact_flow_def by blast+

lemma search_correct:
  assumes inp: "flow_inputs supplies demands total_supply"
    and g: "g = build_graph supplies demands reviewed total_supply"
    and reviewed: "reviewed = reviewed_edges supplies demands edges []"
  shows "\<exists>r m. augment_loop (adjacency g) total_supply (residual g) 0 = Some (r, m)
    \<and> (if m = total_supply then allocation_ok supplies demands edges (flow_amounts g r reviewed)
       else \<nexists>fl. exact_flow supplies demands edges fl)"
proof -
  let ?N = "flow_nodes supplies demands" and ?c = "caps supplies demands reviewed total_supply"
  have rev: "set reviewed = {e \<in> set edges. fst e \<in> fst ` set supplies \<and> snd e \<in> fst ` set demands}"
    unfolding reviewed by (rule set_eqI) (simp add: reviewed_edges_iff)
  have dist: "distinct reviewed" by (simp add: reviewed reviewed_edges_distinct)
  have known: "\<forall>e \<in> set reviewed. fst e \<in> fst ` set supplies \<and> snd e \<in> fst ` set demands" by (simp add: rev)
  have caps: "caps_ok ?N ?c (adjacency g)" unfolding g caps_def by (rule build_graph_caps [OF known])
  have cap: "res_of (capacity g) e = ?c e" for e
    by (simp add: g caps_def build_graph_fold fold_add_edge_get empty_graph_def)
  have "flow_state ?N ?c (res_of (residual g)) 0" unfolding g caps_def by (rule initial_flow_state)
  from augment_loop_correct [OF caps this flow_inputs_total [OF inp]]
  obtain r m where r: "augment_loop (adjacency g) total_supply (residual g) 0 = Some (r, m)"
    "flow_state ?N ?c (res_of r) m" "m \<le> total_supply" "m = total_supply \<or> (\<exists>R. saturated_cut ?N (res_of r) R)"
    by blast
  show ?thesis
  proof (cases "m = total_supply")
    case True
    define fl where "fl = (\<lambda>(k, i). ?c (OutNode k, InNode i) - res_of r (OutNode k, InNode i))"
    have fl: "exact_flow supplies demands reviewed fl"
      using full_flow_exact [OF inp dist known] True r(2) unfolding fl_def by blast
    have ex: "exact_flow supplies demands edges (\<lambda>(k, i). ?c (OutNode k, InNode i) - res_of r (OutNode k, InNode i))"
      using exact_flow_edges [OF fl] rev unfolding fl_def by blast
    have only: "?c (OutNode k, InNode i) - res_of r (OutNode k, InNode i) = 0" if "(k, i) \<notin> set reviewed" for k i
      using exact_flowD(2) [OF fl that] by (simp add: fl_def)
    have pos: "0 \<le> ?c (OutNode k, InNode i) - res_of r (OutNode k, InNode i)" for k i
      using exact_flowD(1) [OF fl, of "(k, i)"] by (simp add: fl_def)
    have "flow_of (flow_amounts g r reviewed) = (\<lambda>(k, i). ?c (OutNode k, InNode i) - res_of r (OutNode k, InNode i))"
      using flow_amounts_value [OF dist, of g r] pos only by (auto simp: cap)
    with ex have "allocation_ok supplies demands edges (flow_amounts g r reviewed)"
      using flow_amounts_shape(1) [OF dist, of g r] flow_amounts_shape(2) [of _ _ _ g r reviewed]
      by (auto simp: allocation_ok_def)
    with True r(1) show ?thesis by simp
  next
    case False
    then obtain R where "saturated_cut ?N (res_of r) R" using r(4) by blast
    then have "\<nexists>fl. exact_flow supplies demands edges fl"
      using cut_no_exact_flow [OF inp _ rev dist r(2)] r(3) False by force
    with False r(1) show ?thesis by auto
  qed
qed

lemma negative_no_exact_flow:
  assumes "distinct (map fst supplies)" and "distinct (map fst demands)"
    and "(\<exists>(_, v) \<in> set supplies. v < 0) \<or> (\<exists>(_, v) \<in> set demands. v < 0)"
  shows "\<nexists>fl. exact_flow supplies demands edges fl"
proof
  assume "\<exists>fl. exact_flow supplies demands edges fl"
  then obtain fl where fl: "exact_flow supplies demands edges fl" by blast
  have "0 \<le> a" if "(k, a) \<in> set supplies" for k a
  proof -
    have "k \<in> fst ` set supplies" using that by force
    from exact_flow_sums(1) [OF assms(1,2) fl this] dict_get_member [OF assms(1) that]
    show ?thesis using exact_flowD(1) [OF fl] sum_nonneg [of "fst ` set demands" "\<lambda>i. fl (k, i)"] by simp
  qed
  moreover have "0 \<le> a" if "(i, a) \<in> set demands" for i a
  proof -
    have "i \<in> fst ` set demands" using that by force
    from exact_flow_sums(2) [OF assms(1,2) fl this] dict_get_member [OF assms(2) that]
    show ?thesis using exact_flowD(1) [OF fl] sum_nonneg [of "fst ` set supplies" "\<lambda>k. fl (k, i)"] by simp
  qed
  ultimately show False using assms(3) by force
qed

lemma empty_exact_flow:
  assumes inp: "flow_inputs supplies demands 0"
  shows "allocation_ok supplies demands edges []"
proof -
  have keys: "distinct (map fst supplies)" "distinct (map fst demands)" using inp by (simp_all add: flow_inputs_def)
  have zero: "dict_get d k 0 = 0"
    if "distinct (map fst d)" "\<forall>(_, a) \<in> set d. 0 \<le> a" "(\<Sum>(_, a) \<leftarrow> d. a) = 0" "k \<in> fst ` set d"
    for d :: "(string, int) dict" and k
  proof -
    have "0 \<le> dict_get d x 0" for x
      using that(2) by (auto simp: dict_get_def dest!: map_of_SomeD split: option.split)
    then show ?thesis
      using that(3,4) sum_nonneg_eq_0_iff [of "fst ` set d" "\<lambda>k. dict_get d k 0"]
      by (auto simp: sum_dict [OF that(1)])
  qed
  have "exact_flow supplies demands edges (flow_of [])"
    using inp zero [of supplies] zero [of demands]
    by (intro exact_flowI [OF keys]) (simp_all add: flow_of_def flow_inputs_def)
  then show ?thesis by (simp add: allocation_ok_def)
qed

lemma allocate_bipartite_correct:
  assumes keys: "distinct (map fst supplies)" "distinct (map fst demands)"
  shows "\<exists>res. allocate_bipartite_flow_msat supplies demands edges = Some res
    \<and> (case res of None \<Rightarrow> \<nexists>fl. exact_flow supplies demands edges fl
       | Some fs \<Rightarrow> allocation_ok supplies demands edges fs)"
proof -
  let ?total = "\<Sum>(_, v) \<leftarrow> supplies. v"
  let ?neg = "(\<exists>(_, v) \<in> set supplies. v < 0) \<or> (\<exists>(_, v) \<in> set demands. v < 0)"
  let ?rev = "reviewed_edges supplies demands edges []"
  consider "?neg" | "\<not> ?neg" "?total \<noteq> (\<Sum>(_, v) \<leftarrow> demands. v)"
    | "\<not> ?neg" "?total = (\<Sum>(_, v) \<leftarrow> demands. v)" "?total = 0"
    | "\<not> ?neg" "?total = (\<Sum>(_, v) \<leftarrow> demands. v)" "?total \<noteq> 0" by blast
  then show ?thesis
  proof cases
    case 1
    then have "allocate_bipartite_flow_msat supplies demands edges = Some None"
      by (simp only: allocate_bipartite_flow_msat_def if_True)
    with negative_no_exact_flow [OF keys 1] show ?thesis by auto
  next
    case 2
    then have "allocate_bipartite_flow_msat supplies demands edges = Some None"
      by (simp only: allocate_bipartite_flow_msat_def if_False Let_def) simp
    with 2(2) exact_flow_totals [OF keys] show ?thesis by auto
  next
    case 3
    then have "flow_inputs supplies demands 0" using keys by (force simp: flow_inputs_def)
    moreover have "allocate_bipartite_flow_msat supplies demands edges = Some (Some [])"
      using 3 by (simp only: allocate_bipartite_flow_msat_def if_False Let_def) simp
    ultimately show ?thesis using empty_exact_flow by auto
  next
    case 4
    then have "flow_inputs supplies demands ?total" using keys by (force simp: flow_inputs_def)
    from search_correct [OF this refl refl, of edges] obtain r m where
      r: "augment_loop (adjacency (build_graph supplies demands ?rev ?total)) ?total
            (residual (build_graph supplies demands ?rev ?total)) 0 = Some (r, m)"
      "if m = ?total then allocation_ok supplies demands edges
          (flow_amounts (build_graph supplies demands ?rev ?total) r ?rev)
       else \<nexists>fl. exact_flow supplies demands edges fl"
      by blast
    have "allocate_bipartite_flow_msat supplies demands edges
        = (if m \<noteq> ?total then Some None
           else Some (Some (flow_amounts (build_graph supplies demands ?rev ?total) r ?rev)))"
      using 4 r(1) by (simp only: allocate_bipartite_flow_msat_def if_False Let_def) simp
    with r(2) show ?thesis by (cases "m = ?total") auto
  qed
qed

declare bfs_loop.simps [code] walk_up.simps [code] augment_loop.simps [code]

text \<open>
  C28: the Edmonds-Karp allocation always returns. It returns an allocation exactly when the
  reviewed edges admit one: a returned list has positive amounts on distinct reviewed edges
  that use up every supply and fill every demand, and \<open>None\<close> means that no non-negative
  assignment to the edges does.
\<close>

theorem bipartite_flow_exact:
  assumes "distinct (map fst supplies)" and "distinct (map fst demands)"
  shows "\<exists>res. allocate_bipartite_flow_msat supplies demands edges = Some res
    \<and> (case res of None \<Rightarrow> \<nexists>fl. exact_flow supplies demands edges fl
       | Some fs \<Rightarrow> allocation_ok supplies demands edges fs)"
  by (rule allocate_bipartite_correct [OF assms])

text \<open>A constrained destination: a greedy walk over the edges would give \<open>x\<close> to \<open>a\<close>; the
  search reroutes it.\<close>

theorem bipartite_flow_exact_witness:
  "allocate_bipartite_flow_msat [(''a'', 10), (''b'', 5)] [(''x'', 5), (''y'', 10)]
       [(''a'', ''x''), (''a'', ''y''), (''b'', ''x'')]
     = Some (Some [(''a'', ''y'', 10), (''b'', ''x'', 5)])
   \<and> allocation_ok [(''a'', 10), (''b'', 5)] [(''x'', 5), (''y'', 10)]
       [(''a'', ''x''), (''a'', ''y''), (''b'', ''x'')] [(''a'', ''y'', 10), (''b'', ''x'', 5)]"
proof -
  have run: "allocate_bipartite_flow_msat [(''a'', 10), (''b'', 5)] [(''x'', 5), (''y'', 10)]
       [(''a'', ''x''), (''a'', ''y''), (''b'', ''x'')]
     = Some (Some [(''a'', ''y'', 10), (''b'', ''x'', 5)])"
    by code_simp
  then show ?thesis
    using bipartite_flow_exact [of "[(''a'', 10), (''b'', 5)]" "[(''x'', 5), (''y'', 10)]"
        "[(''a'', ''x''), (''a'', ''y''), (''b'', ''x'')]"]
    by simp
qed

end
