(* ===== verification/Transfer_Flow.thy ===== *)
theory Transfer_Flow
  imports Flow_Exact
begin

text \<open>
  Multi-source transfers with recorded fees (\<open>allocate_transfer_component_flow_msat\<close> of
  \<open>kassiber/core/pair_allocation.py\<close>). The allocation of the residual is a call to an exact
  bipartite allocator; a locale states what the code relies on there, the transfer is
  verified inside it, and the locale is interpreted on \<open>allocate_bipartite_flow_msat\<close>.
\<close>

section \<open>Definitions\<close>

text \<open>\<open>while fee_sink in destinations: fee_sink += "_"\<close>\<close>

function fresh_sink :: "string \<Rightarrow> string list \<Rightarrow> string" where
  "fresh_sink name taken = (if name \<in> set taken then fresh_sink (name @ ''_'') taken else name)"
  by pat_completeness auto
termination
proof (relation "measure (\<lambda>(name, taken). card {d \<in> set taken. length name \<le> length d})")
  fix name :: string and taken
  assume "name \<in> set taken"
  then have "name \<in> {d \<in> set taken. length name \<le> length d}"
    "name \<notin> {d \<in> set taken. length (name @ ''_'') \<le> length d}" by auto
  then have "{d \<in> set taken. length (name @ ''_'') \<le> length d} \<noteq> {d \<in> set taken. length name \<le> length d}"
    by blast
  moreover have "{d \<in> set taken. length (name @ ''_'') \<le> length d} \<subseteq> {d \<in> set taken. length name \<le> length d}"
    by auto
  ultimately have "{d \<in> set taken. length (name @ ''_'') \<le> length d} \<subset> {d \<in> set taken. length name \<le> length d}"
    by blast
  then show "((name @ ''_'', taken), name, taken) \<in> measure (\<lambda>(name, taken). card {d \<in> set taken. length name \<le> length d})"
    by (simp add: psubset_card_mono)
qed simp

declare fresh_sink.simps [simp del]

definition explicit_fees :: "(string, int) dict \<Rightarrow> (string, int option) dict \<Rightarrow> (string, int) dict" where
  "explicit_fees sent fees = map (\<lambda>(k, _). (k, int_or_0 (dict_get fees k None))) sent"

definition source_order :: "(string, int) dict \<Rightarrow> string list \<Rightarrow> string list" where
  "source_order sent implicit_ids =
     filter (\<lambda>k. k \<in> set implicit_ids) (map fst sent) @ filter (\<lambda>k. k \<notin> set implicit_ids) (map fst sent)"

definition split_fee_flows ::
  "string \<Rightarrow> (string, int) dict \<Rightarrow> (string \<times> string \<times> int) list
     \<Rightarrow> (string \<times> string \<times> int) list \<times> (string, int) dict" where
  "split_fee_flows fee_sink explicit allocated =
     fold (\<lambda>(k, i, a) (flows, fees).
             if i = fee_sink then (flows, AList.update k (dict_get fees k 0 + a) fees)
             else (flows @ [(k, i, a)], fees)) allocated ([], explicit)"

text \<open>The type of \<open>allocate_bipartite_flow_msat\<close>: not returning, \<open>None\<close>, or edge amounts.\<close>

type_synonym allocator =
  "(string, int) dict \<Rightarrow> (string, int) dict \<Rightarrow> (string \<times> string) list
     \<Rightarrow> (string \<times> string \<times> int) list option option"

definition transfer_flow_with ::
  "allocator \<Rightarrow> (string, int) dict \<Rightarrow> (string, int option) dict \<Rightarrow> (string, int) dict
     \<Rightarrow> (string \<times> string) list \<Rightarrow> string list
     \<Rightarrow> ((string \<times> string \<times> int) list \<times> (string, int) dict) option option" where
  "transfer_flow_with alloc sent fees destinations edges implicit_ids =
     (if (\<exists>(_, a) \<in> set sent. a < 0) \<or> (\<exists>(_, a) \<in> set destinations. a < 0) then Some None
      else let explicit = explicit_fees sent fees
      in if (\<exists>(k, fee) \<in> set explicit. fee < 0 \<or> dict_get sent k 0 < fee) then Some None
      else if (\<exists>k \<in> fst ` set fees. k \<notin> fst ` set sent) then Some None
      else let aggregate_fee = (\<Sum>(_, a) \<leftarrow> sent. a) - (\<Sum>(_, a) \<leftarrow> destinations. a);
               unexplained_fee = aggregate_fee - (\<Sum>(_, a) \<leftarrow> explicit. a)
      in if aggregate_fee < 0 \<or> unexplained_fee < 0 then Some None
      else let order = source_order sent implicit_ids;
               ordered_supply = map (\<lambda>k. (k, dict_get sent k 0 - dict_get explicit k 0)) order;
               fee_sink = fresh_sink ''__kassiber_unexplained_transfer_fee__'' (map fst destinations);
               augmented_demands = (fee_sink, unexplained_fee) # destinations;
               augmented_edges = map (\<lambda>k. (k, fee_sink)) order @ edges
      in map_option (map_option (split_fee_flows fee_sink explicit))
           (alloc ordered_supply augmented_demands augmented_edges))"

definition allocate_transfer_component_flow_msat ::
  "(string, int) dict \<Rightarrow> (string, int option) dict \<Rightarrow> (string, int) dict
     \<Rightarrow> (string \<times> string) list \<Rightarrow> string list
     \<Rightarrow> ((string \<times> string \<times> int) list \<times> (string, int) dict) option option" where
  "allocate_transfer_component_flow_msat =
     transfer_flow_with allocate_bipartite_flow_msat"

section \<open>What a transfer split is\<close>

definition recorded_fee :: "(string, int option) dict \<Rightarrow> string \<Rightarrow> int" where
  "recorded_fee fees k = int_or_0 (dict_get fees k None)"

text \<open>
  Principal amounts on reviewed edges and a fee per source, not below the recorded one, that
  together use up what every source sent and give every destination what it received.
\<close>

definition transfer_split ::
  "(string, int) dict \<Rightarrow> (string, int option) dict \<Rightarrow> (string, int) dict \<Rightarrow> (string \<times> string) list
     \<Rightarrow> (string \<times> string \<Rightarrow> int) \<Rightarrow> (string \<Rightarrow> int) \<Rightarrow> bool" where
  "transfer_split sent fees destinations edges fl fee \<longleftrightarrow>
     (\<forall>k \<in> fst ` set fees. k \<in> fst ` set sent) \<and> (\<forall>k. 0 \<le> recorded_fee fees k)
     \<and> (\<forall>e. 0 \<le> fl e)
     \<and> (\<forall>e. fl e \<noteq> 0 \<longrightarrow> e \<in> set edges \<and> fst e \<in> fst ` set sent \<and> snd e \<in> fst ` set destinations)
     \<and> (\<forall>k \<in> fst ` set sent. recorded_fee fees k \<le> fee k
          \<and> (\<Sum>i \<in> fst ` set destinations. fl (k, i)) + fee k = dict_get sent k 0)
     \<and> (\<forall>i \<in> fst ` set destinations. (\<Sum>k \<in> fst ` set sent. fl (k, i)) = dict_get destinations i 0)"

lemma transfer_splitI:
  assumes "\<And>k. k \<in> fst ` set fees \<Longrightarrow> k \<in> fst ` set sent" and "\<And>k. 0 \<le> recorded_fee fees k"
    and "\<And>k i. 0 \<le> fl (k, i)"
    and "\<And>k i. fl (k, i) \<noteq> 0 \<Longrightarrow> (k, i) \<in> set edges \<and> k \<in> fst ` set sent \<and> i \<in> fst ` set destinations"
    and "\<And>k. k \<in> fst ` set sent \<Longrightarrow> recorded_fee fees k \<le> fee k"
    and "\<And>k. k \<in> fst ` set sent \<Longrightarrow> (\<Sum>i \<in> fst ` set destinations. fl (k, i)) + fee k = dict_get sent k 0"
    and "\<And>i. i \<in> fst ` set destinations \<Longrightarrow> (\<Sum>k \<in> fst ` set sent. fl (k, i)) = dict_get destinations i 0"
  shows "transfer_split sent fees destinations edges fl fee"
  unfolding transfer_split_def
proof (intro conjI)
  show "\<forall>k \<in> fst ` set fees. k \<in> fst ` set sent" "\<forall>k. 0 \<le> recorded_fee fees k" using assms(1,2) by auto
  show "\<forall>e. 0 \<le> fl e" using assms(3) by auto
  show "\<forall>e. fl e \<noteq> 0 \<longrightarrow> e \<in> set edges \<and> fst e \<in> fst ` set sent \<and> snd e \<in> fst ` set destinations"
  proof (intro allI impI)
    fix e assume "fl e \<noteq> 0"
    then show "e \<in> set edges \<and> fst e \<in> fst ` set sent \<and> snd e \<in> fst ` set destinations"
      using assms(4) [of "fst e" "snd e"] by simp
  qed
  show "\<forall>k \<in> fst ` set sent. recorded_fee fees k \<le> fee k
      \<and> (\<Sum>i \<in> fst ` set destinations. fl (k, i)) + fee k = dict_get sent k 0"
    by (intro ballI conjI assms(5,6))
  show "\<forall>i \<in> fst ` set destinations. (\<Sum>k \<in> fst ` set sent. fl (k, i)) = dict_get destinations i 0"
    by (intro ballI assms(7))
qed

lemma transfer_splitD:
  assumes "transfer_split sent fees destinations edges fl fee"
  shows "0 \<le> fl e" and "0 \<le> recorded_fee fees k" and "k \<in> fst ` set fees \<Longrightarrow> k \<in> fst ` set sent"
    and "fl (k, i) \<noteq> 0 \<Longrightarrow> (k, i) \<in> set edges \<and> k \<in> fst ` set sent \<and> i \<in> fst ` set destinations"
    and "k \<in> fst ` set sent \<Longrightarrow> recorded_fee fees k \<le> fee k"
    and "k \<in> fst ` set sent \<Longrightarrow> (\<Sum>i \<in> fst ` set destinations. fl (k, i)) + fee k = dict_get sent k 0"
    and "i \<in> fst ` set destinations \<Longrightarrow> (\<Sum>k \<in> fst ` set sent. fl (k, i)) = dict_get destinations i 0"
proof -
  note d = assms [unfolded transfer_split_def]
  show "0 \<le> fl e" using d [THEN conjunct2, THEN conjunct2, THEN conjunct1] by blast
  show "0 \<le> recorded_fee fees k" using d [THEN conjunct2, THEN conjunct1] by blast
  show "k \<in> fst ` set fees \<Longrightarrow> k \<in> fst ` set sent" using d [THEN conjunct1] by blast
  show "fl (k, i) \<noteq> 0 \<Longrightarrow> (k, i) \<in> set edges \<and> k \<in> fst ` set sent \<and> i \<in> fst ` set destinations"
    using d [THEN conjunct2, THEN conjunct2, THEN conjunct2, THEN conjunct1, THEN spec, of "(k, i)"] by simp
  show "k \<in> fst ` set sent \<Longrightarrow> recorded_fee fees k \<le> fee k"
    "k \<in> fst ` set sent \<Longrightarrow> (\<Sum>i \<in> fst ` set destinations. fl (k, i)) + fee k = dict_get sent k 0"
    using d [THEN conjunct2, THEN conjunct2, THEN conjunct2, THEN conjunct2, THEN conjunct1, THEN bspec, of k]
    by blast+
  show "i \<in> fst ` set destinations \<Longrightarrow> (\<Sum>k \<in> fst ` set sent. fl (k, i)) = dict_get destinations i 0"
    using d [THEN conjunct2, THEN conjunct2, THEN conjunct2, THEN conjunct2, THEN conjunct2, THEN bspec, of i]
    by blast
qed

section \<open>Supporting facts\<close>

lemma fresh_sink_notin: "fresh_sink name taken \<notin> set taken"
  by (induction name taken rule: fresh_sink.induct) (simp add: fresh_sink.simps)

lemma explicit_fees_keys: "map fst (explicit_fees sent fees) = map fst sent"
  by (simp add: explicit_fees_def case_prod_unfold comp_def)

lemma explicit_fees_get:
  "k \<in> fst ` set sent \<Longrightarrow> dict_get (explicit_fees sent fees) k 0 = recorded_fee fees k"
proof (induction sent)
  case (Cons p sent)
  then show ?case by (cases p) (auto simp: explicit_fees_def dict_get_def recorded_fee_def)
qed simp

lemma source_order_set: "set (source_order sent ids) = fst ` set sent"
  by (auto simp: source_order_def)

lemma source_order_distinct: "distinct (map fst sent) \<Longrightarrow> distinct (source_order sent ids)"
  by (auto simp: source_order_def)

lemma keyed_get: "k \<in> set ks \<Longrightarrow> dict_get (map (\<lambda>k. (k, f k)) ks) k 0 = f k"
  by (induction ks) (auto simp: dict_get_def)

lemma split_fee_flows_step:
  assumes "fold (\<lambda>(k, i, a) (flows, fees).
             if i = fee_sink then (flows, AList.update k (dict_get fees k 0 + a) fees)
             else (flows @ [(k, i, a)], fees)) allocated (fs0, fees0) = (fs, fees)"
  shows "fs = fs0 @ filter (\<lambda>(_, i, _). i \<noteq> fee_sink) allocated
    \<and> (\<forall>k. dict_get fees k 0 = dict_get fees0 k 0 + flow_of allocated (k, fee_sink))"
  using assms
proof (induction allocated arbitrary: fs0 fees0)
  case (Cons x allocated)
  obtain k i a where x: "x = (k, i, a)" by (cases x)
  show ?case
  proof (cases "i = fee_sink")
    case True
    with Cons.IH [of fs0 "AList.update k (dict_get fees0 k 0 + a) fees0"] Cons.prems
    show ?thesis by (auto simp: x flow_of_def dict_get_update)
  next
    case False
    with Cons.IH [of "fs0 @ [x]" fees0] Cons.prems show ?thesis by (auto simp: x flow_of_def)
  qed
qed (simp add: flow_of_def)

lemma flow_of_filter:
  "flow_of (filter (\<lambda>(_, i, _). i \<noteq> s) fs) (k, i) = (if i = s then 0 else flow_of fs (k, i))"
  by (induction fs) (auto simp: flow_of_def)

text \<open>The amounts that reach the allocator, for one transfer.\<close>

definition residual_supply :: "(string, int) dict \<Rightarrow> (string, int option) dict \<Rightarrow> string list \<Rightarrow> (string, int) dict" where
  "residual_supply sent fees ids =
     map (\<lambda>k. (k, dict_get sent k 0 - dict_get (explicit_fees sent fees) k 0)) (source_order sent ids)"

lemma residual_supply_facts:
  "fst ` set (residual_supply sent fees ids) = fst ` set sent"
  "distinct (map fst sent) \<Longrightarrow> distinct (map fst (residual_supply sent fees ids))"
  "k \<in> fst ` set sent \<Longrightarrow> dict_get (residual_supply sent fees ids) k 0 = dict_get sent k 0 - recorded_fee fees k"
  by (auto simp: residual_supply_def source_order_set source_order_distinct comp_def image_image keyed_get
      explicit_fees_get)

lemma sum_residual:
  assumes "s \<notin> fst ` set destinations"
  shows "(\<Sum>i \<in> fst ` set ((s, u) # destinations). (f i :: int)) = f s + (\<Sum>i \<in> fst ` set destinations. f i)"
  using assms by simp

lemma residual_to_split:
  assumes keys: "distinct (map fst sent)" "distinct (map fst destinations)"
    and sink: "s \<notin> fst ` set destinations"
    and fl: "exact_flow (residual_supply sent fees ids) ((s, u) # destinations)
        (map (\<lambda>k. (k, s)) (source_order sent ids) @ edges) fl"
    and known: "\<forall>k \<in> fst ` set fees. k \<in> fst ` set sent" "\<forall>k. 0 \<le> recorded_fee fees k"
  shows "transfer_split sent fees destinations edges (\<lambda>(k, i). if i = s then 0 else fl (k, i))
    (\<lambda>k. recorded_fee fees k + fl (k, s))"
proof -
  let ?D = "fst ` set destinations" and ?S = "fst ` set sent"
  let ?sup = "residual_supply sent fees ids" and ?dem = "(s, u) # destinations"
  have dk: "distinct (map fst ?sup)" "distinct (map fst ?dem)"
    using keys sink by (simp_all add: residual_supply_facts(2))
  have row: "fl (k, s) + (\<Sum>i \<in> ?D. fl (k, i)) = dict_get sent k 0 - recorded_fee fees k" if "k \<in> ?S" for k
    using exact_flow_sums(1) [OF dk fl, of k] that unfolding sum_residual [OF sink]
    by (simp add: residual_supply_facts)
  have col: "(\<Sum>k \<in> ?S. fl (k, i)) = dict_get destinations i 0" if "i \<in> ?D" for i
  proof -
    have "i \<noteq> s" using sink that by auto
    then show ?thesis
      using exact_flow_sums(2) [OF dk fl, of i] that by (simp add: residual_supply_facts dict_get_def)
  qed
  have edge: "(k, i) \<in> set edges \<and> k \<in> ?S \<and> i \<in> ?D" if "fl (k, i) \<noteq> 0" "i \<noteq> s" for k i
  proof -
    have "(k, i) \<in> set (map (\<lambda>k. (k, s)) (source_order sent ids) @ edges)" "k \<in> fst ` set ?sup" "i \<in> fst ` set ?dem"
      using fl that(1) unfolding exact_flow_def by force+
    then show ?thesis using that(2) by (auto simp: residual_supply_facts(1))
  qed
  have drop: "(\<Sum>i \<in> ?D. if i = s then 0 else fl (k, i)) = (\<Sum>i \<in> ?D. fl (k, i))" for k
    using sink by (intro sum.cong refl) auto
  have "(\<Sum>k \<in> ?S. if i = s then 0 else fl (k, i)) = dict_get destinations i 0" if "i \<in> ?D" for i
  proof -
    have "i \<noteq> s" using sink that by auto
    then show ?thesis using col [OF that] by simp
  qed
  note cols = this
  show ?thesis
  proof (rule transfer_splitI)
    show "k \<in> fst ` set fees \<Longrightarrow> k \<in> ?S" "0 \<le> recorded_fee fees k" for k using known by blast+
    show "0 \<le> (case (k, i) of (k, i) \<Rightarrow> if i = s then 0 else fl (k, i))" for k i
      using exact_flowD(1) [OF fl] by simp
    show "(case (k, i) of (k, i) \<Rightarrow> if i = s then 0 else fl (k, i)) \<noteq> 0 \<Longrightarrow> (k, i) \<in> set edges \<and> k \<in> ?S \<and> i \<in> ?D" for k i
      using edge by (cases "i = s") auto
    show "recorded_fee fees k \<le> recorded_fee fees k + fl (k, s)" for k using exact_flowD(1) [OF fl] by simp
    show "(\<Sum>i \<in> ?D. case (k, i) of (k, i) \<Rightarrow> if i = s then 0 else fl (k, i)) + (recorded_fee fees k + fl (k, s))
        = dict_get sent k 0" if "k \<in> ?S" for k
      using row [OF that] by (simp add: drop)
  qed (use cols in simp)
qed

lemma split_to_residual:
  assumes keys: "distinct (map fst sent)" "distinct (map fst destinations)"
    and sink: "s \<notin> fst ` set destinations"
    and split: "transfer_split sent fees destinations edges fl fee"
    and u: "u = (\<Sum>k \<in> fst ` set sent. fee k - recorded_fee fees k)"
  shows "exact_flow (residual_supply sent fees ids) ((s, u) # destinations)
    (map (\<lambda>k. (k, s)) (source_order sent ids) @ edges)
    (\<lambda>(k, i). if i = s then (if k \<in> fst ` set sent then fee k - recorded_fee fees k else 0) else fl (k, i))"
    (is "exact_flow ?sup ?dem ?edges ?fl")
proof (rule exact_flowI)
  let ?D = "fst ` set destinations" and ?S = "fst ` set sent"
  show "distinct (map fst ?sup)" "distinct (map fst ?dem)"
    using keys sink by (simp_all add: residual_supply_facts(2))
  have fee: "recorded_fee fees k \<le> fee k" "(\<Sum>i \<in> ?D. fl (k, i)) + fee k = dict_get sent k 0" if "k \<in> ?S" for k
    using split that unfolding transfer_split_def by blast+
  have fl0: "0 \<le> fl e" for e using split unfolding transfer_split_def by blast
  show "0 \<le> ?fl (k, i)" for k i using fee(1) fl0 by auto
  show "(k, i) \<in> set ?edges \<and> k \<in> fst ` set ?sup \<and> i \<in> fst ` set ?dem" if nz: "?fl (k, i) \<noteq> 0" for k i
  proof (cases "i = s")
    case True
    with nz show ?thesis by (auto simp: residual_supply_facts(1) source_order_set split: if_splits)
  next
    case False
    with nz have "fl (k, i) \<noteq> 0" by simp
    then show ?thesis
      using split False unfolding transfer_split_def by (force simp: residual_supply_facts(1))
  qed
  have drop: "(\<Sum>i \<in> ?D. ?fl (k, i)) = (\<Sum>i \<in> ?D. fl (k, i))" for k
    using sink by (intro sum.cong refl) auto
  show "(\<Sum>i \<in> fst ` set ?dem. ?fl (k, i)) = dict_get ?sup k 0" if "k \<in> fst ` set ?sup" for k
    using that fee(2) [of k] unfolding sum_residual [OF sink] drop by (simp add: residual_supply_facts)
  show "(\<Sum>k \<in> fst ` set ?sup. ?fl (k, i)) = dict_get ?dem i 0" if i: "i \<in> fst ` set ?dem" for i
  proof (cases "i = s")
    case True
    then show ?thesis by (simp add: residual_supply_facts(1) u dict_get_def)
  next
    case False
    then have "i \<in> ?D" using i by auto
    then have "(\<Sum>k \<in> ?S. fl (k, i)) = dict_get destinations i 0"
      using split unfolding transfer_split_def by blast
    then show ?thesis using False by (simp add: residual_supply_facts(1) dict_get_def)
  qed
qed

lemma split_fees_sum:
  assumes keys: "distinct (map fst sent)" "distinct (map fst destinations)"
    and split: "transfer_split sent fees destinations edges fl fee"
  shows "(\<Sum>k \<in> fst ` set sent. fee k) = (\<Sum>(_, a) \<leftarrow> sent. a) - (\<Sum>(_, a) \<leftarrow> destinations. a)"
proof -
  let ?D = "fst ` set destinations" and ?S = "fst ` set sent"
  have "(\<Sum>(_, a) \<leftarrow> sent. a) = (\<Sum>k \<in> ?S. (\<Sum>i \<in> ?D. fl (k, i)) + fee k)"
    unfolding sum_dict [OF keys(1)] using transfer_splitD(6) [OF split] by (intro sum.cong refl) simp
  also have "\<dots> = (\<Sum>i \<in> ?D. \<Sum>k \<in> ?S. fl (k, i)) + (\<Sum>k \<in> ?S. fee k)"
    by (subst sum.swap) (simp add: sum.distrib)
  also have "(\<Sum>i \<in> ?D. \<Sum>k \<in> ?S. fl (k, i)) = (\<Sum>(_, a) \<leftarrow> destinations. a)"
    unfolding sum_dict [OF keys(2)] using transfer_splitD(7) [OF split] by (intro sum.cong refl) simp
  finally show ?thesis by simp
qed

text \<open>The early returns only refuse transfers that cannot be split.\<close>

lemma split_guards:
  assumes keys: "distinct (map fst sent)" "distinct (map fst destinations)"
    and split: "transfer_split sent fees destinations edges fl fee"
  shows "\<forall>(_, a) \<in> set sent. 0 \<le> a" and "\<forall>(_, a) \<in> set destinations. 0 \<le> a"
    and "\<forall>(k, f) \<in> set (explicit_fees sent fees). 0 \<le> f \<and> f \<le> dict_get sent k 0"
    and "(\<Sum>(_, a) \<leftarrow> explicit_fees sent fees. a) = (\<Sum>k \<in> fst ` set sent. recorded_fee fees k)"
    and "(\<Sum>k \<in> fst ` set sent. recorded_fee fees k) \<le> (\<Sum>(_, a) \<leftarrow> sent. a) - (\<Sum>(_, a) \<leftarrow> destinations. a)"
    and "0 \<le> (\<Sum>k \<in> fst ` set sent. recorded_fee fees k)"
proof -
  let ?D = "fst ` set destinations" and ?S = "fst ` set sent"
  have fl0: "0 \<le> fl e" and rec: "0 \<le> recorded_fee fees k" for e k
    using split unfolding transfer_split_def by blast+
  have fee: "recorded_fee fees k \<le> fee k" "(\<Sum>i \<in> ?D. fl (k, i)) + fee k = dict_get sent k 0" if "k \<in> ?S" for k
    using split that unfolding transfer_split_def by blast+
  have ge: "recorded_fee fees k \<le> dict_get sent k 0" if "k \<in> ?S" for k
    using fee [OF that] sum_nonneg [of ?D "\<lambda>i. fl (k, i)"] fl0 by force
  then show "\<forall>(_, a) \<in> set sent. 0 \<le> a"
    unfolding dict_all_iff [OF keys(1)] using rec order_trans by blast
  show "\<forall>(_, a) \<in> set destinations. 0 \<le> a"
    unfolding dict_all_iff [OF keys(2)]
  proof
    fix i assume "i \<in> ?D"
    then have "(\<Sum>k \<in> ?S. fl (k, i)) = dict_get destinations i 0" using split unfolding transfer_split_def by blast
    then show "0 \<le> dict_get destinations i 0" using sum_nonneg [of ?S "\<lambda>k. fl (k, i)"] fl0 by simp
  qed
  have ek: "distinct (map fst (explicit_fees sent fees))" "fst ` set (explicit_fees sent fees) = ?S"
    using keys(1) explicit_fees_keys [of sent fees] by (metis, metis list.set_map)
  show "\<forall>(k, f) \<in> set (explicit_fees sent fees). 0 \<le> f \<and> f \<le> dict_get sent k 0"
    unfolding dict_all_iff [OF ek(1)] ek(2) using ge rec by (simp add: explicit_fees_get)
  show "(\<Sum>(_, a) \<leftarrow> explicit_fees sent fees. a) = (\<Sum>k \<in> ?S. recorded_fee fees k)"
    unfolding sum_dict [OF ek(1)] ek(2) by (intro sum.cong refl) (rule explicit_fees_get)
  show "(\<Sum>k \<in> ?S. recorded_fee fees k) \<le> (\<Sum>(_, a) \<leftarrow> sent. a) - (\<Sum>(_, a) \<leftarrow> destinations. a)"
    using sum_mono [of ?S "recorded_fee fees" fee] fee(1) split_fees_sum [OF keys split] by simp
  show "0 \<le> (\<Sum>k \<in> ?S. recorded_fee fees k)" using rec by (simp add: sum_nonneg)
qed

lemma guards_nonneg:
  assumes keys: "distinct (map fst sent)"
    and "\<forall>(k, f) \<in> set (explicit_fees sent fees). 0 \<le> f \<and> f \<le> dict_get sent k 0"
    and "\<forall>k \<in> fst ` set fees. k \<in> fst ` set sent"
  shows "0 \<le> recorded_fee fees k"
proof (cases "k \<in> fst ` set sent")
  case True
  have ek: "distinct (map fst (explicit_fees sent fees))" "fst ` set (explicit_fees sent fees) = fst ` set sent"
    using keys explicit_fees_keys [of sent fees] by (metis, metis list.set_map)
  from assms(2) True show ?thesis unfolding dict_all_iff [OF ek(1)] ek(2) by (auto simp: explicit_fees_get)
next
  case False
  then have "k \<notin> fst ` set fees" using assms(3) by blast
  then show ?thesis by (simp add: recorded_fee_def dict_get_absent)
qed

text \<open>What the transfer promises of its result.\<close>

definition transfer_result_ok ::
  "(string, int) dict \<Rightarrow> (string, int option) dict \<Rightarrow> (string, int) dict \<Rightarrow> (string \<times> string) list
     \<Rightarrow> (string \<times> string \<times> int) list \<times> (string, int) dict \<Rightarrow> bool" where
  "transfer_result_ok sent fees destinations edges = (\<lambda>(flows, total_fees).
     transfer_split sent fees destinations edges (flow_of flows) (\<lambda>k. dict_get total_fees k 0)
     \<and> distinct (map (\<lambda>(k, i, _). (k, i)) flows) \<and> (\<forall>(_, _, a) \<in> set flows. 0 < a))"

lemma split_fee_flows_ok:
  assumes keys: "distinct (map fst sent)" "distinct (map fst destinations)"
    and sink: "s \<notin> fst ` set destinations"
    and ok: "allocation_ok (residual_supply sent fees ids) ((s, u) # destinations)
        (map (\<lambda>k. (k, s)) (source_order sent ids) @ edges) fs"
    and known: "\<forall>k \<in> fst ` set fees. k \<in> fst ` set sent" "\<forall>k. 0 \<le> recorded_fee fees k"
  shows "transfer_result_ok sent fees destinations edges (split_fee_flows s (explicit_fees sent fees) fs)"
proof -
  obtain flows tf where split: "split_fee_flows s (explicit_fees sent fees) fs = (flows, tf)" by fastforce
  have parts: "flows = filter (\<lambda>(_, i, _). i \<noteq> s) fs"
    "dict_get tf k 0 = dict_get (explicit_fees sent fees) k 0 + flow_of fs (k, s)" for k
    using split_fee_flows_step [of s fs "[]" "explicit_fees sent fees" flows tf] split
    unfolding split_fee_flows_def by simp_all
  have ts: "transfer_split sent fees destinations edges (\<lambda>(k, i). if i = s then 0 else flow_of fs (k, i))
      (\<lambda>k. recorded_fee fees k + flow_of fs (k, s))"
    using ok unfolding allocation_ok_def by (blast intro: residual_to_split [OF keys sink _ known])
  note d = transfer_splitD [OF ts]
  have fl: "flow_of flows (k, i) = (if i = s then 0 else flow_of fs (k, i))" for k i
    unfolding parts(1) by (rule flow_of_filter)
  have tf: "dict_get tf k 0 = recorded_fee fees k + flow_of fs (k, s)" if "k \<in> fst ` set sent" for k
    using parts(2) explicit_fees_get [OF that] by simp
  have "transfer_split sent fees destinations edges (flow_of flows) (\<lambda>k. dict_get tf k 0)"
  proof (rule transfer_splitI)
    show "k \<in> fst ` set fees \<Longrightarrow> k \<in> fst ` set sent" "0 \<le> recorded_fee fees k" for k by (fact d(3) d(2))+
    show "0 \<le> flow_of flows (k, i)" for k i using d(1) [of "(k, i)"] by (simp add: fl)
    show "flow_of flows (k, i) \<noteq> 0 \<Longrightarrow> (k, i) \<in> set edges \<and> k \<in> fst ` set sent \<and> i \<in> fst ` set destinations" for k i
      using d(4) [of k i] by (simp add: fl)
    show "recorded_fee fees k \<le> dict_get tf k 0" if "k \<in> fst ` set sent" for k
      using d(5) [OF that] tf [OF that] by simp
    show "(\<Sum>i \<in> fst ` set destinations. flow_of flows (k, i)) + dict_get tf k 0 = dict_get sent k 0"
      if "k \<in> fst ` set sent" for k
      using d(6) [OF that] by (simp only: fl tf [OF that] prod.case)
    show "(\<Sum>k \<in> fst ` set sent. flow_of flows (k, i)) = dict_get destinations i 0"
      if "i \<in> fst ` set destinations" for i
      using d(7) [OF that] by (simp only: fl prod.case)
  qed
  moreover have "distinct (map (\<lambda>(k, i, _). (k, i)) flows)" "\<forall>(_, _, a) \<in> set flows. 0 < a"
    using ok by (auto simp: allocation_ok_def parts(1) distinct_map_filter)
  ultimately show ?thesis by (simp add: split transfer_result_ok_def)
qed

text \<open>The guards of the code.\<close>

definition transfer_refused :: "(string, int) dict \<Rightarrow> (string, int option) dict \<Rightarrow> (string, int) dict \<Rightarrow> bool" where
  "transfer_refused sent fees destinations \<longleftrightarrow>
     ((\<exists>(_, a) \<in> set sent. a < 0) \<or> (\<exists>(_, a) \<in> set destinations. a < 0))
     \<or> (\<exists>(k, fee) \<in> set (explicit_fees sent fees). fee < 0 \<or> dict_get sent k 0 < fee)
     \<or> (\<exists>k \<in> fst ` set fees. k \<notin> fst ` set sent)
     \<or> ((\<Sum>(_, a) \<leftarrow> sent. a) - (\<Sum>(_, a) \<leftarrow> destinations. a) < 0
        \<or> (\<Sum>(_, a) \<leftarrow> sent. a) - (\<Sum>(_, a) \<leftarrow> destinations. a) - (\<Sum>(_, a) \<leftarrow> explicit_fees sent fees. a) < 0)"

abbreviation fee_sink :: "(string, int) dict \<Rightarrow> string" where
  "fee_sink destinations \<equiv> fresh_sink ''__kassiber_unexplained_transfer_fee__'' (map fst destinations)"

abbreviation unexplained :: "(string, int) dict \<Rightarrow> (string, int option) dict \<Rightarrow> (string, int) dict \<Rightarrow> int" where
  "unexplained sent fees destinations \<equiv>
     (\<Sum>(_, a) \<leftarrow> sent. a) - (\<Sum>(_, a) \<leftarrow> destinations. a) - (\<Sum>(_, a) \<leftarrow> explicit_fees sent fees. a)"

lemma transfer_flow_with_cases:
  "transfer_flow_with alloc sent fees destinations edges ids =
     (if transfer_refused sent fees destinations then Some None
      else map_option (map_option (split_fee_flows (fee_sink destinations) (explicit_fees sent fees)))
        (alloc (residual_supply sent fees ids)
           ((fee_sink destinations, unexplained sent fees destinations) # destinations)
           (map (\<lambda>k. (k, fee_sink destinations)) (source_order sent ids) @ edges)))"
  unfolding transfer_flow_with_def transfer_refused_def Let_def residual_supply_def by argo

lemma refused_no_split:
  assumes keys: "distinct (map fst sent)" "distinct (map fst destinations)"
    and sp: "transfer_split sent fees destinations edges fl fee"
  shows "\<not> transfer_refused sent fees destinations"
proof -
  note g = split_guards [OF keys sp]
  have "\<not> ((\<exists>(_, a) \<in> set sent. a < 0) \<or> (\<exists>(_, a) \<in> set destinations. a < 0))" using g(1,2) by fastforce
  moreover have "\<not> (\<exists>(k, fee) \<in> set (explicit_fees sent fees). fee < 0 \<or> dict_get sent k 0 < fee)"
    using g(3) by fastforce
  moreover have "\<not> (\<exists>k \<in> fst ` set fees. k \<notin> fst ` set sent)" using transfer_splitD(3) [OF sp] by blast
  ultimately show ?thesis unfolding transfer_refused_def using g(4-6) by linarith
qed

lemma not_refused_known:
  assumes "distinct (map fst sent)" and "\<not> transfer_refused sent fees destinations"
  shows "\<forall>k \<in> fst ` set fees. k \<in> fst ` set sent" and "\<forall>k. 0 \<le> recorded_fee fees k"
proof -
  show known: "\<forall>k \<in> fst ` set fees. k \<in> fst ` set sent" using assms(2) unfolding transfer_refused_def by blast
  have "\<forall>(k, f) \<in> set (explicit_fees sent fees). 0 \<le> f \<and> f \<le> dict_get sent k 0"
    using assms(2) unfolding transfer_refused_def by fastforce
  then show "\<forall>k. 0 \<le> recorded_fee fees k" using guards_nonneg [OF assms(1) _ known] by blast
qed

section \<open>The interface to the allocator\<close>

locale exact_allocator =
  fixes alloc :: allocator
  assumes alloc_exact: "distinct (map fst supplies) \<Longrightarrow> distinct (map fst demands) \<Longrightarrow>
    \<exists>res. alloc supplies demands edges = Some res
      \<and> (case res of None \<Rightarrow> \<nexists>fl. exact_flow supplies demands edges fl
         | Some fs \<Rightarrow> allocation_ok supplies demands edges fs)"
begin

lemma transfer_flow_exact:
  assumes keys: "distinct (map fst sent)" "distinct (map fst destinations)"
  shows "\<exists>res. transfer_flow_with alloc sent fees destinations edges ids = Some res
    \<and> (case res of None \<Rightarrow> \<nexists>fl fee. transfer_split sent fees destinations edges fl fee
       | Some r \<Rightarrow> transfer_result_ok sent fees destinations edges r)"
proof (cases "transfer_refused sent fees destinations")
  case True
  then show ?thesis using refused_no_split [OF keys] by (auto simp: transfer_flow_with_cases)
next
  case False
  let ?s = "fee_sink destinations" and ?un = "unexplained sent fees destinations"
  let ?sup = "residual_supply sent fees ids" and ?dem = "(?s, ?un) # destinations"
  let ?edges = "map (\<lambda>k. (k, ?s)) (source_order sent ids) @ edges"
  have sink: "?s \<notin> fst ` set destinations"
    using fresh_sink_notin [of _ "map fst destinations"] by (simp only: set_map not_False_eq_True)
  have "distinct (map fst ?sup)" "distinct (map fst ?dem)"
    using keys sink by (simp_all add: residual_supply_facts(2))
  from alloc_exact [OF this, of ?edges] obtain res where res: "alloc ?sup ?dem ?edges = Some res"
    "case res of None \<Rightarrow> \<nexists>fl. exact_flow ?sup ?dem ?edges fl | Some fs \<Rightarrow> allocation_ok ?sup ?dem ?edges fs"
    by blast
  show ?thesis
  proof (cases res)
    case None
    have "\<not> transfer_split sent fees destinations edges fl fee" for fl fee
    proof
      assume sp: "transfer_split sent fees destinations edges fl fee"
      have "?un = (\<Sum>k \<in> fst ` set sent. fee k - recorded_fee fees k)"
        using split_fees_sum [OF keys sp] split_guards(4) [OF keys sp] by (simp add: sum_subtractf)
      from split_to_residual [OF keys sink sp this] res(2) None show False by auto
    qed
    with None res(1) False show ?thesis by (simp add: transfer_flow_with_cases)
  next
    case (Some fs)
    then have "transfer_result_ok sent fees destinations edges (split_fee_flows ?s (explicit_fees sent fees) fs)"
      using res(2) by (intro split_fee_flows_ok [OF keys sink _ not_refused_known [OF keys(1) False]]) simp
    with Some res(1) False show ?thesis by (simp add: transfer_flow_with_cases)
  qed
qed

end

interpretation edmonds_karp: exact_allocator allocate_bipartite_flow_msat
  by unfold_locales (rule allocate_bipartite_correct)

text \<open>
  C29: the transfer allocation always returns. It returns principal flows and fees exactly when
  the reviewed edges admit a split that keeps every recorded fee with its source: the flows
  are positive, on distinct reviewed edges, every destination receives its amount, and every
  source's flows and total fee (at least its recorded fee) add up to what it sent.
\<close>

theorem transfer_component_flow_exact:
  assumes "distinct (map fst sent)" and "distinct (map fst destinations)"
  shows "\<exists>res. allocate_transfer_component_flow_msat sent fees destinations edges implicit_ids = Some res
    \<and> (case res of None \<Rightarrow> \<nexists>fl fee. transfer_split sent fees destinations edges fl fee
       | Some r \<Rightarrow> transfer_result_ok sent fees destinations edges r)"
  unfolding allocate_transfer_component_flow_msat_def
  by (rule edmonds_karp.transfer_flow_exact [OF assms])

declare fresh_sink.simps [code]

theorem transfer_component_flow_exact_witness:
  "allocate_transfer_component_flow_msat [(''a'', 12), (''b'', 6)] [(''a'', Some 1)] [(''x'', 5), (''y'', 10)]
       [(''a'', ''x''), (''a'', ''y''), (''b'', ''x'')] [''b'']
     = Some (Some ([(''a'', ''x'', 1), (''a'', ''y'', 10), (''b'', ''x'', 4)], [(''a'', 1), (''b'', 2)]))
   \<and> transfer_result_ok [(''a'', 12), (''b'', 6)] [(''a'', Some 1)] [(''x'', 5), (''y'', 10)]
       [(''a'', ''x''), (''a'', ''y''), (''b'', ''x'')] ([(''a'', ''x'', 1), (''a'', ''y'', 10), (''b'', ''x'', 4)], [(''a'', 1), (''b'', 2)])"
proof -
  have run: "allocate_transfer_component_flow_msat [(''a'', 12), (''b'', 6)] [(''a'', Some 1)] [(''x'', 5), (''y'', 10)]
       [(''a'', ''x''), (''a'', ''y''), (''b'', ''x'')] [''b'']
     = Some (Some ([(''a'', ''x'', 1), (''a'', ''y'', 10), (''b'', ''x'', 4)], [(''a'', 1), (''b'', 2)]))"
    by code_simp
  then show ?thesis
    using transfer_component_flow_exact [of "[(''a'', 12), (''b'', 6)]" "[(''x'', 5), (''y'', 10)]"
        "[(''a'', Some 1)]" "[(''a'', ''x''), (''a'', ''y''), (''b'', ''x'')]" "[''b'']"]
    by simp
qed

end
