(* ===== verification/Pairing.thy ===== *)
theory Pairing
  imports Prelude
begin

text \<open>
  Pairs of transfer legs (the rest of \<open>kassiber/core/pair_allocation.py\<close>): the canonical
  leg order, the clamp of sub-satoshi receipt excess, the greedy fee split inside one
  source, and the grouping of reviewed pairs into connected components. Rows and pairs
  are records of the dictionary keys the code reads; an absent or null key is
  \<^const>\<open>None\<close>.
\<close>

section \<open>Rows and pairs\<close>

record pair_row =
  row_id :: string
  row_occurred_at :: "string option"
  row_amount :: "int option"
  row_fee :: "int option"
  row_amount_includes_fee :: bool

record transfer_pair =
  pair_id :: "string option"
  pair_own_id :: "string option"
  pair_group :: "string option"
  pair_out :: pair_row
  pair_in :: pair_row

section \<open>Canonical order\<close>

definition pair_sort_key :: "'a transfer_pair_scheme \<Rightarrow> string \<times> string \<times> string \<times> string" where
  "pair_sort_key p =
     (str_or_empty (row_occurred_at (pair_out p)), str_or_empty (row_occurred_at (pair_in p)),
      row_id (pair_out p), row_id (pair_in p))"

definition ordered_pair_component :: "'a transfer_pair_scheme list \<Rightarrow> 'a transfer_pair_scheme list" where
  "ordered_pair_component component = sort_key pair_sort_key component"

definition pair_edge :: "'a transfer_pair_scheme \<Rightarrow> string \<times> string" where
  "pair_edge p = (row_id (pair_out p), row_id (pair_in p))"

text \<open>\<open>result.setdefault(edge, pair)\<close>\<close>

definition keep_first :: "'k \<Rightarrow> 'v \<Rightarrow> ('k, 'v) dict \<Rightarrow> ('k, 'v) dict" where
  "keep_first k v d = (if k \<in> fst ` set d then d else d @ [(k, v)])"

definition first_pair_by_edge ::
  "'a transfer_pair_scheme list \<Rightarrow> (string \<times> string, 'a transfer_pair_scheme) dict" where
  "first_pair_by_edge ordered_pairs =
     fold (\<lambda>p. keep_first (pair_edge p) p) ordered_pairs []"

section \<open>Amounts\<close>

definition sub_sat_msat :: int where
  "sub_sat_msat = 1000"

definition outbound_transfer_evidence_msat :: "pair_row \<Rightarrow> int \<times> int \<times> bool" where
  "outbound_transfer_evidence_msat row =
     (let amount_msat = int_or_0 (row_amount row); fee_msat = int_or_0 (row_fee row)
      in if row_amount_includes_fee row then (amount_msat, 0, True)
         else (amount_msat + fee_msat, max 0 fee_msat, False))"

definition clamped_receipt_msat :: "int \<Rightarrow> int \<Rightarrow> int" where
  "clamped_receipt_msat sent received =
     (if 0 < received - sent \<and> received - sent < sub_sat_msat then sent else received)"

text \<open>The loop over the indexes from the last to the first is a recursion over the reversed
  list.\<close>

fun take_excess :: "int \<Rightarrow> int list \<Rightarrow> int list" where
  "take_excess excess [] = []"
| "take_excess excess (a # as) =
     (if excess \<le> 0 then a # as
      else let reduction = min a excess in (a - reduction) # take_excess (excess - reduction) as)"

definition clamped_component_receipts_msat :: "int \<Rightarrow> int list \<Rightarrow> int list" where
  "clamped_component_receipts_msat sent received =
     (let adjusted = map (max 0) received;
          clamped_total = clamped_receipt_msat sent (sum_list adjusted);
          excess = sum_list adjusted - clamped_total
      in if excess \<le> 0 then adjusted else rev (take_excess excess (rev adjusted)))"

text \<open>The loop returns the portions and what is left; the remainder lands on the last leg.\<close>

fun fee_portions :: "int \<Rightarrow> int list \<Rightarrow> int list \<times> int" where
  "fee_portions remaining [] = ([], remaining)"
| "fee_portions remaining (base # bases) =
     (if remaining \<le> 0 then (case fee_portions remaining bases of (ps, r) \<Rightarrow> (0 # ps, r))
      else let portion = min (max 0 base) remaining
           in case fee_portions (remaining - portion) bases of (ps, r) \<Rightarrow> (portion # ps, r))"

definition allocate_fee_msat :: "int \<Rightarrow> int list \<Rightarrow> int list" where
  "allocate_fee_msat total_fee bases =
     (case fee_portions (max 0 total_fee) bases of (allocated, remaining) \<Rightarrow>
        if remaining \<noteq> 0 \<and> allocated \<noteq> []
        then butlast allocated @ [last allocated + remaining] else allocated)"

section \<open>Identity and membership\<close>

definition non_empty :: "string option \<Rightarrow> string option" where
  "non_empty raw = (case raw of None \<Rightarrow> None | Some s \<Rightarrow> if s = '''' then None else Some s)"

definition pair_record_id :: "'a transfer_pair_scheme \<Rightarrow> string option" where
  "pair_record_id p =
     (case non_empty (pair_id p) of None \<Rightarrow> non_empty (pair_own_id p) | Some s \<Rightarrow> Some s)"

definition pair_group_id :: "'a transfer_pair_scheme \<Rightarrow> string option" where
  "pair_group_id p = non_empty (pair_group p)"

definition is_component_member :: "'a transfer_pair_scheme \<Rightarrow> bool" where
  "is_component_member p = (pair_record_id p \<noteq> None \<and> pair_group_id p = None)"

section \<open>Connected components\<close>

text \<open>
  \<open>leg_ids\<close> and \<open>membership\<close> are arguments of the code too. \<open>member_items\<close> pairs a member
  with its leg ids; an item whose leg ids are \<open>None\<close> is dropped, one that membership
  rejects becomes a singleton.
\<close>

definition member_items ::
  "('a \<Rightarrow> (string \<times> string) option) \<Rightarrow> ('a \<Rightarrow> bool) \<Rightarrow> 'a list \<Rightarrow> ('a \<times> string \<times> string) list" where
  "member_items leg_ids membership items =
     concat (map (\<lambda>item. case leg_ids item of None \<Rightarrow> []
                         | Some ids \<Rightarrow> if membership item then [(item, ids)] else []) items)"

definition singleton_items ::
  "('a \<Rightarrow> (string \<times> string) option) \<Rightarrow> ('a \<Rightarrow> bool) \<Rightarrow> 'a list \<Rightarrow> 'a list" where
  "singleton_items leg_ids membership items =
     filter (\<lambda>item. leg_ids item \<noteq> None \<and> \<not> membership item) items"

definition row_to_indexes :: "(string \<times> string) list \<Rightarrow> (string, nat list) dict" where
  "row_to_indexes ids =
     fold (\<lambda>(index, a, b) d. dict_append b index (dict_append a index d)) (enumerate 0 ids) []"

text \<open>Unseen indexes linked to a popped one are marked and pushed. The head of the list is the
  top of the stack.\<close>

definition push_unseen :: "nat \<Rightarrow> nat list \<times> nat list \<Rightarrow> nat list \<times> nat list" where
  "push_unseen linked = (\<lambda>(seen, stack).
     if linked \<in> set seen then (seen, stack) else (linked # seen, linked # stack))"

lemma push_unseen_pair [simp]:
  "push_unseen linked (seen, stack) =
     (if linked \<in> set seen then (seen, stack) else (linked # seen, linked # stack))"
  by (simp add: push_unseen_def)

definition linked_to :: "(string, nat list) dict \<Rightarrow> string \<times> string \<Rightarrow> nat list" where
  "linked_to rows = (\<lambda>(a, b). dict_get rows a [] @ dict_get rows b [])"

definition unseen_count :: "(string, nat list) dict \<Rightarrow> nat list \<Rightarrow> nat" where
  "unseen_count rows seen = card (\<Union> (set ` snd ` set rows) - set seen)"

lemma linked_to_subset: "set (linked_to rows ids) \<subseteq> \<Union> (set ` snd ` set rows)"
proof -
  have "set (dict_get rows k []) \<subseteq> \<Union> (set ` snd ` set rows)" for k
    by (cases "map_of rows k") (force simp: dict_get_def dest: map_of_SomeD)+
  then show ?thesis by (cases ids) (auto simp: linked_to_def)
qed

lemma push_unseen_measure:
  assumes "set vs \<subseteq> \<Union> (set ` snd ` set rows)"
    and "fold push_unseen vs (seen, stack) = (seen', stack')"
  shows "length stack' + unseen_count rows seen' = length stack + unseen_count rows seen"
  using assms
proof (induction vs arbitrary: seen stack)
  case (Cons v vs)
  let ?A = "\<Union> (set ` snd ` set rows) - set seen"
  show ?case
  proof (cases "v \<in> set seen")
    case True
    then show ?thesis using Cons by simp
  next
    case False
    then have "v \<in> ?A" "finite ?A" using Cons.prems by auto
    then have "Suc (card (?A - {v})) = card ?A" by (intro card_Suc_Diff1)
    moreover have "\<Union> (set ` snd ` set rows) - set (v # seen) = ?A - {v}" by auto
    ultimately have "Suc (unseen_count rows (v # seen)) = unseen_count rows seen"
      unfolding unseen_count_def by (simp only:)
    then show ?thesis using False Cons.prems Cons.IH [of "v # seen" "v # stack"]
      by simp
  qed
qed simp

function component_loop ::
  "(string, nat list) dict \<Rightarrow> (string \<times> string) list \<Rightarrow> nat list \<Rightarrow> nat list \<Rightarrow> nat list
     \<Rightarrow> nat list \<times> nat list" where
  "component_loop rows ids seen stack indexes =
     (case stack of
        [] \<Rightarrow> (seen, indexes)
      | index # rest \<Rightarrow>
          case fold push_unseen (linked_to rows (ids ! index)) (seen, rest) of
            (seen', stack') \<Rightarrow> component_loop rows ids seen' stack' (indexes @ [index]))"
  by pat_completeness auto
termination
  apply (relation "measure (\<lambda>(rows, ids, seen, stack, indexes). length stack + unseen_count rows seen)")
  apply simp
  subgoal for rows ids seen stack indexes index rest seen' stack'
    using push_unseen_measure [OF linked_to_subset, of rows "ids ! index" seen rest seen' stack'] by simp
  done

declare component_loop.simps [simp del]

definition component_step ::
  "(string \<times> string) list \<Rightarrow> nat \<Rightarrow> nat list \<times> nat list list \<Rightarrow> nat list \<times> nat list list" where
  "component_step ids start = (\<lambda>(seen, components).
     if start \<in> set seen then (seen, components)
     else case component_loop (row_to_indexes ids) ids (start # seen) [start] [] of
            (seen', indexes) \<Rightarrow> (seen', components @ [sort indexes]))"

definition component_indexes :: "(string \<times> string) list \<Rightarrow> nat list list" where
  "component_indexes ids = snd (fold (component_step ids) [0..<length ids] ([], []))"

definition connected_pair_components ::
  "('a \<Rightarrow> (string \<times> string) option) \<Rightarrow> ('a \<Rightarrow> bool) \<Rightarrow> 'a list \<Rightarrow> 'a list list" where
  "connected_pair_components leg_ids membership items =
     (let members = member_items leg_ids membership items
      in map (map (\<lambda>i. fst (members ! i))) (component_indexes (map snd members))
         @ map (\<lambda>item. [item]) (singleton_items leg_ids membership items))"

section \<open>Canonical order: the first pair of an edge\<close>

text \<open>The dictionary keeps, for every edge of the pairs read so far, one with the least sort
  key.\<close>

definition edge_firsts ::
  "('a transfer_pair_scheme \<Rightarrow> 'k :: linorder) \<Rightarrow> 'a transfer_pair_scheme list \<Rightarrow> (string \<times> string, 'a transfer_pair_scheme) dict \<Rightarrow> bool" where
  "edge_firsts key ps d \<longleftrightarrow>
     distinct (map fst d) \<and> fst ` set d = pair_edge ` set ps
     \<and> (\<forall>(e, p) \<in> set d. p \<in> set ps \<and> pair_edge p = e
          \<and> (\<forall>q \<in> set ps. pair_edge q = e \<longrightarrow> key p \<le> key q))"

lemma edge_firstsD:
  assumes "edge_firsts key ps d"
  shows "distinct (map fst d)" "fst ` set d = pair_edge ` set ps"
    and "(e, p) \<in> set d \<Longrightarrow> p \<in> set ps" "(e, p) \<in> set d \<Longrightarrow> pair_edge p = e"
    and "(e, p) \<in> set d \<Longrightarrow> q \<in> set ps \<Longrightarrow> pair_edge q = e \<Longrightarrow> key p \<le> key q"
  using assms unfolding edge_firsts_def by blast+

lemma keep_first_edge_firsts:
  assumes d: "edge_firsts key ps d" and le: "\<And>p. p \<in> set ps \<Longrightarrow> key p \<le> key q"
  shows "edge_firsts key (ps @ [q]) (keep_first (pair_edge q) q d)"
proof -
  have min: "p \<in> set (ps @ [q]) \<and> pair_edge p = e
      \<and> (\<forall>q' \<in> set (ps @ [q]). pair_edge q' = e \<longrightarrow> key p \<le> key q')"
    if "(e, p) \<in> set d" for e p
    using edge_firstsD(3-5) [OF d that] le [OF edge_firstsD(3) [OF d that]] by simp
  show ?thesis
  proof (cases "pair_edge q \<in> fst ` set d")
    case True
    then have "fst ` set d = pair_edge ` set (ps @ [q])" using edge_firstsD(2) [OF d] by (simp add: insert_absorb)
    then show ?thesis using True min edge_firstsD(1) [OF d] unfolding edge_firsts_def keep_first_def by auto
  next
    case False
    then have "pair_edge p \<noteq> pair_edge q" if "p \<in> set ps" for p
      using edge_firstsD(2) [OF d] that by (metis imageI)
    then show ?thesis using False min edge_firstsD(1,2) [OF d] unfolding edge_firsts_def keep_first_def
      by (auto dest: min)
  qed
qed

lemma first_pair_by_edge_firsts:
  assumes "sorted (map key ps)"
  shows "edge_firsts key ps (first_pair_by_edge ps)"
  using assms
proof (induction ps rule: rev_induct)
  case Nil
  then show ?case by (simp add: edge_firsts_def first_pair_by_edge_def)
next
  case (snoc q ps)
  then show ?case
    using keep_first_edge_firsts [of key ps "first_pair_by_edge ps" q]
    by (auto simp: first_pair_by_edge_def sorted_append)
qed

section \<open>Amounts: clamping and fee portions\<close>

lemma take_excess_length [simp]: "length (take_excess e as) = length as"
  by (induction e as rule: take_excess.induct) (auto simp: Let_def)

lemma take_excess_bounds:
  "(\<And>a. a \<in> set as \<Longrightarrow> 0 \<le> a) \<Longrightarrow> list_all2 (\<lambda>b a. 0 \<le> b \<and> b \<le> a) (take_excess e as) as"
proof (induction e as rule: take_excess.induct)
  case (2 e a as)
  then show ?case by (auto simp: Let_def list_all2_same min_def)
qed simp

lemma take_excess_sum:
  "(\<And>a. a \<in> set as \<Longrightarrow> 0 \<le> a) \<Longrightarrow> 0 \<le> e \<Longrightarrow> sum_list (take_excess e as) = max 0 (sum_list as - e)"
proof (induction e as rule: take_excess.induct)
  case (2 e a as)
  have "0 \<le> sum_list as" using 2(2) by (simp add: sum_list_nonneg)
  then show ?case using 2 by (auto simp: Let_def min_def max_def split: if_splits)
qed simp

lemma fee_portions_spec:
  assumes "0 \<le> remaining" and "fee_portions remaining bases = (ps, r)"
  shows "list_all2 (\<lambda>p base. 0 \<le> p \<and> p \<le> max 0 base) ps bases
    \<and> 0 \<le> r \<and> sum_list ps + r = remaining
    \<and> r = max 0 (remaining - (\<Sum>base \<leftarrow> bases. max 0 base))"
  using assms
proof (induction bases arbitrary: remaining ps)
  case (Cons base bases)
  have nn: "0 \<le> (\<Sum>b \<leftarrow> bases. max 0 b)" by (rule sum_list_nonneg_int) simp
  define portion where "portion = (if remaining \<le> 0 then 0 else min (max 0 base) remaining)"
  have p: "0 \<le> portion" "portion \<le> max 0 base" "portion \<le> remaining"
    using Cons.prems(1) by (auto simp: portion_def)
  obtain ps' where ps': "fee_portions (remaining - portion) bases = (ps', r)" "ps = portion # ps'"
    using Cons.prems(2) by (auto simp: portion_def Let_def split: if_splits prod.splits)
  have IH: "list_all2 (\<lambda>p base. 0 \<le> p \<and> p \<le> max 0 base) ps' bases" "0 \<le> r"
    "sum_list ps' + r = remaining - portion" "r = max 0 (remaining - portion - (\<Sum>b \<leftarrow> bases. max 0 b))"
    using Cons.IH [OF _ ps'(1)] p by auto
  moreover have "r = max 0 (remaining - (max 0 base + (\<Sum>b \<leftarrow> bases. max 0 b)))"
    using IH(4) nn p Cons.prems(1) by (auto simp: portion_def split: if_splits)
  ultimately show ?case using ps'(2) p by auto
qed simp

section \<open>Connected components: the traversal\<close>

text \<open>Two members are linked when they share a leg id.\<close>

definition shares_leg :: "(string \<times> string) list \<Rightarrow> (nat \<times> nat) set" where
  "shares_leg ids = {(i, j). i < length ids \<and> j < length ids
     \<and> {fst (ids ! i), snd (ids ! i)} \<inter> {fst (ids ! j), snd (ids ! j)} \<noteq> {}}"

lemma dict_get_append:
  "dict_get (dict_append k v d) k' [] = (if k' = k then dict_get d k [] @ [v] else dict_get d k' [])"
  by (auto simp: dict_get_def map_of_dict_append split: option.splits)

lemma set_dict_get_append:
  "set (dict_get (dict_append k v d) k' []) = set (dict_get d k' []) \<union> (if k' = k then {v} else {})"
  by (simp add: dict_get_append)

lemma row_to_indexes_get:
  "j \<in> set (dict_get (row_to_indexes ids) a []) \<longleftrightarrow> j < length ids \<and> a \<in> {fst (ids ! j), snd (ids ! j)}"
proof -
  have fold: "set (dict_get (fold (\<lambda>(index, a, b) d. dict_append b index (dict_append a index d)) xs d) a [])
    = set (dict_get d a []) \<union> fst ` set (filter (\<lambda>e. a \<in> {fst (snd e), snd (snd e)}) xs)" for xs d
    by (induction xs arbitrary: d) (auto simp: set_dict_get_append split: if_splits)
  have "fst ` set (filter (\<lambda>e. a \<in> {fst (snd e), snd (snd e)}) (enumerate 0 ids))
      = {j. j < length ids \<and> a \<in> {fst (ids ! j), snd (ids ! j)}}"
    by (force simp: in_set_enumerate_eq image_iff)
  then show ?thesis unfolding row_to_indexes_def fold by simp
qed

lemma linked_to_iff:
  "i < length ids \<Longrightarrow> j \<in> set (linked_to (row_to_indexes ids) (ids ! i)) \<longleftrightarrow> (i, j) \<in> shares_leg ids"
  by (cases "ids ! i") (auto simp: linked_to_def row_to_indexes_get shares_leg_def)

lemma shares_leg_sym: "sym (shares_leg ids)"
  by (auto simp: shares_leg_def sym_def)

lemma push_unseen_fold:
  "fold push_unseen vs (seen, stack) = (seen', stack') \<Longrightarrow> distinct stack \<Longrightarrow> set stack \<subseteq> set seen \<Longrightarrow>
     set seen' = set seen \<union> set vs \<and> set stack' = set stack \<union> (set vs - set seen) \<and> distinct stack'"
proof (induction vs arbitrary: seen stack)
  case (Cons v vs)
  show ?case
  proof (cases "v \<in> set seen")
    case True
    then show ?thesis using Cons by auto
  next
    case False
    then have "fold push_unseen vs (v # seen, v # stack) = (seen', stack')"
      using Cons.prems(1) by simp
    moreover have "distinct (v # stack)" "set (v # stack) \<subseteq> set (v # seen)" using Cons.prems False by auto
    ultimately show ?thesis using Cons.IH False by fastforce
  qed
qed simp

text \<open>
  The traversal from a start set: \<open>old\<close> are the indexes of finished components. Indexes and
  stack are disjoint and new, everything reached is linked to the start set, and an index is
  only listed once its links are marked.
\<close>

definition traversal ::
  "(string \<times> string) list \<Rightarrow> nat set \<Rightarrow> nat set \<Rightarrow> nat list \<Rightarrow> nat list \<Rightarrow> nat list \<Rightarrow> bool" where
  "traversal ids old start seen stack indexes \<longleftrightarrow>
     distinct (stack @ indexes) \<and> set (stack @ indexes) \<inter> old = {}
     \<and> set seen = old \<union> set (stack @ indexes) \<and> set seen \<subseteq> {..<length ids}
     \<and> set (stack @ indexes) \<subseteq> (shares_leg ids)\<^sup>* `` start
     \<and> start \<subseteq> set (stack @ indexes)
     \<and> shares_leg ids `` set indexes \<subseteq> set seen"

lemma traversal_step:
  assumes t: "traversal ids old start seen (index # rest) indexes"
    and push: "fold push_unseen (linked_to (row_to_indexes ids) (ids ! index)) (seen, rest) = (seen', stack')"
  shows "traversal ids old start seen' stack' (indexes @ [index])"
proof -
  let ?links = "shares_leg ids `` {index}"
  have index: "index < length ids" using t by (auto simp: traversal_def)
  have links: "set (linked_to (row_to_indexes ids) (ids ! index)) = ?links"
    using linked_to_iff [OF index] by blast
  have "distinct rest" "set rest \<subseteq> set seen" using t by (auto simp: traversal_def)
  from push_unseen_fold [OF push this]
  have p: "set seen' = set seen \<union> ?links" "set stack' = set rest \<union> (?links - set seen)" "distinct stack'"
    by (simp_all add: links)
  have "?links \<subseteq> (shares_leg ids)\<^sup>* `` start"
    using t by (auto simp: traversal_def intro: rtrancl_into_rtrancl)
  moreover have "?links \<subseteq> {..<length ids}" by (auto simp: shares_leg_def)
  ultimately show ?thesis using t p unfolding traversal_def
    by (intro conjI) (simp; blast)+
qed

lemma component_loop_traversal:
  "traversal ids old start seen stack indexes \<Longrightarrow>
     case component_loop (row_to_indexes ids) ids seen stack indexes of
       (seen', indexes') \<Rightarrow> traversal ids old start seen' [] indexes'"
proof (induction "row_to_indexes ids" ids seen stack indexes rule: component_loop.induct)
  case (1 ids seen stack indexes)
  show ?case
  proof (cases stack)
    case Nil
    with 1(2) show ?thesis by (simp add: component_loop.simps)
  next
    case (Cons index rest)
    obtain seen' stack' where push:
      "fold push_unseen (linked_to (row_to_indexes ids) (ids ! index)) (seen, rest) = (seen', stack')"
      by (rule prod.exhaust)
    have "traversal ids old start seen' stack' (indexes @ [index])"
      using traversal_step [OF _ push] 1(2) Cons by simp
    from 1(1) [OF Cons push [symmetric] this] show ?thesis
      by (subst component_loop.simps) (simp add: Cons push)
  qed
qed

text \<open>Finished components are closed under links, so a new start reaches none of them.\<close>

lemma traversal_end:
  assumes t: "traversal ids old {start} seen [] indexes" and old: "shares_leg ids `` old \<subseteq> old"
  shows "set indexes = (shares_leg ids)\<^sup>* `` {start}" "shares_leg ids `` set seen \<subseteq> set seen"
    "set seen = old \<union> set indexes" "distinct indexes" "set indexes \<inter> old = {}" "set indexes \<subseteq> {..<length ids}"
proof -
  have t': "set seen = old \<union> set indexes" "set indexes \<inter> old = {}" "start \<in> set indexes"
    "shares_leg ids `` set indexes \<subseteq> set seen" "set indexes \<subseteq> (shares_leg ids)\<^sup>* `` {start}"
    "set seen \<subseteq> {..<length ids}" "distinct indexes"
    using t by (auto simp: traversal_def)
  have closed: "j \<in> set indexes" if "i \<in> set indexes" "(i, j) \<in> shares_leg ids" for i j
  proof -
    have "j \<in> set seen" using that t'(4) by blast
    moreover have "j \<notin> old" using that old t'(2) symD [OF shares_leg_sym that(2)] by blast
    ultimately show ?thesis using t'(1) by blast
  qed
  have "j \<in> set indexes" if "(start, j) \<in> (shares_leg ids)\<^sup>*" for j
    using that by (induction rule: rtrancl_induct) (auto intro: t'(3) closed)
  then show "set indexes = (shares_leg ids)\<^sup>* `` {start}" using t'(5) by blast
  show "shares_leg ids `` set seen \<subseteq> set seen" using old closed t'(1) by blast
qed (use t in \<open>auto simp: traversal_def\<close>)

text \<open>What the outer loop has built after the first starts.\<close>

definition components_upto ::
  "(string \<times> string) list \<Rightarrow> nat \<Rightarrow> nat list \<times> nat list list \<Rightarrow> bool" where
  "components_upto ids k = (\<lambda>(seen, components).
     {..<k} \<subseteq> set seen \<and> set seen = set (concat components) \<and> set seen \<subseteq> {..<length ids}
     \<and> distinct (concat components) \<and> shares_leg ids `` set seen \<subseteq> set seen
     \<and> (\<forall>c \<in> set components. sorted c \<and> (\<exists>i. set c = (shares_leg ids)\<^sup>* `` {i} \<and> i < length ids)))"

lemma component_step_upto:
  assumes "components_upto ids k (seen, components)" and "k < length ids"
  shows "components_upto ids (Suc k) (component_step ids k (seen, components))"
proof (cases "k \<in> set seen")
  case True
  then have step: "component_step ids k (seen, components) = (seen, components)" by (simp add: component_step_def)
  show ?thesis using True assms(1) unfolding step components_upto_def lessThan_Suc prod.case insert_subset
    by blast
next
  case False
  obtain seen' indexes where loop:
    "component_loop (row_to_indexes ids) ids (k # seen) [k] [] = (seen', indexes)" by (rule prod.exhaust)
  have "traversal ids (set seen) {k} (k # seen) [k] []"
    using False assms by (auto simp: traversal_def components_upto_def)
  from component_loop_traversal [OF this] have t: "traversal ids (set seen) {k} seen' [] indexes"
    by (simp add: loop)
  have old: "shares_leg ids `` set seen \<subseteq> set seen" using assms(1) unfolding components_upto_def prod.case by blast
  note e = traversal_end [OF t old]
  have "k \<in> set indexes" using e(1) by auto
  then show ?thesis using assms e False
    by (auto simp: components_upto_def component_step_def loop lessThan_Suc)
qed

lemma component_indexes_upto:
  "k \<le> length ids \<Longrightarrow> components_upto ids k (fold (component_step ids) [0..<k] ([], []))"
proof (induction k)
  case 0
  then show ?case by (simp add: components_upto_def)
next
  case (Suc k)
  then show ?case using component_step_upto [of ids k] by (cases "fold (component_step ids) [0..<k] ([], [])") simp
qed

lemma component_indexes_spec:
  fixes ids :: "(string \<times> string) list"
  defines "cs \<equiv> component_indexes ids"
  shows "distinct (concat cs)" "set (concat cs) = {..<length ids}"
    "c \<in> set cs \<Longrightarrow> sorted c" "c \<in> set cs \<Longrightarrow> i \<in> set c \<Longrightarrow> j \<in> set c \<longleftrightarrow> (i, j) \<in> (shares_leg ids)\<^sup>*"
proof -
  obtain seen where s: "components_upto ids (length ids) (seen, cs)"
    using component_indexes_upto [of "length ids" ids]
    by (cases "fold (component_step ids) [0..<length ids] ([], [])") (simp add: cs_def component_indexes_def)
  then show "distinct (concat cs)" "set (concat cs) = {..<length ids}" "c \<in> set cs \<Longrightarrow> sorted c"
    by (auto simp: components_upto_def)
  assume c: "c \<in> set cs" "i \<in> set c"
  then obtain k where k: "set c = (shares_leg ids)\<^sup>* `` {k}" using s by (auto simp: components_upto_def)
  have sym: "sym ((shares_leg ids)\<^sup>*)" by (rule sym_rtrancl [OF shares_leg_sym])
  have "(k, i) \<in> (shares_leg ids)\<^sup>*" using c(2) k by simp
  then show "j \<in> set c \<longleftrightarrow> (i, j) \<in> (shares_leg ids)\<^sup>*"
    using k by (auto intro: rtrancl_trans dest: symD [OF sym])
qed

section \<open>Properties\<close>

text \<open>
  The first-pair dictionary over the canonical order has every edge of the component once
  and maps it to a pair of that edge that no other pair of the edge precedes in the order of
  timestamps and row ids.
\<close>

theorem canonical_first_pairs:
  "edge_firsts pair_sort_key component (first_pair_by_edge (ordered_pair_component component))"
proof -
  have "edge_firsts pair_sort_key (ordered_pair_component component)
      (first_pair_by_edge (ordered_pair_component component))"
    by (rule first_pair_by_edge_firsts) (simp add: ordered_pair_component_def)
  then show ?thesis by (simp add: edge_firsts_def ordered_pair_component_def)
qed

text \<open>
  C31: clamping a component keeps the number of receipts, raises none and leaves none negative;
  the receipts then sum to the clamped total of the component, which never exceeds what was
  sent by a positive amount below one satoshi.
\<close>

theorem clamped_receipts_exact:
  fixes sent :: int and received :: "int list"
  defines "gross \<equiv> \<Sum>r \<leftarrow> received. max 0 r"
  defines "out \<equiv> clamped_component_receipts_msat sent received"
  shows "list_all2 (\<lambda>b r. 0 \<le> b \<and> b \<le> max 0 r) out received
    \<and> sum_list out = max 0 (clamped_receipt_msat sent gross)
    \<and> \<not> (0 < clamped_receipt_msat sent gross - sent \<and> clamped_receipt_msat sent gross - sent < sub_sat_msat)"
proof -
  let ?adj = "map (max 0) received"
  let ?e = "sum_list ?adj - clamped_receipt_msat sent (sum_list ?adj)"
  have nn: "0 \<le> sum_list ?adj" by (rule sum_list_nonneg_int) simp
  have e: "0 \<le> ?e" by (simp add: clamped_receipt_msat_def)
  have "list_all2 (\<lambda>b a. 0 \<le> b \<and> b \<le> a) (rev (take_excess ?e (rev ?adj))) (rev (rev ?adj))"
    unfolding list_all2_rev by (rule take_excess_bounds) auto
  moreover have "sum_list (take_excess ?e (rev ?adj)) = max 0 (sum_list (rev ?adj) - ?e)"
    by (rule take_excess_sum) (use e in auto)
  then have "sum_list (rev (take_excess ?e (rev ?adj))) = max 0 (clamped_receipt_msat sent (sum_list ?adj))"
    by (simp add: sum_list_rev)
  moreover have "?e \<le> 0 \<Longrightarrow> sum_list ?adj = max 0 (clamped_receipt_msat sent (sum_list ?adj))"
    using e nn by simp
  ultimately show ?thesis
    unfolding out_def gross_def clamped_component_receipts_msat_def Let_def
    by (auto simp: list_all2_map2 list_all2_same clamped_receipt_msat_def list_all2_map1)
qed

text \<open>
  The greedy fee split gives every leg a portion, none negative, and distributes exactly
  the non-negative part of the fee whenever there is a leg; every leg but the last stays
  within its base, and the last one exceeds its base only when all bases together are less
  than the fee.
\<close>

theorem fee_split_exact:
  fixes total_fee :: int and bases :: "int list"
  defines "out \<equiv> allocate_fee_msat total_fee bases"
  shows "length out = length bases \<and> (\<forall>p \<in> set out. 0 \<le> p)
    \<and> (bases \<noteq> [] \<longrightarrow> sum_list out = max 0 total_fee)
    \<and> list_all2 (\<lambda>p base. p \<le> max 0 base) (butlast out) (butlast bases)
    \<and> ((\<Sum>base \<leftarrow> bases. max 0 base) \<ge> total_fee \<longrightarrow> list_all2 (\<lambda>p base. p \<le> max 0 base) out bases)"
proof -
  obtain ps r where ps: "fee_portions (max 0 total_fee) bases = (ps, r)" by (rule prod.exhaust)
  have "0 \<le> max 0 total_fee" by simp
  note s = fee_portions_spec [OF this ps]
  have len: "length ps = length bases" using s by (auto dest: list_all2_lengthD)
  have Suc: "ps \<noteq> [] \<Longrightarrow> Suc (length bases - Suc 0) = length bases" using len by (cases bases) auto
  have le: "list_all2 (\<lambda>p base. p \<le> max 0 base) ps bases" and nn: "\<forall>p \<in> set ps. 0 \<le> p"
    using s by (auto elim: list_all2_mono simp: list_all2_conv_all_nth in_set_conv_nth)
  have bl: "list_all2 (\<lambda>p base. p \<le> max 0 base) (butlast ps) (butlast bases)"
    using le len by (simp add: butlast_conv_take list_all2_takeI)
  have "out = (if r \<noteq> 0 \<and> ps \<noteq> [] then butlast ps @ [last ps + r] else ps)"
    unfolding out_def allocate_fee_msat_def ps by simp
  moreover have "ps \<noteq> [] \<Longrightarrow> sum_list (butlast ps @ [last ps + r]) = sum_list ps + r"
    by (subst (3) append_butlast_last_id [symmetric]) (simp_all del: append_butlast_last_id)
  moreover have "ps \<noteq> [] \<Longrightarrow> 0 \<le> last ps + r" using nn s by (simp add: add_nonneg_nonneg)
  moreover have "0 \<le> (\<Sum>base \<leftarrow> bases. max 0 base)" by (rule sum_list_nonneg_int) simp
  ultimately show ?thesis using s len Suc le bl nn by (auto dest: in_set_butlastD)
qed

text \<open>
  the components are the connected components. There are index lists that together list
  every member exactly once, ascending inside each list, two members being in one list
  exactly when a chain of shared leg ids connects them; the result is the items at those
  indexes followed by the singletons, so every kept item appears exactly as often as given.
\<close>

theorem components_are_connected:
  fixes leg_ids :: "'a \<Rightarrow> (string \<times> string) option" and membership :: "'a \<Rightarrow> bool" and items :: "'a list"
  defines "members \<equiv> member_items leg_ids membership items"
  defines "links \<equiv> (shares_leg (map snd members))\<^sup>*"
  shows "\<exists>idxs. connected_pair_components leg_ids membership items
        = map (map (\<lambda>i. fst (members ! i))) idxs
          @ map (\<lambda>item. [item]) (singleton_items leg_ids membership items)
      \<and> distinct (concat idxs) \<and> set (concat idxs) = {..<length members}
      \<and> (\<forall>c \<in> set idxs. sorted c \<and> (\<forall>i \<in> set c. \<forall>j. j \<in> set c \<longleftrightarrow> (i, j) \<in> links))
      \<and> mset (concat (connected_pair_components leg_ids membership items))
        = mset (filter (\<lambda>item. leg_ids item \<noteq> None) items)"
proof (intro exI conjI)
  let ?cs = "component_indexes (map snd members)"
  note spec = component_indexes_spec [where ids = "map snd members"]
  show "connected_pair_components leg_ids membership items
      = map (map (\<lambda>i. fst (members ! i))) ?cs @ map (\<lambda>item. [item]) (singleton_items leg_ids membership items)"
    by (simp add: connected_pair_components_def members_def Let_def)
  show "distinct (concat ?cs)" "set (concat ?cs) = {..<length members}"
    using spec(1,2) by simp_all
  show "\<forall>c \<in> set ?cs. sorted c \<and> (\<forall>i \<in> set c. \<forall>j. j \<in> set c \<longleftrightarrow> (i, j) \<in> links)"
    using spec(3,4) by (simp add: links_def)
  have "mset (concat ?cs) = mset [0..<length members]"
    using spec(1,2) set_eq_iff_mset_eq_distinct [of "concat ?cs" "[0..<length members]"]
    by (simp add: atLeast0LessThan)
  then have "image_mset (\<lambda>i. fst (members ! i)) (mset (concat ?cs))
      = image_mset (\<lambda>i. fst (members ! i)) (mset [0..<length members])" by simp
  also have "\<dots> = mset (map fst members)"
    unfolding mset_map [symmetric] by (rule arg_cong [where f = mset], rule nth_equalityI) simp_all
  finally have "mset (concat (map (map (\<lambda>i. fst (members ! i))) ?cs)) = mset (map fst members)"
    by (simp only: map_concat [symmetric] mset_map)
  moreover have "mset (map fst members) + mset (singleton_items leg_ids membership items)
      = mset (filter (\<lambda>item. leg_ids item \<noteq> None) items)"
    unfolding members_def member_items_def singleton_items_def by (induction items) (auto split: option.splits)
  moreover have "concat (map (\<lambda>item. [item]) (singleton_items leg_ids membership items))
      = singleton_items leg_ids membership items" by (induction items) (auto simp: singleton_items_def)
  ultimately show "mset (concat (connected_pair_components leg_ids membership items))
      = mset (filter (\<lambda>item. leg_ids item \<noteq> None) items)"
    by (simp add: connected_pair_components_def members_def Let_def)
qed

theorem components_are_connected_witness:
  "connected_pair_components (\<lambda>x. if x = 9 then None else Some ([char_of x], [char_of (x + 2)]))
       (\<lambda>x. x \<noteq> 8) [0, 9, 1, 8, 2, 3 :: nat] = [[0, 2], [1, 3], [8]]
   \<and> mset (concat (connected_pair_components
        (\<lambda>x. if x = 9 then None else Some ([char_of x], [char_of (x + 2)])) (\<lambda>x. x \<noteq> 8) [0, 9, 1, 8, 2, 3 :: nat]))
     = mset [0, 1, 8, 2, 3]"
proof -
  have "connected_pair_components (\<lambda>x. if x = 9 then None else Some ([char_of x], [char_of (x + 2)]))
       (\<lambda>x. x \<noteq> 8) [0, 9, 1, 8, 2, 3 :: nat] = [[0, 2], [1, 3], [8]]" by code_simp
  then show ?thesis
    using components_are_connected [of "\<lambda>x. if x = 9 then None else Some ([char_of x], [char_of (x + 2)])"
      "\<lambda>x. x \<noteq> 8" "[0, 9, 1, 8, 2, 3 :: nat]"] by force
qed

end
