(* ===== verification/Gap_Holds.thy ===== *)
theory Gap_Holds
  imports Quantity
begin

text \<open>
  Review holds for suggested custody gaps (\<open>kassiber/core/custody_gap_holds.py\<close>). A suggested
  candidate is checked against canonical observations and compiled into one hold per
  observed boundary, never into a link between boundaries. \<open>custody_gap_id\<close> (of
  \<open>kassiber/core/custody_gaps.py\<close>) hashes with SHA-256; the digest is an argument of the
  model, and every theorem holds for any digest. The \<open>isinstance\<close> check of the candidate is
  the type of the argument.
\<close>

section \<open>Data\<close>

record custody_gap_candidate =
  gc_gap_id :: string
  gc_profile_id :: string
  gc_asset :: string
  gc_protocol_chain :: string
  gc_network :: string
  gc_source_ids :: "string list"
  gc_return_ids :: "string list"
  gc_source_wallet_ids :: "string list"
  gc_destination_wallet_ids :: "string list"
  gc_source_wallet_labels :: "string list"
  gc_destination_wallet_labels :: "string list"
  gc_source_total_msat :: int
  gc_source_fee_msat :: int
  gc_source_debit_msat :: int
  gc_return_total_msat :: int
  gc_retained_msat :: int
  gc_residual_msat :: int
  gc_excess_msat :: int
  gc_coverage_ppm :: int
  gc_started_at :: string
  gc_ended_at :: string
  gc_elapsed_seconds :: int
  gc_score :: int
  gc_confidence :: string
  gc_reason_codes :: "string list"
  gc_promotion_eligible :: bool
  gc_competitor_score_margin :: "int option"
  gc_conflict_set_id :: string
  gc_conflict_size :: int

record custody_gap_hold =
  hold_id :: string
  hold_gap_id :: string
  hold_transaction_id :: string
  hold_direction :: string
  hold_quantity :: quantity_slice
  hold_evidence_detail_hash :: string

record gap_hold_compilation =
  ghc_gap_id :: string
  ghc_holds :: "custody_gap_hold list"
  ghc_retained_msat :: int
  ghc_residual_msat :: int
  ghc_excess_msat :: int

section \<open>Candidate identity\<close>

definition custody_gap_id ::
  "(string \<Rightarrow> string) \<Rightarrow> string \<Rightarrow> string \<Rightarrow> string list \<Rightarrow> string list \<Rightarrow> string result" where
  "custody_gap_id hexdigest profile asset_name source_ids return_ids =
     (if profile = '''' \<or> asset_name = '''' \<or> source_ids = [] \<or> return_ids = [] then
        Inl (ValueError ''custody gap ids require profile, asset, source, and return ids'')
      else Inr (''cg_'' @ take 24 (hexdigest (join_with [char_of (31 :: nat)]
             ([profile, asset_name] @ sort source_ids @ [''->''] @ sort return_ids)))))"

section \<open>Validation\<close>

definition candidate_observation ::
  "(string, quantity_observation) dict \<Rightarrow> string \<Rightarrow> string \<Rightarrow> quantity_observation result" where
  "candidate_observation by_transaction expected tx_id =
     (case map_of by_transaction tx_id of
        None \<Rightarrow> Inl (CustodyGapHoldCompileError ''candidate references a missing canonical observation'')
      | Some ob \<Rightarrow>
          (case validate_observation ob of
             Inl _ \<Rightarrow> Inl (CustodyGapHoldCompileError ''candidate references an invalid canonical observation'')
           | Inr _ \<Rightarrow>
               if transaction_id ob \<noteq> tx_id then
                 Inl (CustodyGapHoldCompileError ''observation mapping key does not match transaction identity'')
               else if direction ob \<noteq> expected then
                 Inl (CustodyGapHoldCompileError ''candidate observation has the wrong direction'')
               else Inr ob))"

definition candidate_observations ::
  "string list \<Rightarrow> (string, quantity_observation) dict \<Rightarrow> string \<Rightarrow> quantity_observation list result" where
  "candidate_observations transaction_ids by_transaction expected =
     (if transaction_ids = [] \<or> transaction_ids \<noteq> sort transaction_ids then
        Inl (CustodyGapHoldCompileError ''candidate transaction ids must be non-empty and canonically ordered'')
      else if length (remdups transaction_ids) \<noteq> length transaction_ids then
        Inl (CustodyGapHoldCompileError ''candidate transaction ids must be unique'')
      else map_res (candidate_observation by_transaction expected) transaction_ids)"

text \<open>The quantities the code recomputes, in the order of the dictionary it compares. The last
  one divides by the source total.\<close>

definition expected_quantities ::
  "quantity_observation list \<Rightarrow> quantity_observation list \<Rightarrow> int list result" where
  "expected_quantities sources returns =
     (let source_total = (\<Sum>ob \<leftarrow> sources. principal_msat ob);
          source_fee = (\<Sum>ob \<leftarrow> sources. fee_msat ob);
          source_debit = (\<Sum>ob \<leftarrow> sources. - wallet_delta_msat ob);
          return_total = (\<Sum>ob \<leftarrow> returns. principal_msat ob);
          retained = min source_total return_total
      in if source_total = 0 then Inl ZeroDivisionError
         else Inr [source_total, source_fee, source_debit, return_total, retained,
                   source_total - retained, return_total - retained,
                   retained * 1000000 div source_total])"

definition actual_quantities :: "custody_gap_candidate \<Rightarrow> int list" where
  "actual_quantities c =
     [gc_source_total_msat c, gc_source_fee_msat c, gc_source_debit_msat c, gc_return_total_msat c,
      gc_retained_msat c, gc_residual_msat c, gc_excess_msat c, gc_coverage_ppm c]"

definition validate_quantities ::
  "custody_gap_candidate \<Rightarrow> quantity_observation list \<Rightarrow> quantity_observation list \<Rightarrow> unit result" where
  "validate_quantities c sources returns =
     bind_res (expected_quantities sources returns) (\<lambda>expected.
       if actual_quantities c \<noteq> expected then
         Inl (CustodyGapHoldCompileError ''candidate quantities do not match canonical observations'')
       else Inr ())"

definition validate_scope ::
  "custody_gap_candidate \<Rightarrow> quantity_observation list \<Rightarrow> quantity_observation list \<Rightarrow> unit result" where
  "validate_scope c sources returns =
     (let obs = sources @ returns in
      if length (remdups (map quantity_hash obs)) \<noteq> length (map quantity_hash obs) then
        Inl (CustodyGapHoldCompileError ''candidate boundary contains duplicate canonical quantity hashes'')
      else if asset ` set obs \<noteq> {gc_asset c} then
        Inl (CustodyGapHoldCompileError ''candidate asset does not match every observation'')
      else if card ((ek_chain \<circ> event_key) ` set obs) \<noteq> 1 \<or> card ((ek_network \<circ> event_key) ` set obs) \<noteq> 1 then
        Inl (CustodyGapHoldCompileError ''candidate observations cross chain or network scope'')
      else if sort (remdups (map wallet_id sources)) \<noteq> gc_source_wallet_ids c
           \<or> sort (remdups (map wallet_id returns)) \<noteq> gc_destination_wallet_ids c then
        Inl (CustodyGapHoldCompileError ''candidate wallet scope does not match canonical observations'')
      else Inr ())"

definition validate_candidate ::
  "(string \<Rightarrow> string) \<Rightarrow> custody_gap_candidate \<Rightarrow> quantity_observation list \<Rightarrow> quantity_observation list
     \<Rightarrow> unit result" where
  "validate_candidate hexdigest c sources returns =
     (if set (gc_source_ids c) \<inter> set (gc_return_ids c) \<noteq> {} then
        Inl (CustodyGapHoldCompileError ''candidate source and return observations must be disjoint'')
      else if gc_profile_id c = '''' then
        Inl (CustodyGapHoldCompileError ''candidate profile scope must be non-empty'')
      else if profile_id ` set (sources @ returns) \<noteq> {gc_profile_id c} then
        Inl (CustodyGapHoldCompileError ''candidate profile scope does not match every observation'')
      else bind_res (custody_gap_id hexdigest (gc_profile_id c) (gc_asset c) (gc_source_ids c) (gc_return_ids c))
        (\<lambda>expected_gap_id.
           if gc_gap_id c \<noteq> expected_gap_id then
             Inl (CustodyGapHoldCompileError ''candidate identity does not match its boundary transactions'')
           else bind_res (validate_scope c sources returns)
             (\<lambda>_. validate_quantities c sources returns)))"

section \<open>Compilation\<close>

definition boundary_hold :: "custody_gap_candidate \<Rightarrow> quantity_observation \<Rightarrow> custody_gap_hold result" where
  "boundary_hold c ob =
     bind_res (make_slice (quantity_hash ob) 0 (principal_msat ob)) (\<lambda>quantity.
       Inr \<lparr>hold_id = ''gap-hold:'' @ gc_gap_id c @ '':'' @ quantity_hash ob,
            hold_gap_id = gc_gap_id c,
            hold_transaction_id = transaction_id ob,
            hold_direction = direction ob,
            hold_quantity = quantity,
            hold_evidence_detail_hash = evidence_detail_hash ob\<rparr>)"

definition compile_gap_candidate_holds ::
  "(string \<Rightarrow> string) \<Rightarrow> custody_gap_candidate \<Rightarrow> (string, quantity_observation) dict
     \<Rightarrow> gap_hold_compilation result" where
  "compile_gap_candidate_holds hexdigest c by_transaction =
     (if \<not> gc_promotion_eligible c then
        Inr \<lparr>ghc_gap_id = gc_gap_id c, ghc_holds = [], ghc_retained_msat = 0,
             ghc_residual_msat = 0, ghc_excess_msat = 0\<rparr>
      else bind_res (candidate_observations (gc_source_ids c) by_transaction ''outbound'') (\<lambda>sources.
           bind_res (candidate_observations (gc_return_ids c) by_transaction ''inbound'') (\<lambda>returns.
           bind_res (validate_candidate hexdigest c sources returns) (\<lambda>_.
           bind_res (map_res (boundary_hold c)
                      (filter (\<lambda>ob. 0 < principal_msat ob) (sources @ returns))) (\<lambda>holds.
           Inr \<lparr>ghc_gap_id = gc_gap_id c, ghc_holds = holds,
                ghc_retained_msat = gc_retained_msat c,
                ghc_residual_msat = gc_residual_msat c,
                ghc_excess_msat = gc_excess_msat c\<rparr>)))))"

section \<open>What the checks establish\<close>

text \<open>An observation the mapping stores under its own transaction id, valid and of the expected
  direction.\<close>

definition observed_as ::
  "(string, quantity_observation) dict \<Rightarrow> string \<Rightarrow> string \<Rightarrow> quantity_observation \<Rightarrow> bool" where
  "observed_as by_transaction expected tx_id ob \<longleftrightarrow>
     map_of by_transaction tx_id = Some ob \<and> valid_observation ob
     \<and> transaction_id ob = tx_id \<and> direction ob = expected"

lemma candidate_observation_Inr:
  "candidate_observation m d tx = Inr ob \<longleftrightarrow> observed_as m d tx ob"
  by (auto simp: candidate_observation_def observed_as_def split: option.splits sum.splits if_splits)

lemma candidate_observation_Inl:
  "candidate_observation m d tx = Inl e \<Longrightarrow> \<exists>msg. e = CustodyGapHoldCompileError msg"
  by (auto simp: candidate_observation_def split: option.splits sum.splits if_splits)

lemma map_res_Inl: "map_res f xs = Inl e \<Longrightarrow> \<exists>x \<in> set xs. f x = Inl e"
  by (induction xs) (auto simp: result_simps)

lemma candidate_observations_Inr:
  "candidate_observations ids m d = Inr obs \<longleftrightarrow>
     ids \<noteq> [] \<and> sorted ids \<and> distinct ids \<and> list_all2 (observed_as m d) ids obs"
proof -
  have "ids = sort ids \<longleftrightarrow> sorted ids" by (metis sorted_sort sorted_sort_id)
  moreover have "length (remdups ids) = length ids \<longleftrightarrow> distinct ids"
    by (metis distinct_remdups_id length_remdups_card_conv card_distinct distinct_card)
  ultimately show ?thesis
    by (simp add: candidate_observations_def map_res_Inr_iff candidate_observation_Inr)
qed

lemma candidate_observations_Inl:
  "candidate_observations ids m d = Inl e \<Longrightarrow> \<exists>msg. e = CustodyGapHoldCompileError msg"
  by (auto simp: candidate_observations_def dest!: map_res_Inl candidate_observation_Inl split: if_splits)

lemma observed_principals:
  assumes "list_all2 (observed_as m d) ids obs"
  shows "map transaction_id obs = ids" "\<And>ob. ob \<in> set obs \<Longrightarrow> valid_observation ob \<and> direction ob = d"
    "0 \<le> (\<Sum>ob \<leftarrow> obs. principal_msat ob)"
proof -
  show "map transaction_id obs = ids"
    using assms by (induction rule: list_all2_induct) (auto simp: observed_as_def)
  show valid: "valid_observation ob \<and> direction ob = d" if "ob \<in> set obs" for ob
    using list_all2_right_member [OF assms that] by (auto simp: observed_as_def)
  show "0 \<le> (\<Sum>ob \<leftarrow> obs. principal_msat ob)"
    by (rule sum_list_nonneg_int) (use valid valid_observation_principal in blast)
qed

lemma validate_scope_Inr:
  "validate_scope c sources returns = Inr u \<Longrightarrow> distinct (map quantity_hash (sources @ returns))"
  unfolding validate_scope_def Let_def
  by (metis Inl_Inr_False card_distinct distinct_card length_remdups_card_conv)

lemma validate_scope_Inl:
  "validate_scope c sources returns = Inl e \<Longrightarrow> \<exists>msg. e = CustodyGapHoldCompileError msg"
  by (auto simp: validate_scope_def Let_def split: if_splits)

lemma validate_quantities_Inr:
  assumes "validate_quantities c sources returns = Inr u"
  defines "source_total \<equiv> \<Sum>ob \<leftarrow> sources. principal_msat ob"
  defines "return_total \<equiv> \<Sum>ob \<leftarrow> returns. principal_msat ob"
  shows "gc_retained_msat c = min source_total return_total"
    "gc_residual_msat c = source_total - min source_total return_total"
    "gc_excess_msat c = return_total - min source_total return_total"
  using assms(1) unfolding source_total_def return_total_def
  by (auto simp: validate_quantities_def result_simps expected_quantities_def actual_quantities_def Let_def
      split: if_splits)

lemma validate_quantities_Inl:
  "validate_quantities c sources returns = Inl e \<Longrightarrow>
     (\<exists>msg. e = CustodyGapHoldCompileError msg) \<or> e = ZeroDivisionError \<and> (\<Sum>ob \<leftarrow> sources. principal_msat ob) = 0"
  by (auto simp: validate_quantities_def result_simps expected_quantities_def Let_def split: if_splits)

lemma validate_candidate_Inr:
  "validate_candidate h c sources returns = Inr u \<Longrightarrow>
     validate_scope c sources returns = Inr () \<and> validate_quantities c sources returns = Inr ()"
  by (auto simp: validate_candidate_def result_simps split: if_splits)

lemma validate_candidate_Inl:
  assumes "validate_candidate h c sources returns = Inl e" and "gc_source_ids c \<noteq> []" "gc_return_ids c \<noteq> []"
  shows "(\<exists>msg. e = CustodyGapHoldCompileError msg)
    \<or> (e = ValueError ''custody gap ids require profile, asset, source, and return ids'' \<and> gc_asset c = '''')
    \<or> (e = ZeroDivisionError \<and> (\<Sum>ob \<leftarrow> sources. principal_msat ob) = 0)"
  using assms
  by (auto simp: validate_candidate_def result_simps custody_gap_id_def split: if_splits
      dest!: validate_scope_Inl validate_quantities_Inl)

text \<open>The hold of an observation with principal: the whole of it, and nothing else.\<close>

definition whole_hold :: "custody_gap_candidate \<Rightarrow> quantity_observation \<Rightarrow> custody_gap_hold" where
  "whole_hold c ob =
     \<lparr>hold_id = ''gap-hold:'' @ gc_gap_id c @ '':'' @ quantity_hash ob, hold_gap_id = gc_gap_id c,
      hold_transaction_id = transaction_id ob, hold_direction = direction ob,
      hold_quantity = \<lparr>observation_hash = quantity_hash ob, start_msat = 0, end_msat = principal_msat ob\<rparr>,
      hold_evidence_detail_hash = evidence_detail_hash ob\<rparr>"

lemma boundary_hold_whole:
  "valid_observation ob \<Longrightarrow> 0 < principal_msat ob \<Longrightarrow> boundary_hold c ob = Inr (whole_hold c ob)"
  using valid_observation_hash [of ob] by (simp add: boundary_hold_def make_slice_def whole_hold_def)

lemma boundary_holds_whole:
  assumes "\<And>ob. ob \<in> set obs \<Longrightarrow> valid_observation ob"
  shows "map_res (boundary_hold c) (filter (\<lambda>ob. 0 < principal_msat ob) obs)
    = Inr (map (whole_hold c) (filter (\<lambda>ob. 0 < principal_msat ob) obs))"
  by (rule map_res_total) (use assms boundary_hold_whole in auto)

section \<open>Properties\<close>

text \<open>
  C11: holds compiled for an eligible candidate are exactly one per boundary observation with
  principal, sources before returns, each over the whole principal of its own observation and
  of no other one; the retained amount is carried once, what is left of the sources is
  residual and what is left of the returns is excess, and never both are positive.
\<close>

theorem gap_holds_exact:
  assumes "gc_promotion_eligible c" and "compile_gap_candidate_holds hexdigest c by_transaction = Inr g"
  shows "\<exists>sources returns.
      list_all2 (observed_as by_transaction ''outbound'') (gc_source_ids c) sources
    \<and> list_all2 (observed_as by_transaction ''inbound'') (gc_return_ids c) returns
    \<and> ghc_holds g = map (whole_hold c) (filter (\<lambda>ob. 0 < principal_msat ob) (sources @ returns))
    \<and> distinct (map (observation_hash \<circ> hold_quantity) (ghc_holds g))
    \<and> ghc_retained_msat g + ghc_residual_msat g = (\<Sum>ob \<leftarrow> sources. principal_msat ob)
    \<and> ghc_retained_msat g + ghc_excess_msat g = (\<Sum>ob \<leftarrow> returns. principal_msat ob)
    \<and> 0 \<le> ghc_retained_msat g \<and> 0 \<le> ghc_residual_msat g \<and> 0 \<le> ghc_excess_msat g
    \<and> (ghc_residual_msat g = 0 \<or> ghc_excess_msat g = 0)"
proof -
  obtain sources returns holds where
    s: "candidate_observations (gc_source_ids c) by_transaction ''outbound'' = Inr sources" and
    r: "candidate_observations (gc_return_ids c) by_transaction ''inbound'' = Inr returns" and
    v: "validate_candidate hexdigest c sources returns = Inr ()" and
    h: "map_res (boundary_hold c) (filter (\<lambda>ob. 0 < principal_msat ob) (sources @ returns)) = Inr holds" and
    g: "g = \<lparr>ghc_gap_id = gc_gap_id c, ghc_holds = holds, ghc_retained_msat = gc_retained_msat c,
             ghc_residual_msat = gc_residual_msat c, ghc_excess_msat = gc_excess_msat c\<rparr>"
    using assms by (auto simp: compile_gap_candidate_holds_def result_simps)
  have s': "list_all2 (observed_as by_transaction ''outbound'') (gc_source_ids c) sources"
    and r': "list_all2 (observed_as by_transaction ''inbound'') (gc_return_ids c) returns"
    using s r by (simp_all add: candidate_observations_Inr)
  have holds: "holds = map (whole_hold c) (filter (\<lambda>ob. 0 < principal_msat ob) (sources @ returns))"
    using h boundary_holds_whole [of "sources @ returns" c] observed_principals(2) [OF s']
      observed_principals(2) [OF r'] by auto
  have "distinct (map quantity_hash (filter (\<lambda>ob. 0 < principal_msat ob) (sources @ returns)))"
    using validate_scope_Inr validate_candidate_Inr [OF v] distinct_map_filter by blast
  moreover have "map (observation_hash \<circ> hold_quantity) holds
      = map quantity_hash (filter (\<lambda>ob. 0 < principal_msat ob) (sources @ returns))"
    by (simp add: holds whole_hold_def)
  ultimately have "distinct (map (observation_hash \<circ> hold_quantity) (ghc_holds g))" by (simp add: g)
  moreover note validate_quantities_Inr [OF conjunct2 [OF validate_candidate_Inr [OF v]]]
    observed_principals(3) [OF s'] observed_principals(3) [OF r']
  ultimately show ?thesis using s' r' holds
    by (intro exI [of _ sources] exI [of _ returns]) (auto simp: g min_def)
qed

text \<open>
  Every failure of the compilation is the typed compile error, except for two: an empty
  asset makes the identity computation raise a plain \<open>ValueError\<close>, and a candidate whose
  sources are all fee-only observations raises \<open>ZeroDivisionError\<close>.
\<close>

theorem gap_holds_errors:
  assumes "compile_gap_candidate_holds hexdigest c by_transaction = Inl e"
  shows "(\<exists>msg. e = CustodyGapHoldCompileError msg)
    \<or> (e = ValueError ''custody gap ids require profile, asset, source, and return ids'' \<and> gc_asset c = '''')
    \<or> (e = ZeroDivisionError \<and> (\<forall>tx \<in> set (gc_source_ids c).
          \<exists>ob. observed_as by_transaction ''outbound'' tx ob \<and> principal_msat ob = 0))"
proof (cases "candidate_observations (gc_source_ids c) by_transaction ''outbound''")
  case (Inl e')
  then show ?thesis using assms candidate_observations_Inl [OF Inl]
    by (auto simp: compile_gap_candidate_holds_def split: if_splits)
next
  case (Inr sources)
  note s = this
  show ?thesis
  proof (cases "candidate_observations (gc_return_ids c) by_transaction ''inbound''")
    case (Inl e')
    then show ?thesis using assms candidate_observations_Inl [OF Inl] s
      by (auto simp: compile_gap_candidate_holds_def split: if_splits)
  next
    case (Inr returns)
    have s': "list_all2 (observed_as by_transaction ''outbound'') (gc_source_ids c) sources"
      and r': "list_all2 (observed_as by_transaction ''inbound'') (gc_return_ids c) returns"
      and ne: "gc_source_ids c \<noteq> []" "gc_return_ids c \<noteq> []"
      using s Inr by (simp_all add: candidate_observations_Inr)
    have "map_res (boundary_hold c) (filter (\<lambda>ob. 0 < principal_msat ob) (sources @ returns))
        = Inr (map (whole_hold c) (filter (\<lambda>ob. 0 < principal_msat ob) (sources @ returns)))"
      by (rule boundary_holds_whole) (use observed_principals(2) [OF s'] observed_principals(2) [OF r'] in auto)
    then have "validate_candidate hexdigest c sources returns = Inl e"
      using assms s Inr by (auto simp: compile_gap_candidate_holds_def result_simps split: if_splits)
    moreover have "\<forall>tx \<in> set (gc_source_ids c).
          \<exists>ob. observed_as by_transaction ''outbound'' tx ob \<and> principal_msat ob = 0"
      if "(\<Sum>ob \<leftarrow> sources. principal_msat ob) = 0"
    proof
      fix tx assume "tx \<in> set (gc_source_ids c)"
      then obtain ob where ob: "ob \<in> set sources" "observed_as by_transaction ''outbound'' tx ob"
        using list_all2_left_member [OF s'] by blast
      have "\<And>p. p \<in> set (map principal_msat sources) \<Longrightarrow> 0 \<le> p"
        using observed_principals(2) [OF s'] valid_observation_principal by auto
      then have "(\<Sum>ob \<leftarrow> sources. principal_msat ob) = 0 \<longleftrightarrow> (\<forall>p \<in> set (map principal_msat sources). p = 0)"
        by (rule sum_list_nonneg_eq_0_iff)
      then have "principal_msat ob = 0" using that ob(1) by simp
      with ob(2) show "\<exists>ob. observed_as by_transaction ''outbound'' tx ob \<and> principal_msat ob = 0" by blast
    qed
    ultimately show ?thesis using validate_candidate_Inl ne by blast
  qed
qed

text \<open>Two sources and one smaller return; and a source that only paid a fee.\<close>

definition sample_candidate :: "string list \<Rightarrow> int list \<Rightarrow> custody_gap_candidate" where
  "sample_candidate sources q =
     \<lparr>gc_gap_id = ''cg_'' @ take 24 (join_with [char_of (31 :: nat)] ([''p'', ''BTC''] @ sources @ [''->'', ''tx-c''])),
      gc_profile_id = ''p'', gc_asset = ''BTC'', gc_protocol_chain = ''bitcoin'', gc_network = ''main'',
      gc_source_ids = sources, gc_return_ids = [''tx-c''],
      gc_source_wallet_ids = map (\<lambda>s. ''w-'' @ [last s]) sources, gc_destination_wallet_ids = [''w-c''],
      gc_source_wallet_labels = [], gc_destination_wallet_labels = [],
      gc_source_total_msat = q ! 0, gc_source_fee_msat = q ! 1, gc_source_debit_msat = q ! 2,
      gc_return_total_msat = q ! 3, gc_retained_msat = q ! 4, gc_residual_msat = q ! 5,
      gc_excess_msat = q ! 6, gc_coverage_ppm = q ! 7,
      gc_started_at = '''', gc_ended_at = '''', gc_elapsed_seconds = 0, gc_score = 0, gc_confidence = '''',
      gc_reason_codes = [], gc_promotion_eligible = True, gc_competitor_score_margin = None,
      gc_conflict_set_id = '''', gc_conflict_size = 1\<rparr>"

definition sample_boundaries :: "(string, quantity_observation) dict" where
  "sample_boundaries =
     [(''tx-a'', sample_observation (CHR ''a'') ''outbound'' 50 3),
      (''tx-b'', sample_observation (CHR ''b'') ''outbound'' 30 1),
      (''tx-c'', sample_observation (CHR ''c'') ''inbound'' 60 0),
      (''tx-d'', sample_observation (CHR ''d'') ''outbound'' 0 2)]"

theorem gap_holds_exact_witness:
  "\<exists>g. compile_gap_candidate_holds (\<lambda>s. s)
        (sample_candidate [''tx-a'', ''tx-b''] [80, 4, 84, 60, 60, 20, 0, 750000]) sample_boundaries = Inr g
     \<and> map hold_transaction_id (ghc_holds g) = [''tx-a'', ''tx-b'', ''tx-c'']
     \<and> ghc_retained_msat g + ghc_residual_msat g = 80 \<and> (ghc_residual_msat g = 0 \<or> ghc_excess_msat g = 0)"
proof -
  let ?c = "sample_candidate [''tx-a'', ''tx-b''] [80, 4, 84, 60, 60, 20, 0, 750000]"
  let ?r = "compile_gap_candidate_holds (\<lambda>s. s) ?c sample_boundaries"
  have "case ?r of Inl _ \<Rightarrow> False
    | Inr g \<Rightarrow> map hold_transaction_id (ghc_holds g) = [''tx-a'', ''tx-b'', ''tx-c'']
        \<and> ghc_retained_msat g = 60 \<and> ghc_residual_msat g = 20" by code_simp
  then obtain g where g: "?r = Inr g" "map hold_transaction_id (ghc_holds g) = [''tx-a'', ''tx-b'', ''tx-c'']"
    "ghc_retained_msat g = 60" "ghc_residual_msat g = 20" by (auto split: sum.splits)
  moreover have "gc_promotion_eligible ?c" by (simp add: sample_candidate_def)
  ultimately show ?thesis using gap_holds_exact [OF _ g(1)] by auto
qed

end
