(* ===== verification/Allocations.thy ===== *)
theory Allocations
  imports Prelude
begin

text \<open>
  The allocation contract shared by custody quantity and tax projection
  (\<open>kassiber/core/custody_allocations.py\<close>): the exact FIFO allocator over ordered
  source and sink buckets, and the inference of the unambiguous 1:N and N:1
  allocations of a reviewed component. Untyped Python arguments are datatypes whose
  extra constructors are the shapes the code rejects. The loops of the allocator are
  modelled on the two arrays of used amounts and the two cursors of the source; an
  index past the end of a list is the exception the source would raise, and the outer
  loop, whose termination needs its invariant, is a partial function that is proved
  total below.
\<close>

section \<open>Data\<close>

record allocation_cell =
  cell_source_id :: string
  cell_sink_id :: string
  cell_amount_msat :: int
  cell_source_start_msat :: int
  cell_sink_start_msat :: int

definition source_end_msat :: "allocation_cell \<Rightarrow> int" where
  "source_end_msat c = cell_source_start_msat c + cell_amount_msat c"

definition sink_end_msat :: "allocation_cell \<Rightarrow> int" where
  "sink_end_msat c = cell_sink_start_msat c + cell_amount_msat c"

record allocation_result =
  res_cells :: "allocation_cell list"
  res_allocated_msat :: int
  res_source_remaining :: "(string \<times> int) list"
  res_sink_remaining :: "(string \<times> int) list"

text \<open>What a caller may pass as a bucket sequence: anything. The amount is accepted only
  when its type is exactly \<open>int\<close>.\<close>

datatype raw_amount = AmountInt int | AmountOther

datatype raw_bucket = BucketPair "string option" raw_amount | BucketMalformed

datatype raw_buckets = BucketSeq "raw_bucket list" | BucketsNotIterable

type_synonym bucket = "string \<times> int"

section \<open>Bucket validation\<close>

definition normalize_bucket :: "string \<Rightarrow> raw_bucket \<Rightarrow> bucket result" where
  "normalize_bucket kind raw =
     (case raw of
        BucketMalformed \<Rightarrow>
          Inl (CustodyAllocationError ''custody_allocation_invalid_bucket''
                 (''each '' @ kind @ '' allocation bucket must contain id and amount''))
      | BucketPair rid amt \<Rightarrow>
          (let bid = str_or_empty rid in
           case amt of
             AmountOther \<Rightarrow>
               Inl (CustodyAllocationError ''custody_allocation_invalid_bucket''
                      (kind @ '' allocation bucket ids and amounts must be exact''))
           | AmountInt n \<Rightarrow>
               if bid = '''' \<or> n < 0 then
                 Inl (CustodyAllocationError ''custody_allocation_invalid_bucket''
                        (kind @ '' allocation bucket ids and amounts must be exact''))
               else Inr (bid, n)))"

definition allocation_buckets :: "string \<Rightarrow> raw_buckets \<Rightarrow> bucket list result" where
  "allocation_buckets kind raw =
     (case raw of
        BucketsNotIterable \<Rightarrow>
          Inl (CustodyAllocationError ''custody_allocation_invalid_buckets''
                 (kind @ '' allocation buckets must be a sequence''))
      | BucketSeq bs \<Rightarrow>
          bind_res (map_res (normalize_bucket kind) bs) (\<lambda>normalized.
            if \<not> distinct (map fst normalized) then
              Inl (CustodyAllocationError ''custody_allocation_duplicate_bucket''
                     (kind @ '' allocation bucket ids must be unique''))
            else Inr normalized))"

section \<open>The FIFO allocator\<close>

text \<open>\<open>while used[i] == buckets[i][1]: i += 1\<close>\<close>

function skip_full :: "bucket list \<Rightarrow> int list \<Rightarrow> nat \<Rightarrow> nat result" where
  "skip_full bs used i =
     (if length bs \<le> i \<or> length used \<le> i then Inl IndexError
      else if used ! i = snd (bs ! i) then skip_full bs used (Suc i)
      else Inr i)"
  by pat_completeness auto
termination
  by (relation "measure (\<lambda>(bs, used, i). length bs - i)") auto

declare skip_full.simps [simp del]

partial_function (option) fifo_loop ::
  "bucket list \<Rightarrow> bucket list \<Rightarrow> int list \<Rightarrow> int list \<Rightarrow> nat \<Rightarrow> nat \<Rightarrow> int \<Rightarrow> allocation_cell list
     \<Rightarrow> (allocation_cell list \<times> int list \<times> int list) result option" where
  "fifo_loop sources sinks source_used sink_used source_index sink_index remaining cells =
     (if remaining = 0 then Some (Inr (cells, source_used, sink_used))
      else case skip_full sources source_used source_index of
             Inl e \<Rightarrow> Some (Inl e)
           | Inr si \<Rightarrow>
               (case skip_full sinks sink_used sink_index of
                  Inl e \<Rightarrow> Some (Inl e)
                | Inr ki \<Rightarrow>
                    (let amount = min remaining
                           (min (snd (sources ! si) - source_used ! si)
                                (snd (sinks ! ki) - sink_used ! ki));
                         cell = \<lparr>cell_source_id = fst (sources ! si),
                                 cell_sink_id = fst (sinks ! ki),
                                 cell_amount_msat = amount,
                                 cell_source_start_msat = source_used ! si,
                                 cell_sink_start_msat = sink_used ! ki\<rparr>
                     in fifo_loop sources sinks
                          (source_used[si := source_used ! si + amount])
                          (sink_used[ki := sink_used ! ki + amount])
                          si ki (remaining - amount) (cells @ [cell]))))"

declare fifo_loop.simps [code]

text \<open>\<open>amount_msat\<close> is \<open>None\<close> when the caller left it out.\<close>

definition requested_msat :: "bucket list \<Rightarrow> raw_amount option \<Rightarrow> raw_amount" where
  "requested_msat sink_buckets amount_msat =
     (case amount_msat of None \<Rightarrow> AmountInt (\<Sum>b \<leftarrow> sink_buckets. snd b) | Some a \<Rightarrow> a)"

definition remaining_buckets :: "bucket list \<Rightarrow> int list \<Rightarrow> bucket list" where
  "remaining_buckets bs used =
     map (\<lambda>i. (fst (bs ! i), snd (bs ! i) - used ! i)) [0 ..< length bs]"

definition allocate_msat_fifo ::
  "raw_buckets \<Rightarrow> raw_buckets \<Rightarrow> raw_amount option \<Rightarrow> allocation_result result option" where
  "allocate_msat_fifo sources sinks amount_msat =
     (case allocation_buckets ''source'' sources of
        Inl e \<Rightarrow> Some (Inl e)
      | Inr source_buckets \<Rightarrow>
     (case allocation_buckets ''sink'' sinks of
        Inl e \<Rightarrow> Some (Inl e)
      | Inr sink_buckets \<Rightarrow>
     (case requested_msat sink_buckets amount_msat of
        AmountOther \<Rightarrow>
          Some (Inl (CustodyAllocationError ''custody_allocation_invalid_amount''
                       ''allocation amount must be an exact non-negative integer''))
      | AmountInt requested \<Rightarrow>
          if requested < 0 then
            Some (Inl (CustodyAllocationError ''custody_allocation_invalid_amount''
                         ''allocation amount must be an exact non-negative integer''))
          else if (\<Sum>b \<leftarrow> source_buckets. snd b) < requested
                \<or> (\<Sum>b \<leftarrow> sink_buckets. snd b) < requested then
            Some (Inl (CustodyAllocationError ''custody_allocation_insufficient_capacity''
                         ''allocation boundaries cannot satisfy the requested quantity''))
          else
            (case fifo_loop source_buckets sink_buckets
                    (replicate (length source_buckets) 0) (replicate (length sink_buckets) 0)
                    0 0 requested [] of
               None \<Rightarrow> None
             | Some (Inl e) \<Rightarrow> Some (Inl e)
             | Some (Inr (cells, source_used, sink_used)) \<Rightarrow>
                 Some (Inr \<lparr>res_cells = cells,
                            res_allocated_msat = requested,
                            res_source_remaining = remaining_buckets source_buckets source_used,
                            res_sink_remaining = remaining_buckets sink_buckets sink_used\<rparr>)))))"

section \<open>Component data and inferred allocations\<close>

record component_leg =
  leg_id :: string
  leg_role :: string
  leg_amount_msat :: "int option"
  leg_anchor_transaction_id :: "string option"
  leg_transaction_id :: "string option"
  leg_wallet_id :: "string option"
  leg_location_ref :: "string option"
  leg_asset :: "string option"
  leg_exposure :: "string option"
  leg_conservation_unit :: "string option"
  leg_rail :: "string option"
  leg_notes :: "string option"
  leg_occurred_at :: "string option"

record component_allocation =
  alloc_id :: "string option"
  alloc_ordinal :: "int option"
  alloc_source_leg_id :: "string option"
  alloc_sink_leg_id :: "string option"
  alloc_source_amount_msat :: "int option"
  alloc_sink_amount_msat :: "int option"

definition owned_sink_roles :: "string list" where
  "owned_sink_roles = [''destination'', ''retained'']"

definition positive_legs :: "component_leg list \<Rightarrow> component_leg list" where
  "positive_legs legs = filter (\<lambda>leg. int_or_0 (leg_amount_msat leg) > 0) legs"

definition inferred_from_source ::
  "bool \<Rightarrow> component_leg \<Rightarrow> component_leg list \<Rightarrow> component_allocation list" where
  "inferred_from_source quantity_mode source sinks =
     map (\<lambda>(index, sink).
            \<lparr>alloc_id = Some (''inferred:'' @ nat_str index),
             alloc_ordinal = Some (int index),
             alloc_source_leg_id = Some (leg_id source),
             alloc_sink_leg_id = Some (leg_id sink),
             alloc_source_amount_msat =
               Some (if quantity_mode then int_or_0 (leg_amount_msat sink)
                     else int_or_0 (leg_amount_msat source)),
             alloc_sink_amount_msat = Some (int_or_0 (leg_amount_msat sink))\<rparr>)
         (List.enumerate 0 sinks)"

definition inferred_to_sink ::
  "component_leg \<Rightarrow> component_leg list \<Rightarrow> component_allocation list" where
  "inferred_to_sink sink sources =
     map (\<lambda>(index, source).
            \<lparr>alloc_id = Some (''inferred:'' @ nat_str index),
             alloc_ordinal = Some (int index),
             alloc_source_leg_id = Some (leg_id source),
             alloc_sink_leg_id = Some (leg_id sink),
             alloc_source_amount_msat = Some (int_or_0 (leg_amount_msat source)),
             alloc_sink_amount_msat = Some (int_or_0 (leg_amount_msat source))\<rparr>)
         (List.enumerate 0 sources)"

definition infer_component_allocations ::
  "component_allocation list \<Rightarrow> component_leg list \<Rightarrow> string option
     \<Rightarrow> component_allocation list result" where
  "infer_component_allocations explicit all_legs conservation_mode =
     (if explicit \<noteq> [] then
        Inr (sort_key (\<lambda>a. (int_or_0 (alloc_ordinal a), str_or_empty (alloc_id a))) explicit)
      else
        let legs = positive_legs all_legs;
            sources = filter (\<lambda>leg. leg_role leg = ''source'') legs;
            sinks = filter (\<lambda>leg. leg_role leg \<noteq> ''source'') legs;
            mode = str_or_empty conservation_mode;
            quantity_mode = ((if mode = '''' then ''quantity'' else mode) = ''quantity'')
        in if \<not> quantity_mode \<and> (length sources \<noteq> 1 \<or> length sinks \<noteq> 1) then
             Inl (CustodyAllocationError ''custody_component_allocation_required''
                    ''multi-leg conversion components require explicit source-to-sink allocations'')
           else if length sources = 1 then
             Inr (inferred_from_source quantity_mode (hd sources) sinks)
           else if length sinks = 1 \<and> leg_role (hd sinks) \<in> set owned_sink_roles then
             Inr (inferred_to_sink (hd sinks) sources)
           else
             Inl (CustodyAllocationError ''custody_component_allocation_required''
                    ''N:M custody components require explicit source-to-sink allocations''))"

section \<open>The allocator is exact and total\<close>

text \<open>Validated buckets: ids distinct and non-empty, amounts non-negative.\<close>

definition buckets_ok :: "bucket list \<Rightarrow> bool" where
  "buckets_ok bs \<longleftrightarrow> distinct (map fst bs) \<and> (\<forall>b \<in> set bs. fst b \<noteq> '''' \<and> 0 \<le> snd b)"

abbreviation capacity :: "bucket list \<Rightarrow> int" where
  "capacity bs \<equiv> (\<Sum>b \<leftarrow> bs. snd b)"

lemma normalize_bucket_ok:
  assumes "normalize_bucket kind raw = Inr b"
  shows "fst b \<noteq> '''' \<and> 0 \<le> snd b"
proof (cases raw)
  case (BucketPair rid amt)
  with assms show ?thesis
    by (cases amt) (auto simp: normalize_bucket_def Let_def split: if_splits)
next
  case BucketMalformed
  with assms show ?thesis by (simp add: normalize_bucket_def)
qed

lemma allocation_buckets_ok:
  assumes ret: "allocation_buckets kind raw = Inr bs"
  shows "buckets_ok bs"
proof (cases raw)
  case (BucketSeq rs)
  with ret have m: "map_res (normalize_bucket kind) rs = Inr bs" and d: "distinct (map fst bs)"
    by (auto simp: allocation_buckets_def result_simps split: if_splits)
  have "fst b \<noteq> '''' \<and> 0 \<le> snd b" if "b \<in> set bs" for b
    using map_res_in [OF m that] by (auto dest: normalize_bucket_ok)
  with d show ?thesis by (simp add: buckets_ok_def)
next
  case BucketsNotIterable
  with ret show ?thesis by (simp add: allocation_buckets_def)
qed

text \<open>Amount of the cells of one bucket, seen from one side (source or sink).\<close>

definition cells_of :: "(allocation_cell \<Rightarrow> string) \<Rightarrow> string \<Rightarrow> allocation_cell list \<Rightarrow> int" where
  "cells_of cid b cells = (\<Sum>c \<leftarrow> filter (\<lambda>c. cid c = b) cells. cell_amount_msat c)"

lemma cells_of_simps [simp]:
  "cells_of cid b [] = 0"
  "cells_of cid b (xs @ ys) = cells_of cid b xs + cells_of cid b ys"
  "cells_of cid b [c] = (if cid c = b then cell_amount_msat c else 0)"
  by (simp_all add: cells_of_def)

text \<open>
  The loop invariant of one side: every bucket before the cursor is full, every bucket
  after it untouched, the used amount of a bucket is what its cells took, and each cell
  starts where the previous cells of its bucket ended.
\<close>

definition side_inv ::
  "(allocation_cell \<Rightarrow> string) \<Rightarrow> (allocation_cell \<Rightarrow> int) \<Rightarrow> bucket list \<Rightarrow> int list \<Rightarrow> nat
     \<Rightarrow> allocation_cell list \<Rightarrow> bool" where
  "side_inv cid cstart bs used idx cells \<longleftrightarrow>
     length used = length bs \<and>
     (\<forall>i < length bs. 0 \<le> used ! i \<and> used ! i \<le> snd (bs ! i)) \<and>
     (\<forall>i < length bs. i < idx \<longrightarrow> used ! i = snd (bs ! i)) \<and>
     (\<forall>i < length bs. idx < i \<longrightarrow> used ! i = 0) \<and>
     (\<forall>i < length bs. used ! i = cells_of cid (fst (bs ! i)) cells) \<and>
     (\<forall>j < length cells. cstart (cells ! j) = cells_of cid (cid (cells ! j)) (take j cells)) \<and>
     (\<forall>c \<in> set cells. cid c \<in> fst ` set bs \<and> 0 < cell_amount_msat c)"

lemma side_inv_init:
  assumes "buckets_ok bs"
  shows "side_inv cid cstart bs (replicate (length bs) 0) 0 []"
proof -
  have "0 \<le> snd (bs ! i)" if "i < length bs" for i
    using assms that nth_mem by (fastforce simp: buckets_ok_def)
  then show ?thesis by (simp add: side_inv_def)
qed

lemma skip_full_found:
  assumes "side_inv cid cstart bs used i cells" and "sum_list used < capacity bs"
  shows "\<exists>i'. skip_full bs used i = Inr i' \<and> i' < length bs \<and> used ! i' < snd (bs ! i')
           \<and> side_inv cid cstart bs used i' cells"
  using assms
proof (induction bs used i rule: skip_full.induct)
  case (1 bs used i)
  show ?case
  proof (cases "i < length bs")
    case False
    with "1.prems"(1) have "used = map snd bs"
      by (auto simp: side_inv_def intro!: nth_equalityI)
    with "1.prems"(2) show ?thesis by simp
  next
    case True
    note len = "1.prems"(1) [unfolded side_inv_def, THEN conjunct1]
    show ?thesis
    proof (cases "used ! i = snd (bs ! i)")
      case full: True
      with "1.prems"(1) have "side_inv cid cstart bs used (Suc i) cells"
        by (auto simp: side_inv_def less_Suc_eq)
      with "1.IH" [OF _ full] "1.prems"(2) True len show ?thesis
        by (simp add: skip_full.simps [of bs used i] full)
    next
      case False
      with True "1.prems"(1) len show ?thesis
        by (intro exI [of _ i]) (auto simp: skip_full.simps [of bs used i] side_inv_def less_le)
    qed
  qed
qed

lemma side_inv_step:
  assumes inv: "side_inv cid cstart bs used i cells" and i: "i < length bs"
    and dist: "distinct (map fst bs)"
    and c: "cid c = fst (bs ! i)" "cstart c = used ! i" "cell_amount_msat c = a"
    and a: "0 < a" "a \<le> snd (bs ! i) - used ! i"
  shows "side_inv cid cstart bs (used[i := used ! i + a]) i (cells @ [c])"
proof -
  have other: "fst (bs ! k) \<noteq> cid c" if "k < length bs" "k \<noteq> i" for k
    using dist that i c(1) by (auto simp: distinct_conv_nth)
  have sums: "(used[i := used ! i + a]) ! k = cells_of cid (fst (bs ! k)) (cells @ [c])"
    if "k < length bs" for k
    using inv that other [of k] c by (cases "k = i") (auto simp: side_inv_def)
  have starts: "cstart ((cells @ [c]) ! j)
      = cells_of cid (cid ((cells @ [c]) ! j)) (take j (cells @ [c]))"
    if "j < length (cells @ [c])" for j
    using inv i that c by (cases "j = length cells") (auto simp: side_inv_def nth_append)
  have bounds: "0 \<le> (used[i := used ! i + a]) ! k \<and> (used[i := used ! i + a]) ! k \<le> snd (bs ! k)"
    if "k < length bs" for k
    using inv that a i by (cases "k = i") (auto simp: side_inv_def)
  show ?thesis
    using inv i a c sums starts bounds unfolding side_inv_def by auto
qed

lemma sum_list_update_add:
  "i < length (xs :: int list) \<Longrightarrow> sum_list (xs[i := xs ! i + a]) = sum_list xs + a"
  by (induction xs arbitrary: i) (auto split: nat.splits)

abbreviation source_inv where
  "source_inv \<equiv> side_inv cell_source_id cell_source_start_msat"

abbreviation sink_inv where
  "sink_inv \<equiv> side_inv cell_sink_id cell_sink_start_msat"

lemma fifo_loop_total:
  assumes "buckets_ok src" and "buckets_ok snk"
    and "source_inv src su si cells" and "sink_inv snk ku ki cells"
    and "0 \<le> remaining"
    and "remaining \<le> capacity src - sum_list su" and "remaining \<le> capacity snk - sum_list ku"
  shows "\<exists>cells' su' ku' si' ki'.
      fifo_loop src snk su ku si ki remaining cells = Some (Inr (cells', su', ku'))
      \<and> source_inv src su' si' cells' \<and> sink_inv snk ku' ki' cells'
      \<and> sum_list su' = sum_list su + remaining \<and> sum_list ku' = sum_list ku + remaining
      \<and> (\<Sum>c \<leftarrow> cells'. cell_amount_msat c) = (\<Sum>c \<leftarrow> cells. cell_amount_msat c) + remaining"
  using assms
proof (induction "nat remaining" arbitrary: su ku si ki remaining cells rule: less_induct)
  case less
  show ?case
  proof (cases "remaining = 0")
    case True
    with less.prems show ?thesis by (auto simp: fifo_loop.simps)
  next
    case False
    with less.prems have pos: "0 < remaining" by simp
    obtain si' where si': "skip_full src su si = Inr si'" "si' < length src"
      "su ! si' < snd (src ! si')" "source_inv src su si' cells"
      using skip_full_found [OF less.prems(3)] less.prems(6) pos by auto
    obtain ki' where ki': "skip_full snk ku ki = Inr ki'" "ki' < length snk"
      "ku ! ki' < snd (snk ! ki')" "sink_inv snk ku ki' cells"
      using skip_full_found [OF less.prems(4)] less.prems(7) pos by auto
    define a where "a = min remaining (min (snd (src ! si') - su ! si') (snd (snk ! ki') - ku ! ki'))"
    define c where "c = \<lparr>cell_source_id = fst (src ! si'), cell_sink_id = fst (snk ! ki'),
        cell_amount_msat = a, cell_source_start_msat = su ! si', cell_sink_start_msat = ku ! ki'\<rparr>"
    have a: "0 < a" "a \<le> remaining" "a \<le> snd (src ! si') - su ! si'" "a \<le> snd (snk ! ki') - ku ! ki'"
      using pos si'(3) ki'(3) by (auto simp: a_def)
    have src_inv: "source_inv src (su[si' := su ! si' + a]) si' (cells @ [c])"
      using side_inv_step [OF si'(4,2)] less.prems(1) a by (simp add: buckets_ok_def c_def)
    have snk_inv: "sink_inv snk (ku[ki' := ku ! ki' + a]) ki' (cells @ [c])"
      using side_inv_step [OF ki'(4,2)] less.prems(2) a by (simp add: buckets_ok_def c_def)
    have lens: "si' < length su" "ki' < length ku"
      using si'(2,4) ki'(2,4) by (auto simp: side_inv_def)
    have "fifo_loop src snk su ku si ki remaining cells
        = fifo_loop src snk (su[si' := su ! si' + a]) (ku[ki' := ku ! ki' + a]) si' ki'
            (remaining - a) (cells @ [c])"
      using False si'(1) ki'(1) by (simp add: fifo_loop.simps [of src snk su] Let_def a_def c_def)
    with less.hyps [OF _ less.prems(1,2) src_inv snk_inv, of "remaining - a"] a pos less.prems(6,7)
    show ?thesis by (simp add: sum_list_update_add [OF lens(1)] sum_list_update_add [OF lens(2)] c_def)
  qed
qed

text \<open>What one side of a finished allocation promises of its buckets.\<close>

definition side_exact ::
  "(allocation_cell \<Rightarrow> string) \<Rightarrow> (allocation_cell \<Rightarrow> int) \<Rightarrow> bucket list \<Rightarrow> bucket list
     \<Rightarrow> allocation_cell list \<Rightarrow> bool" where
  "side_exact cid cstart bs left cells \<longleftrightarrow>
     map fst left = map fst bs \<and>
     (\<forall>i < length bs. 0 \<le> snd (left ! i)
        \<and> snd (left ! i) + cells_of cid (fst (bs ! i)) cells = snd (bs ! i)) \<and>
     (\<forall>i < length bs. \<forall>j < i. 0 < cells_of cid (fst (bs ! i)) cells \<longrightarrow> snd (left ! j) = 0) \<and>
     (\<forall>j < length cells. cstart (cells ! j) = cells_of cid (cid (cells ! j)) (take j cells)) \<and>
     (\<forall>c \<in> set cells. cid c \<in> fst ` set bs \<and> 0 < cell_amount_msat c)"

lemma side_inv_exact:
  assumes inv: "side_inv cid cstart bs used idx cells"
  shows "side_exact cid cstart bs (remaining_buckets bs used) cells"
proof -
  have "map fst (remaining_buckets bs used) = map fst bs"
    by (auto simp: remaining_buckets_def intro: nth_equalityI)
  moreover have "snd (remaining_buckets bs used ! i) = snd (bs ! i) - used ! i"
    if "i < length bs" for i
    using that by (simp add: remaining_buckets_def)
  moreover have "used ! j = snd (bs ! j)"
    if "i < length bs" "j < i" "0 < cells_of cid (fst (bs ! i)) cells" for i j
  proof -
    have "0 < used ! i" using inv that(1,3) by (simp add: side_inv_def)
    then have "\<not> idx < i" using inv that(1) by (auto simp: side_inv_def)
    with that inv show ?thesis by (simp add: side_inv_def)
  qed
  ultimately show ?thesis
    using inv by (auto simp: side_inv_def side_exact_def)
qed

section \<open>Properties\<close>

definition fifo_feasible :: "raw_buckets \<Rightarrow> raw_buckets \<Rightarrow> raw_amount option \<Rightarrow> bool" where
  "fifo_feasible sources sinks amount_msat \<longleftrightarrow>
     (\<exists>src snk n. allocation_buckets ''source'' sources = Inr src
        \<and> allocation_buckets ''sink'' sinks = Inr snk
        \<and> requested_msat snk amount_msat = AmountInt n
        \<and> 0 \<le> n \<and> n \<le> capacity src \<and> n \<le> capacity snk)"

definition fifo_exact_result ::
  "raw_buckets \<Rightarrow> raw_buckets \<Rightarrow> raw_amount option \<Rightarrow> allocation_result \<Rightarrow> bool" where
  "fifo_exact_result sources sinks amount_msat r \<longleftrightarrow>
     (\<exists>src snk. allocation_buckets ''source'' sources = Inr src
        \<and> allocation_buckets ''sink'' sinks = Inr snk
        \<and> requested_msat snk amount_msat = AmountInt (res_allocated_msat r)
        \<and> (\<Sum>c \<leftarrow> res_cells r. cell_amount_msat c) = res_allocated_msat r
        \<and> side_exact cell_source_id cell_source_start_msat src (res_source_remaining r) (res_cells r)
        \<and> side_exact cell_sink_id cell_sink_start_msat snk (res_sink_remaining r) (res_cells r))"

lemma allocate_msat_fifo_feasible:
  assumes "fifo_feasible sources sinks amount_msat"
  shows "\<exists>r. allocate_msat_fifo sources sinks amount_msat = Some (Inr r)
           \<and> fifo_exact_result sources sinks amount_msat r"
proof -
  obtain src snk n where b: "allocation_buckets ''source'' sources = Inr src"
      "allocation_buckets ''sink'' sinks = Inr snk"
    and n: "requested_msat snk amount_msat = AmountInt n" "0 \<le> n" "n \<le> capacity src" "n \<le> capacity snk"
    using assms by (auto simp: fifo_feasible_def)
  have ok: "buckets_ok src" "buckets_ok snk" using b by (auto intro: allocation_buckets_ok)
  obtain cells su ku si ki where
    loop: "fifo_loop src snk (replicate (length src) 0) (replicate (length snk) 0) 0 0 n []
             = Some (Inr (cells, su, ku))"
    and inv: "source_inv src su si cells" "sink_inv snk ku ki cells"
    and total: "(\<Sum>c \<leftarrow> cells. cell_amount_msat c) = n"
    using fifo_loop_total [OF ok side_inv_init [OF ok(1)] side_inv_init [OF ok(2)] n(2)] n(3,4)
    by (auto simp: sum_list_replicate)
  let ?r = "\<lparr>res_cells = cells, res_allocated_msat = n,
             res_source_remaining = remaining_buckets src su,
             res_sink_remaining = remaining_buckets snk ku\<rparr>"
  have "allocate_msat_fifo sources sinks amount_msat = Some (Inr ?r)"
    using b n loop by (simp add: allocate_msat_fifo_def)
  moreover have "fifo_exact_result sources sinks amount_msat ?r"
    using b n total inv [THEN side_inv_exact] by (simp add: fifo_exact_result_def)
  ultimately show ?thesis by blast
qed

text \<open>The code of a refusal, in the order of the checks: the buckets of either side, the amount,
  and last the capacities.\<close>

definition bucket_error_codes :: "string list" where
  "bucket_error_codes = [''custody_allocation_invalid_buckets'', ''custody_allocation_invalid_bucket'',
     ''custody_allocation_duplicate_bucket'']"

definition fifo_refusal :: "raw_buckets \<Rightarrow> raw_buckets \<Rightarrow> raw_amount option \<Rightarrow> string \<Rightarrow> bool" where
  "fifo_refusal sources sinks amount_msat code \<longleftrightarrow>
     (if \<exists>src snk. allocation_buckets ''source'' sources = Inr src \<and> allocation_buckets ''sink'' sinks = Inr snk
      then code = (if \<exists>snk n. allocation_buckets ''sink'' sinks = Inr snk
                       \<and> requested_msat snk amount_msat = AmountInt n \<and> 0 \<le> n
                   then ''custody_allocation_insufficient_capacity''
                   else ''custody_allocation_invalid_amount'')
      else code \<in> set bucket_error_codes)"

lemma normalize_bucket_error:
  "normalize_bucket kind raw = Inl e \<Longrightarrow>
     \<exists>message. e = CustodyAllocationError ''custody_allocation_invalid_bucket'' message"
  by (auto simp: normalize_bucket_def Let_def split: raw_bucket.splits raw_amount.splits if_splits)

lemma allocation_buckets_error:
  assumes "allocation_buckets kind raw = Inl e"
  shows "\<exists>code message. e = CustodyAllocationError code message \<and> code \<in> set bucket_error_codes"
proof (cases raw)
  case (BucketSeq rs)
  have "map_res (normalize_bucket kind) xs = Inl e \<Longrightarrow>
      \<exists>message. e = CustodyAllocationError ''custody_allocation_invalid_bucket'' message" for xs
    by (induction xs) (auto simp: result_simps dest: normalize_bucket_error)
  from this [of rs] assms BucketSeq show ?thesis
    by (auto simp: allocation_buckets_def bucket_error_codes_def result_simps split: if_splits)
next
  case BucketsNotIterable
  with assms show ?thesis by (auto simp: allocation_buckets_def bucket_error_codes_def)
qed

lemma allocate_msat_fifo_infeasible:
  assumes "\<not> fifo_feasible sources sinks amount_msat"
  shows "\<exists>code message. allocate_msat_fifo sources sinks amount_msat
             = Some (Inl (CustodyAllocationError code message))
           \<and> fifo_refusal sources sinks amount_msat code"
  using assms
  by (auto simp: fifo_feasible_def fifo_refusal_def allocate_msat_fifo_def not_le not_less
      dest!: allocation_buckets_error split: sum.splits raw_amount.splits)

text \<open>
  C33: the allocator always returns. It succeeds exactly when both bucket sequences
  validate and the requested amount is a non-negative integer within both capacities.
  Otherwise it raises a \<open>CustodyAllocationError\<close> before any cell escapes, whose code names the
  check that failed: the buckets, the amount, or (all of these being sound) the capacity. So
  the operation is all-or-nothing and no index ever runs past the end of a bucket list.
\<close>

theorem fifo_all_or_nothing:
  "if fifo_feasible sources sinks amount_msat
   then (\<exists>r. allocate_msat_fifo sources sinks amount_msat = Some (Inr r))
   else (\<exists>code message. allocate_msat_fifo sources sinks amount_msat
             = Some (Inl (CustodyAllocationError code message))
           \<and> fifo_refusal sources sinks amount_msat code)"
  using allocate_msat_fifo_feasible [of sources sinks amount_msat]
    allocate_msat_fifo_infeasible [of sources sinks amount_msat] by auto

text \<open>
  C32: a returned allocation is exact. The cells sum to the requested amount; on either
  side every bucket's capacity is what its cells took plus its reported remainder, buckets
  are drained in input order (a bucket is touched only when every earlier one is empty),
  and the cells of a bucket tile it from offset 0 without gap or overlap, each with a
  positive amount.
\<close>

theorem fifo_exact:
  assumes "allocate_msat_fifo sources sinks amount_msat = Some (Inr r)"
  shows "fifo_exact_result sources sinks amount_msat r"
  using assms allocate_msat_fifo_feasible allocate_msat_fifo_infeasible
  by (cases "fifo_feasible sources sinks amount_msat") fastforce+

theorem fifo_exact_witness:
  "fifo_exact_result
     (BucketSeq [BucketPair (Some ''a'') (AmountInt 5), BucketPair (Some ''b'') (AmountInt 7)])
     (BucketSeq [BucketPair (Some ''fee'') (AmountInt 8)]) None
     \<lparr>res_cells =
        [\<lparr>cell_source_id = ''a'', cell_sink_id = ''fee'', cell_amount_msat = 5,
          cell_source_start_msat = 0, cell_sink_start_msat = 0\<rparr>,
         \<lparr>cell_source_id = ''b'', cell_sink_id = ''fee'', cell_amount_msat = 3,
          cell_source_start_msat = 0, cell_sink_start_msat = 5\<rparr>],
      res_allocated_msat = 8,
      res_source_remaining = [(''a'', 0), (''b'', 4)], res_sink_remaining = [(''fee'', 0)]\<rparr>"
  by (rule fifo_exact)
     (simp add: allocate_msat_fifo_def allocation_buckets_def normalize_bucket_def Let_def
        requested_msat_def fifo_loop.simps skip_full.simps remaining_buckets_def numeral_2_eq_2)

text \<open>An explicit allocation list is only reordered, by ordinal and then by id.\<close>

lemma infer_explicit:
  assumes "explicit \<noteq> []"
  shows "\<exists>xs. infer_component_allocations explicit legs mode = Inr xs \<and> mset xs = mset explicit"
  using assms by (simp add: infer_component_allocations_def)

lemma inferred_from_source_conserves:
  "a \<in> set (inferred_from_source True source sinks) \<Longrightarrow>
     alloc_source_amount_msat a = alloc_sink_amount_msat a"
  by (auto simp: inferred_from_source_def)

lemma inferred_to_sink_conserves:
  "a \<in> set (inferred_to_sink sink sources) \<Longrightarrow>
     alloc_source_amount_msat a = alloc_sink_amount_msat a"
  by (auto simp: inferred_to_sink_def)

lemma map_snd_enumerate_sum:
  "(\<Sum>p \<leftarrow> List.enumerate n xs. f (snd p)) = (\<Sum>x \<leftarrow> xs. (f x :: int))"
  by (induction xs arbitrary: n) auto

definition allocated_total :: "component_allocation list \<Rightarrow> int" where
  "allocated_total xs = (\<Sum>a \<leftarrow> xs. int_or_0 (alloc_sink_amount_msat a))"

definition leg_total :: "component_leg list \<Rightarrow> int" where
  "leg_total legs = (\<Sum>l \<leftarrow> legs. int_or_0 (leg_amount_msat l))"

lemma inferred_from_source_total:
  "allocated_total (inferred_from_source q source sinks) = leg_total sinks"
  by (simp add: allocated_total_def leg_total_def inferred_from_source_def comp_def case_prod_unfold
      map_snd_enumerate_sum [where f = "\<lambda>l. int_or_0 (leg_amount_msat l)"])

lemma inferred_to_sink_total:
  "allocated_total (inferred_to_sink sink sources) = leg_total sources"
  by (simp add: allocated_total_def leg_total_def inferred_to_sink_def comp_def case_prod_unfold
      map_snd_enumerate_sum [where f = "\<lambda>l. int_or_0 (leg_amount_msat l)"])

text \<open>
  Allocations inferred for a quantity-conserving component move exactly as much out of
  a source as into a sink in every row, and in total they move the sinks' legs (one source)
  or the sources' legs (several sources into one owned sink); a shape that leaves a choice
  raises instead.
\<close>

theorem infer_conserves:
  assumes "infer_component_allocations [] legs None = Inr xs"
  shows "(\<forall>a \<in> set xs. alloc_source_amount_msat a = alloc_sink_amount_msat a)
       \<and> (let pos = positive_legs legs;
              sources = filter (\<lambda>l. leg_role l = ''source'') pos;
              sinks = filter (\<lambda>l. leg_role l \<noteq> ''source'') pos
          in if length sources = 1 then allocated_total xs = leg_total sinks
             else length sinks = 1 \<and> leg_role (hd sinks) \<in> set owned_sink_roles
                  \<and> allocated_total xs = leg_total sources)"
  using assms
  by (auto simp: infer_component_allocations_def Let_def inferred_from_source_total
      inferred_to_sink_total dest: inferred_from_source_conserves inferred_to_sink_conserves
      split: if_splits)

end
