(* ===== verification/Component_Routes.thy ===== *)
theory Component_Routes
  imports Allocations
begin

text \<open>
  Reviewed missing-wallet hops (\<open>_flatten_transactionless_routes\<close> of
  \<open>kassiber/core/custody_component_claims.py\<close>): allocations that pass through locations
  without a transaction are collapsed into flows between observed endpoints. The closures
  \<open>available\<close> and \<open>take\<close> over the mutable \<open>pools\<close> become functions of the state. An
  allocation is the record of the keys the code reads.
\<close>

section \<open>Legs\<close>

definition claim_compile_error :: "string \<Rightarrow> py_error" where
  "claim_compile_error message = AppError ''custody_component_claim_compile'' message"

definition leg_transaction :: "component_leg \<Rightarrow> string" where
  "leg_transaction leg = str_or_empty (py_or (leg_anchor_transaction_id leg) (leg_transaction_id leg))"

type_synonym location_key = "string \<times> string \<times> string \<times> string \<times> string"

definition location_key :: "component_leg \<Rightarrow> location_key result" where
  "location_key leg =
     (let location = str_or_empty (py_or (leg_wallet_id leg) (leg_location_ref leg))
      in if location = '''' then
           Inl (claim_compile_error ''transaction-less route leg needs a custody location'')
         else Inr (location, py_upper (str_or_empty (leg_asset leg)), str_or_empty (leg_exposure leg),
                   str_or_empty (py_or (leg_conservation_unit leg) (Some ''msat'')),
                   str_or_empty (leg_rail leg)))"

section \<open>Pools of tokens\<close>

text \<open>A token: the observed source leg it comes from, its amount and the allocations it passed.\<close>

type_synonym route_token = "string \<times> int \<times> string list"

type_synonym route_pools = "(location_key, route_token list) dict"

definition pool_available :: "route_pools \<Rightarrow> location_key \<Rightarrow> int" where
  "pool_available pools key = (\<Sum>(_, amount, _) \<leftarrow> dict_get pools key []. amount)"

text \<open>\<open>queue.pop(0)\<close> until the amount is reached; a token larger than what remains is split
  and its rest put back in front, after which nothing remains.\<close>

fun take_tokens :: "int \<Rightarrow> route_token list \<Rightarrow> (route_token list \<times> route_token list) result" where
  "take_tokens remaining queue =
     (if remaining = 0 then Inr ([], queue)
      else case queue of
        [] \<Rightarrow> Inl IndexError
      | (origin, token_amount, path) # rest \<Rightarrow>
          let used = min remaining token_amount
          in if used < token_amount
             then Inr ([(origin, used, path)], (origin, token_amount - used, path) # rest)
             else bind_res (take_tokens (remaining - used) rest)
                    (\<lambda>(result, queue'). Inr ((origin, used, path) # result, queue')))"

declare take_tokens.simps [simp del]

section \<open>One allocation\<close>

record route_state =
  rs_pending :: "component_allocation list"
  rs_pools :: route_pools
  rs_flattened :: "component_allocation list"
  rs_progressed :: bool

type_synonym leg_map = "(string, component_leg) dict"

definition alloc_source_amount :: "component_allocation \<Rightarrow> int" where
  "alloc_source_amount a = int_or_0 (alloc_source_amount_msat a)"

definition alloc_sink_amount :: "component_allocation \<Rightarrow> int" where
  "alloc_sink_amount a = int_or_0 (alloc_sink_amount_msat a)"

definition drop_pending :: "component_allocation \<Rightarrow> route_state \<Rightarrow> route_state" where
  "drop_pending a st = st\<lparr>rs_pending := remove1 a (rs_pending st), rs_progressed := True\<rparr>"

text \<open>The tokens an equal-amount allocation moves, or \<open>None\<close> while its pool is short.\<close>

definition route_tokens ::
  "component_allocation \<Rightarrow> component_leg \<Rightarrow> route_state \<Rightarrow> (route_token list \<times> route_pools) option result" where
  "route_tokens a source st =
     (let source_id = str_or_empty (alloc_source_leg_id a);
          source_amount = alloc_source_amount a;
          allocation_id = str_or_empty (py_or (alloc_id a) (Some (nat_str (length (rs_flattened st)))))
      in if leg_transaction source \<noteq> ''''
         then Inr (Some ([(source_id, source_amount, [allocation_id])], rs_pools st))
         else bind_res (location_key source) (\<lambda>key.
                if pool_available (rs_pools st) key < source_amount then Inr None
                else bind_res (take_tokens source_amount (dict_get (rs_pools st) key []))
                       (\<lambda>(taken, queue).
                          Inr (Some (map (\<lambda>(origin, amount, path). (origin, amount, path @ [allocation_id])) taken,
                                     AList.update key queue (rs_pools st))))))"

definition flattened_allocation :: "component_allocation \<Rightarrow> nat \<times> route_token \<Rightarrow> component_allocation" where
  "flattened_allocation a = (\<lambda>(token_index, origin, amount, path).
     a\<lparr>alloc_id := (if length path > 1 then Some (''route:'' @ join_with '':'' path @ '':'' @ nat_str token_index)
                    else alloc_id a),
       alloc_source_leg_id := Some origin,
       alloc_source_amount_msat := Some amount,
       alloc_sink_amount_msat := Some amount\<rparr>)"

text \<open>A sink that passes its tokens on: owned, without a transaction, not finalized.\<close>

definition passes_on :: "string set \<Rightarrow> component_leg \<Rightarrow> string \<Rightarrow> bool" where
  "passes_on finalized sink sink_id \<longleftrightarrow>
     leg_role sink \<in> {''destination'', ''retained''} \<and> leg_transaction sink = '''' \<and> sink_id \<notin> finalized"

definition deliver_tokens ::
  "string set \<Rightarrow> component_allocation \<Rightarrow> component_leg \<Rightarrow> route_token list \<Rightarrow> route_state \<Rightarrow> route_state result" where
  "deliver_tokens finalized a sink tokens st =
     (if passes_on finalized sink (str_or_empty (alloc_sink_leg_id a))
      then bind_res (location_key sink) (\<lambda>key.
             Inr (st\<lparr>rs_pools := AList.update key (dict_get (rs_pools st) key [] @ tokens) (rs_pools st)\<rparr>))
      else Inr (st\<lparr>rs_flattened := rs_flattened st @ map (flattened_allocation a) (enumerate 0 tokens)\<rparr>))"

definition route_step ::
  "leg_map \<Rightarrow> bool \<Rightarrow> string set \<Rightarrow> component_allocation \<Rightarrow> route_state \<Rightarrow> route_state result" where
  "route_step legs conversion finalized a st =
     (case (map_of legs (str_or_empty (alloc_source_leg_id a)), map_of legs (str_or_empty (alloc_sink_leg_id a))) of
        (Some source, Some sink) \<Rightarrow>
          if leg_role source \<noteq> ''source'' then
            Inl (claim_compile_error ''component allocation endpoints are invalid'')
          else if alloc_source_amount a \<le> 0 \<and> alloc_sink_amount a \<le> 0 then Inr (drop_pending a st)
          else if alloc_source_amount a \<noteq> alloc_sink_amount a then
            (if \<not> conversion then
               Inl (claim_compile_error ''quantity claim allocation does not conserve exact msat'')
             else if leg_transaction source = '''' then
               Inl (claim_compile_error ''transaction-less conversion sources cannot emit tax claims'')
             else Inr (drop_pending a (st\<lparr>rs_flattened := rs_flattened st @ [a]\<rparr>)))
          else bind_res (route_tokens a source st) (\<lambda>found.
                 case found of
                   None \<Rightarrow> Inr st
                 | Some (tokens, pools) \<Rightarrow>
                     bind_res (deliver_tokens finalized a sink tokens (st\<lparr>rs_pools := pools\<rparr>))
                       (\<lambda>st'. Inr (drop_pending a st')))
      | _ \<Rightarrow> Inl (claim_compile_error ''component allocation endpoints are invalid''))"

section \<open>Passes\<close>

fun route_pass ::
  "leg_map \<Rightarrow> bool \<Rightarrow> string set \<Rightarrow> component_allocation list \<Rightarrow> route_state \<Rightarrow> route_state result" where
  "route_pass legs conversion finalized [] st = Inr st"
| "route_pass legs conversion finalized (a # as) st =
     bind_res (route_step legs conversion finalized a st) (route_pass legs conversion finalized as)"

text \<open>A pass that made progress left fewer allocations pending.\<close>

lemma deliver_tokens_pending:
  "deliver_tokens fin a sink tokens st = Inr st' \<Longrightarrow>
     rs_pending st' = rs_pending st \<and> rs_progressed st' = rs_progressed st"
  by (auto simp: deliver_tokens_def result_simps split: if_splits)

lemma route_step_pending:
  assumes "route_step legs conv fin a st = Inr st'"
  shows "rs_pending st' = remove1 a (rs_pending st) \<and> rs_progressed st' \<or> st' = st"
  using assms deliver_tokens_pending
  by (fastforce simp: route_step_def result_simps drop_pending_def split: option.splits if_splits)

lemma route_pass_pending:
  assumes "route_pass legs conv fin as st = Inr st'" and "mset as \<subseteq># mset (rs_pending st)"
  shows "length (rs_pending st') \<le> length (rs_pending st)
    \<and> (rs_progressed st' \<longrightarrow> rs_progressed st \<or> length (rs_pending st') < length (rs_pending st))"
  using assms
proof (induction as arbitrary: st)
  case (Cons a as)
  then obtain st1 where st1: "route_step legs conv fin a st = Inr st1" "route_pass legs conv fin as st1 = Inr st'"
    by (auto simp: result_simps)
  have a: "a \<in> set (rs_pending st)" and sub: "mset as \<subseteq># mset (remove1 a (rs_pending st))"
    using Cons.prems(2) by (auto simp: insert_subset_eq_iff)
  from route_step_pending [OF st1(1)] show ?case
  proof
    assume "rs_pending st1 = remove1 a (rs_pending st) \<and> rs_progressed st1"
    moreover have "length (remove1 a (rs_pending st)) < length (rs_pending st)"
      using a length_pos_if_in_set [OF a] by (simp add: length_remove1)
    ultimately show ?thesis using Cons.IH [OF st1(2)] sub by auto
  next
    assume "st1 = st"
    moreover have "mset as \<subseteq># mset (rs_pending st)"
      using sub diff_subset_eq_self [of "mset (rs_pending st)" "{#a#}"] by (auto intro: subset_mset.order_trans)
    ultimately show ?thesis using Cons.IH [OF st1(2)] by simp
  qed
qed simp

function route_loop ::
  "leg_map \<Rightarrow> bool \<Rightarrow> string set \<Rightarrow> route_state \<Rightarrow> route_state result" where
  "route_loop legs conversion finalized st =
     (if rs_pending st = [] then Inr st
      else case route_pass legs conversion finalized (rs_pending st) (st\<lparr>rs_progressed := False\<rparr>) of
             Inl e \<Rightarrow> Inl e
           | Inr st' \<Rightarrow>
               if \<not> rs_progressed st' then
                 Inl (claim_compile_error ''transaction-less component route is incomplete or ambiguous'')
               else route_loop legs conversion finalized st')"
  by pat_completeness auto
termination
  apply (relation "measure (\<lambda>(legs, conversion, finalized, st). length (rs_pending st))")
  apply simp
  subgoal for legs conversion finalized st st'
    using route_pass_pending [of legs conversion finalized "rs_pending st" "st\<lparr>rs_progressed := False\<rparr>" st'] by simp
  done

declare route_loop.simps [simp del]

definition flatten_transactionless_routes ::
  "leg_map \<Rightarrow> component_allocation list \<Rightarrow> bool \<Rightarrow> string set \<Rightarrow> component_allocation list result" where
  "flatten_transactionless_routes legs allocations conversion finalized =
     bind_res (route_loop legs conversion finalized
                \<lparr>rs_pending = allocations, rs_pools = [], rs_flattened = [], rs_progressed = False\<rparr>) (\<lambda>st.
       if (\<exists>key \<in> fst ` set (rs_pools st). 0 < pool_available (rs_pools st) key) then
         Inl (claim_compile_error ''transaction-less component route ends without an observed or classified sink'')
       else Inr (rs_flattened st))"

section \<open>Quantities of a route\<close>

definition tok_sum :: "string \<Rightarrow> route_token list \<Rightarrow> int" where
  "tok_sum s q = (\<Sum>t \<leftarrow> q. if fst t = s then fst (snd t) else 0)"

definition tok_total :: "route_token list \<Rightarrow> int" where
  "tok_total q = (\<Sum>t \<leftarrow> q. fst (snd t))"

definition pool_of :: "string \<Rightarrow> route_pools \<Rightarrow> int" where
  "pool_of s pools = (\<Sum>(_, q) \<leftarrow> pools. tok_sum s q)"

text \<open>An allocation with a positive side; the code drops the others.\<close>

definition live :: "component_allocation \<Rightarrow> bool" where
  "live a \<longleftrightarrow> 0 < alloc_source_amount a \<or> 0 < alloc_sink_amount a"

definition source_of :: "component_allocation \<Rightarrow> string" where
  "source_of a = str_or_empty (alloc_source_leg_id a)"

definition sink_of :: "component_allocation \<Rightarrow> string" where
  "sink_of a = str_or_empty (alloc_sink_leg_id a)"

definition out_of :: "string \<Rightarrow> component_allocation list \<Rightarrow> int" where
  "out_of s as = (\<Sum>a \<leftarrow> as. if live a \<and> source_of a = s then alloc_source_amount a else 0)"

definition into :: "string \<Rightarrow> component_allocation list \<Rightarrow> int" where
  "into k as = (\<Sum>a \<leftarrow> as. if live a \<and> sink_of a = k then alloc_sink_amount a else 0)"

lemma tok_simps [simp]:
  "tok_sum s [] = 0" "tok_sum s (t # q) = (if fst t = s then fst (snd t) else 0) + tok_sum s q"
  "tok_sum s (q @ r) = tok_sum s q + tok_sum s r"
  "tok_total [] = 0" "tok_total (t # q) = fst (snd t) + tok_total q" "tok_total (q @ r) = tok_total q + tok_total r"
  by (simp_all add: tok_sum_def tok_total_def)

lemma flow_simps [simp]:
  "out_of s [] = 0" "into s [] = 0"
  "out_of s (a # as) = (if live a \<and> source_of a = s then alloc_source_amount a else 0) + out_of s as"
  "into s (a # as) = (if live a \<and> sink_of a = s then alloc_sink_amount a else 0) + into s as"
  "out_of s (as @ bs) = out_of s as + out_of s bs" "into s (as @ bs) = into s as + into s bs"
  by (simp_all add: out_of_def into_def)

lemma flow_remove1:
  "a \<in> set as \<Longrightarrow> out_of s (remove1 a as) = out_of s as - (if live a \<and> source_of a = s then alloc_source_amount a else 0)"
  "a \<in> set as \<Longrightarrow> into s (remove1 a as) = into s as - (if live a \<and> sink_of a = s then alloc_sink_amount a else 0)"
  by (induction as) auto

lemma pool_available_total: "pool_available pools key = tok_total (dict_get pools key [])"
  by (simp add: pool_available_def tok_total_def case_prod_unfold)

lemma pool_of_update:
  "distinct (map fst pools) \<Longrightarrow>
     pool_of s (AList.update key q pools) = pool_of s pools - tok_sum s (dict_get pools key []) + tok_sum s q"
  unfolding pool_of_def by (rule sum_dict_update) simp_all

text \<open>Tokens have a positive amount and come from observed source legs.\<close>

definition observed_source :: "leg_map \<Rightarrow> string \<Rightarrow> bool" where
  "observed_source legs s \<longleftrightarrow>
     (\<exists>leg. map_of legs s = Some leg \<and> leg_role leg = ''source'' \<and> leg_transaction leg \<noteq> '''')"

definition good_tokens :: "leg_map \<Rightarrow> route_token list \<Rightarrow> bool" where
  "good_tokens legs q \<longleftrightarrow> (\<forall>t \<in> set q. 0 < fst (snd t) \<and> observed_source legs (fst t))"

lemma good_tokens_simps [simp]:
  "good_tokens legs []" "good_tokens legs (q @ r) \<longleftrightarrow> good_tokens legs q \<and> good_tokens legs r"
  "good_tokens legs (t # q) \<longleftrightarrow> 0 < fst (snd t) \<and> observed_source legs (fst t) \<and> good_tokens legs q"
  by (auto simp: good_tokens_def)

lemma good_tokens_nonneg: "good_tokens legs q \<Longrightarrow> 0 \<le> tok_total q"
  by (induction q) auto

lemma good_tokens_empty: "good_tokens legs q \<Longrightarrow> tok_total q \<le> 0 \<Longrightarrow> q = []"
proof (cases q)
  case (Cons t r)
  then show "good_tokens legs q \<Longrightarrow> tok_total q \<le> 0 \<Longrightarrow> q = []" using good_tokens_nonneg [of legs r] by auto
qed

lemma take_tokens_spec:
  assumes "good_tokens legs q" and "0 \<le> r" and "r \<le> tok_total q"
  shows "\<exists>res q'. take_tokens r q = Inr (res, q') \<and> good_tokens legs res \<and> good_tokens legs q'
    \<and> tok_total res = r \<and> (\<forall>s. tok_sum s res + tok_sum s q' = tok_sum s q)"
  using assms
proof (induction q arbitrary: r)
  case Nil
  then show ?case by (simp add: take_tokens.simps)
next
  case (Cons t q)
  obtain origin amount path where t: "t = (origin, amount, path)" by (cases t)
  show ?case
  proof (cases "r = 0")
    case True
    then show ?thesis using Cons.prems by (simp add: take_tokens.simps)
  next
    case False
    show ?thesis
    proof (cases "r < amount")
      case True
      then show ?thesis using Cons.prems False by (subst take_tokens.simps) (auto simp: t)
    next
      case le: False
      then have "good_tokens legs q" "0 \<le> r - amount" "r - amount \<le> tok_total q" using Cons.prems by (auto simp: t)
      from Cons.IH [OF this] obtain res q' where *: "take_tokens (r - amount) q = Inr (res, q')"
        "good_tokens legs res" "good_tokens legs q'" "tok_total res = r - amount"
        "\<forall>s. tok_sum s res + tok_sum s q' = tok_sum s q" by blast
      have "min r amount = amount" using le by simp
      then have "take_tokens r (t # q) = Inr ((origin, amount, path) # res, q')"
        using False *(1) by (subst take_tokens.simps) (simp add: t)
      then show ?thesis using * Cons.prems by (auto simp: t)
    qed
  qed
qed

section \<open>The invariant of the passes\<close>

text \<open>
  What an observed source has sent is pending, in a pool or flattened; what a sink that
  passes nothing on receives is pending or flattened. Flattened allocations start at observed
  sources, and outside conversions they conserve their amount and end at such a sink.
\<close>

definition final_sink :: "leg_map \<Rightarrow> string set \<Rightarrow> string \<Rightarrow> bool" where
  "final_sink legs fin k \<longleftrightarrow> (\<exists>leg. map_of legs k = Some leg \<and> \<not> passes_on fin leg k)"

definition good_flat :: "leg_map \<Rightarrow> bool \<Rightarrow> string set \<Rightarrow> component_allocation \<Rightarrow> bool" where
  "good_flat legs conv fin a \<longleftrightarrow>
     live a \<and> observed_source legs (source_of a) \<and> map_of legs (sink_of a) \<noteq> None
     \<and> (alloc_source_amount a = alloc_sink_amount a \<longrightarrow> final_sink legs fin (sink_of a))
     \<and> (alloc_source_amount a = alloc_sink_amount a \<or> conv)"

definition route_inv ::
  "leg_map \<Rightarrow> bool \<Rightarrow> string set \<Rightarrow> component_allocation list \<Rightarrow> route_state \<Rightarrow> bool" where
  "route_inv legs conv fin given st \<longleftrightarrow>
     distinct (map fst (rs_pools st))
     \<and> (\<forall>(key, q) \<in> set (rs_pools st). good_tokens legs q)
     \<and> (\<forall>a \<in> set (rs_flattened st). good_flat legs conv fin a)
     \<and> (\<forall>s. observed_source legs s \<longrightarrow>
          out_of s (rs_pending st) + pool_of s (rs_pools st) + out_of s (rs_flattened st) = out_of s given)
     \<and> (\<forall>k. final_sink legs fin k \<longrightarrow> into k (rs_pending st) + into k (rs_flattened st) = into k given)"

lemma route_invD:
  assumes "route_inv legs conv fin given st"
  shows "distinct (map fst (rs_pools st))" "good_tokens legs (dict_get (rs_pools st) key [])"
    and "a \<in> set (rs_flattened st) \<Longrightarrow> good_flat legs conv fin a"
    and "observed_source legs s \<Longrightarrow>
          out_of s (rs_pending st) + pool_of s (rs_pools st) + out_of s (rs_flattened st) = out_of s given"
    and "final_sink legs fin k \<Longrightarrow> into k (rs_pending st) + into k (rs_flattened st) = into k given"
  using assms
  by (auto simp: route_inv_def dict_get_def split: option.splits dest: map_of_SomeD)

lemma route_invI:
  assumes "distinct (map fst (rs_pools st))" and "\<And>key q. (key, q) \<in> set (rs_pools st) \<Longrightarrow> good_tokens legs q"
    and "\<And>a. a \<in> set (rs_flattened st) \<Longrightarrow> good_flat legs conv fin a"
    and "\<And>s. observed_source legs s \<Longrightarrow>
          out_of s (rs_pending st) + pool_of s (rs_pools st) + out_of s (rs_flattened st) = out_of s given"
    and "\<And>k. final_sink legs fin k \<Longrightarrow> into k (rs_pending st) + into k (rs_flattened st) = into k given"
  shows "route_inv legs conv fin given st"
  using assms by (auto simp: route_inv_def)

text \<open>The tokens of an allocation: the state that remains and what they sum to.\<close>

lemma route_tokens_spec:
  assumes inv: "route_inv legs conv fin given st"
    and a: "map_of legs (source_of a) = Some source" "leg_role source = ''source''"
      "0 < alloc_source_amount a"
    and found: "route_tokens a source st = Inr (Some (tokens, pools))"
  shows "distinct (map fst pools)" "\<forall>(key, q) \<in> set pools. good_tokens legs q"
    "good_tokens legs tokens" "tok_total tokens = alloc_source_amount a"
    "observed_source legs s \<Longrightarrow>
       pool_of s pools + tok_sum s tokens
         = pool_of s (rs_pools st) + (if source_of a = s then alloc_source_amount a else 0)"
proof -
  have *: "distinct (map fst pools) \<and> (\<forall>(key, q) \<in> set pools. good_tokens legs q) \<and> good_tokens legs tokens
    \<and> tok_total tokens = alloc_source_amount a
    \<and> (\<forall>s. observed_source legs s \<longrightarrow> pool_of s pools + tok_sum s tokens
         = pool_of s (rs_pools st) + (if source_of a = s then alloc_source_amount a else 0))"
  proof (cases "leg_transaction source = ''''")
    case False
    then have "tokens = [(source_of a, alloc_source_amount a,
        [str_or_empty (py_or (alloc_id a) (Some (nat_str (length (rs_flattened st)))))])]" "pools = rs_pools st"
      using found by (simp_all add: route_tokens_def source_of_def)
    moreover have "observed_source legs (source_of a)" using a False by (auto simp: observed_source_def)
    ultimately show ?thesis using inv a(3) by (auto simp: route_inv_def)
  next
    case True
    then have unobserved: "\<not> observed_source legs (source_of a)" using a by (simp add: observed_source_def)
    let ?i = "str_or_empty (py_or (alloc_id a) (Some (nat_str (length (rs_flattened st)))))"
    obtain key where key: "location_key source = Inr key"
      using found True by (cases "location_key source") (auto simp: route_tokens_def Let_def)
    obtain taken queue where k: "\<not> pool_available (rs_pools st) key < alloc_source_amount a"
      "take_tokens (alloc_source_amount a) (dict_get (rs_pools st) key []) = Inr (taken, queue)"
      and t: "pools = AList.update key queue (rs_pools st)"
      "tokens = map (\<lambda>(origin, amount, path). (origin, amount, path @ [?i])) taken"
      using found True
      by (cases "take_tokens (alloc_source_amount a) (dict_get (rs_pools st) key [])")
        (auto simp: route_tokens_def Let_def key split: if_splits)
    have sums: "good_tokens legs taken" "good_tokens legs queue" "tok_total taken = alloc_source_amount a"
      "\<And>s. tok_sum s taken + tok_sum s queue = tok_sum s (dict_get (rs_pools st) key [])"
      using take_tokens_spec [OF route_invD(2) [OF inv, of key], of "alloc_source_amount a"] k a(3)
      by (auto simp: pool_available_total)
    have same: "good_tokens legs tokens = good_tokens legs taken" "tok_total tokens = tok_total taken"
      "tok_sum s tokens = tok_sum s taken" for s
      unfolding t(2) by (induction taken) auto
    have "good_tokens legs q" if "(k, q) \<in> set pools" for k q
      using update_member [OF route_invD(1) [OF inv] that [unfolded t(1)]] sums(2) inv
      by (auto simp: route_inv_def)
    moreover have "pool_of s pools + tok_sum s tokens = pool_of s (rs_pools st)" for s
      using pool_of_update [OF route_invD(1) [OF inv], of s key queue] sums(4) [of s] same(3) [of s] t(1) by simp
    moreover have "distinct (map fst pools)" using route_invD(1) [OF inv] t(1) by (simp add: distinct_update)
    ultimately show ?thesis using sums same unobserved by auto
  qed
  show "distinct (map fst pools)" "\<forall>(key, q) \<in> set pools. good_tokens legs q" "good_tokens legs tokens"
    "tok_total tokens = alloc_source_amount a" using * by simp_all
  show "observed_source legs s \<Longrightarrow> pool_of s pools + tok_sum s tokens
         = pool_of s (rs_pools st) + (if source_of a = s then alloc_source_amount a else 0)" using * by blast
qed

lemma flattened_allocation_fields [simp]:
  "source_of (flattened_allocation a (i, origin, amount, path)) = origin"
  "sink_of (flattened_allocation a (i, origin, amount, path)) = sink_of a"
  "alloc_source_amount (flattened_allocation a (i, origin, amount, path)) = amount"
  "alloc_sink_amount (flattened_allocation a (i, origin, amount, path)) = amount"
  "live (flattened_allocation a (i, origin, amount, path)) \<longleftrightarrow> 0 < amount"
  by (simp_all add: flattened_allocation_def source_of_def sink_of_def alloc_source_amount_def
      alloc_sink_amount_def live_def)

lemma flattened_tokens:
  assumes "good_tokens legs tokens"
  shows "out_of s (map (flattened_allocation a) (enumerate n tokens)) = tok_sum s tokens"
    "into k (map (flattened_allocation a) (enumerate n tokens)) = (if sink_of a = k then tok_total tokens else 0)"
    "final_sink legs fin (sink_of a) \<Longrightarrow> b \<in> set (map (flattened_allocation a) (enumerate n tokens)) \<Longrightarrow>
       good_flat legs conv fin b"
proof -
  have "out_of s (map (flattened_allocation a) (enumerate n tokens)) = tok_sum s tokens
    \<and> into k (map (flattened_allocation a) (enumerate n tokens)) = (if sink_of a = k then tok_total tokens else 0)"
    using assms
  proof (induction tokens arbitrary: n)
    case (Cons t tokens)
    obtain origin amount path where t: "t = (origin, amount, path)" by (cases t)
    have "0 < amount" "good_tokens legs tokens" using Cons.prems by (simp_all add: t)
    with Cons.IH [of "Suc n"] show ?case by (simp add: t)
  qed simp
  then show "out_of s (map (flattened_allocation a) (enumerate n tokens)) = tok_sum s tokens"
    "into k (map (flattened_allocation a) (enumerate n tokens)) = (if sink_of a = k then tok_total tokens else 0)"
    by blast+
  assume final: "final_sink legs fin (sink_of a)"
    and "b \<in> set (map (flattened_allocation a) (enumerate n tokens))"
  then obtain p where p: "p \<in> set (enumerate n tokens)" "b = flattened_allocation a p" by auto
  obtain i origin amount path where i: "p = (i, origin, amount, path)" by (cases p)
  have "(origin, amount, path) \<in> set tokens"
    using p(1) nth_mem [of "i - n" tokens] by (auto simp: i in_set_enumerate_eq)
  moreover have b: "b = flattened_allocation a (i, origin, amount, path)" using p(2) i by simp
  ultimately have "0 < amount" "observed_source legs origin" using assms by (auto simp: good_tokens_def)
  then show "good_flat legs conv fin b" using final by (auto simp: b good_flat_def final_sink_def)
qed

lemma route_inv_flat:
  "route_inv legs conv fin given (st\<lparr>rs_progressed := p\<rparr>) \<longleftrightarrow> route_inv legs conv fin given st"
  by (simp add: route_inv_def)

text \<open>Delivering the tokens of a pending allocation and dropping it keeps the invariant.\<close>

lemma deliver_tokens_inv:
  assumes inv: "route_inv legs conv fin given st" and pending: "a \<in> set (rs_pending st)"
    and a: "map_of legs (source_of a) = Some source" "map_of legs (sink_of a) = Some sink"
      "leg_role source = ''source''" "live a" "alloc_source_amount a = alloc_sink_amount a"
    and found: "route_tokens a source st = Inr (Some (tokens, pools))"
    and deliver: "deliver_tokens fin a sink tokens (st\<lparr>rs_pools := pools\<rparr>) = Inr st'"
  shows "route_inv legs conv fin given (drop_pending a st')"
proof -
  have pos: "0 < alloc_source_amount a" using a(4,5) by (simp add: live_def)
  note t = route_tokens_spec [OF inv a(1,3) pos found]
  show ?thesis
  proof (cases "passes_on fin sink (sink_of a)")
    case True
    then obtain key where st': "st' = st\<lparr>rs_pools := AList.update key (dict_get pools key [] @ tokens) pools\<rparr>"
      using deliver by (auto simp: deliver_tokens_def result_simps sink_of_def [symmetric])
    have g: "good_tokens legs (dict_get pools key [])"
      using t(2) by (auto simp: dict_get_def split: option.splits dest: map_of_SomeD)
    have "good_tokens legs q" if "(k, q) \<in> set (rs_pools st')" for k q
    proof -
      have "(k, q) \<in> set (AList.update key (dict_get pools key [] @ tokens) pools)" using that by (simp add: st')
      from update_member [OF t(1) this] show ?thesis using t(2,3) g by auto
    qed
    moreover have "pool_of s (rs_pools st') = pool_of s pools + tok_sum s tokens" for s
      using pool_of_update [OF t(1), of s key] by (simp add: st')
    moreover have "\<not> final_sink legs fin (sink_of a)" using True a(2) by (simp add: final_sink_def)
    moreover have "distinct (map fst (rs_pools st'))" using t(1) by (simp add: st' distinct_update)
    moreover have "out_of s (remove1 a (rs_pending st)) + (pool_of s pools + tok_sum s tokens)
        + out_of s (rs_flattened st) = out_of s given" if "observed_source legs s" for s
      using route_invD(4) [OF inv that] t(5) [OF that] pending a(4) by (simp add: flow_remove1)
    moreover have "into k (remove1 a (rs_pending st)) + into k (rs_flattened st) = into k given"
      if "final_sink legs fin k" for k
      using route_invD(5) [OF inv that] that \<open>\<not> final_sink legs fin (sink_of a)\<close> pending by (auto simp: flow_remove1)
    moreover have "rs_flattened st' = rs_flattened st" "rs_pending st' = rs_pending st" by (simp_all add: st')
    ultimately show ?thesis using route_invD(3) [OF inv]
      by (intro route_invI) (auto simp: drop_pending_def)
  next
    case False
    then have st': "st' = st\<lparr>rs_pools := pools,
        rs_flattened := rs_flattened st @ map (flattened_allocation a) (enumerate 0 tokens)\<rparr>"
      using deliver by (auto simp: deliver_tokens_def sink_of_def [symmetric])
    have final: "final_sink legs fin (sink_of a)" using False a(2) by (auto simp: final_sink_def)
    note f = flattened_tokens [OF t(3), where a = a and n = 0]
    have "good_flat legs conv fin b" if "b \<in> set (rs_flattened st')" for b
      using that f(3) [OF final] route_invD(3) [OF inv] by (auto simp: st')
    moreover have "out_of s (remove1 a (rs_pending st)) + pool_of s pools
        + (out_of s (rs_flattened st) + tok_sum s tokens) = out_of s given" if "observed_source legs s" for s
      using route_invD(4) [OF inv that] t(5) [OF that] pending a(4) by (simp add: flow_remove1)
    moreover have "into k (remove1 a (rs_pending st)) + (into k (rs_flattened st)
        + (if sink_of a = k then tok_total tokens else 0)) = into k given" if "final_sink legs fin k" for k
      using route_invD(5) [OF inv that] t(4) pending a(4,5) by (simp add: flow_remove1)
    ultimately show ?thesis using t(1,2) f(1,2)
      by (intro route_invI) (auto simp: st' drop_pending_def)
  qed
qed

lemma route_step_inv:
  assumes inv: "route_inv legs conv fin given st" and pending: "a \<in> set (rs_pending st)"
    and step: "route_step legs conv fin a st = Inr st'"
  shows "route_inv legs conv fin given st'"
proof -
  obtain source sink where a: "map_of legs (source_of a) = Some source" "map_of legs (sink_of a) = Some sink"
    "leg_role source = ''source''"
    using step by (auto simp: route_step_def source_of_def sink_of_def split: option.splits if_splits)
  note step' = step [unfolded route_step_def a(1,2) [unfolded source_of_def sink_of_def] prod.case option.case]
  show ?thesis
  proof (cases "live a")
    case False
    then have "st' = drop_pending a st" using step' a(3) by (simp add: live_def not_less)
    then show ?thesis using inv pending False by (simp add: route_inv_def drop_pending_def flow_remove1)
  next
    case live: True
    then have nz: "\<not> (alloc_source_amount a \<le> 0 \<and> alloc_sink_amount a \<le> 0)" by (auto simp: live_def)
    show ?thesis
    proof (cases "alloc_source_amount a = alloc_sink_amount a")
      case False
      then have "conv" "leg_transaction source \<noteq> ''''"
        and st': "st' = drop_pending a (st\<lparr>rs_flattened := rs_flattened st @ [a]\<rparr>)"
        using step' a(3) nz by (auto split: if_splits)
      then have "good_flat legs conv fin a" using a live False
        by (auto simp: good_flat_def observed_source_def)
      then show ?thesis using inv pending live
        by (auto simp: st' route_inv_def drop_pending_def flow_remove1)
    next
      case True
      then consider "st' = st" | tokens pools st1 where "route_tokens a source st = Inr (Some (tokens, pools))"
        "deliver_tokens fin a sink tokens (st\<lparr>rs_pools := pools\<rparr>) = Inr st1" "st' = drop_pending a st1"
        using step' a(3) nz by (auto simp: result_simps split: option.splits)
      then show ?thesis
      proof cases
        case 1
        then show ?thesis using inv by simp
      next
        case 2
        then show ?thesis using deliver_tokens_inv [OF inv pending a live True 2(1,2)] by simp
      qed
    qed
  qed
qed

lemma route_pass_inv:
  assumes "route_inv legs conv fin given st" and "mset as \<subseteq># mset (rs_pending st)"
    and "route_pass legs conv fin as st = Inr st'"
  shows "route_inv legs conv fin given st'"
  using assms
proof (induction as arbitrary: st)
  case (Cons a as)
  then obtain st1 where st1: "route_step legs conv fin a st = Inr st1" "route_pass legs conv fin as st1 = Inr st'"
    by (auto simp: result_simps)
  have a: "a \<in> set (rs_pending st)" and sub: "mset as \<subseteq># mset (remove1 a (rs_pending st))"
    using Cons.prems(2) by (auto simp: insert_subset_eq_iff)
  have "mset as \<subseteq># mset (rs_pending st1)"
    using route_step_pending [OF st1(1)] sub diff_subset_eq_self [of "mset (rs_pending st)" "{#a#}"]
    by (auto intro: subset_mset.order_trans)
  then show ?case using Cons.IH st1(2) route_step_inv [OF Cons.prems(1) a st1(1)] by blast
qed simp

lemma route_loop_inv:
  assumes "route_inv legs conv fin given st" and "route_loop legs conv fin st = Inr st'"
  shows "route_inv legs conv fin given st' \<and> rs_pending st' = []"
  using assms
proof (induction legs conv fin st rule: route_loop.induct)
  case (1 legs conv fin st)
  show ?case
  proof (cases "rs_pending st = []")
    case True
    then show ?thesis using 1(2,3) by (simp add: route_loop.simps)
  next
    case False
    then obtain st1 where st1: "route_pass legs conv fin (rs_pending st) (st\<lparr>rs_progressed := False\<rparr>) = Inr st1"
      "rs_progressed st1" "route_loop legs conv fin st1 = Inr st'"
      using 1(3) by (subst (asm) route_loop.simps) (auto split: sum.splits if_splits)
    have "route_inv legs conv fin given st1"
      using route_pass_inv [OF _ _ st1(1)] 1(2) by (simp add: route_inv_flat)
    then show ?thesis using 1(1) [OF False st1(1)] st1(2,3) by simp
  qed
qed

section \<open>Failures\<close>

text \<open>The queue of a pool never runs dry: every failure of a step is a typed one.\<close>

lemma location_key_Inl: "location_key leg = Inl e \<Longrightarrow> \<exists>m. e = claim_compile_error m"
  by (auto simp: location_key_def Let_def split: if_splits)

lemma route_tokens_Inl:
  assumes inv: "route_inv legs conv fin given st" and pos: "0 < alloc_source_amount a"
    and "route_tokens a source st = Inl e"
  shows "\<exists>m. e = claim_compile_error m"
proof (cases "location_key source")
  case (Inl e')
  then show ?thesis using assms(3) location_key_Inl [OF Inl] by (auto simp: route_tokens_def Let_def split: if_splits)
next
  case (Inr key)
  have "\<exists>r. take_tokens (alloc_source_amount a) (dict_get (rs_pools st) key []) = Inr r"
    if "\<not> pool_available (rs_pools st) key < alloc_source_amount a"
    using take_tokens_spec [OF route_invD(2) [OF inv, of key], of "alloc_source_amount a"] that pos
    by (auto simp: pool_available_total)
  then show ?thesis using assms(3) Inr by (fastforce simp: route_tokens_def Let_def split: if_splits)
qed

lemma route_step_Inl:
  assumes inv: "route_inv legs conv fin given st" and "route_step legs conv fin a st = Inl e"
  shows "\<exists>m. e = claim_compile_error m"
proof (cases "(map_of legs (source_of a), map_of legs (sink_of a))")
  case (Pair os ok)
  then show ?thesis
    using assms(2) route_tokens_Inl [OF inv, of a] location_key_Inl
    by (fastforce simp: route_step_def source_of_def sink_of_def deliver_tokens_def result_simps
        split: option.splits if_splits)
qed

lemma route_pass_Inl:
  assumes "route_inv legs conv fin given st" and "mset as \<subseteq># mset (rs_pending st)"
    and "route_pass legs conv fin as st = Inl e"
  shows "\<exists>m. e = claim_compile_error m"
  using assms
proof (induction as arbitrary: st)
  case (Cons a as)
  have a: "a \<in> set (rs_pending st)" and sub: "mset as \<subseteq># mset (remove1 a (rs_pending st))"
    using Cons.prems(2) by (auto simp: insert_subset_eq_iff)
  show ?case
  proof (cases "route_step legs conv fin a st")
    case (Inl e')
    then show ?thesis using Cons.prems route_step_Inl [OF Cons.prems(1) Inl] by simp
  next
    case (Inr st1)
    have "mset as \<subseteq># mset (rs_pending st1)"
      using route_step_pending [OF Inr] sub diff_subset_eq_self [of "mset (rs_pending st)" "{#a#}"]
      by (auto intro: subset_mset.order_trans)
    then show ?thesis using Cons.IH route_step_inv [OF Cons.prems(1) a Inr] Cons.prems(3) Inr by simp
  qed
qed simp

lemma route_loop_Inl:
  assumes "route_inv legs conv fin given st" and "route_loop legs conv fin st = Inl e"
  shows "\<exists>m. e = claim_compile_error m"
  using assms
proof (induction legs conv fin st rule: route_loop.induct)
  case (1 legs conv fin st)
  then have ne: "rs_pending st \<noteq> []" by (auto simp: route_loop.simps)
  show ?case
  proof (cases "route_pass legs conv fin (rs_pending st) (st\<lparr>rs_progressed := False\<rparr>)")
    case (Inl e')
    have "\<exists>m. e' = claim_compile_error m" using route_pass_Inl [OF _ _ Inl] 1(2) by (simp add: route_inv_flat)
    then show ?thesis using 1(3) ne Inl by (subst (asm) (1) route_loop.simps) simp
  next
    case (Inr st1)
    have "route_inv legs conv fin given st1"
      using route_pass_inv [OF _ _ Inr] 1(2) by (simp add: route_inv_flat)
    moreover have "route_loop legs conv fin st =
        (if \<not> rs_progressed st1 then
           Inl (claim_compile_error ''transaction-less component route is incomplete or ambiguous'')
         else route_loop legs conv fin st1)"
      using ne Inr by (subst route_loop.simps) simp
    ultimately show ?thesis using 1(1) [OF ne Inr] 1(3) by (auto split: if_splits)
  qed
qed

lemma route_inv_start:
  "route_inv legs conv fin given \<lparr>rs_pending = given, rs_pools = [], rs_flattened = [], rs_progressed = False\<rparr>"
  by (simp add: route_inv_def pool_of_def)

section \<open>Properties\<close>

text \<open>
  C10: flattening conserves the reviewed routes. Every observed source sends exactly what was
  allocated from it, every sink that keeps what it gets receives exactly what was allocated
  into it, each flattened allocation starts at an observed source, and outside conversions it
  conserves its amount and ends at such a sink; flattening always returns, and when it fails
  the error is the typed one.
\<close>

theorem routes_conserved:
  "case flatten_transactionless_routes legs given conversion finalized of
     Inr flat \<Rightarrow>
       (\<forall>s. observed_source legs s \<longrightarrow> out_of s flat = out_of s given)
     \<and> (\<forall>k. final_sink legs finalized k \<longrightarrow> into k flat = into k given)
     \<and> (\<forall>a \<in> set flat. good_flat legs conversion finalized a)
   | Inl e \<Rightarrow> \<exists>message. e = claim_compile_error message"
proof (cases "route_loop legs conversion finalized
    \<lparr>rs_pending = given, rs_pools = [], rs_flattened = [], rs_progressed = False\<rparr>")
  case (Inl e)
  then show ?thesis using route_loop_Inl [OF route_inv_start Inl] by (simp add: flatten_transactionless_routes_def)
next
  case (Inr st)
  have inv: "route_inv legs conversion finalized given st" and empty: "rs_pending st = []"
    using route_loop_inv [OF route_inv_start Inr] by auto
  have "pool_of s (rs_pools st) = 0" if none: "\<forall>key \<in> fst ` set (rs_pools st). \<not> 0 < pool_available (rs_pools st) key" for s
  proof -
    have "q = []" if "(key, q) \<in> set (rs_pools st)" for key q
    proof -
      have "dict_get (rs_pools st) key [] = q" using that route_invD(1) [OF inv] by (simp add: dict_get_def)
      moreover have "key \<in> fst ` set (rs_pools st)" using that by force
      ultimately show ?thesis
        using none good_tokens_empty [OF route_invD(2) [OF inv, of key]] by (auto simp: pool_available_total)
    qed
    then have "(\<lambda>(_, q). tok_sum s q) p = 0" if "p \<in> set (rs_pools st)" for p using that by (cases p) fastforce
    then have "map (\<lambda>(_, q). tok_sum s q) (rs_pools st) = map (\<lambda>_. 0) (rs_pools st)" by (intro map_cong refl)
    then show ?thesis by (simp only: pool_of_def sum_list_0)
  qed
  then show ?thesis using route_invD(3-5) [OF inv] empty Inr
    by (auto simp: flatten_transactionless_routes_def)
qed

text \<open>A hop through a wallet without transactions: 9 msat leave an observed source, 7 of them go on
  to an observed destination and 2 to a fee.\<close>

definition route_leg :: "string \<Rightarrow> string \<Rightarrow> string option \<Rightarrow> component_leg" where
  "route_leg i role tx =
     \<lparr>leg_id = i, leg_role = role, leg_amount_msat = None, leg_anchor_transaction_id = None,
      leg_transaction_id = tx, leg_wallet_id = Some ''w'', leg_location_ref = None, leg_asset = Some ''btc'',
      leg_exposure = None, leg_conservation_unit = None, leg_rail = None, leg_notes = None, leg_occurred_at = None\<rparr>"

definition route_alloc :: "string \<Rightarrow> string \<Rightarrow> string \<Rightarrow> int \<Rightarrow> component_allocation" where
  "route_alloc i s k amount =
     \<lparr>alloc_id = Some i, alloc_ordinal = None, alloc_source_leg_id = Some s, alloc_sink_leg_id = Some k,
      alloc_source_amount_msat = Some amount, alloc_sink_amount_msat = Some amount\<rparr>"

definition sample_legs :: leg_map where
  "sample_legs = [(''s'', route_leg ''s'' ''source'' (Some ''t1'')), (''h'', route_leg ''h'' ''destination'' None),
                  (''g'', route_leg ''g'' ''source'' None), (''d'', route_leg ''d'' ''destination'' (Some ''t2'')),
                  (''f'', route_leg ''f'' ''fee'' None)]"

definition sample_routes :: "component_allocation list" where
  "sample_routes = [route_alloc ''2'' ''g'' ''d'' 7, route_alloc ''3'' ''g'' ''f'' 2, route_alloc ''1'' ''s'' ''h'' 9]"

theorem routes_conserved_witness:
  "\<exists>flat. flatten_transactionless_routes sample_legs sample_routes False {} = Inr flat
     \<and> map (\<lambda>a. (source_of a, sink_of a, alloc_source_amount a)) flat = [(''s'', ''d'', 7), (''s'', ''f'', 2)]
     \<and> observed_source sample_legs ''s'' \<and> out_of ''s'' flat = 9
     \<and> final_sink sample_legs {} ''d'' \<and> into ''d'' flat = 7"
proof -
  let ?r = "flatten_transactionless_routes sample_legs sample_routes False {}"
  have "case ?r of Inl _ \<Rightarrow> False | Inr flat \<Rightarrow>
      map (\<lambda>a. (source_of a, sink_of a, alloc_source_amount a)) flat = [(''s'', ''d'', 7), (''s'', ''f'', 2)]"
    by code_simp
  then obtain flat where flat: "?r = Inr flat"
    "map (\<lambda>a. (source_of a, sink_of a, alloc_source_amount a)) flat = [(''s'', ''d'', 7), (''s'', ''f'', 2)]"
    by (auto split: sum.splits)
  have s: "observed_source sample_legs ''s''" and d: "final_sink sample_legs {} ''d''"
    by (auto simp: observed_source_def final_sink_def sample_legs_def route_leg_def leg_transaction_def
        passes_on_def py_or_def)
  have "out_of ''s'' sample_routes = 9" "into ''d'' sample_routes = 7" by code_simp+
  then show ?thesis using routes_conserved [of sample_legs sample_routes "{}" False] flat s d by auto
qed

end
