(* ===== verification/Component_Claims.thy ===== *)
theory Component_Claims
  imports Component_Routes Arbitration
begin

text \<open>
  Compilation of a reviewed custody component into quantity claims
  (\<open>compile_component_quantity_claims\<close> of \<open>kassiber/core/custody_component_claims.py\<close>).
  A component and its economic terms are records of the keys the code reads; the nested
  \<open>evidence["residual_classification"]["classification"]\<close> is one optional field. The local
  dictionaries and lists of the loop are the record \<open>compile_state\<close>.
\<close>

section \<open>Components, terms and results\<close>

record economic_term =
  term_kind :: "string option"
  term_source_leg_id :: "string option"
  term_target_leg_id :: "string option"
  term_legacy_source_id :: "string option"
  term_review_kind :: "string option"
  term_tax_policy :: "string option"
  term_payout_asset :: "string option"
  term_payout_amount_msat :: "int option"
  term_payout_occurred_at :: "string option"
  term_payout_fiat_value_exact :: "string option"
  term_payout_external_id :: "string option"
  term_counterparty :: "string option"
  term_swap_fee_msat :: "int option"
  term_swap_fee_kind :: "string option"
  term_review_notes :: "string option"
  term_confidence_at_review :: "string option"
  term_review_source :: "string option"

record custody_component =
  comp_id :: "string option"
  comp_effective_state :: "string option"
  comp_legs :: "component_leg list"
  comp_component_type :: "string option"
  comp_evidence_kind :: "string option"
  comp_residual_classification :: "string option"
  comp_economic_terms :: "economic_term list"
  comp_allocations :: "component_allocation list"
  comp_conservation_mode :: "string option"
  comp_conversion_policy :: "string option"

record direct_payout =
  dp_id :: string
  dp_component_id :: string
  dp_out_transaction_id :: string
  dp_deleted_at :: "string option"
  dp_kind :: string
  dp_policy :: string
  dp_out_amount :: int
  dp_payout_asset :: "string option"
  dp_payout_amount :: int
  dp_payout_occurred_at :: "string option"
  dp_payout_fiat_value :: "string option"
  dp_payout_external_id :: "string option"
  dp_counterparty :: "string option"
  dp_swap_fee_msat :: "int option"
  dp_swap_fee_kind :: "string option"
  dp_notes :: "string option"
  dp_confidence_at_review :: "string option"
  dp_review_source :: "string option"

record conversion_pair =
  cp_pair_id :: string
  cp_component_id :: string
  cp_out_id :: string
  cp_in_id :: string
  cp_out_amount :: int
  cp_in_amount :: int
  cp_out_asset :: string
  cp_in_asset :: string
  cp_policy :: string
  cp_kind :: string
  cp_swap_fee_msat :: "int option"
  cp_swap_fee_kind :: "string option"
  cp_notes :: "string option"
  cp_confidence_at_review :: "string option"
  cp_review_source :: "string option"

record claim_compilation =
  cc_component_id :: string
  cc_claims :: "quantity_claim list"
  cc_suspense_msat :: int
  cc_conversion_pairs :: "conversion_pair list"
  cc_direct_payouts :: "direct_payout list"

text \<open>\<open>terms_by_edge.get(edge, {})\<close>: every field of the empty dictionary is absent.\<close>

definition no_term :: economic_term where
  "no_term =
     \<lparr>term_kind = None, term_source_leg_id = None, term_target_leg_id = None, term_legacy_source_id = None,
      term_review_kind = None, term_tax_policy = None, term_payout_asset = None,
      term_payout_amount_msat = None, term_payout_occurred_at = None, term_payout_fiat_value_exact = None,
      term_payout_external_id = None, term_counterparty = None, term_swap_fee_msat = None,
      term_swap_fee_kind = None, term_review_notes = None, term_confidence_at_review = None,
      term_review_source = None\<rparr>"

definition direct_payout_record ::
  "economic_term \<Rightarrow> component_leg \<Rightarrow> quantity_observation \<Rightarrow> string \<Rightarrow> int \<Rightarrow> int \<Rightarrow> direct_payout" where
  "direct_payout_record t sink source_ob component source_amount sink_amount =
     \<lparr>dp_id = str_of_opt (term_legacy_source_id t),
      dp_component_id = component,
      dp_out_transaction_id = anchor_transaction_id source_ob,
      dp_deleted_at = None,
      dp_kind = str_or_empty (py_or (term_review_kind t) (Some ''direct-swap-payout'')),
      dp_policy = str_or_empty (py_or (term_tax_policy t) (Some ''taxable'')),
      dp_out_amount = source_amount,
      dp_payout_asset = py_or (term_payout_asset t) (leg_asset sink),
      dp_payout_amount = (if int_or_0 (term_payout_amount_msat t) = 0 then sink_amount
                          else int_or_0 (term_payout_amount_msat t)),
      dp_payout_occurred_at = py_or (term_payout_occurred_at t) (leg_occurred_at sink),
      dp_payout_fiat_value = term_payout_fiat_value_exact t,
      dp_payout_external_id = term_payout_external_id t,
      dp_counterparty = term_counterparty t,
      dp_swap_fee_msat = term_swap_fee_msat t,
      dp_swap_fee_kind = term_swap_fee_kind t,
      dp_notes = term_review_notes t,
      dp_confidence_at_review = term_confidence_at_review t,
      dp_review_source = term_review_source t\<rparr>"

section \<open>What the component says about itself\<close>

text \<open>\<open>{str(leg["id"]): leg for leg in legs}\<close>: the last leg of an id wins.\<close>

definition legs_by_id :: "component_leg list \<Rightarrow> leg_map" where
  "legs_by_id legs = fold (\<lambda>leg d. AList.update (leg_id leg) leg d) legs []"

definition residual_prefix :: string where
  "residual_prefix = ''reviewed_residual:''"

definition has_prefix :: "string \<Rightarrow> string \<Rightarrow> bool" where
  "has_prefix p s \<longleftrightarrow> take (length p) s = p"

definition residual_classification :: "custody_component \<Rightarrow> leg_map \<Rightarrow> string" where
  "residual_classification component legs =
     (let reviewed = str_or_empty (comp_residual_classification component);
          is_guided_gap = (str_or_empty (comp_component_type component) = ''manual_bridge''
                           \<and> str_or_empty (comp_evidence_kind component) = ''custody_gap_review'');
          by_leg = remdups (concat (map (\<lambda>(_, leg).
            let notes = str_or_empty (leg_notes leg) in
            if is_guided_gap \<and> has_prefix residual_prefix notes
            then [drop (length residual_prefix) notes] else []) legs))
      in if reviewed = '''' \<and> length by_leg = 1 then hd by_leg else reviewed)"

definition quantity_transfer_kind :: "economic_term list \<Rightarrow> string option" where
  "quantity_transfer_kind terms =
     (let kinds = remdups (concat (map (\<lambda>t.
            if term_kind t = Some ''transaction_pair'' \<and> str_or_empty (term_review_kind t) \<noteq> ''''
            then [str_or_empty (term_review_kind t)] else []) terms))
      in if length kinds = 1 then Some (hd kinds) else None)"

definition finalized_retained :: "leg_map \<Rightarrow> economic_term list \<Rightarrow> string set" where
  "finalized_retained legs terms =
     fst ` set (filter (\<lambda>(_, leg). leg_role leg = ''retained'' \<and> leg_transaction leg = ''''
                  \<and> str_or_empty (leg_notes leg) = ''reviewed_residual:retained_custody'') legs)
     \<union> (str_or_empty \<circ> term_target_leg_id) ` set (filter (\<lambda>t. term_kind t = Some ''direct_swap_payout''
                  \<and> str_or_empty (term_target_leg_id t) \<noteq> '''') terms)"

definition terms_by_edge :: "economic_term list \<Rightarrow> (string \<times> string, economic_term) dict" where
  "terms_by_edge terms =
     fold (\<lambda>t d. AList.update (str_of_opt (term_source_leg_id t), str_of_opt (term_target_leg_id t)) t d) terms []"

text \<open>An allocation error of the shared allocation contract is reported under the code of this
  module; an \<open>AppError\<close> (which has no attribute \<open>message\<close>) and any other exception pass.\<close>

definition wrap_allocation_error :: "'a result \<Rightarrow> 'a result" where
  "wrap_allocation_error r =
     (case r of Inl (CustodyAllocationError _ message) \<Rightarrow> Inl (claim_compile_error message) | _ \<Rightarrow> r)"

definition component_routes :: "custody_component \<Rightarrow> leg_map \<Rightarrow> bool \<Rightarrow> component_allocation list result" where
  "component_routes component legs conversion =
     wrap_allocation_error
       (bind_res (infer_component_allocations (comp_allocations component) (comp_legs component)
                    (comp_conservation_mode component))
         (\<lambda>allocations. flatten_transactionless_routes legs allocations conversion
            (finalized_retained legs (comp_economic_terms component))))"

section \<open>Cursors\<close>

type_synonym observation_map = "(string, quantity_observation) dict"

definition observation_for :: "observation_map \<Rightarrow> string \<Rightarrow> quantity_observation result" where
  "observation_for by_transaction key =
     (case map_of by_transaction key of
        None \<Rightarrow> Inl (claim_compile_error ''component allocation references an unavailable observation'')
      | Some ob \<Rightarrow> Inr ob)"

fun conversion_totals ::
  "leg_map \<Rightarrow> observation_map \<Rightarrow> component_allocation list \<Rightarrow> (string, int) dict \<Rightarrow> (string, int) dict result" where
  "conversion_totals legs by_transaction [] d = Inr d"
| "conversion_totals legs by_transaction (a # as) d =
     (case map_of legs (str_of_opt (alloc_source_leg_id a)) of
        None \<Rightarrow> conversion_totals legs by_transaction as d
      | Some source \<Rightarrow>
          if leg_role source \<noteq> ''source'' \<or> leg_transaction source = ''''
          then conversion_totals legs by_transaction as d
          else bind_res (observation_for by_transaction (leg_transaction source)) (\<lambda>ob.
                 conversion_totals legs by_transaction as
                   (AList.update (quantity_hash ob)
                      (dict_get d (quantity_hash ob) 0 + alloc_source_amount a) d)))"

text \<open>A conversion owns the high end of each source it uses.\<close>

fun conversion_cursors ::
  "observation_map \<Rightarrow> (string \<times> int) list \<Rightarrow> (string, int) dict \<Rightarrow> (string, int) dict result" where
  "conversion_cursors by_transaction [] cursors = Inr cursors"
| "conversion_cursors by_transaction ((h, claimed) # rest) cursors =
     (case List.find (\<lambda>ob. quantity_hash ob = h) (map snd by_transaction) of
        None \<Rightarrow> Inl StopIteration
      | Some ob \<Rightarrow>
          if principal_msat ob < claimed then
            Inl (claim_compile_error ''component claims exceed observed source principal'')
          else conversion_cursors by_transaction rest (AList.update h (principal_msat ob - claimed) cursors))"

definition initial_cursors ::
  "leg_map \<Rightarrow> observation_map \<Rightarrow> bool \<Rightarrow> component_allocation list \<Rightarrow> (string, int) dict result" where
  "initial_cursors legs by_transaction conversion allocations =
     (if conversion then
        bind_res (conversion_totals legs by_transaction allocations [])
          (\<lambda>totals. conversion_cursors by_transaction totals [])
      else Inr [])"

section \<open>One allocation\<close>

record compile_context =
  ctx_component :: custody_component
  ctx_component_id :: string
  ctx_legs :: leg_map
  ctx_observations :: observation_map
  ctx_conversion :: bool
  ctx_terms :: "(string \<times> string, economic_term) dict"
  ctx_finalized :: "string set"
  ctx_residual :: string
  ctx_transfer_kind :: "string option"

record compile_state =
  cs_source_cursors :: "(string, int) dict"
  cs_target_cursors :: "(string, int) dict"
  cs_claims :: "quantity_claim list"
  cs_pairs :: "conversion_pair list"
  cs_payouts :: "direct_payout list"
  cs_suspense :: int

text \<open>The checks before a slice is cut; \<open>None\<close> is the loop's \<open>continue\<close>: nothing to claim, or a
  plain fee that the observation already proves.\<close>

definition claimable_source ::
  "compile_context \<Rightarrow> component_allocation
     \<Rightarrow> (component_leg \<times> component_leg \<times> quantity_observation) option result" where
  "claimable_source ctx a =
     (case (map_of (ctx_legs ctx) (str_of_opt (alloc_source_leg_id a)),
            map_of (ctx_legs ctx) (str_of_opt (alloc_sink_leg_id a))) of
        (Some source, Some sink) \<Rightarrow>
          if leg_role source \<noteq> ''source'' then
            Inl (claim_compile_error ''component allocation endpoints are invalid'')
          else if alloc_source_amount a \<le> 0 \<and> alloc_sink_amount a \<le> 0 then Inr None
          else if \<not> ctx_conversion ctx \<and> alloc_source_amount a \<noteq> alloc_sink_amount a then
            Inl (claim_compile_error ''quantity claim allocation does not conserve exact msat'')
          else if leg_transaction source = '''' then
            Inl (claim_compile_error ''flattened component source is not observed'')
          else bind_res (observation_for (ctx_observations ctx) (leg_transaction source)) (\<lambda>ob.
            if direction ob \<noteq> ''outbound'' then
              Inl (claim_compile_error ''quantity claim source observation is not outbound'')
            else if \<not> ctx_conversion ctx \<and> leg_role sink = ''fee''
                    \<and> str_or_empty (leg_notes sink) \<noteq> ''reviewed_residual:network_fee'' then
              (if alloc_source_amount a \<noteq> fee_msat ob then
                 Inl (claim_compile_error ''component fee allocation does not match the observed fee'')
               else Inr None)
            else Inr (Some (source, sink, ob)))
      | _ \<Rightarrow> Inl (claim_compile_error ''component allocation endpoints are invalid''))"

definition advance_cursor ::
  "string \<Rightarrow> quantity_observation \<Rightarrow> int \<Rightarrow> (string, int) dict \<Rightarrow> (int \<times> int \<times> (string, int) dict) result" where
  "advance_cursor side ob amount cursors =
     (let start = dict_get cursors (quantity_hash ob) 0; stop = start + amount
      in if principal_msat ob < stop then
           Inl (claim_compile_error (''component claims exceed observed '' @ side @ '' principal''))
         else Inr (start, stop, AList.update (quantity_hash ob) stop cursors))"

text \<open>State, reason and target of a claim, with the loop state after it.\<close>

record claim_outcome =
  co_state :: string
  co_reason :: string
  co_target :: "quantity_slice option"
  co_target_observation :: "quantity_observation option"

definition edge_term :: "compile_context \<Rightarrow> component_leg \<Rightarrow> component_leg \<Rightarrow> economic_term" where
  "edge_term ctx source sink = dict_get (ctx_terms ctx) (leg_id source, leg_id sink) no_term"

definition unobserved_target ::
  "compile_context \<Rightarrow> component_allocation \<Rightarrow> component_leg \<Rightarrow> component_leg \<Rightarrow> quantity_observation
     \<Rightarrow> compile_state \<Rightarrow> (claim_outcome \<times> compile_state) result" where
  "unobserved_target ctx a source sink source_ob cs =
     (let t = edge_term ctx source sink in
      if ctx_conversion ctx \<and> term_kind t = Some ''direct_swap_payout'' then
        Inr (\<lparr>co_state = EXTERNAL_CONFIRMED, co_reason = ''reviewed_direct_payout_source'',
              co_target = None, co_target_observation = None\<rparr>,
             cs\<lparr>cs_payouts := cs_payouts cs @ [direct_payout_record t sink source_ob (ctx_component_id ctx)
                                (alloc_source_amount a) (alloc_sink_amount a)]\<rparr>)
      else if leg_id sink \<notin> ctx_finalized ctx then
        Inl (claim_compile_error ''flattened component target is not observed'')
      else Inr (\<lparr>co_state = INTERNAL_REVIEWED, co_reason = ''reviewed_retained_custody'',
                 co_target = None, co_target_observation = None\<rparr>, cs))"

definition conversion_pair_record ::
  "compile_context \<Rightarrow> nat \<Rightarrow> component_allocation \<Rightarrow> economic_term \<Rightarrow> quantity_observation
     \<Rightarrow> quantity_observation \<Rightarrow> conversion_pair" where
  "conversion_pair_record ctx index a t source_ob target_ob =
     (let component = ctx_component ctx;
          allocation_key = str_or_empty (py_or (alloc_id a) (Some (nat_str index))) in
      \<lparr>cp_pair_id = str_or_empty (py_or (term_legacy_source_id t)
         (Some (''component:'' @ ctx_component_id ctx @ '':conversion:'' @ allocation_key))),
       cp_component_id = ctx_component_id ctx,
       cp_out_id = anchor_transaction_id source_ob,
       cp_in_id = anchor_transaction_id target_ob,
       cp_out_amount = alloc_source_amount a,
       cp_in_amount = alloc_sink_amount a,
       cp_out_asset = asset source_ob,
       cp_in_asset = asset target_ob,
       cp_policy = str_or_empty (py_or (term_tax_policy t)
                     (py_or (comp_conversion_policy component) (Some ''taxable''))),
       cp_kind = str_or_empty (py_or (term_review_kind t)
                   (py_or (comp_component_type component) (Some ''swap''))),
       cp_swap_fee_msat = term_swap_fee_msat t,
       cp_swap_fee_kind = term_swap_fee_kind t,
       cp_notes = term_review_notes t,
       cp_confidence_at_review = term_confidence_at_review t,
       cp_review_source = term_review_source t\<rparr>)"

definition observed_target ::
  "compile_context \<Rightarrow> nat \<Rightarrow> component_allocation \<Rightarrow> component_leg \<Rightarrow> component_leg \<Rightarrow> quantity_observation
     \<Rightarrow> compile_state \<Rightarrow> (claim_outcome \<times> compile_state) result" where
  "observed_target ctx index a source sink source_ob cs =
     bind_res (observation_for (ctx_observations ctx) (leg_transaction sink)) (\<lambda>target_ob.
       if direction target_ob \<noteq> ''inbound'' then
         Inl (claim_compile_error ''quantity claim target observation is not inbound'')
       else bind_res (advance_cursor ''target'' target_ob (alloc_sink_amount a) (cs_target_cursors cs))
         (\<lambda>(start, stop, cursors).
            let cs' = cs\<lparr>cs_target_cursors := cursors\<rparr> in
            if ctx_conversion ctx
               \<and> \<not> (asset source_ob = asset target_ob \<and> alloc_source_amount a = alloc_sink_amount a)
            then Inr (\<lparr>co_state = EXTERNAL_CONFIRMED, co_reason = ''reviewed_taxable_conversion_source'',
                       co_target = None, co_target_observation = Some target_ob\<rparr>,
                      cs'\<lparr>cs_pairs := cs_pairs cs' @ [conversion_pair_record ctx index a
                             (edge_term ctx source sink) source_ob target_ob]\<rparr>)
            else bind_res (make_slice (quantity_hash target_ob) start stop) (\<lambda>target.
                   Inr (\<lparr>co_state = INTERNAL_REVIEWED,
                         co_reason = (if ctx_conversion ctx then ''reviewed_native_conversion_residual''
                                      else ''reviewed_custody_component''),
                         co_target = Some target, co_target_observation = Some target_ob\<rparr>, cs'))))"

definition claim_outcome_for ::
  "compile_context \<Rightarrow> nat \<Rightarrow> component_allocation \<Rightarrow> component_leg \<Rightarrow> component_leg \<Rightarrow> quantity_observation
     \<Rightarrow> compile_state \<Rightarrow> (claim_outcome \<times> compile_state) result" where
  "claim_outcome_for ctx index a source sink source_ob cs =
     (if leg_role sink = ''destination'' \<or> leg_role sink = ''retained'' then
        (if leg_transaction sink = '''' then unobserved_target ctx a source sink source_ob cs
         else observed_target ctx index a source sink source_ob cs)
      else if leg_role sink = ''fee'' then
        (if alloc_source_amount a \<noteq> alloc_sink_amount a then
           Inl (claim_compile_error ''fee allocation must conserve its source quantity'')
         else Inr (\<lparr>co_state = EXTERNAL_CONFIRMED,
                    co_reason = (if ctx_conversion ctx then ''reviewed_conversion_fee''
                                 else ''reviewed_network_fee''),
                    co_target = None, co_target_observation = None\<rparr>, cs))
      else if leg_role sink = ''suspense'' then
        Inr (\<lparr>co_state = CUSTODY_SUSPENSE, co_reason = ''reviewed_residual_suspense'',
              co_target = None, co_target_observation = None\<rparr>,
             cs\<lparr>cs_suspense := cs_suspense cs + alloc_source_amount a\<rparr>)
      else if leg_role sink = ''external'' then
        (let t = edge_term ctx source sink;
             payout = (term_kind t = Some ''direct_swap_payout'')
         in Inr (\<lparr>co_state = EXTERNAL_CONFIRMED,
                  co_reason = (if payout then ''reviewed_direct_payout_source''
                               else ''reviewed_external_component_allocation''),
                  co_target = None, co_target_observation = None\<rparr>,
                 if payout
                 then cs\<lparr>cs_payouts := cs_payouts cs @ [direct_payout_record t sink source_ob
                           (ctx_component_id ctx) (alloc_source_amount a) (alloc_sink_amount a)]\<rparr>
                 else cs))
      else Inl (claim_compile_error ''component sink role cannot emit a quantity claim''))"

definition claim_destination_kind :: "compile_context \<Rightarrow> component_leg \<Rightarrow> claim_outcome \<Rightarrow> string option" where
  "claim_destination_kind ctx sink co =
     (if leg_role sink = ''fee'' then Some ''fee''
      else if leg_role sink = ''external''
              \<or> ctx_conversion ctx \<and> (leg_role sink = ''destination'' \<or> leg_role sink = ''retained'')
                \<and> co_target co = None
      then Some ''external''
      else if leg_role sink = ''retained'' \<and> co_target co = None then Some ''retained_custody''
      else None)"

definition claim_external_subtype :: "compile_context \<Rightarrow> component_leg \<Rightarrow> string option" where
  "claim_external_subtype ctx sink =
     (if leg_role sink = ''external'' \<and> has_prefix residual_prefix (str_or_empty (leg_notes sink))
      then map_of [(''external_payment'', ''payment''), (''external_disposal'', ''disposal''),
                   (''external_gift'', ''gift''), (''external_loss'', ''lost'')] (ctx_residual ctx)
      else None)"

definition compiled_claim ::
  "compile_context \<Rightarrow> nat \<Rightarrow> component_allocation \<Rightarrow> component_leg \<Rightarrow> quantity_observation \<Rightarrow> quantity_slice
     \<Rightarrow> claim_outcome \<Rightarrow> quantity_claim" where
  "compiled_claim ctx index a sink source_ob source_slice co =
     \<lparr>claim_id = ''component:'' @ ctx_component_id ctx @ '':allocation:''
                 @ str_or_empty (py_or (alloc_id a) (Some (nat_str index))),
      claim_source = source_slice,
      claim_state = co_state co,
      claim_priority = REVIEWED_COMPONENT,
      claim_reason = co_reason co,
      claim_target = co_target co,
      atomic_bundle_id = Some (''component:'' @ ctx_component_id ctx),
      destination_kind = claim_destination_kind ctx sink co,
      external_economic_subtype = claim_external_subtype ctx sink,
      transfer_kind = (if ctx_conversion ctx
        then Some (str_or_empty (py_or (comp_component_type (ctx_component ctx)) (Some ''swap'')))
        else ctx_transfer_kind ctx),
      transfer_policy = (if ctx_conversion ctx
        then Some (str_or_empty (py_or (comp_conversion_policy (ctx_component ctx)) (Some ''taxable'')))
        else None),
      claim_component_id = Some (ctx_component_id ctx),
      allow_cross_rail = (case (co_target co, co_target_observation co) of
          (Some _, Some target_ob) \<Rightarrow>
            qd_rail (domain_from_observation source_ob) \<noteq> qd_rail (domain_from_observation target_ob)
        | _ \<Rightarrow> False)\<rparr>"

definition compile_allocation ::
  "compile_context \<Rightarrow> nat \<times> component_allocation \<Rightarrow> compile_state \<Rightarrow> compile_state result" where
  "compile_allocation ctx = (\<lambda>(index, a) cs.
     bind_res (claimable_source ctx a) (\<lambda>found.
       case found of
         None \<Rightarrow> Inr cs
       | Some (source, sink, ob) \<Rightarrow>
           bind_res (advance_cursor ''source'' ob (alloc_source_amount a) (cs_source_cursors cs))
             (\<lambda>(start, stop, cursors).
           bind_res (make_slice (quantity_hash ob) start stop) (\<lambda>source_slice.
           bind_res (claim_outcome_for ctx index a source sink ob (cs\<lparr>cs_source_cursors := cursors\<rparr>))
             (\<lambda>(co, cs').
           bind_res (make_claim (compiled_claim ctx index a sink ob source_slice co)) (\<lambda>claim.
             Inr (cs'\<lparr>cs_claims := cs_claims cs' @ [claim]\<rparr>)))))))"

fun compile_allocations ::
  "compile_context \<Rightarrow> (nat \<times> component_allocation) list \<Rightarrow> compile_state \<Rightarrow> compile_state result" where
  "compile_allocations ctx [] cs = Inr cs"
| "compile_allocations ctx (ia # rest) cs =
     bind_res (compile_allocation ctx ia cs) (compile_allocations ctx rest)"

section \<open>The compiler\<close>

text \<open>Outside conversions the claims must cover every source principal the component names.\<close>

definition uncovered_source :: "compile_context \<Rightarrow> (string, int) dict \<Rightarrow> string \<times> quantity_observation \<Rightarrow> bool" where
  "uncovered_source ctx cursors = (\<lambda>(tx, ob).
     direction ob = ''outbound''
     \<and> (\<exists>(_, leg) \<in> set (ctx_legs ctx). leg_transaction leg = tx \<and> leg_role leg = ''source'')
     \<and> dict_get cursors (quantity_hash ob) 0 \<noteq> principal_msat ob)"

definition is_conversion :: "custody_component \<Rightarrow> bool" where
  "is_conversion component \<longleftrightarrow>
     str_or_empty (py_or (comp_conservation_mode component) (Some ''quantity'')) = ''conversion''"

definition component_context :: "custody_component \<Rightarrow> string \<Rightarrow> observation_map \<Rightarrow> compile_context" where
  "component_context component cid by_transaction =
     (let legs = legs_by_id (comp_legs component) in
      \<lparr>ctx_component = component, ctx_component_id = cid, ctx_legs = legs,
       ctx_observations = by_transaction,
       ctx_conversion = is_conversion component,
       ctx_terms = terms_by_edge (comp_economic_terms component),
       ctx_finalized = finalized_retained legs (comp_economic_terms component),
       ctx_residual = residual_classification component legs,
       ctx_transfer_kind = quantity_transfer_kind (comp_economic_terms component)\<rparr>)"

definition compile_component_quantity_claims ::
  "custody_component \<Rightarrow> observation_map \<Rightarrow> claim_compilation result" where
  "compile_component_quantity_claims component by_transaction =
     (let cid = str_or_empty (comp_id component);
          ctx = component_context component cid by_transaction in
      if cid = '''' then Inl (claim_compile_error ''component id is required'')
      else if comp_effective_state component \<noteq> Some ''active'' then
        Inl (claim_compile_error ''only an effective active component can emit quantity claims'')
      else if comp_allocations component = []
              \<and> (\<exists>(_, leg) \<in> set (ctx_legs ctx). leg_role leg = ''suspense'' \<and> 0 < int_or_0 (leg_amount_msat leg)) then
        Inl (claim_compile_error ''suspense components require explicit allocations'')
      else bind_res (component_routes component (ctx_legs ctx) (ctx_conversion ctx)) (\<lambda>allocations.
           bind_res (initial_cursors (ctx_legs ctx) by_transaction (ctx_conversion ctx) allocations) (\<lambda>cursors.
           bind_res (compile_allocations ctx (enumerate 0 allocations)
                      \<lparr>cs_source_cursors = cursors, cs_target_cursors = [], cs_claims = [], cs_pairs = [],
                       cs_payouts = [], cs_suspense = 0\<rparr>) (\<lambda>cs.
             if \<not> ctx_conversion ctx \<and> (\<exists>entry \<in> set by_transaction. uncovered_source ctx (cs_source_cursors cs) entry)
             then Inl (claim_compile_error ''component did not claim the complete observed source principal'')
             else Inr \<lparr>cc_component_id = cid, cc_claims = cs_claims cs, cc_suspense_msat = cs_suspense cs,
                       cc_conversion_pairs = cs_pairs cs, cc_direct_payouts = cs_payouts cs\<rparr>))))"

section \<open>What the loop maintains\<close>

text \<open>Consecutive ranges from one position to another.\<close>

fun chain :: "int \<Rightarrow> (int \<times> int) list \<Rightarrow> int \<Rightarrow> bool" where
  "chain s [] e \<longleftrightarrow> s = e"
| "chain s ((a, b) # rest) e \<longleftrightarrow> a = s \<and> a < b \<and> chain b rest e"

lemma chain_snoc: "chain s xs m \<Longrightarrow> m < e \<Longrightarrow> chain s (xs @ [(m, e)]) e"
  by (induction s xs m rule: chain.induct) auto

lemma chain_le: "chain s xs e \<Longrightarrow> s \<le> e"
  by (induction s xs e rule: chain.induct) auto

definition slice_range :: "quantity_slice \<Rightarrow> int \<times> int" where
  "slice_range s = (start_msat s, end_msat s)"

definition source_ranges :: "string \<Rightarrow> quantity_claim list \<Rightarrow> (int \<times> int) list" where
  "source_ranges h cs = map slice_range (filter (\<lambda>s. observation_hash s = h) (map claim_source cs))"

definition target_ranges :: "string \<Rightarrow> quantity_claim list \<Rightarrow> (int \<times> int) list" where
  "target_ranges h cs =
     map slice_range (filter (\<lambda>s. observation_hash s = h)
       (concat (map (\<lambda>c. case claim_target c of None \<Rightarrow> [] | Some t \<Rightarrow> [t]) cs)))"

definition suspense_total :: "quantity_claim list \<Rightarrow> int" where
  "suspense_total cs =
     (\<Sum>c \<leftarrow> cs. if claim_state c = CUSTODY_SUSPENSE then slice_amount (claim_source c) else 0)"

lemma ranges_simps [simp]:
  "source_ranges h [] = []" "target_ranges h [] = []" "suspense_total [] = 0"
  "source_ranges h (cs @ [c]) = source_ranges h cs
     @ (if observation_hash (claim_source c) = h then [slice_range (claim_source c)] else [])"
  "target_ranges h (cs @ [c]) = target_ranges h cs
     @ (case claim_target c of None \<Rightarrow> [] | Some t \<Rightarrow> if observation_hash t = h then [slice_range t] else [])"
  "suspense_total (cs @ [c]) = suspense_total cs
     + (if claim_state c = CUSTODY_SUSPENSE then slice_amount (claim_source c) else 0)"
  by (simp_all add: source_ranges_def target_ranges_def suspense_total_def split: option.splits)

text \<open>A slice inside the principal of an observation of the given direction.\<close>

definition observed_slice :: "observation_map \<Rightarrow> string \<Rightarrow> quantity_slice \<Rightarrow> quantity_observation \<Rightarrow> bool" where
  "observed_slice by_transaction expected s ob \<longleftrightarrow>
     ob \<in> snd ` set by_transaction \<and> observation_hash s = quantity_hash ob \<and> direction ob = expected
     \<and> end_msat s \<le> principal_msat ob"

definition grounded_claim :: "observation_map \<Rightarrow> string \<Rightarrow> quantity_claim \<Rightarrow> bool" where
  "grounded_claim by_transaction cid c \<longleftrightarrow>
     valid_claim c \<and> claim_priority c = REVIEWED_COMPONENT \<and> claim_component_id c = Some cid
     \<and> effective_bundle_id c = Some (''component:'' @ cid)
     \<and> (\<exists>ob. observed_slice by_transaction ''outbound'' (claim_source c) ob
          \<and> (\<forall>t. claim_target c = Some t \<longrightarrow>
               (\<exists>target_ob. observed_slice by_transaction ''inbound'' t target_ob
                  \<and> allow_cross_rail c = (qd_rail (domain_from_observation ob)
                                          \<noteq> qd_rail (domain_from_observation target_ob)))))"

definition compile_inv :: "compile_context \<Rightarrow> (string, int) dict \<Rightarrow> compile_state \<Rightarrow> bool" where
  "compile_inv ctx base cs \<longleftrightarrow>
     (\<forall>c \<in> set (cs_claims cs). grounded_claim (ctx_observations ctx) (ctx_component_id ctx) c)
     \<and> (\<forall>h. chain (dict_get base h 0) (source_ranges h (cs_claims cs)) (dict_get (cs_source_cursors cs) h 0))
     \<and> (\<not> ctx_conversion ctx \<longrightarrow>
          (\<forall>h. chain 0 (target_ranges h (cs_claims cs)) (dict_get (cs_target_cursors cs) h 0)))
     \<and> cs_suspense cs = suspense_total (cs_claims cs)"

lemma observation_for_Inr:
  "observation_for by_transaction key = Inr ob \<Longrightarrow> ob \<in> snd ` set by_transaction"
  by (force simp: observation_for_def split: option.splits dest: map_of_SomeD)

lemma claimable_source_Inr:
  "claimable_source ctx a = Inr (Some (source, sink, ob)) \<Longrightarrow>
     ob \<in> snd ` set (ctx_observations ctx) \<and> direction ob = ''outbound''"
  using observation_for_Inr
  by (fastforce simp: claimable_source_def result_simps split: option.splits if_splits)

lemma advance_cursor_Inr:
  "advance_cursor side ob amount cursors = Inr (start, stop, cursors') \<Longrightarrow>
     start = dict_get cursors (quantity_hash ob) 0 \<and> stop = start + amount \<and> stop \<le> principal_msat ob
     \<and> cursors' = AList.update (quantity_hash ob) stop cursors"
  by (auto simp: advance_cursor_def Let_def split: if_splits)

text \<open>What the outcome of one allocation adds to the state.\<close>

definition outcome_ok :: "compile_context \<Rightarrow> component_allocation \<Rightarrow> claim_outcome \<Rightarrow> compile_state \<Rightarrow> compile_state \<Rightarrow> bool" where
  "outcome_ok ctx a co cs cs' \<longleftrightarrow>
     cs_claims cs' = cs_claims cs \<and> cs_source_cursors cs' = cs_source_cursors cs
     \<and> cs_suspense cs' = cs_suspense cs + (if co_state co = CUSTODY_SUSPENSE then alloc_source_amount a else 0)
     \<and> (case co_target co of
          None \<Rightarrow> ctx_conversion ctx \<or> cs_target_cursors cs' = cs_target_cursors cs
        | Some t \<Rightarrow> \<exists>target_ob. co_target_observation co = Some target_ob
            \<and> observed_slice (ctx_observations ctx) ''inbound'' t target_ob
            \<and> start_msat t = dict_get (cs_target_cursors cs) (quantity_hash target_ob) 0
            \<and> valid_slice t
            \<and> cs_target_cursors cs' = AList.update (quantity_hash target_ob) (end_msat t) (cs_target_cursors cs))"

lemma observed_target_ok:
  assumes "observed_target ctx index a source sink ob cs = Inr (co, cs')"
  shows "outcome_ok ctx a co cs cs'"
proof -
  obtain target_ob where t: "observation_for (ctx_observations ctx) (leg_transaction sink) = Inr target_ob"
    "direction target_ob = ''inbound''"
    using assms by (auto simp: observed_target_def result_simps split: if_splits)
  obtain start stop cursors where adv:
    "advance_cursor ''target'' target_ob (alloc_sink_amount a) (cs_target_cursors cs) = Inr (start, stop, cursors)"
    using assms t
    by (cases "advance_cursor ''target'' target_ob (alloc_sink_amount a) (cs_target_cursors cs)")
      (auto simp: observed_target_def)
  note adv' = advance_cursor_Inr [OF adv]
  have slice: "observed_slice (ctx_observations ctx) ''inbound'' s target_ob"
    if "s = \<lparr>observation_hash = quantity_hash target_ob, start_msat = start, end_msat = stop\<rparr>" for s
    using that adv' t(2) observation_for_Inr [OF t(1)] by (simp add: observed_slice_def)
  show ?thesis using assms t adv adv' slice
    by (auto simp: observed_target_def outcome_ok_def result_simps valid_slice_def Let_def split: if_splits)
qed

lemma claim_outcome_ok:
  assumes "claim_outcome_for ctx index a source sink ob cs = Inr (co, cs')"
  shows "outcome_ok ctx a co cs cs'"
  using assms observed_target_ok [of ctx index a source sink ob cs co cs']
  unfolding claim_outcome_for_def
  by (auto simp: outcome_ok_def unobserved_target_def Let_def split: if_splits)

lemma compiled_claim_fields [simp]:
  "claim_source (compiled_claim ctx i a sink ob sl co) = sl"
  "claim_target (compiled_claim ctx i a sink ob sl co) = co_target co"
  "claim_state (compiled_claim ctx i a sink ob sl co) = co_state co"
  "claim_priority (compiled_claim ctx i a sink ob sl co) = REVIEWED_COMPONENT"
  "claim_component_id (compiled_claim ctx i a sink ob sl co) = Some (ctx_component_id ctx)"
  "effective_bundle_id (compiled_claim ctx i a sink ob sl co) = Some (''component:'' @ ctx_component_id ctx)"
  by (simp_all add: compiled_claim_def effective_bundle_id_def)

lemma compile_allocation_inv:
  assumes inv: "compile_inv ctx base cs" and step: "compile_allocation ctx (index, a) cs = Inr cs'"
  shows "compile_inv ctx base cs'"
proof (cases "claimable_source ctx a = Inr None")
  case True
  then show ?thesis using assms by (simp add: compile_allocation_def)
next
  case False
  then obtain source sink ob where found: "claimable_source ctx a = Inr (Some (source, sink, ob))"
    using step by (cases "claimable_source ctx a") (auto simp: compile_allocation_def)
  note ob = claimable_source_Inr [OF found]
  obtain start stop cursors where adv:
    "advance_cursor ''source'' ob (alloc_source_amount a) (cs_source_cursors cs) = Inr (start, stop, cursors)"
    using step found
    by (cases "advance_cursor ''source'' ob (alloc_source_amount a) (cs_source_cursors cs)")
      (auto simp: compile_allocation_def)
  note adv' = advance_cursor_Inr [OF adv]
  obtain sl where sl: "make_slice (quantity_hash ob) start stop = Inr sl"
    using step found adv by (cases "make_slice (quantity_hash ob) start stop") (auto simp: compile_allocation_def)
  note sl' = sl [unfolded make_slice_Inr]
  obtain co cs1 where out:
    "claim_outcome_for ctx index a source sink ob (cs\<lparr>cs_source_cursors := cursors\<rparr>) = Inr (co, cs1)"
    using step found adv sl
    by (cases "claim_outcome_for ctx index a source sink ob (cs\<lparr>cs_source_cursors := cursors\<rparr>)")
      (auto simp: compile_allocation_def)
  note co = claim_outcome_ok [OF out, unfolded outcome_ok_def]
  let ?c = "compiled_claim ctx index a sink ob sl co"
  have mk: "make_claim ?c = Inr ?c" and cs': "cs' = cs1\<lparr>cs_claims := cs_claims cs1 @ [?c]\<rparr>"
    using step found adv sl out make_claim_Inr [of ?c]
    by (cases "make_claim ?c"; auto simp: compile_allocation_def)+
  have claims: "cs_claims cs' = cs_claims cs @ [?c]" using co by (simp add: cs')
  have grounded: "grounded_claim (ctx_observations ctx) (ctx_component_id ctx) ?c"
  proof -
    have "valid_claim ?c" using mk sl' co by (auto simp: valid_claim_def valid_slice_def split: option.splits)
    moreover have "observed_slice (ctx_observations ctx) ''outbound'' sl ob"
      using ob adv' sl' by (simp add: observed_slice_def)
    moreover have "\<exists>target_ob. observed_slice (ctx_observations ctx) ''inbound'' t target_ob
        \<and> allow_cross_rail ?c = (qd_rail (domain_from_observation ob) \<noteq> qd_rail (domain_from_observation target_ob))"
      if "co_target co = Some t" for t
      using co that by (auto simp: compiled_claim_def)
    ultimately show ?thesis
      unfolding grounded_claim_def compiled_claim_fields by blast
  qed
  have sources: "chain (dict_get base h 0) (source_ranges h (cs_claims cs')) (dict_get (cs_source_cursors cs') h 0)" for h
  proof -
    have "chain (dict_get base h 0) (source_ranges h (cs_claims cs)) (dict_get (cs_source_cursors cs) h 0)"
      using inv by (simp add: compile_inv_def)
    moreover have "cs_source_cursors cs' = AList.update (quantity_hash ob) stop (cs_source_cursors cs)"
      using co adv' by (simp add: cs')
    ultimately show ?thesis
      using sl' adv' by (auto simp: claims slice_range_def dict_get_update intro: chain_snoc)
  qed
  have targets: "chain 0 (target_ranges h (cs_claims cs')) (dict_get (cs_target_cursors cs') h 0)"
    if "\<not> ctx_conversion ctx" for h
  proof -
    have prev: "chain 0 (target_ranges h (cs_claims cs)) (dict_get (cs_target_cursors cs) h 0)"
      using inv that by (simp add: compile_inv_def)
    show ?thesis
    proof (cases "co_target co")
      case None
      then show ?thesis using prev co that by (simp add: claims cs')
    next
      case (Some t)
      then obtain target_ob where t: "observed_slice (ctx_observations ctx) ''inbound'' t target_ob"
        "start_msat t = dict_get (cs_target_cursors cs) (quantity_hash target_ob) 0" "valid_slice t"
        "cs_target_cursors cs1 = AList.update (quantity_hash target_ob) (end_msat t) (cs_target_cursors cs)"
        using co by auto
      have "observation_hash t = quantity_hash target_ob" using t(1) by (simp add: observed_slice_def)
      then show ?thesis using prev Some t(2-4) conjunct1 [OF co]
        by (auto simp: claims cs' slice_range_def dict_get_update valid_slice_def intro: chain_snoc)
    qed
  qed
  have "cs_suspense cs' = suspense_total (cs_claims cs')"
    using inv co sl' adv' by (auto simp: claims cs' compile_inv_def slice_amount_def)
  then show ?thesis
    using inv grounded sources targets by (auto simp: compile_inv_def claims)
qed

lemma compile_allocations_inv:
  "compile_inv ctx base cs \<Longrightarrow> compile_allocations ctx ias cs = Inr cs' \<Longrightarrow> compile_inv ctx base cs'"
proof (induction ias arbitrary: cs)
  case (Cons ia ias)
  then obtain cs1 where "compile_allocation ctx ia cs = Inr cs1" "compile_allocations ctx ias cs1 = Inr cs'"
    by (auto simp: result_simps)
  then show ?case using Cons compile_allocation_inv [of ctx base cs] by (cases ia) blast
qed simp

section \<open>The compiled bundle\<close>

lemma component_context_fields [simp]:
  "ctx_observations (component_context component cid m) = m"
  "ctx_component_id (component_context component cid m) = cid"
  "ctx_conversion (component_context component cid m) = is_conversion component"
  "ctx_legs (component_context component cid m) = legs_by_id (comp_legs component)"
  by (simp_all add: component_context_def Let_def)

lemma compile_component_Inr:
  assumes "compile_component_quantity_claims component by_transaction = Inr cc"
  defines "ctx \<equiv> component_context component (cc_component_id cc) by_transaction"
  obtains base cs where "compile_inv ctx base cs" "is_conversion component \<or> base = []"
    "cc_claims cc = cs_claims cs" "cc_suspense_msat cc = cs_suspense cs"
    "is_conversion component \<or> \<not> (\<exists>entry \<in> set by_transaction. uncovered_source ctx (cs_source_cursors cs) entry)"
proof -
  let ?cid = "str_or_empty (comp_id component)"
  let ?ctx = "component_context component ?cid by_transaction"
  obtain allocations cursors cs where
    init: "initial_cursors (ctx_legs ?ctx) by_transaction (ctx_conversion ?ctx) allocations = Inr cursors" and
    loop: "compile_allocations ?ctx (enumerate 0 allocations)
             \<lparr>cs_source_cursors = cursors, cs_target_cursors = [], cs_claims = [], cs_pairs = [],
              cs_payouts = [], cs_suspense = 0\<rparr> = Inr cs" and
    cover: "ctx_conversion ?ctx \<or> \<not> (\<exists>entry \<in> set by_transaction. uncovered_source ?ctx (cs_source_cursors cs) entry)" and
    cc: "cc = \<lparr>cc_component_id = ?cid, cc_claims = cs_claims cs, cc_suspense_msat = cs_suspense cs,
               cc_conversion_pairs = cs_pairs cs, cc_direct_payouts = cs_payouts cs\<rparr>"
    using assms(1) unfolding compile_component_quantity_claims_def Let_def
    by (auto simp: result_simps split: if_splits)
  have ctx: "ctx = ?ctx" "ctx_conversion ?ctx = is_conversion component"
    by (simp_all add: ctx_def cc)
  have "compile_inv ?ctx cursors \<lparr>cs_source_cursors = cursors, cs_target_cursors = [], cs_claims = [],
      cs_pairs = [], cs_payouts = [], cs_suspense = 0\<rparr>"
    by (simp add: compile_inv_def)
  from compile_allocations_inv [OF this loop] have "compile_inv ctx cursors cs" by (simp add: ctx)
  moreover have "is_conversion component \<or> cursors = []" using init by (auto simp: initial_cursors_def ctx split: if_splits)
  ultimately show ?thesis using that cover ctx by (simp add: cc)
qed

lemma grounded_no_source_reason:
  assumes "grounded_claim by_transaction cid c" and "index_observations (map snd by_transaction) [] = Inr by_hash"
  shows "claim_source_reasons by_hash c = []"
    "claim_target_reasons by_hash c = [] \<or> claim_target_reasons by_hash c = [''claim_domain_incompatible'']"
proof -
  have by_hash: "map_of by_hash (quantity_hash ob) = Some ob" if "ob \<in> snd ` set by_transaction" for ob
  proof -
    have "distinct (map fst by_hash)" "(quantity_hash ob, ob) \<in> set by_hash"
      using assms(2) that by (auto simp: index_observations_Inr comp_def)
    then show ?thesis by simp
  qed
  obtain ob where ob: "observed_slice by_transaction ''outbound'' (claim_source c) ob"
    and t: "\<And>t. claim_target c = Some t \<Longrightarrow> \<exists>target_ob. observed_slice by_transaction ''inbound'' t target_ob"
    using assms(1) unfolding grounded_claim_def by blast
  have source: "map_of by_hash (observation_hash (claim_source c)) = Some ob"
    using ob by_hash by (simp add: observed_slice_def)
  then show "claim_source_reasons by_hash c = []"
    using ob by (simp add: claim_source_reasons_def observed_slice_def)
  show "claim_target_reasons by_hash c = [] \<or> claim_target_reasons by_hash c = [''claim_domain_incompatible'']"
  proof (cases "claim_target c")
    case None
    then show ?thesis by (simp add: claim_target_reasons_def)
  next
    case (Some s)
    then obtain target_ob where s: "observed_slice by_transaction ''inbound'' s target_ob" using t by blast
    then have "map_of by_hash (observation_hash s) = Some target_ob" using by_hash by (simp add: observed_slice_def)
    then show ?thesis using Some s source by (simp add: claim_target_reasons_def observed_slice_def)
  qed
qed

section \<open>Properties\<close>

text \<open>
  C8: a compiled component is sound. Each claim is a well-formed claim of the component's atomic
  bundle, on a slice inside the principal of an outbound observation, with a target inside the
  principal of an inbound one. Per observation the source slices follow one another without
  gap or overlap; outside conversions they start at zero, the targets do too, and they cover
  the whole principal of every outbound observation that a source leg names. The reported
  suspense is what the suspense claims hold.
\<close>

theorem compiled_claims_sound:
  assumes "compile_component_quantity_claims component by_transaction = Inr cc"
  shows "(\<forall>c \<in> set (cc_claims cc). grounded_claim by_transaction (cc_component_id cc) c)
    \<and> (\<forall>h. \<exists>s e. chain s (source_ranges h (cc_claims cc)) e \<and> (is_conversion component \<or> s = 0))
    \<and> (is_conversion component \<or> (\<forall>h. \<exists>e. chain 0 (target_ranges h (cc_claims cc)) e))
    \<and> (is_conversion component \<or> (\<forall>(tx, ob) \<in> set by_transaction.
         direction ob = ''outbound''
         \<and> (\<exists>leg \<in> snd ` set (legs_by_id (comp_legs component)). leg_transaction leg = tx \<and> leg_role leg = ''source'')
         \<longrightarrow> chain 0 (source_ranges (quantity_hash ob) (cc_claims cc)) (principal_msat ob)))
    \<and> cc_suspense_msat cc = suspense_total (cc_claims cc)"
proof -
  let ?ctx = "component_context component (cc_component_id cc) by_transaction"
  obtain base cs where inv: "compile_inv ?ctx base cs" and base: "is_conversion component \<or> base = []"
    and cc: "cc_claims cc = cs_claims cs" "cc_suspense_msat cc = cs_suspense cs"
    and cover: "is_conversion component
      \<or> \<not> (\<exists>entry \<in> set by_transaction. uncovered_source ?ctx (cs_source_cursors cs) entry)"
    by (rule compile_component_Inr [OF assms])
  have chains: "chain (dict_get base h 0) (source_ranges h (cc_claims cc)) (dict_get (cs_source_cursors cs) h 0)" for h
    using inv by (simp add: compile_inv_def cc)
  have covered: "chain 0 (source_ranges (quantity_hash ob) (cc_claims cc)) (principal_msat ob)"
    if "\<not> is_conversion component" "(tx, ob) \<in> set by_transaction" "direction ob = ''outbound''"
      "leg \<in> snd ` set (legs_by_id (comp_legs component))" "leg_transaction leg = tx" "leg_role leg = ''source''"
    for tx ob leg
  proof -
    have "\<not> uncovered_source ?ctx (cs_source_cursors cs) (tx, ob)" using cover that(1,2) by blast
    then have "dict_get (cs_source_cursors cs) (quantity_hash ob) 0 = principal_msat ob"
      using that by (fastforce simp: uncovered_source_def)
    then show ?thesis using chains [of "quantity_hash ob"] base that(1) by simp
  qed
  show ?thesis
  proof (intro conjI)
    show "\<forall>c \<in> set (cc_claims cc). grounded_claim by_transaction (cc_component_id cc) c"
      using inv by (simp add: compile_inv_def cc)
    show "\<forall>h. \<exists>s e. chain s (source_ranges h (cc_claims cc)) e \<and> (is_conversion component \<or> s = 0)"
      using chains base by (metis dict_get_Nil)
    show "is_conversion component \<or> (\<forall>h. \<exists>e. chain 0 (target_ranges h (cc_claims cc)) e)"
      using inv by (auto simp: compile_inv_def cc)
    show "cc_suspense_msat cc = suspense_total (cc_claims cc)" using inv by (simp add: compile_inv_def cc)
  qed (use covered in blast)
qed

text \<open>
  C9: the arbitrator never rejects a compiled bundle for an unobserved, wrongly directed or
  exceeded source or target or for mixed priorities. All its claims fall into one bundle, and
  the only reasons left are a claim id used twice and targets in another exposure domain.
\<close>

theorem compiled_bundle_accepted:
  assumes "compile_component_quantity_claims component by_transaction = Inr cc"
    and "index_observations (map snd by_transaction) [] = Inr by_hash" and "cc_claims cc \<noteq> []"
  shows "set (bundle_reasons by_hash all_claims (cc_claims cc))
           \<subseteq> {''duplicate_claim_id'', ''claim_domain_incompatible''}
    \<and> (\<forall>c \<in> set (cc_claims cc). bundle_key c = ''component:'' @ cc_component_id cc)"
proof -
  obtain base cs where inv: "compile_inv (component_context component (cc_component_id cc) by_transaction) base cs"
    and cc: "cc_claims cc = cs_claims cs"
    by (rule compile_component_Inr [OF assms(1)])
  have g: "grounded_claim by_transaction (cc_component_id cc) c" if "c \<in> set (cc_claims cc)" for c
    using inv that by (simp add: compile_inv_def cc)
  have "set (map claim_priority (cc_claims cc)) = {REVIEWED_COMPONENT}"
    using g assms(3) by (auto simp: grounded_claim_def image_iff) (metis hd_in_set)
  then have "length (remdups (map claim_priority (cc_claims cc))) = 1"
    by (simp add: length_remdups_card_conv)
  moreover have "set (claim_source_reasons by_hash c @ claim_target_reasons by_hash c) \<subseteq> {''claim_domain_incompatible''}"
    if "c \<in> set (cc_claims cc)" for c
    using grounded_no_source_reason [OF g [OF that] assms(2)] by auto
  moreover have "bundle_key c = ''component:'' @ cc_component_id cc" if "c \<in> set (cc_claims cc)" for c
    using g [OF that] by (simp add: grounded_claim_def bundle_key_def)
  ultimately show ?thesis by (auto simp: bundle_reasons_def)
qed

text \<open>A reviewed bridge: 50 msat leave one wallet, 30 arrive in another, 20 stay in suspense.\<close>

definition sample_component :: custody_component where
  "sample_component =
     \<lparr>comp_id = Some ''c1'', comp_effective_state = Some ''active'',
      comp_legs = [route_leg ''s'' ''source'' (Some ''tx-a''), route_leg ''d'' ''destination'' (Some ''tx-c''),
                   route_leg ''f'' ''fee'' None, route_leg ''u'' ''suspense'' None],
      comp_component_type = Some ''manual_bridge'', comp_evidence_kind = None,
      comp_residual_classification = None, comp_economic_terms = [],
      comp_allocations = [route_alloc ''1'' ''s'' ''d'' 30, route_alloc ''2'' ''s'' ''f'' 3, route_alloc ''3'' ''s'' ''u'' 20],
      comp_conservation_mode = None, comp_conversion_policy = None\<rparr>"

definition sample_by_transaction :: observation_map where
  "sample_by_transaction = [(''tx-a'', sample_observation (CHR ''a'') ''outbound'' 50 3),
                            (''tx-c'', sample_observation (CHR ''c'') ''inbound'' 30 0)]"

lemma sample_compiles:
  "\<exists>cc. compile_component_quantity_claims sample_component sample_by_transaction = Inr cc
     \<and> length (cc_claims cc) = 2"
proof -
  have "case compile_component_quantity_claims sample_component sample_by_transaction of Inl _ \<Rightarrow> False
    | Inr cc \<Rightarrow> length (cc_claims cc) = 2"
    by code_simp
  then show ?thesis by (auto split: sum.splits)
qed

theorem compiled_claims_sound_witness:
  "\<exists>cc. compile_component_quantity_claims sample_component sample_by_transaction = Inr cc
     \<and> length (cc_claims cc) = 2
     \<and> chain 0 (source_ranges (replicate 64 (CHR ''a'')) (cc_claims cc)) 50
     \<and> cc_suspense_msat cc = suspense_total (cc_claims cc)"
proof -
  obtain cc where cc: "compile_component_quantity_claims sample_component sample_by_transaction = Inr cc"
    "length (cc_claims cc) = 2" using sample_compiles by blast
  have q: "\<not> is_conversion sample_component" by (simp add: is_conversion_def sample_component_def py_or_def)
  have leg: "route_leg ''s'' ''source'' (Some ''tx-a'') \<in> snd ` set (legs_by_id (comp_legs sample_component))"
    "leg_transaction (route_leg ''s'' ''source'' (Some ''tx-a'')) = ''tx-a''"
    by (simp_all add: sample_component_def legs_by_id_def route_leg_def leg_transaction_def py_or_def)
  have "principal_msat (sample_observation (CHR ''a'') ''outbound'' 50 3) = 50"
    by (simp add: principal_outbound sample_observation_def)
  then have "chain 0 (source_ranges (replicate 64 (CHR ''a'')) (cc_claims cc)) 50"
    using compiled_claims_sound [OF cc(1)] q leg
    by (force simp: sample_by_transaction_def sample_observation_def route_leg_def)
  then show ?thesis using cc compiled_claims_sound [OF cc(1)] by blast
qed

theorem compiled_bundle_accepted_witness:
  "\<exists>cc by_hash. compile_component_quantity_claims sample_component sample_by_transaction = Inr cc
     \<and> index_observations (map snd sample_by_transaction) [] = Inr by_hash
     \<and> cc_claims cc \<noteq> []
     \<and> set (bundle_reasons by_hash [] (cc_claims cc)) \<subseteq> {''duplicate_claim_id'', ''claim_domain_incompatible''}"
proof -
  obtain cc where cc: "compile_component_quantity_claims sample_component sample_by_transaction = Inr cc"
    "length (cc_claims cc) = 2" using sample_compiles by blast
  have "valid_observation (sample_observation (CHR ''a'') ''outbound'' 50 3)"
    "valid_observation (sample_observation (CHR ''c'') ''inbound'' 30 0)"
    by (simp_all add: validate_observation_def sample_observation_def sample_hash_ok)
  moreover have "replicate 64 (CHR ''a'') \<noteq> replicate 64 (CHR ''c'')" by (simp add: replicate_eq_replicate)
  ultimately obtain by_hash where by_hash: "index_observations (map snd sample_by_transaction) [] = Inr by_hash"
    by (auto simp: index_observations_Inr sample_by_transaction_def) (simp add: sample_observation_def)
  have "cc_claims cc \<noteq> []" using cc(2) by auto
  from compiled_bundle_accepted [OF cc(1) by_hash this] this cc(1) by_hash show ?thesis by blast
qed

end
