(* ===== verification/Htlc_Script.thy ===== *)
theory Htlc_Script
  imports Bytes
begin

text \<open>
  Recognition of Boltz v1 HTLC scripts and witnesses (\<open>kassiber/core/htlc_parser.py\<close>). The
  parser keeps the cursor of the code and reads bytes by index, so an index outside the
  script raises. \<open>hash160\<close> is a function of the library \<open>embit\<close> and SHA-256 of \<open>hashlib\<close>;
  both are arguments, and nothing is assumed of them.
\<close>

section \<open>Opcodes and results\<close>

definition OP_0 :: byte where "OP_0 = 0x00"
definition OP_PUSHBYTES_1 :: byte where "OP_PUSHBYTES_1 = 0x01"
definition OP_PUSHBYTES_75 :: byte where "OP_PUSHBYTES_75 = 0x4B"
definition OP_1 :: byte where "OP_1 = 0x51"
definition OP_16 :: byte where "OP_16 = 0x60"
definition OP_DROP :: byte where "OP_DROP = 0x75"
definition OP_EQUAL :: byte where "OP_EQUAL = 0x87"
definition OP_EQUALVERIFY :: byte where "OP_EQUALVERIFY = 0x88"
definition OP_SIZE :: byte where "OP_SIZE = 0x82"
definition OP_HASH160 :: byte where "OP_HASH160 = 0xA9"
definition OP_CHECKSIG :: byte where "OP_CHECKSIG = 0xAC"
definition OP_CHECKLOCKTIMEVERIFY :: byte where "OP_CHECKLOCKTIMEVERIFY = 0xB1"
definition OP_IF :: byte where "OP_IF = 0x63"
definition OP_ELSE :: byte where "OP_ELSE = 0x67"
definition OP_ENDIF :: byte where "OP_ENDIF = 0x68"

definition HASHLOCK_LEN :: nat where "HASHLOCK_LEN = 20"
definition PUBKEY_LEN :: nat where "PUBKEY_LEN = 33"
definition PREIMAGE_LEN :: nat where "PREIMAGE_LEN = 32"

record htlc_extraction =
  htlc_template :: string
  htlc_role :: string
  htlc_hashlock160 :: string
  htlc_payment_hash :: "string option"
  htlc_preimage :: "string option"

section \<open>The parser\<close>

definition consume_minimal_integer_push :: "byte list \<Rightarrow> nat \<Rightarrow> nat option" where
  "consume_minimal_integer_push script cursor =
     (if length script \<le> cursor then None
      else let head = script ! cursor in
        if head = OP_0 then Some 1
        else if OP_1 \<le> head \<and> head \<le> OP_16 then Some 1
        else if OP_PUSHBYTES_1 \<le> head \<and> head \<le> OP_PUSHBYTES_75 then
          (let push_len = unat head in
           if 5 < push_len then None
           else if length script < cursor + 1 + push_len then None
           else Some (1 + push_len))
        else None)"

text \<open>\<open>if script_bytes[cursor] != value: return None\<close>, and otherwise go on.\<close>

definition expect_byte ::
  "byte list \<Rightarrow> nat \<Rightarrow> byte \<Rightarrow> 'a option result \<Rightarrow> 'a option result" where
  "expect_byte script cursor value k =
     bind_res (byte_at script cursor) (\<lambda>b. if b \<noteq> value then Inr None else k)"

definition reverse_prefix :: "byte list \<Rightarrow> bool" where
  "reverse_prefix script \<longleftrightarrow>
     4 \<le> length script \<and> script ! 0 = OP_SIZE \<and> script ! 1 = OP_PUSHBYTES_1
     \<and> script ! 2 = word_of_nat PREIMAGE_LEN \<and> script ! 3 = OP_EQUALVERIFY"

text \<open>The part from \<open>OP_CHECKLOCKTIMEVERIFY\<close> on; the result is whether it matches.\<close>

definition parse_timeout_tail :: "byte list \<Rightarrow> nat \<Rightarrow> unit option result" where
  "parse_timeout_tail script cursor =
     (if length script < cursor + 2 + 1 + PUBKEY_LEN + 2 then Inr None
      else expect_byte script cursor OP_CHECKLOCKTIMEVERIFY
        (expect_byte script (cursor + 1) OP_DROP
        (expect_byte script (cursor + 2) (word_of_nat PUBKEY_LEN)
        (expect_byte script (cursor + 3 + PUBKEY_LEN) OP_ENDIF
        (expect_byte script (cursor + 4 + PUBKEY_LEN) OP_CHECKSIG
        (if cursor + 5 + PUBKEY_LEN \<noteq> length script then Inr None else Inr (Some ())))))))"

definition parse_branches :: "byte list \<Rightarrow> nat \<Rightarrow> unit option result" where
  "parse_branches script cursor =
     (if length script < cursor + 2 + PUBKEY_LEN then Inr None
      else expect_byte script cursor OP_IF
        (expect_byte script (cursor + 1) (word_of_nat PUBKEY_LEN)
        (let c = cursor + 2 + PUBKEY_LEN in
         if length script \<le> c \<or> script ! c \<noteq> OP_ELSE then Inr None
         else case consume_minimal_integer_push script (c + 1) of
                None \<Rightarrow> Inr None
              | Some consumed \<Rightarrow> parse_timeout_tail script (c + 1 + consumed))))"

definition parse_htlc_redeem_script :: "byte list \<Rightarrow> htlc_extraction option result" where
  "parse_htlc_redeem_script script =
     (if script = [] then Inr None
      else let rev_swap = reverse_prefix script;
               cursor = (if rev_swap then 4 else 0)
      in if length script < cursor + 1 + HASHLOCK_LEN + 1 then Inr None
      else expect_byte script cursor OP_HASH160
        (expect_byte script (cursor + 1) (word_of_nat HASHLOCK_LEN)
        (expect_byte script (cursor + 2 + HASHLOCK_LEN) OP_EQUAL
        (bind_res (parse_branches script (cursor + 3 + HASHLOCK_LEN)) (\<lambda>matched.
           case matched of
             None \<Rightarrow> Inr None
           | Some _ \<Rightarrow>
               Inr (Some \<lparr>htlc_template = (if rev_swap then ''boltz_v1_reverse'' else ''boltz_v1_submarine''),
                          htlc_role = ''fund'',
                          htlc_hashlock160 = bytes_hex (take HASHLOCK_LEN (drop (cursor + 2) script)),
                          htlc_payment_hash = None, htlc_preimage = None\<rparr>))))))"

section \<open>Witnesses\<close>

text \<open>The first 32-byte item whose \<open>hash160\<close> is the hashlock.\<close>

definition preimage_of :: "(byte list \<Rightarrow> byte list) \<Rightarrow> byte list \<Rightarrow> byte list list \<Rightarrow> byte list option" where
  "preimage_of hash160 expected items =
     List.find (\<lambda>item. length item = PREIMAGE_LEN \<and> hash160 item = expected) items"

definition witness_script :: "byte list list \<Rightarrow> htlc_extraction option result" where
  "witness_script items = (if length items < 2 then Inr None else parse_htlc_redeem_script (last items))"

text \<open>\<open>bytes.fromhex(fund.hashlock160)\<close>\<close>

definition expected_hash160 :: "htlc_extraction \<Rightarrow> byte list result" where
  "expected_hash160 fund =
     (case bytes_fromhex (htlc_hashlock160 fund) of
        None \<Rightarrow> Inl (ValueError ''non-hexadecimal number found in fromhex() arg'')
      | Some bs \<Rightarrow> Inr bs)"

definition extract_from_claim_witness ::
  "(byte list \<Rightarrow> byte list) \<Rightarrow> (byte list \<Rightarrow> byte list) \<Rightarrow> byte list list \<Rightarrow> htlc_extraction option result" where
  "extract_from_claim_witness hash160 sha256 items =
     bind_res (witness_script items) (\<lambda>parsed.
       case parsed of
         None \<Rightarrow> Inr None
       | Some fund \<Rightarrow> bind_res (expected_hash160 fund) (\<lambda>expected.
           case preimage_of hash160 expected (butlast items) of
             None \<Rightarrow> Inr None
           | Some preimage \<Rightarrow>
               Inr (Some (fund\<lparr>htlc_role := ''claim'', htlc_payment_hash := Some (bytes_hex (sha256 preimage)),
                               htlc_preimage := Some (bytes_hex preimage)\<rparr>))))"

definition extract_from_refund_witness ::
  "(byte list \<Rightarrow> byte list) \<Rightarrow> byte list list \<Rightarrow> htlc_extraction option result" where
  "extract_from_refund_witness hash160 items =
     bind_res (witness_script items) (\<lambda>parsed.
       case parsed of
         None \<Rightarrow> Inr None
       | Some fund \<Rightarrow> bind_res (expected_hash160 fund) (\<lambda>expected.
           case preimage_of hash160 expected (butlast items) of
             None \<Rightarrow> Inr (Some (fund\<lparr>htlc_role := ''refund''\<rparr>))
           | Some _ \<Rightarrow> Inr None))"

section \<open>The grammar\<close>

text \<open>What a template is, written as the bytes of the script.\<close>

definition integer_push :: "byte list \<Rightarrow> bool" where
  "integer_push bs \<longleftrightarrow>
     (\<exists>b. bs = [b] \<and> (b = OP_0 \<or> OP_1 \<le> b \<and> b \<le> OP_16))
     \<or> (\<exists>n data. bs = word_of_nat n # data \<and> 1 \<le> n \<and> n \<le> 5 \<and> length data = n)"

definition timeout_tail :: "byte list \<Rightarrow> byte list" where
  "timeout_tail refund_key = [OP_CHECKLOCKTIMEVERIFY, OP_DROP, 33] @ refund_key @ [OP_ENDIF, OP_CHECKSIG]"

definition htlc_prefix :: "bool \<Rightarrow> byte list" where
  "htlc_prefix rev_swap = (if rev_swap then [OP_SIZE, OP_PUSHBYTES_1, 32, OP_EQUALVERIFY] else [])"

definition htlc_script ::
  "bool \<Rightarrow> byte list \<Rightarrow> byte list \<Rightarrow> byte list \<Rightarrow> byte list \<Rightarrow> byte list" where
  "htlc_script rev_swap hashlock claim_key cltv refund_key =
     htlc_prefix rev_swap @ [OP_HASH160, 20] @ hashlock
     @ [OP_EQUAL, OP_IF, 33] @ claim_key @ [OP_ELSE] @ cltv @ timeout_tail refund_key"

definition htlc_fields :: "byte list \<Rightarrow> byte list \<Rightarrow> byte list \<Rightarrow> byte list \<Rightarrow> bool" where
  "htlc_fields hashlock claim_key cltv refund_key \<longleftrightarrow>
     length hashlock = 20 \<and> length claim_key = 33 \<and> integer_push cltv \<and> length refund_key = 33"

lemmas opcode_defs = OP_0_def OP_PUSHBYTES_1_def OP_PUSHBYTES_75_def OP_1_def OP_16_def OP_DROP_def
  OP_EQUAL_def OP_EQUALVERIFY_def OP_SIZE_def OP_HASH160_def OP_CHECKSIG_def OP_CHECKLOCKTIMEVERIFY_def
  OP_IF_def OP_ELSE_def OP_ENDIF_def

lemmas length_defs = HASHLOCK_LEN_def PUBKEY_LEN_def PREIMAGE_LEN_def

section \<open>The parser reads the grammar\<close>

lemma expect_byte_split:
  "cursor < length script \<Longrightarrow>
     expect_byte script cursor v k = (if script ! cursor = v then k else Inr None)"
  by (simp add: expect_byte_def byte_at_def)

lemma skip_bytes: "drop c s = take n (drop c s) @ drop (c + n) s"
  by (metis append_take_drop_id drop_drop add.commute)

lemma drop_eq_nth:
  assumes "drop c s = xs" and "i < length xs"
  shows "s ! (c + i) = xs ! i" "c + i < length s"
  using assms by auto

lemma timeout_tail_nth:
  assumes "drop c s = timeout_tail key" and "length key = 33"
  shows "length s = c + 38" "s ! c = OP_CHECKLOCKTIMEVERIFY" "s ! (c + 1) = OP_DROP" "s ! (c + 2) = 33"
    "s ! (c + 36) = OP_ENDIF" "s ! (c + 37) = OP_CHECKSIG"
proof -
  have len: "length (timeout_tail key) = 38" using assms(2) by (simp add: timeout_tail_def)
  then have "length (drop c s) = 38" using assms(1) by simp
  then show "length s = c + 38" by simp
  have nth: "s ! (c + i) = timeout_tail key ! i" if "i < 38" for i
    using drop_eq_nth(1) [OF assms(1)] that len by simp
  show "s ! c = OP_CHECKLOCKTIMEVERIFY" "s ! (c + 1) = OP_DROP" "s ! (c + 2) = 33"
    "s ! (c + 36) = OP_ENDIF" "s ! (c + 37) = OP_CHECKSIG"
    using nth [of 0] nth [of 1] nth [of 2] nth [of 36] nth [of 37] assms(2)
    by (simp_all add: timeout_tail_def nth_append nth_Cons')
qed

lemma parse_timeout_tail_iff:
  "parse_timeout_tail s c =
     Inr (if \<exists>key. length key = 33 \<and> drop c s = timeout_tail key then Some () else None)"
proof (cases "length s < c + 38")
  case True
  then have "\<not> (\<exists>key. length key = 33 \<and> drop c s = timeout_tail key)" using timeout_tail_nth(1) by fastforce
  then show ?thesis using True by (simp add: parse_timeout_tail_def length_defs)
next
  case False
  let ?ok = "s ! c = OP_CHECKLOCKTIMEVERIFY \<and> s ! (c + 1) = OP_DROP \<and> s ! (c + 2) = 33
    \<and> s ! (c + 36) = OP_ENDIF \<and> s ! (c + 37) = OP_CHECKSIG \<and> length s = c + 38"
  have "parse_timeout_tail s c = Inr (if ?ok then Some () else None)"
    using False by (auto simp: parse_timeout_tail_def length_defs expect_byte_split add.commute [of _ c])
  moreover have "?ok \<longleftrightarrow> (\<exists>key. length key = 33 \<and> drop c s = timeout_tail key)"
  proof
    assume ok: ?ok
    have "drop c s = s ! c # s ! (c + 1) # s ! (c + 2) # drop (c + 3) s"
      using False by (simp add: drop_byte eval_nat_numeral)
    also have "drop (c + 3) s = take 33 (drop (c + 3) s) @ drop (c + 36) s" using skip_bytes [of "c + 3" s 33] by (simp add: add.commute [of _ c])
    also have "drop (c + 36) s = [s ! (c + 36), s ! (c + 37)]"
    proof -
      have "drop (c + 36) s = s ! (c + 36) # s ! (c + 37) # drop (c + 38) s"
        using False drop_byte [of "c + 36" s] drop_byte [of "c + 37" s] by (simp add: eval_nat_numeral)
      then show ?thesis using ok by simp
    qed
    finally have "drop c s = timeout_tail (take 33 (drop (c + 3) s))"
      using ok by (simp add: timeout_tail_def)
    moreover have "length (take 33 (drop (c + 3) s)) = 33" using False by simp
    ultimately show "\<exists>key. length key = 33 \<and> drop c s = timeout_tail key" by blast
  next
    assume "\<exists>key. length key = 33 \<and> drop c s = timeout_tail key"
    then show ?ok using timeout_tail_nth by blast
  qed
  ultimately show ?thesis by (simp only:)
qed

lemma consume_sound:
  assumes "consume_minimal_integer_push s c = Some n"
  shows "integer_push (take n (drop c s))" "c + n \<le> length s"
proof -
  have lt: "c < length s" using assms by (auto simp: consume_minimal_integer_push_def split: if_splits)
  then have d: "drop c s = s ! c # drop (Suc c) s" by (rule drop_byte)
  consider "n = 1" "s ! c = OP_0 \<or> OP_1 \<le> s ! c \<and> s ! c \<le> OP_16"
    | "n = 1 + unat (s ! c)" "OP_PUSHBYTES_1 \<le> s ! c" "unat (s ! c) \<le> 5" "c + 1 + unat (s ! c) \<le> length s"
    using assms by (auto simp: consume_minimal_integer_push_def Let_def split: if_splits)
  then have "integer_push (take n (drop c s)) \<and> c + n \<le> length s"
  proof cases
    case 1
    then show ?thesis using lt by (simp add: d integer_push_def)
  next
    case 2
    have "1 \<le> unat (s ! c)" using 2(2) by (simp add: word_le_nat_alt OP_PUSHBYTES_1_def)
    moreover have "take n (drop c s) = word_of_nat (unat (s ! c)) # take (unat (s ! c)) (drop (Suc c) s)"
      using 2(1) by (simp add: d)
    moreover have "length (take (unat (s ! c)) (drop (Suc c) s)) = unat (s ! c)" using 2(4) by simp
    ultimately have "integer_push (take n (drop c s))" using 2(3) unfolding integer_push_def by blast
    then show ?thesis using 2 by simp
  qed
  then show "integer_push (take n (drop c s))" "c + n \<le> length s" by auto
qed

lemma push_byte_value: "1 \<le> n \<Longrightarrow> n \<le> 5 \<Longrightarrow> unat (word_of_nat n :: byte) = n"
  by (simp add: unat_of_nat)

lemma consume_complete:
  assumes "integer_push bs" and "drop c s = bs @ rest"
  shows "consume_minimal_integer_push s c = Some (length bs)"
proof -
  have ne: "bs \<noteq> []" using assms(1) by (auto simp: integer_push_def)
  then have lt: "c < length s" using assms(2) by (metis append_is_Nil_conv drop_all not_le)
  have head: "s ! c = hd bs" using drop_byte [OF lt] assms(2) ne by (metis hd_append2 list.sel(1))
  have len: "c + length bs \<le> length s"
    using arg_cong [OF assms(2), of length] lt by simp
  from assms(1) consider b where "bs = [b]" "b = OP_0 \<or> OP_1 \<le> b \<and> b \<le> OP_16"
    | n data where "bs = word_of_nat n # data" "1 \<le> n" "n \<le> 5" "length data = n"
    unfolding integer_push_def by blast
  then show ?thesis
  proof cases
    case 1
    then show ?thesis using lt head by (auto simp: consume_minimal_integer_push_def)
  next
    case 2
    have v: "unat (s ! c) = n" using head 2 push_byte_value by simp
    then have "OP_PUSHBYTES_1 \<le> s ! c" "s ! c \<le> OP_PUSHBYTES_75" "s ! c \<noteq> OP_0" "\<not> OP_1 \<le> s ! c"
      using 2(2,3) by (auto simp: word_le_nat_alt opcode_defs)
    then show ?thesis using lt v 2 len by (simp add: consume_minimal_integer_push_def Let_def)
  qed
qed

definition branch_bytes :: "byte list \<Rightarrow> byte list \<Rightarrow> byte list \<Rightarrow> byte list" where
  "branch_bytes claim_key cltv refund_key =
     [OP_IF, 33] @ claim_key @ [OP_ELSE] @ cltv @ timeout_tail refund_key"

definition branch_fields :: "byte list \<Rightarrow> byte list \<Rightarrow> byte list \<Rightarrow> bool" where
  "branch_fields claim_key cltv refund_key \<longleftrightarrow>
     length claim_key = 33 \<and> integer_push cltv \<and> length refund_key = 33"

lemma branch_bytes_drop:
  assumes "drop c s = branch_bytes claim cltv key" and "length claim = 33"
  shows "c + 36 < length s" "s ! c = OP_IF" "s ! (c + 1) = 33" "s ! (c + 35) = OP_ELSE"
    "drop (c + 36) s = cltv @ timeout_tail key"
proof -
  have nth: "s ! (c + i) = branch_bytes claim cltv key ! i" "c + i < length s" if "i < 37" for i
    using drop_eq_nth [OF assms(1), of i] that assms(2) by (auto simp: branch_bytes_def timeout_tail_def)
  show "c + 36 < length s" using nth(2) [of 36] by simp
  show "s ! c = OP_IF" "s ! (c + 1) = 33" "s ! (c + 35) = OP_ELSE"
    using nth(1) [of 0] nth(1) [of 1] nth(1) [of 35] assms(2)
    by (simp_all add: branch_bytes_def nth_append nth_Cons')
  have "drop (c + 36) s = drop 36 (branch_bytes claim cltv key)" using assms(1) by (metis add.commute drop_drop)
  then show "drop (c + 36) s = cltv @ timeout_tail key" using assms(2) by (simp add: branch_bytes_def)
qed

lemma parse_branches_iff:
  "parse_branches s c =
     Inr (if \<exists>claim cltv key. branch_fields claim cltv key \<and> drop c s = branch_bytes claim cltv key
          then Some () else None)" (is "_ = Inr (if ?spec then _ else _)")
proof (cases ?spec)
  case True
  then obtain claim cltv key where f: "length claim = 33" "integer_push cltv" "length key = 33"
    and d: "drop c s = branch_bytes claim cltv key" by (auto simp: branch_fields_def)
  note b = branch_bytes_drop [OF d f(1)]
  have consume: "consume_minimal_integer_push s (c + 36) = Some (length cltv)"
    by (rule consume_complete [OF f(2) b(5)])
  have "drop (c + 36 + length cltv) s = timeout_tail key"
    using b(5) by (metis append_eq_conv_conj drop_drop add.commute)
  then have "parse_timeout_tail s (c + 36 + length cltv) = Inr (Some ())"
    using f(3) parse_timeout_tail_iff by auto
  then show ?thesis using True b consume
    by (simp add: parse_branches_def length_defs expect_byte_split Let_def add.commute [of _ c])
next
  case False
  have "parse_branches s c = Inr None" if long: "c + 35 \<le> length s"
  proof (cases "s ! c = OP_IF \<and> s ! (c + 1) = 33 \<and> c + 35 < length s \<and> s ! (c + 35) = OP_ELSE")
    case ok: True
    show ?thesis
    proof (cases "consume_minimal_integer_push s (c + 36)")
      case None
      then show ?thesis using ok
        by (simp add: parse_branches_def length_defs expect_byte_split Let_def add.commute [of _ c])
    next
      case (Some n)
      note cs = consume_sound [OF Some]
      have "\<not> (length key = 33 \<and> drop (c + 36 + n) s = timeout_tail key)" for key
      proof
        assume key: "length key = 33 \<and> drop (c + 36 + n) s = timeout_tail key"
        have "drop c s = s ! c # s ! (c + 1) # take 33 (drop (c + 2) s) @ s ! (c + 35)
            # take n (drop (c + 36) s) @ drop (c + 36 + n) s"
          using ok skip_bytes [of "c + 2" s 33] skip_bytes [of "c + 36" s n] drop_byte [of c s]
            drop_byte [of "c + 1" s] drop_byte [of "c + 35" s] by (simp add: add.commute [of _ c])
        then have "drop c s = branch_bytes (take 33 (drop (c + 2) s)) (take n (drop (c + 36) s)) key"
          using ok key by (simp add: branch_bytes_def)
        moreover have "branch_fields (take 33 (drop (c + 2) s)) (take n (drop (c + 36) s)) key"
          using ok key cs by (simp add: branch_fields_def)
        ultimately show False using False by blast
      qed
      then have "parse_timeout_tail s (c + 36 + n) = Inr None" using parse_timeout_tail_iff by auto
      then show ?thesis using ok Some
        by (simp add: parse_branches_def length_defs expect_byte_split Let_def add.commute [of _ c])
    qed
  next
    case bad: False
    then show ?thesis using long
      by (auto simp: parse_branches_def length_defs expect_byte_split Let_def add.commute [of _ c])
  qed
  then show ?thesis using False by (auto simp: parse_branches_def length_defs not_le)
qed

section \<open>The whole script\<close>

definition fund_extraction :: "bool \<Rightarrow> byte list \<Rightarrow> htlc_extraction" where
  "fund_extraction rev_swap hashlock =
     \<lparr>htlc_template = (if rev_swap then ''boltz_v1_reverse'' else ''boltz_v1_submarine''), htlc_role = ''fund'',
      htlc_hashlock160 = bytes_hex hashlock, htlc_payment_hash = None, htlc_preimage = None\<rparr>"

abbreviation body_start :: "byte list \<Rightarrow> nat" where
  "body_start s \<equiv> (if reverse_prefix s then 4 else 0)"

lemma prefix_split: "s = htlc_prefix (reverse_prefix s) @ drop (body_start s) s"
proof (cases "reverse_prefix s")
  case True
  then have four: "4 \<le> length s" by (simp add: reverse_prefix_def)
  then have "s \<noteq> []" by auto
  with four have "drop 0 s = s ! 0 # s ! 1 # s ! 2 # s ! 3 # drop 4 s"
    using drop_byte [of 0 s] drop_byte [of 1 s] drop_byte [of 2 s] drop_byte [of 3 s]
    by (auto simp: eval_nat_numeral)
  then have "s = s ! 0 # s ! 1 # s ! 2 # s ! 3 # drop 4 s" by simp
  then show ?thesis using True by (auto simp: htlc_prefix_def reverse_prefix_def length_defs)
qed (simp add: htlc_prefix_def)

lemma prefix_unique:
  assumes "s = htlc_prefix b @ OP_HASH160 # rest"
  shows "reverse_prefix s = b" "drop (body_start s) s = OP_HASH160 # rest"
proof -
  show b: "reverse_prefix s = b"
    using assms by (cases b) (auto simp: reverse_prefix_def htlc_prefix_def length_defs opcode_defs)
  show "drop (body_start s) s = OP_HASH160 # rest"
    unfolding b using assms by (cases b) (simp_all add: htlc_prefix_def)
qed

lemma parse_unfold:
  fixes s :: "byte list"
  defines "c \<equiv> body_start s"
  shows "parse_htlc_redeem_script s =
    (if length s < c + 22 \<or> s ! c \<noteq> OP_HASH160 \<or> s ! (c + 1) \<noteq> 20 then Inr None
     else if length s = c + 22 then Inl IndexError
     else if s ! (c + 22) = OP_EQUAL
        \<and> (\<exists>claim cltv key. branch_fields claim cltv key \<and> drop (c + 23) s = branch_bytes claim cltv key)
     then Inr (Some (fund_extraction (reverse_prefix s) (take 20 (drop (c + 2) s))))
     else Inr None)"
proof (cases "length s < c + 22")
  case True
  then show ?thesis by (simp add: parse_htlc_redeem_script_def c_def [symmetric] Let_def length_defs)
next
  case False
  then have "s \<noteq> []" by auto
  moreover have "byte_at s (c + 22) = (if length s = c + 22 then Inl IndexError else Inr (s ! (c + 22)))"
    using False by (auto simp: byte_at_def)
  ultimately show ?thesis using False parse_branches_iff [of s "c + 23"]
    by (auto simp: parse_htlc_redeem_script_def c_def [symmetric] Let_def length_defs expect_byte_def byte_at_def
        fund_extraction_def add.commute [of _ c])
qed

lemma hashlock_split:
  assumes "c + 22 \<le> length s" and "s ! c = OP_HASH160" and "s ! (c + 1) = 20"
  shows "drop c s = OP_HASH160 # 20 # take 20 (drop (c + 2) s) @ drop (c + 22) s"
  using assms drop_byte [of c s] drop_byte [of "c + 1" s] skip_bytes [of "c + 2" s 20]
  by (simp add: add.commute [of _ c])

lemma hashlock_at:
  assumes "drop c s = OP_HASH160 # 20 # hl @ rest" and "length hl = 20"
  shows "c + 22 \<le> length s" "s ! c = OP_HASH160" "s ! (c + 1) = 20" "take 20 (drop (c + 2) s) = hl"
    "drop (c + 22) s = rest" "length s = c + 22 + length rest"
proof -
  have len: "length (drop c s) = 22 + length rest" using assms by simp
  then show l: "length s = c + 22 + length rest" by simp
  then show "c + 22 \<le> length s" by simp
  show "s ! c = OP_HASH160" "s ! (c + 1) = 20"
    using drop_eq_nth(1) [OF assms(1), of 0] drop_eq_nth(1) [OF assms(1), of 1] by simp_all
  have "drop (2 + c) s = drop 2 (drop c s)" "drop (22 + c) s = drop 22 (drop c s)" by simp_all
  then show "take 20 (drop (c + 2) s) = hl" "drop (c + 22) s = rest" using assms
    by (simp_all add: add.commute [of c])
qed

section \<open>Properties\<close>

text \<open>
  C25: the redeem-script parser recognises exactly the grammar. It returns an extraction if and
  only if the script is a template (with or without the size check) around a 20-byte
  hashlock, two 33-byte keys and an integer push, and the extraction names that template and
  that hashlock; it raises \<open>IndexError\<close> exactly on a script that ends right after the
  hashlock; every other script gives \<open>None\<close>.
\<close>

theorem htlc_parse_exact:
  "(parse_htlc_redeem_script s = Inr (Some x) \<longleftrightarrow>
      (\<exists>rev_swap hashlock claim_key cltv refund_key. htlc_fields hashlock claim_key cltv refund_key
         \<and> s = htlc_script rev_swap hashlock claim_key cltv refund_key
         \<and> x = fund_extraction rev_swap hashlock))
   \<and> (parse_htlc_redeem_script s = Inl e \<longleftrightarrow>
      e = IndexError \<and> (\<exists>rev_swap hashlock. length hashlock = 20
         \<and> s = htlc_prefix rev_swap @ [OP_HASH160, 20] @ hashlock))"
proof (intro conjI iffI)
  let ?c = "body_start s"
  note p = parse_unfold [of s]
  {
    assume "parse_htlc_redeem_script s = Inr (Some x)"
    with p obtain claim cltv key where ok: "?c + 22 \<le> length s" "s ! ?c = OP_HASH160" "s ! (?c + 1) = 20"
      "length s \<noteq> ?c + 22" "s ! (?c + 22) = OP_EQUAL" "branch_fields claim cltv key"
      "drop (?c + 23) s = branch_bytes claim cltv key"
      and x: "x = fund_extraction (reverse_prefix s) (take 20 (drop (?c + 2) s))"
      by (auto split: if_splits)
    let ?hl = "take 20 (drop (?c + 2) s)"
    have "drop (?c + 22) s = OP_EQUAL # branch_bytes claim cltv key"
      using drop_byte [of "?c + 22" s] ok by (simp add: add.commute [of _ ?c])
    then have "s = htlc_prefix (reverse_prefix s) @ OP_HASH160 # 20 # ?hl @ OP_EQUAL # branch_bytes claim cltv key"
      using prefix_split [of s] hashlock_split [OF ok(1-3)] by simp
    then have "s = htlc_script (reverse_prefix s) ?hl claim cltv key"
      by (simp only: htlc_script_def branch_bytes_def append.simps append.assoc)
    moreover have "htlc_fields ?hl claim cltv key"
      using ok(1,6) by (simp add: htlc_fields_def branch_fields_def)
    ultimately show "\<exists>rev_swap hashlock claim_key cltv refund_key. htlc_fields hashlock claim_key cltv refund_key
         \<and> s = htlc_script rev_swap hashlock claim_key cltv refund_key \<and> x = fund_extraction rev_swap hashlock"
      using x by blast
  next
    assume "\<exists>rev_swap hashlock claim_key cltv refund_key. htlc_fields hashlock claim_key cltv refund_key
         \<and> s = htlc_script rev_swap hashlock claim_key cltv refund_key \<and> x = fund_extraction rev_swap hashlock"
    then obtain b hl claim cltv key where f: "htlc_fields hl claim cltv key"
      and s: "s = htlc_script b hl claim cltv key" and x: "x = fund_extraction b hl" by blast
    have s': "s = htlc_prefix b @ OP_HASH160 # 20 # hl @ OP_EQUAL # branch_bytes claim cltv key"
      using s by (simp add: htlc_script_def branch_bytes_def)
    note u = prefix_unique [OF s']
    have hl: "length hl = 20" using f by (simp add: htlc_fields_def)
    note h = hashlock_at [OF u(2) hl]
    have "s ! (?c + 22) = OP_EQUAL" using drop_eq_nth(1) [OF h(5), of 0] by simp
    moreover have "drop (?c + 23) s = branch_bytes claim cltv key"
    proof -
      have "drop (1 + (?c + 22)) s = drop 1 (drop (?c + 22) s)" by (simp only: drop_drop)
      then show ?thesis using h(5) by (simp add: add.commute [of _ ?c])
    qed
    moreover have "branch_fields claim cltv key" using f by (simp add: htlc_fields_def branch_fields_def)
    ultimately have "parse_htlc_redeem_script s = Inr (Some (fund_extraction (reverse_prefix s) (take 20 (drop (?c + 2) s))))"
      unfolding p using h by auto
    then show "parse_htlc_redeem_script s = Inr (Some x)" using h(4) u(1) x by (simp only:)
  next
    assume "parse_htlc_redeem_script s = Inl e"
    with p have ok: "?c + 22 \<le> length s" "s ! ?c = OP_HASH160" "s ! (?c + 1) = 20" "length s = ?c + 22"
      and e: "e = IndexError" by (auto split: if_splits)
    let ?hl = "take 20 (drop (?c + 2) s)"
    have "s = htlc_prefix (reverse_prefix s) @ [OP_HASH160, 20] @ ?hl"
      using prefix_split [of s] hashlock_split [OF ok(1-3)] ok(4) by simp
    moreover have "length ?hl = 20" using ok(4) by simp
    ultimately have "\<exists>rev_swap hashlock. length hashlock = 20
         \<and> s = htlc_prefix rev_swap @ [OP_HASH160, 20] @ hashlock" by blast
    with e show "e = IndexError" "\<exists>rev_swap hashlock. length hashlock = 20
         \<and> s = htlc_prefix rev_swap @ [OP_HASH160, 20] @ hashlock" by simp_all
  next
    assume a: "e = IndexError \<and> (\<exists>rev_swap hashlock. length hashlock = 20
         \<and> s = htlc_prefix rev_swap @ [OP_HASH160, 20] @ hashlock)"
    then obtain b hl where hl: "length hl = 20" and s: "s = htlc_prefix b @ OP_HASH160 # 20 # hl @ []" by auto
    note h = hashlock_at [OF prefix_unique(2) [OF s] hl]
    then show "parse_htlc_redeem_script s = Inl e" using p a by auto
  }
qed

lemma parsed_hashlock:
  assumes "witness_script items = Inr (Some fund)"
  obtains hashlock where "htlc_hashlock160 fund = bytes_hex hashlock" "htlc_role fund = ''fund''"
    "htlc_payment_hash fund = None" "htlc_preimage fund = None"
proof -
  have "parse_htlc_redeem_script (last items) = Inr (Some fund)"
    using assms by (auto simp: witness_script_def split: if_splits)
  then show thesis using that parse_unfold [of "last items"]
    by (auto simp: fund_extraction_def split: if_splits)
qed

text \<open>
  C26: a witness that spends a recognised script is a claim or a refund and never both. It is a
  claim exactly when one of its items before the script is a 32-byte preimage of the script's
  hashlock; then the payment hash and the preimage reported are those of such an item.
  Otherwise it is a refund, which reports neither.
\<close>

theorem htlc_claim_or_refund:
  fixes hash160 sha256 :: "byte list \<Rightarrow> byte list"
  assumes "witness_script items = Inr (Some fund)"
  defines "reveals \<equiv> \<lambda>p. p \<in> set (butlast items) \<and> length p = 32 \<and> bytes_hex (hash160 p) = htlc_hashlock160 fund"
  shows "if \<exists>p. reveals p
    then \<exists>p x. reveals p \<and> extract_from_claim_witness hash160 sha256 items = Inr (Some x)
        \<and> htlc_role x = ''claim'' \<and> htlc_payment_hash x = Some (bytes_hex (sha256 p))
        \<and> htlc_preimage x = Some (bytes_hex p) \<and> extract_from_refund_witness hash160 items = Inr None
    else \<exists>x. extract_from_refund_witness hash160 items = Inr (Some x)
        \<and> htlc_role x = ''refund'' \<and> htlc_payment_hash x = None \<and> htlc_preimage x = None
        \<and> extract_from_claim_witness hash160 sha256 items = Inr None"
proof -
  obtain hashlock where h: "htlc_hashlock160 fund = bytes_hex hashlock" "htlc_payment_hash fund = None"
    "htlc_preimage fund = None" by (rule parsed_hashlock [OF assms(1)])
  have inj: "bytes_hex a = bytes_hex b \<longleftrightarrow> a = b" for a b by (metis fromhex_hex option.inject)
  have expected: "expected_hash160 fund = Inr hashlock" by (simp add: expected_hash160_def h)
  have reveals: "reveals p \<longleftrightarrow> p \<in> set (butlast items) \<and> length p = PREIMAGE_LEN \<and> hash160 p = hashlock" for p
    by (simp add: reveals_def h inj PREIMAGE_LEN_def)
  show ?thesis
  proof (cases "preimage_of hash160 hashlock (butlast items)")
    case None
    then have "\<not> (\<exists>p. reveals p)" by (auto simp: preimage_of_def find_None_iff reveals)
    then show ?thesis using assms(1) expected None h
      by (simp add: extract_from_claim_witness_def extract_from_refund_witness_def)
  next
    case (Some p)
    then have "reveals p" by (auto simp: preimage_of_def find_Some_iff reveals)
    then show ?thesis using assms(1) expected Some
      by (auto simp: extract_from_claim_witness_def extract_from_refund_witness_def)
  qed
qed

text \<open>A claim of a reverse swap and a refund of the same script.\<close>

definition sample_script :: "byte list" where
  "sample_script = htlc_script True (replicate 20 7) (replicate 33 1) [3, 1, 2, 3] (replicate 33 2)"

theorem htlc_claim_or_refund_witness:
  "htlc_fields (replicate 20 7) (replicate 33 1) [3, 1, 2, 3] (replicate 33 2)
   \<and> (\<exists>x. extract_from_claim_witness (take 20) (\<lambda>p. p) [[1], replicate 32 7, sample_script] = Inr (Some x)
        \<and> htlc_payment_hash x = Some (bytes_hex (replicate 32 7)))
   \<and> (\<exists>x. extract_from_refund_witness (take 20) [[1], [], sample_script] = Inr (Some x) \<and> htlc_role x = ''refund'')"
proof -
  have "case witness_script [[1], replicate 32 7, sample_script] of
      Inr (Some x) \<Rightarrow> htlc_hashlock160 x = bytes_hex (replicate 20 7) | _ \<Rightarrow> False" by code_simp
  then obtain fund where fund: "witness_script [[1], replicate 32 7, sample_script] = Inr (Some fund)"
    "htlc_hashlock160 fund = bytes_hex (replicate 20 7)" by (auto split: sum.splits option.splits)
  have "case witness_script [[1], [], sample_script] of
      Inr (Some x) \<Rightarrow> htlc_hashlock160 x = bytes_hex (replicate 20 7) | _ \<Rightarrow> False" by code_simp
  then obtain fund' where fund': "witness_script [[1], [], sample_script] = Inr (Some fund')"
    by (auto split: sum.splits option.splits)
  have "htlc_fields (replicate 20 7) (replicate 33 1) [3, 1, 2, 3] (replicate 33 2)"
    by (auto simp: htlc_fields_def integer_push_def intro!: exI [of _ "3 :: nat"])
  then show ?thesis
    using htlc_claim_or_refund [OF fund(1), of "take 20" "\<lambda>p. p"]
      htlc_claim_or_refund [OF fund', of "take 20" "\<lambda>p. p"] fund(2)
    by (auto split: if_splits dest: spec [of _ "replicate 32 7"])
qed

end
