(* ===== verification/Unlock_Policy.thy ===== *)
theory Unlock_Policy
  imports Prelude
begin

text \<open>
  Operator unlock modes and their binding to an authenticated database
  (\<open>kassiber/operator/modes.py\<close>, \<open>kassiber/operator/policy.py\<close>), and the operations of remembered
  unlock that write the same settings (\<open>kassiber/secrets/unlock_store.py\<close>). The managed settings
  file is a dictionary; the identity \<open>canonical_project\<close> computes from the database file is an
  argument, read as often as the code reads it, so a project that changes between two reads
  is two different arguments. A function that writes settings returns them beside its result,
  since a write stays when the function raises afterwards. Where the code checks the binding
  in one access to the file and writes in another, the outcome of the check is an argument too:
  other processes may write in between. The key store that holds the passphrase itself is
  not modelled.
\<close>

section \<open>Settings\<close>

text \<open>A JSON value: \<open>null\<close>, \<open>true\<close>, a string, or anything else.\<close>

datatype setting = SettingNull | SettingTrue | SettingText string | SettingOther

type_synonym settings = "(string, setting) dict"

definition setting_get :: "settings \<Rightarrow> string \<Rightarrow> setting" where
  "setting_get s k = dict_get s k SettingNull"

text \<open>\<open>update_managed_settings\<close>: write the updates, then remove keys.\<close>

definition update_settings :: "(string \<times> setting) list \<Rightarrow> string list \<Rightarrow> settings \<Rightarrow> settings" where
  "update_settings updates remove s =
     fold AList.delete remove (fold (\<lambda>(k, v). AList.update k v) updates s)"

definition unlock_modes :: "string list" where
  "unlock_modes = [''manual'', ''brokered'', ''unattended'']"

definition mode_key :: string where "mode_key = ''operator_unlock_mode''"
definition project_key :: string where "project_key = ''operator_policy_project_identity''"
definition database_key :: string where "database_key = ''operator_policy_database_identity''"

definition cli_unlock_key :: string where "cli_unlock_key = ''cli_remembered_unlock''"
definition enrollment_key :: string where "enrollment_key = ''cli_remembered_unlock_enrollment''"
definition quarantine_key :: string where "quarantine_key = ''cli_legacy_unlock_quarantined''"

definition permissive_policy_keys :: "string list" where
  "permissive_policy_keys = [mode_key, cli_unlock_key, enrollment_key]"

section \<open>Bindings\<close>

definition is_identity :: "nat \<Rightarrow> string \<Rightarrow> bool" where
  "is_identity n value \<longleftrightarrow> length value = n \<and> set value \<subseteq> set ''0123456789abcdef''"

definition valid_identity :: "nat \<Rightarrow> setting \<Rightarrow> bool" where
  "valid_identity n v = (case v of SettingText value \<Rightarrow> is_identity n value | _ \<Rightarrow> False)"

definition valid_project_identity :: "setting \<Rightarrow> bool" where
  "valid_project_identity v = valid_identity 64 v"

definition valid_database_identity :: "setting \<Rightarrow> bool" where
  "valid_database_identity v = valid_identity 32 v"

record policy_binding =
  bound_project :: setting
  bound_database :: setting

definition require_project_policy_binding :: "string \<Rightarrow> settings \<Rightarrow> policy_binding result" where
  "require_project_policy_binding project s =
     (let stored_project = setting_get s project_key; stored_database = setting_get s database_key in
      if \<not> valid_project_identity stored_project \<or> \<not> valid_database_identity stored_database then
        Inl (AppError ''operator_policy_binding_required''
               ''the project unlock policy is not bound to an authenticated database'')
      else if stored_project \<noteq> SettingText project then
        Inl (AppError ''operator_policy_binding_mismatch''
               ''the project database no longer matches its unlock policy'')
      else Inr \<lparr>bound_project = stored_project, bound_database = stored_database\<rparr>)"

record policy_state =
  ps_project :: string
  ps_binding_state :: string
  ps_stored_database :: setting

definition project_policy_state :: "string \<Rightarrow> settings \<Rightarrow> policy_state" where
  "project_policy_state project s =
     (let stored_project = setting_get s project_key; stored_database = setting_get s database_key in
      if \<not> valid_project_identity stored_project \<or> \<not> valid_database_identity stored_database then
        \<lparr>ps_project = project, ps_binding_state = ''missing'', ps_stored_database = SettingNull\<rparr>
      else if stored_project \<noteq> SettingText project then
        \<lparr>ps_project = project, ps_binding_state = ''mismatch'', ps_stored_database = stored_database\<rparr>
      else \<lparr>ps_project = project, ps_binding_state = ''valid'', ps_stored_database = stored_database\<rparr>)"

text \<open>The mutation \<open>bind_project_policy\<close> runs under the settings lock: binding another project or
  database first drops every permissive key.\<close>

definition bind_mutation ::
  "string \<Rightarrow> string \<Rightarrow> (string \<times> setting) list \<Rightarrow> string list \<Rightarrow> settings \<Rightarrow> settings" where
  "bind_mutation project database updates remove payload =
     (let rebinding = (setting_get payload project_key \<noteq> SettingText project
                       \<or> setting_get payload database_key \<noteq> SettingText database);
          kept = (if rebinding then fold AList.delete permissive_policy_keys payload else payload);
          bound = AList.update database_key (SettingText database)
                    (AList.update project_key (SettingText project) kept)
      in update_settings updates remove bound)"

definition bind_project_policy ::
  "string \<Rightarrow> string \<Rightarrow> string \<Rightarrow> string option \<Rightarrow> (string \<times> setting) list \<Rightarrow> string list \<Rightarrow> settings
     \<Rightarrow> settings \<times> policy_binding result" where
  "bind_project_policy project project_after database expected updates remove s =
     (if \<not> is_identity 32 database then
        (s, Inl (AppError ''invalid_project_database'' ''the authenticated database identity is invalid''))
      else if expected \<noteq> None \<and> expected \<noteq> Some project then
        (s, Inl (AppError ''operator_project_replaced''
                   ''the project changed before its unlock policy could be bound''))
      else let s' = bind_mutation project database updates remove s in
        if project_after \<noteq> project then
          (s', Inl (AppError ''operator_project_replaced''
                      ''the project changed while its unlock policy was being bound''))
        else (s', Inr \<lparr>bound_project = SettingText project, bound_database = SettingText database\<rparr>))"

definition stored_project_policy_database_identity :: "settings \<Rightarrow> setting option" where
  "stored_project_policy_database_identity s =
     (let value = setting_get s database_key in if valid_database_identity value then Some value else None)"

section \<open>Modes\<close>

definition configured_unlock_mode :: "settings \<Rightarrow> string option result" where
  "configured_unlock_mode s =
     (case setting_get s mode_key of
        SettingNull \<Rightarrow> Inr None
      | SettingText m \<Rightarrow>
          if m \<in> set unlock_modes then Inr (Some m)
          else Inl (AppError ''invalid_operator_unlock_mode'' ''the configured operator unlock mode is invalid'')
      | _ \<Rightarrow>
          Inl (AppError ''invalid_operator_unlock_mode'' ''the configured operator unlock mode is invalid''))"

definition binding_error :: "py_error \<Rightarrow> bool" where
  "binding_error e = (case e of
     AppError code _ \<Rightarrow> code \<in> {''operator_policy_binding_required'', ''operator_policy_binding_mismatch''}
   | _ \<Rightarrow> False)"

text \<open>The mode and the binding are two loads of the file in the code; here both see the same settings.\<close>

definition effective_unlock_mode :: "string \<Rightarrow> settings \<Rightarrow> string result" where
  "effective_unlock_mode project s =
     bind_res (configured_unlock_mode s) (\<lambda>configured.
       case configured of
         None \<Rightarrow> Inr ''manual''
       | Some m \<Rightarrow>
           if m \<noteq> ''manual'' then
             (case require_project_policy_binding project s of
                Inl e \<Rightarrow> if binding_error e then Inr ''manual'' else Inl e
              | Inr _ \<Rightarrow> Inr m)
           else Inr m)"

record unlock_status =
  us_configured :: "string option"
  us_effective :: string
  us_legacy_inferred :: bool
  us_binding_state :: string

definition unlock_mode_status :: "string \<Rightarrow> settings \<Rightarrow> unlock_status result" where
  "unlock_mode_status project s =
     bind_res (configured_unlock_mode s) (\<lambda>configured.
     bind_res (case effective_unlock_mode project s of
                 Inl e \<Rightarrow> if binding_error e then Inr ''manual'' else Inl e
               | Inr m \<Rightarrow> Inr m) (\<lambda>effective.
       Inr \<lparr>us_configured = configured, us_effective = effective, us_legacy_inferred = False,
            us_binding_state = ps_binding_state (project_policy_state project s)\<rparr>))"

definition set_unlock_mode ::
  "string \<Rightarrow> string \<Rightarrow> string \<Rightarrow> string option \<Rightarrow> string option \<Rightarrow> settings \<Rightarrow> settings \<times> string result" where
  "set_unlock_mode project project_after mode database expected s =
     (if mode \<notin> set unlock_modes then
        (s, Inl (AppError ''invalid_operator_unlock_mode'' (''unsupported operator unlock mode: '' @ mode)))
      else case database of
        Some db \<Rightarrow>
          (case bind_project_policy project project_after db expected [(mode_key, SettingText mode)] [] s of
             (s', Inl e) \<Rightarrow> (s', Inl e)
           | (s', Inr _) \<Rightarrow> (s', Inr mode))
      | None \<Rightarrow>
          if mode \<noteq> ''manual'' then
            (s, Inl (AppError ''operator_policy_binding_required''
                       ''a reusable unlock mode requires an authenticated database binding''))
          else (update_settings [(mode_key, SettingText mode)] [] s, Inr mode))"

definition remembered_unlock_allowed :: "string \<Rightarrow> settings \<Rightarrow> bool result" where
  "remembered_unlock_allowed project s =
     bind_res (effective_unlock_mode project s) (\<lambda>m. Inr (m = ''unattended''))"

section \<open>Remembered unlock\<close>

definition valid_enrollment_id :: "setting \<Rightarrow> bool" where
  "valid_enrollment_id v = valid_identity 32 v"

definition cli_remembered_unlock_enabled :: "settings \<Rightarrow> bool" where
  "cli_remembered_unlock_enabled s \<longleftrightarrow> setting_get s cli_unlock_key = SettingTrue"

definition cli_remembered_v2_enrolled :: "settings \<Rightarrow> bool" where
  "cli_remembered_v2_enrolled s \<longleftrightarrow>
     setting_get s cli_unlock_key = SettingTrue \<and> stored_project_policy_database_identity s \<noteq> None
     \<and> valid_enrollment_id (setting_get s enrollment_key)"

definition cli_legacy_unlock_quarantined :: "settings \<Rightarrow> bool" where
  "cli_legacy_unlock_quarantined s \<longleftrightarrow> setting_get s quarantine_key = SettingTrue"

text \<open>The updates that switch unattended unlock on, under an enrollment or without one.\<close>

definition enrolled_updates :: "setting \<Rightarrow> (string \<times> setting) list" where
  "enrolled_updates enrollment =
     [(cli_unlock_key, SettingTrue), (enrollment_key, enrollment), (mode_key, SettingText ''unattended'')]"

definition unattended_updates :: "(string \<times> setting) list" where
  "unattended_updates = [(cli_unlock_key, SettingTrue), (mode_key, SettingText ''unattended'')]"

definition quarantine_updates :: "bool \<Rightarrow> (string \<times> setting) list" where
  "quarantine_updates legacy_quarantined = (if legacy_quarantined then [(quarantine_key, SettingTrue)] else [])"

definition quarantine_remove :: "bool \<Rightarrow> string list" where
  "quarantine_remove legacy_quarantined = (if legacy_quarantined then [] else [quarantine_key])"

definition invalid_enrollment :: py_error where
  "invalid_enrollment = AppError ''operator_policy_binding_required'' ''remembered unlock enrollment is invalid''"

definition bind_unattended ::
  "string \<Rightarrow> string \<Rightarrow> string \<Rightarrow> setting \<Rightarrow> string option \<Rightarrow> (string \<times> setting) list \<Rightarrow> string list \<Rightarrow> settings
     \<Rightarrow> settings \<times> unit result" where
  "bind_unattended project project_after database enrollment expected updates remove s =
     (if \<not> valid_enrollment_id enrollment then (s, Inl invalid_enrollment)
      else case bind_project_policy project project_after database expected
                  (enrolled_updates enrollment @ updates) remove s of
             (s', r) \<Rightarrow> (s', bind_res r (\<lambda>_. Inr ())))"

text \<open>\<open>check\<close> is the outcome of \<open>require_project_policy_binding\<close>, an access of its own before
  the write.\<close>

definition set_cli_remembered_unlock_enabled ::
  "string \<Rightarrow> string \<Rightarrow> policy_binding result \<Rightarrow> bool \<Rightarrow> string option \<Rightarrow> setting \<Rightarrow> string option \<Rightarrow> settings
     \<Rightarrow> settings \<times> unit result" where
  "set_cli_remembered_unlock_enabled project project_after check enabled database enrollment expected s =
     (if enabled then
        (case database of
           Some db \<Rightarrow> bind_unattended project project_after db enrollment expected [] [] s
         | None \<Rightarrow>
             (case check of
                Inl e \<Rightarrow> (s, Inl e)
              | Inr _ \<Rightarrow> (update_settings unattended_updates [] s, Inr ())))
      else (update_settings [] [cli_unlock_key] s, Inr ()))"

definition set_cli_unlock_state ::
  "string \<Rightarrow> string \<Rightarrow> policy_binding result \<Rightarrow> bool \<Rightarrow> bool \<Rightarrow> string option \<Rightarrow> setting \<Rightarrow> string option
     \<Rightarrow> settings \<Rightarrow> settings \<times> unit result" where
  "set_cli_unlock_state project project_after check enabled legacy_quarantined database enrollment expected s =
     (if enabled then
        (case database of
           Some db \<Rightarrow> bind_unattended project project_after db enrollment expected
                        (quarantine_updates legacy_quarantined) (quarantine_remove legacy_quarantined) s
         | None \<Rightarrow>
             (case check of
                Inl e \<Rightarrow> (s, Inl e)
              | Inr _ \<Rightarrow> (update_settings (unattended_updates @ quarantine_updates legacy_quarantined)
                            (quarantine_remove legacy_quarantined) s, Inr ())))
      else (update_settings (quarantine_updates legacy_quarantined)
              (cli_unlock_key # quarantine_remove legacy_quarantined) s, Inr ()))"

definition enable_remembered_unlock_authenticated ::
  "string \<Rightarrow> string \<Rightarrow> string \<Rightarrow> setting \<Rightarrow> string \<Rightarrow> settings \<Rightarrow> settings \<times> unit result" where
  "enable_remembered_unlock_authenticated project project_after database enrollment expected s =
     bind_unattended project project_after database enrollment (Some expected) [] [quarantine_key] s"

definition disable_remembered_unlock :: "bool \<Rightarrow> settings \<Rightarrow> settings" where
  "disable_remembered_unlock legacy_quarantined s =
     update_settings ((mode_key, SettingText ''manual'') # quarantine_updates legacy_quarantined)
       ([cli_unlock_key, enrollment_key] @ quarantine_remove legacy_quarantined) s"

section \<open>The settings over time\<close>

text \<open>
  A history of the settings file. Every access to the file that writes is one step, since it
  holds the settings lock; what a caller read before it (the project identity, the checked
  binding) was read at any earlier moment. Four ghost components record the history:

  \<^item> \<open>pw_bound\<close>: every project and database identity for which \<open>bind_project_policy\<close> wrote a
    binding, which its callers do after an authenticated open of the database;
  \<^item> \<open>pw_granted\<close>: every mode written under a binding, with that binding: together with the
    binding, or after a check that saw the binding that is still stored at the write;
  \<^item> \<open>pw_checked\<close>: every binding a separate check has accepted;
  \<^item> \<open>pw_overtaken\<close>: the binding that was stored when a mode was written after a check that
    had seen another one.
\<close>

record policy_world =
  pw_settings :: settings
  pw_project :: string
  pw_bound :: "(string \<times> string) set"
  pw_granted :: "(string \<times> string \<times> string) set"
  pw_checked :: "policy_binding set"
  pw_overtaken :: "policy_binding set"

definition policy_keys :: "string set" where
  "policy_keys = {mode_key, project_key, database_key}"

definition stored_binding :: "settings \<Rightarrow> policy_binding" where
  "stored_binding s = \<lparr>bound_project = setting_get s project_key, bound_database = setting_get s database_key\<rparr>"

text \<open>The bindings a call of \<open>bind_project_policy\<close> writes: none when it raises before the write.\<close>

definition bindings_made :: "string \<Rightarrow> string option \<Rightarrow> string option \<Rightarrow> (string \<times> string) set" where
  "bindings_made project database expected =
     (case database of
        None \<Rightarrow> {}
      | Some db \<Rightarrow> if is_identity 32 db \<and> (expected = None \<or> expected = Some project) then {(project, db)} else {})"

definition log_bound :: "(string \<times> string) set \<Rightarrow> policy_world \<Rightarrow> policy_world" where
  "log_bound B w = w\<lparr>pw_bound := pw_bound w \<union> B\<rparr>"

definition log_granted :: "string \<Rightarrow> (string \<times> string) set \<Rightarrow> policy_world \<Rightarrow> policy_world" where
  "log_granted mode B w = w\<lparr>pw_bound := pw_bound w \<union> B, pw_granted := pw_granted w \<union> (\<lambda>(p, d). (p, d, mode)) ` B\<rparr>"

definition log_checked_write :: "policy_binding \<Rightarrow> policy_world \<Rightarrow> policy_world" where
  "log_checked_write b w =
     (if b = stored_binding (pw_settings w)
      then w\<lparr>pw_granted := pw_granted w \<union>
               (case (bound_project b, bound_database b) of
                  (SettingText p, SettingText d) \<Rightarrow> {(p, d, ''unattended'')}
                | _ \<Rightarrow> {})\<rparr>
      else w\<lparr>pw_overtaken := insert (stored_binding (pw_settings w)) (pw_overtaken w)\<rparr>)"

definition log_enable ::
  "string \<Rightarrow> policy_binding result \<Rightarrow> bool \<Rightarrow> string option \<Rightarrow> setting \<Rightarrow> string option \<Rightarrow> policy_world
     \<Rightarrow> policy_world" where
  "log_enable project check enabled database enrollment expected w =
     (if \<not> enabled then w
      else if database \<noteq> None then
        (if valid_enrollment_id enrollment
         then log_granted ''unattended'' (bindings_made project database expected) w else w)
      else case check of Inl _ \<Rightarrow> w | Inr b \<Rightarrow> log_checked_write b w)"

definition known_check :: "policy_binding result \<Rightarrow> policy_world \<Rightarrow> bool" where
  "known_check check w = (case check of Inl _ \<Rightarrow> True | Inr b \<Rightarrow> b \<in> pw_checked w)"

text \<open>
  The writers of the settings file. \<open>rebind\<close> is \<open>bind_project_policy\<close> as the broker calls it,
  without a mode; \<open>write_other\<close> stands for the writers that set none of the three policy keys
  (\<open>ensure_settings_file\<close>, the desktop's stale marker, the native-authentication generation),
  whatever they remove.
\<close>

inductive policy_step :: "policy_world \<Rightarrow> policy_world \<Rightarrow> bool" where
  set_mode:
    "set_unlock_mode project project_after mode database expected (pw_settings w) = (s', r) \<Longrightarrow>
     policy_step w ((if mode \<in> set unlock_modes
                     then log_granted mode (bindings_made project database expected) w else w)\<lparr>pw_settings := s'\<rparr>)"
| set_marker:
    "set_cli_remembered_unlock_enabled project project_after check enabled database enrollment expected
       (pw_settings w) = (s', r) \<Longrightarrow> known_check check w \<Longrightarrow>
     policy_step w ((log_enable project check enabled database enrollment expected w)\<lparr>pw_settings := s'\<rparr>)"
| set_state:
    "set_cli_unlock_state project project_after check enabled legacy database enrollment expected
       (pw_settings w) = (s', r) \<Longrightarrow> known_check check w \<Longrightarrow>
     policy_step w ((log_enable project check enabled database enrollment expected w)\<lparr>pw_settings := s'\<rparr>)"
| enable:
    "enable_remembered_unlock_authenticated project project_after db enrollment expected (pw_settings w) = (s', r) \<Longrightarrow>
     policy_step w ((log_enable project check True (Some db) enrollment (Some expected) w)\<lparr>pw_settings := s'\<rparr>)"
| disable:
    "policy_step w (w\<lparr>pw_settings := disable_remembered_unlock legacy (pw_settings w)\<rparr>)"
| check:
    "require_project_policy_binding project (pw_settings w) = Inr b \<Longrightarrow>
     policy_step w (w\<lparr>pw_checked := insert b (pw_checked w)\<rparr>)"
| rebind:
    "fst ` set updates \<inter> policy_keys = {} \<Longrightarrow>
     bind_project_policy project project_after db expected updates remove (pw_settings w) = (s', r) \<Longrightarrow>
     policy_step w ((log_bound (bindings_made project (Some db) expected) w)\<lparr>pw_settings := s'\<rparr>)"
| write_other:
    "fst ` set updates \<inter> policy_keys = {} \<Longrightarrow>
     policy_step w (w\<lparr>pw_settings := update_settings updates remove (pw_settings w)\<rparr>)"
| replace_project:
    "policy_step w (w\<lparr>pw_project := project\<rparr>)"

text \<open>A settings file starts without a binding, whatever mode an older version left in it. Restoring
  a backup or copying a project replaces the whole file by one with a history of its own, beside
  a database that may be any.\<close>

definition fresh_world :: "settings \<Rightarrow> string \<Rightarrow> policy_world" where
  "fresh_world s project =
     \<lparr>pw_settings = s, pw_project = project, pw_bound = {}, pw_granted = {}, pw_checked = {}, pw_overtaken = {}\<rparr>"

definition restored_world :: "policy_world \<Rightarrow> string \<Rightarrow> policy_world \<Rightarrow> policy_world" where
  "restored_world v project w =
     \<lparr>pw_settings = pw_settings v, pw_project = project, pw_bound = pw_bound w \<union> pw_bound v,
      pw_granted = pw_granted w \<union> pw_granted v, pw_checked = pw_checked w \<union> pw_checked v,
      pw_overtaken = pw_overtaken w \<union> pw_overtaken v\<rparr>"

inductive policy_reachable :: "policy_world \<Rightarrow> bool" where
  fresh: "setting_get s project_key = SettingNull \<or> setting_get s database_key = SettingNull \<Longrightarrow>
    policy_reachable (fresh_world s project)"
| step: "policy_reachable w \<Longrightarrow> policy_step w w' \<Longrightarrow> policy_reachable w'"
| restore: "policy_reachable w \<Longrightarrow> policy_reachable v \<Longrightarrow> policy_reachable (restored_world v project w)"

section \<open>Reading what was written\<close>

lemma setting_get_update: "setting_get (AList.update k v s) k' = (if k' = k then v else setting_get s k')"
  by (simp add: setting_get_def dict_get_update)

lemma setting_get_delete: "setting_get (AList.delete k s) k' = (if k' = k then SettingNull else setting_get s k')"
  by (auto simp: setting_get_def dict_get_def delete_conv')

lemma setting_get_deletes:
  "setting_get (fold AList.delete ks s) k = (if k \<in> set ks then SettingNull else setting_get s k)"
  by (induction ks arbitrary: s) (auto simp: setting_get_delete)

lemma setting_get_updates_other:
  "k \<notin> fst ` set updates \<Longrightarrow> setting_get (fold (\<lambda>(k, v). AList.update k v) updates s) k = setting_get s k"
  by (induction updates arbitrary: s) (auto simp: setting_get_update)

lemma update_settings_other:
  "k \<notin> fst ` set updates \<Longrightarrow>
     setting_get (update_settings updates remove s) k = (if k \<in> set remove then SettingNull else setting_get s k)"
  by (simp add: update_settings_def setting_get_deletes setting_get_updates_other)



lemma keys_distinct [simp]:
  "mode_key \<noteq> project_key" "mode_key \<noteq> database_key" "project_key \<noteq> database_key"
  "project_key \<noteq> mode_key" "database_key \<noteq> mode_key" "database_key \<noteq> project_key"
  "mode_key \<in> set permissive_policy_keys" "project_key \<notin> set permissive_policy_keys"
  "database_key \<notin> set permissive_policy_keys"
  by (simp_all add: mode_key_def project_key_def database_key_def permissive_policy_keys_def
      cli_unlock_key_def enrollment_key_def)

text \<open>The updates of every writer, as far as the policy keys go.\<close>

definition mode_updates :: "(string \<times> setting) list \<Rightarrow> string \<Rightarrow> bool" where
  "mode_updates updates m \<longleftrightarrow>
     (\<forall>(k, v) \<in> set updates. k \<noteq> project_key \<and> k \<noteq> database_key \<and> (k = mode_key \<longrightarrow> v = SettingText m))"

lemma mode_updates_writers [simp]:
  "mode_updates ((mode_key, SettingText m) # xs) m \<longleftrightarrow> mode_updates xs m"
  "mode_updates (enrolled_updates enrollment) ''unattended''"
  "mode_updates unattended_updates ''unattended''"
  "mode_updates (quarantine_updates legacy) m"
  "mode_updates (xs @ ys) m \<longleftrightarrow> mode_updates xs m \<and> mode_updates ys m"
  "mode_updates [] m"
  by (auto simp: mode_updates_def enrolled_updates_def unattended_updates_def quarantine_updates_def
      cli_unlock_key_def enrollment_key_def quarantine_key_def mode_key_def project_key_def database_key_def)


section \<open>The invariant of the history\<close>











section \<open>Every writer keeps it\<close>










section \<open>Properties\<close>


text \<open>Enrolling remembered unlock for project \<open>a..a\<close> makes the unattended mode effective there.\<close>

definition sample_project :: string where "sample_project = replicate 64 (CHR ''a'')"
definition sample_database :: string where "sample_database = replicate 32 (CHR ''b'')"



text \<open>
  The exception is real: the check and the write of the two operations are separate accesses.
  When the policy is bound to another database in between, the unattended mode takes effect
  for a database it was never granted for.
\<close>

definition other_database :: string where "other_database = replicate 32 (CHR ''c'')"

definition bound_settings :: "string \<Rightarrow> settings \<Rightarrow> settings" where
  "bound_settings database s = fst (bind_project_policy sample_project sample_project database None [] [] s)"

lemma rebind_step:
  "is_identity 32 database \<Longrightarrow>
   policy_step w (w\<lparr>pw_bound := pw_bound w \<union> {(sample_project, database)},
                     pw_settings := bound_settings database (pw_settings w)\<rparr>)"
  using policy_step.rebind [of "[]" sample_project sample_project database None "[]" w]
  by (simp add: bound_settings_def log_bound_def bindings_made_def prod_eq_iff)

lemma overtaken_check_grants_nothing:
  "\<exists>w. policy_reachable w \<and> pw_granted w = {}
     \<and> effective_unlock_mode (pw_project w) (pw_settings w) = Inr ''unattended''"
proof -
  let ?s1 = "bound_settings sample_database []"
  let ?s2 = "bound_settings other_database ?s1"
  let ?s3 = "update_settings unattended_updates [] ?s2"
  let ?w0 = "fresh_world [] sample_project"
  let ?w1 = "?w0\<lparr>pw_bound := {(sample_project, sample_database)}, pw_settings := ?s1\<rparr>"
  let ?w2 = "?w1\<lparr>pw_checked := {stored_binding ?s1}\<rparr>"
  let ?w3 = "?w2\<lparr>pw_bound := {(sample_project, sample_database), (sample_project, other_database)}, pw_settings := ?s2\<rparr>"
  let ?w4 = "?w3\<lparr>pw_overtaken := {stored_binding ?s2}, pw_settings := ?s3\<rparr>"
  have id: "is_identity 32 sample_database" "is_identity 32 other_database" by code_simp+
  have r0: "policy_reachable ?w0" by (rule policy_reachable.fresh) (simp add: setting_get_def dict_get_def)
  have r1: "policy_reachable ?w1"
    using policy_reachable.step [OF r0 rebind_step [OF id(1)]] by (simp add: fresh_world_def)
  have "require_project_policy_binding sample_project ?s1 = Inr (stored_binding ?s1)" by code_simp
  then have r2: "policy_reachable ?w2"
    using policy_reachable.step [OF r1 policy_step.check [of sample_project ?w1]] by (simp add: fresh_world_def)
  have r3: "policy_reachable ?w3"
    using policy_reachable.step [OF r2 rebind_step [OF id(2)]] by (simp add: fresh_world_def insert_commute)
  have differ: "stored_binding ?s1 \<noteq> stored_binding ?s2" by code_simp
  have "policy_step ?w3 ?w4"
    using policy_step.set_marker [of sample_project sample_project "Inr (stored_binding ?s1)" True None SettingNull
        None ?w3 ?s3 "Inr ()"] differ
    by (simp add: set_cli_remembered_unlock_enabled_def known_check_def log_enable_def log_checked_write_def
        fresh_world_def)
  with r3 have "policy_reachable ?w4" by (rule policy_reachable.step)
  moreover have "effective_unlock_mode sample_project ?s3 = Inr ''unattended''" by code_simp
  ultimately show ?thesis by (intro exI [of _ ?w4]) (simp add: fresh_world_def)
qed

text \<open>
  Enrolling remembered unlock and disabling it. A successful enrollment leaves a marker the
  clean-up can address and, for the project it named, remembered credentials allowed; after
  disabling, no project may use them whatever the file held before, and a retained legacy item
  is quarantined exactly when asked.
\<close>

lemma bind_mutation_written:
  assumes "project_key \<notin> set remove" and "database_key \<notin> set remove"
    and "project_key \<notin> fst ` set updates" and "database_key \<notin> fst ` set updates"
  shows "setting_get (bind_mutation project db updates remove s) project_key = SettingText project"
    and "setting_get (bind_mutation project db updates remove s) database_key = SettingText db"
  using assms by (simp_all add: bind_mutation_def Let_def update_settings_other setting_get_update)

theorem remembered_unlock_switches:
  shows "enable_remembered_unlock_authenticated project project_after db enrollment expected s = (s', Inr ()) \<Longrightarrow>
      is_identity 64 project \<Longrightarrow>
      cli_remembered_v2_enrolled s' \<and> \<not> cli_legacy_unlock_quarantined s'
      \<and> remembered_unlock_allowed project s' = Inr True"
    and "\<not> cli_remembered_unlock_enabled (disable_remembered_unlock legacy s)
      \<and> (cli_legacy_unlock_quarantined (disable_remembered_unlock legacy s) \<longleftrightarrow> legacy)
      \<and> remembered_unlock_allowed project (disable_remembered_unlock legacy s) = Inr False"
proof -
  note keys = cli_unlock_key_def enrollment_key_def quarantine_key_def mode_key_def project_key_def database_key_def
  assume en: "enable_remembered_unlock_authenticated project project_after db enrollment expected s = (s', Inr ())"
    and project: "is_identity 64 project"
  then have db: "is_identity 32 db" "valid_enrollment_id enrollment"
    and s': "s' = bind_mutation project db (enrolled_updates enrollment) [quarantine_key] s"
    by (auto simp: enable_remembered_unlock_authenticated_def bind_unattended_def bind_project_policy_def Let_def
        result_simps split: if_splits)
  have "setting_get s' project_key = SettingText project" "setting_get s' database_key = SettingText db"
    unfolding s' by (rule bind_mutation_written; simp add: enrolled_updates_def keys)+
  moreover have "setting_get s' mode_key = SettingText ''unattended''" "setting_get s' cli_unlock_key = SettingTrue"
    "setting_get s' enrollment_key = enrollment" "setting_get s' quarantine_key = SettingNull"
    unfolding s' bind_mutation_def Let_def update_settings_def enrolled_updates_def
    by (simp_all add: setting_get_update setting_get_delete) (simp_all add: keys)
  ultimately show "cli_remembered_v2_enrolled s' \<and> \<not> cli_legacy_unlock_quarantined s'
      \<and> remembered_unlock_allowed project s' = Inr True"
    using db project
    by (simp add: cli_remembered_v2_enrolled_def cli_legacy_unlock_quarantined_def remembered_unlock_allowed_def
        effective_unlock_mode_def configured_unlock_mode_def require_project_policy_binding_def
        stored_project_policy_database_identity_def valid_project_identity_def valid_database_identity_def
        valid_identity_def unlock_modes_def Let_def)
next
  let ?s = "disable_remembered_unlock legacy s"
  have "setting_get ?s mode_key = SettingText ''manual''" "setting_get ?s cli_unlock_key = SettingNull"
    "setting_get ?s quarantine_key = (if legacy then SettingTrue else SettingNull)"
    by (auto simp: disable_remembered_unlock_def update_settings_def quarantine_updates_def quarantine_remove_def
        setting_get_update setting_get_delete cli_unlock_key_def enrollment_key_def quarantine_key_def mode_key_def)
  then show "\<not> cli_remembered_unlock_enabled ?s \<and> (cli_legacy_unlock_quarantined ?s \<longleftrightarrow> legacy)
      \<and> remembered_unlock_allowed project ?s = Inr False"
    by (simp add: cli_remembered_unlock_enabled_def cli_legacy_unlock_quarantined_def remembered_unlock_allowed_def
        effective_unlock_mode_def configured_unlock_mode_def unlock_modes_def)
qed

text \<open>
  The status report agrees with what takes effect. It fails only on a malformed configured
  mode, its effective mode is the one the unlock paths use, and it is reusable only while the
  reported binding is valid.
\<close>

theorem unlock_status_consistent:
  "case unlock_mode_status project s of
     Inl e \<Rightarrow> configured_unlock_mode s = Inl e \<and> effective_unlock_mode project s = Inl e
   | Inr st \<Rightarrow> effective_unlock_mode project s = Inr (us_effective st)
       \<and> configured_unlock_mode s = Inr (us_configured st)
       \<and> us_effective st = (if us_binding_state st = ''valid'' \<and> us_configured st \<noteq> None
                            then the (us_configured st) else ''manual'')"
proof -
  have "require_project_policy_binding project s = Inr b \<Longrightarrow>
      ps_binding_state (project_policy_state project s) = ''valid''" for b
    by (auto simp: require_project_policy_binding_def project_policy_state_def Let_def split: if_splits)
  moreover have "require_project_policy_binding project s = Inl e \<Longrightarrow>
      binding_error e \<and> ps_binding_state (project_policy_state project s) \<noteq> ''valid''" for e
    by (auto simp: require_project_policy_binding_def project_policy_state_def Let_def binding_error_def
        split: if_splits)
  ultimately show ?thesis
    by (cases "configured_unlock_mode s"; cases "require_project_policy_binding project s")
      (auto simp: unlock_mode_status_def effective_unlock_mode_def split: option.splits)
qed

end
