(* ===== verification/Chronology.thy ===== *)
theory Chronology
  imports Prelude
begin

text \<open>
  The order of transfers that carry one timestamp (\<open>order_same_time_transfers\<close> of
  \<open>kassiber/core/transfer_chronology.py\<close>): observed chain dependencies are hard edges, wallet
  hints are added where they do not contradict them, and a topological sort with the original
  order as tie-break lists the result. A Python set of successors is a list without
  repetition; the code only tests, counts and sorts its elements.
\<close>

section \<open>Data\<close>

type_synonym chain_scope = "string \<times> string \<times> string \<times> string"

record chain_order_evidence =
  ev_scope :: chain_scope
  ev_parents :: "chain_scope list"

text \<open>A transfer as the code reads it: \<open>out_row["custody_chain_order"]\<close> and the two wallets.\<close>

record chain_transfer =
  tr_evidence :: "chain_order_evidence option"
  tr_from_wallet_id :: string
  tr_to_wallet_id :: string

type_synonym transfer_item = "int \<times> string \<times> string"
type_synonym successors = "(string, string list) dict"

definition succs :: "successors \<Rightarrow> string \<Rightarrow> string list" where
  "succs g v = dict_get g v []"

definition add_successor :: "string \<Rightarrow> string \<Rightarrow> successors \<Rightarrow> successors" where
  "add_successor s t g = (if t \<in> set (succs g s) then g else AList.update s (succs g s @ [t]) g)"

definition transfer_of :: "(string, chain_transfer) dict \<Rightarrow> string \<Rightarrow> chain_transfer" where
  "transfer_of transfers i = the (map_of transfers i)"

section \<open>Hard edges\<close>

definition chain_dependency :: "(string, chain_transfer) dict \<Rightarrow> string \<Rightarrow> string \<Rightarrow> bool" where
  "chain_dependency transfers s t \<longleftrightarrow>
     (case (tr_evidence (transfer_of transfers s), tr_evidence (transfer_of transfers t)) of
        (Some source, Some target) \<Rightarrow> s \<noteq> t \<and> ev_scope source \<in> set (ev_parents target)
      | _ \<Rightarrow> False)"

definition hard_graph :: "(string, chain_transfer) dict \<Rightarrow> string list \<Rightarrow> successors" where
  "hard_graph transfers ids =
     fold (\<lambda>(s, t) g. if chain_dependency transfers s t then add_successor s t g else g)
       (List.product ids ids) (map (\<lambda>i. (i, [])) (remdups ids))"

section \<open>Searches\<close>

definition search_space :: "successors \<Rightarrow> string list \<Rightarrow> string list \<Rightarrow> string set" where
  "search_space g pending visited = (set pending \<union> \<Union> (set ` snd ` set g)) - set visited"

lemma succs_subset: "set (succs g v) \<subseteq> \<Union> (set ` snd ` set g)"
  by (cases "map_of g v") (force simp: succs_def dict_get_def dest: map_of_SomeD)+

lemma search_space_pop: "card (search_space g rest visited) \<le> card (search_space g (v # rest) visited)"
  by (rule card_mono) (auto simp: search_space_def)

lemma search_space_visit:
  assumes "v \<notin> set visited"
  shows "card (search_space g (rev (succs g v) @ rest) (v # visited)) < card (search_space g (v # rest) visited)"
proof (rule psubset_card_mono)
  show "finite (search_space g (v # rest) visited)" by (simp add: search_space_def)
  show "search_space g (rev (succs g v) @ rest) (v # visited) \<subset> search_space g (v # rest) visited"
    using assms succs_subset [of g v] by (auto simp: search_space_def)
qed

text \<open>The end of \<open>pending\<close> is the head of the list: \<open>pop()\<close> takes it, \<open>extend\<close> adds in front.\<close>

function descend :: "successors \<Rightarrow> string list \<Rightarrow> string list \<Rightarrow> string list" where
  "descend g pending visited =
     (case pending of
        [] \<Rightarrow> visited
      | v # rest \<Rightarrow>
          if v \<in> set visited then descend g rest visited
          else descend g (rev (succs g v) @ rest) (v # visited))"
  by pat_completeness auto
termination
  by (relation "measures [\<lambda>(g, pending, visited). card (search_space g pending visited), \<lambda>(g, pending, visited). length pending]")
    (auto simp: search_space_visit le_neq_implies_less search_space_pop)

function reach_loop :: "successors \<Rightarrow> string \<Rightarrow> string list \<Rightarrow> string list \<Rightarrow> bool" where
  "reach_loop g end pending visited =
     (case pending of
        [] \<Rightarrow> False
      | v # rest \<Rightarrow>
          if v = end then True
          else if v \<in> set visited then reach_loop g end rest visited
          else reach_loop g end (rev (succs g v) @ rest) (v # visited))"
  by pat_completeness auto
termination
  by (relation "measures [\<lambda>(g, e, pending, visited). card (search_space g pending visited), \<lambda>(g, e, pending, visited). length pending]")
    (auto simp: search_space_visit le_neq_implies_less search_space_pop)

declare descend.simps [simp del] reach_loop.simps [simp del]

definition reaches :: "successors \<Rightarrow> string \<Rightarrow> string \<Rightarrow> bool" where
  "reaches g s e = reach_loop g e [s] []"

definition hard_descendants :: "successors \<Rightarrow> string \<Rightarrow> string list" where
  "hard_descendants g i = descend g (rev (succs g i)) []"

section \<open>Wallet hints\<close>

definition wallet_hint :: "(string, chain_transfer) dict \<Rightarrow> string \<Rightarrow> string \<Rightarrow> bool" where
  "wallet_hint transfers s t \<longleftrightarrow>
     \<not> (case (tr_evidence (transfer_of transfers s), tr_evidence (transfer_of transfers t)) of
          (Some source, Some target) \<Rightarrow> ev_scope source = ev_scope target | _ \<Rightarrow> False)
     \<and> s \<noteq> t \<and> tr_to_wallet_id (transfer_of transfers s) = tr_from_wallet_id (transfer_of transfers t)"

definition hint_allowed :: "successors \<Rightarrow> bool \<Rightarrow> successors \<Rightarrow> string \<Rightarrow> string \<Rightarrow> bool" where
  "hint_allowed hard has_chain g s t \<longleftrightarrow>
     \<not> has_chain
     \<or> \<not> (t \<in> set (hard_descendants hard s) \<or> s \<in> set (hard_descendants hard t)) \<and> \<not> reaches g t s"

definition has_dependencies :: "successors \<Rightarrow> bool" where
  "has_dependencies g \<longleftrightarrow> (\<exists>(_, ts) \<in> set g. ts \<noteq> [])"

definition full_graph :: "(string, chain_transfer) dict \<Rightarrow> string list \<Rightarrow> successors" where
  "full_graph transfers ids =
     (let hard = hard_graph transfers ids; has_chain = has_dependencies hard in
      fold (\<lambda>(s, t) g. if wallet_hint transfers s t \<and> hint_allowed hard has_chain g s t
                       then add_successor s t g else g)
        (List.product ids ids) hard)"

section \<open>The topological sort\<close>

definition initial_incoming :: "successors \<Rightarrow> string list \<Rightarrow> (string, int) dict" where
  "initial_incoming g ids =
     fold (\<lambda>t d. AList.update t (dict_get d t 0 + 1) d) (concat (map snd g)) (map (\<lambda>i. (i, 0)) (remdups ids))"

definition release :: "string \<Rightarrow> (string, int) dict \<times> string list \<Rightarrow> (string, int) dict \<times> string list" where
  "release t = (\<lambda>(incoming, ready).
     let left = dict_get incoming t 0 - 1
     in (AList.update t left incoming, if left = 0 then ready @ [t] else ready))"

definition blocked :: "(string, int) dict \<Rightarrow> nat" where
  "blocked incoming = card {t. 0 < dict_get incoming t 0}"

lemma blocked_finite: "finite {t. 0 < dict_get incoming t (0 :: int)}"
proof (rule finite_subset)
  show "{t. 0 < dict_get incoming t (0 :: int)} \<subseteq> fst ` set incoming"
    by (force simp: dict_get_def split: option.splits dest: map_of_SomeD)
qed simp

lemma release_measure:
  "release t (incoming, ready) = (incoming', ready') \<Longrightarrow>
     length ready' + blocked incoming' \<le> length ready + blocked incoming"
proof -
  assume r: "release t (incoming, ready) = (incoming', ready')"
  let ?left = "dict_get incoming t 0 - 1"
  have inc: "incoming' = AList.update t ?left incoming" "ready' = (if ?left = 0 then ready @ [t] else ready)"
    using r by (simp_all add: release_def Let_def)
  have sub: "{u. 0 < dict_get incoming' u 0} \<subseteq> {u. 0 < dict_get incoming u 0} - (if ?left = 0 then {t} else {})"
    by (auto simp: inc dict_get_update split: if_splits)
  show ?thesis
  proof (cases "?left = 0")
    case True
    have "card {u. 0 < dict_get incoming' u 0} \<le> card ({u. 0 < dict_get incoming u 0} - {t})"
      using sub True by (intro card_mono) (simp_all add: blocked_finite)
    moreover have "t \<in> {u. 0 < dict_get incoming u 0}" using True by simp
    then have "Suc (card ({u. 0 < dict_get incoming u 0} - {t})) = card {u. 0 < dict_get incoming u 0}"
      by (intro card_Suc_Diff1 blocked_finite)
    ultimately show ?thesis using True by (simp add: blocked_def inc(2))
  next
    case False
    then show ?thesis using sub card_mono [OF blocked_finite, of _ incoming] by (simp add: blocked_def inc(2))
  qed
qed

lemma release_fold_measure:
  "fold release ts (incoming, ready) = (incoming', ready') \<Longrightarrow>
     length ready' + blocked incoming' \<le> length ready + blocked incoming"
proof (induction ts arbitrary: incoming ready)
  case (Cons t ts)
  obtain i r where ir: "release t (incoming, ready) = (i, r)" by (cases "release t (incoming, ready)")
  then show ?case using Cons.IH [of i r] Cons.prems release_measure [OF ir] by simp
qed simp

function kahn_loop ::
  "successors \<Rightarrow> (string \<Rightarrow> int) \<Rightarrow> (string, int) dict \<Rightarrow> string list \<Rightarrow> string list \<Rightarrow> string list" where
  "kahn_loop g rank incoming ready ordered =
     (case ready of
        [] \<Rightarrow> ordered
      | i # rest \<Rightarrow>
          case fold release (sort_key rank (succs g i)) (incoming, rest) of
            (incoming', ready') \<Rightarrow> kahn_loop g rank incoming' (sort_key rank ready') (ordered @ [i]))"
  by pat_completeness auto
termination
  apply (relation "measure (\<lambda>(g, rank, incoming, ready, ordered). length ready + blocked incoming)")
  apply simp
  subgoal for g rank incoming ready ordered i rest incoming' ready'
    using release_fold_measure [of "sort_key rank (succs g i)" incoming rest incoming' ready'] by simp
  done

declare kahn_loop.simps [simp del]

text \<open>\<open>original_order = {ident: index ...}\<close>: the last item of an ident counts.\<close>

definition original_order :: "transfer_item list \<Rightarrow> string \<Rightarrow> int" where
  "original_order items i =
     dict_get (fold (\<lambda>(index, _, ident) d. AList.update ident index d) items []) i 0"

definition order_same_time_transfers ::
  "transfer_item list \<Rightarrow> (string, chain_transfer) dict \<Rightarrow> (string \<times> string) list result" where
  "order_same_time_transfers items transfers =
     (let ids = map (snd \<circ> snd) items in
      case List.find (\<lambda>i. map_of transfers i = None) ids of
        Some i \<Rightarrow> Inl (KeyError i)
      | None \<Rightarrow>
          let g = full_graph transfers ids;
              rank = original_order items;
              incoming = initial_incoming g ids;
              ready = sort_key rank (filter (\<lambda>i. dict_get incoming i 0 = 0) ids);
              ordered = kahn_loop g rank incoming ready []
          in Inr (if length ordered \<noteq> length ids then map snd (sort items)
                  else map (\<lambda>i. (''transfer'', i)) ordered))"

section \<open>The edges of a graph\<close>

definition edges :: "successors \<Rightarrow> (string \<times> string) set" where
  "edges g = {(s, t). t \<in> set (succs g s)}"

text \<open>Keys without repetition, successors without repetition and among the given ids.\<close>

definition good_graph :: "string list \<Rightarrow> successors \<Rightarrow> bool" where
  "good_graph ids g \<longleftrightarrow>
     distinct (map fst g) \<and> (\<forall>v. distinct (succs g v)) \<and> edges g \<subseteq> set ids \<times> set ids"

lemma succs_add:
  "succs (add_successor s t g) v =
     (if v = s \<and> t \<notin> set (succs g s) then succs g s @ [t] else succs g v)"
  by (auto simp: add_successor_def succs_def dict_get_update)

lemma edges_add: "edges (add_successor s t g) = insert (s, t) (edges g)"
  by (auto simp: edges_def succs_add split: if_splits)

lemma good_graph_add:
  "good_graph ids g \<Longrightarrow> s \<in> set ids \<Longrightarrow> t \<in> set ids \<Longrightarrow> good_graph ids (add_successor s t g)"
  by (auto simp: good_graph_def succs_add edges_add) (simp add: add_successor_def distinct_update)

lemma start_graph:
  "edges (map (\<lambda>i. (i, [])) (remdups ids)) = {}" "good_graph ids (map (\<lambda>i. (i, [])) (remdups ids))"
proof -
  have none: "succs (map (\<lambda>i. (i, [])) xs) v = []" for xs v
    by (induction xs) (auto simp: succs_def dict_get_def)
  then show "edges (map (\<lambda>i. (i, [])) (remdups ids)) = {}" by (simp add: edges_def)
  then show "good_graph ids (map (\<lambda>i. (i, [])) (remdups ids))" by (simp add: good_graph_def none comp_def)
qed

text \<open>Adding the edges that pass a test, which may depend on the graph built so far.\<close>

lemma add_edges_fold:
  fixes P :: "successors \<Rightarrow> string \<Rightarrow> string \<Rightarrow> bool"
  assumes "good_graph ids g" and "set ps \<subseteq> set ids \<times> set ids" and "Q g"
    and "\<And>g s t. Q g \<Longrightarrow> P g s t \<Longrightarrow> Q (add_successor s t g)"
  defines "r \<equiv> fold (\<lambda>(s, t) g. if P g s t then add_successor s t g else g) ps g"
  shows "good_graph ids r \<and> Q r \<and> edges g \<subseteq> edges r"
  using assms(1-3) unfolding r_def
proof (induction ps arbitrary: g)
  case (Cons p ps)
  obtain s t where p: "p = (s, t)" by (cases p)
  have st: "s \<in> set ids" "t \<in> set ids" using Cons.prems(2) by (auto simp: p)
  show ?case
  proof (cases "P g s t")
    case True
    then show ?thesis
      using Cons.IH [of "add_successor s t g"] Cons.prems good_graph_add [OF Cons.prems(1) st] assms(4) [of g s t]
      by (auto simp: p edges_add)
  next
    case False
    then show ?thesis using Cons.IH [of g] Cons.prems by (simp add: p)
  qed
qed simp

lemma hard_graph_edges:
  "good_graph ids (hard_graph transfers ids)"
  "edges (hard_graph transfers ids) = {(s, t). s \<in> set ids \<and> t \<in> set ids \<and> chain_dependency transfers s t}"
proof -
  have "good_graph ids (fold (\<lambda>(s, t) g. if chain_dependency transfers s t then add_successor s t g else g) ps g)
      \<and> edges (fold (\<lambda>(s, t) g. if chain_dependency transfers s t then add_successor s t g else g) ps g)
        = edges g \<union> {p \<in> set ps. chain_dependency transfers (fst p) (snd p)}"
    if "good_graph ids g" "set ps \<subseteq> set ids \<times> set ids" for ps g
    using that
  proof (induction ps arbitrary: g)
    case (Cons p ps)
    then show ?case using good_graph_add [of ids g "fst p" "snd p"]
      by (auto simp: case_prod_beta edges_add)
  qed simp
  from this [OF start_graph(2), of "List.product ids ids"]
  have r: "good_graph ids (hard_graph transfers ids)"
    "edges (hard_graph transfers ids) = {p \<in> set ids \<times> set ids. chain_dependency transfers (fst p) (snd p)}"
    unfolding hard_graph_def start_graph(1) by simp_all
  show "good_graph ids (hard_graph transfers ids)" by (rule r(1))
  show "edges (hard_graph transfers ids) = {(s, t). s \<in> set ids \<and> t \<in> set ids \<and> chain_dependency transfers s t}"
    unfolding r(2) by auto
qed

section \<open>The search decides reachability\<close>

text \<open>A path that leaves a set through its frontier.\<close>

lemma path_exit:
  assumes "(c, e) \<in> E\<^sup>*" and "c \<in> A" and "e \<notin> A" and "E `` A \<subseteq> A \<union> P"
  shows "\<exists>p \<in> P - A. (p, e) \<in> E\<^sup>*"
  using assms(1,2)
proof (induction rule: converse_rtrancl_induct)
  case base
  then show ?case using assms(3) by simp
next
  case (step y z)
  then show ?case using assms(4) by blast
qed

lemma reach_loop_iff:
  assumes "end \<notin> set visited" and "edges g `` set visited \<subseteq> set visited \<union> set pending"
  shows "reach_loop g end pending visited \<longleftrightarrow> (\<exists>p \<in> set pending. (p, end) \<in> (edges g)\<^sup>*)"
  using assms
proof (induction g "end" pending visited rule: reach_loop.induct)
  case (1 g e pending visited)
  show ?case
  proof (cases pending)
    case Nil
    then show ?thesis by (simp add: reach_loop.simps)
  next
    case (Cons v rest)
    consider "v = e" | "v \<noteq> e" "v \<in> set visited" | "v \<noteq> e" "v \<notin> set visited" by blast
    then show ?thesis
    proof cases
      case a: 1
      then show ?thesis by (simp add: Cons reach_loop.simps)
    next
      case 2
      have "reach_loop g e pending visited = reach_loop g e rest visited"
        using 2 by (subst reach_loop.simps) (simp add: Cons)
      moreover have "edges g `` set visited \<subseteq> set visited \<union> set rest" using 1(4) 2 by (auto simp: Cons)
      moreover have "(\<exists>p \<in> set rest. (p, e) \<in> (edges g)\<^sup>*)" if "(v, e) \<in> (edges g)\<^sup>*"
        using path_exit [OF that 2(2) 1(3)] calculation(2) by blast
      ultimately show ?thesis using 1(1) [OF Cons 2] 1(3) by (auto simp: Cons)
    next
      case 3
      let ?p = "rev (succs g v) @ rest"
      have "reach_loop g e pending visited = reach_loop g e ?p (v # visited)"
        using 3 by (subst reach_loop.simps) (simp add: Cons)
      moreover have "e \<notin> set (v # visited)" "edges g `` set (v # visited) \<subseteq> set (v # visited) \<union> set ?p"
        using 1(3,4) 3 by (auto simp: Cons edges_def)
      moreover have "(v, e) \<in> (edges g)\<^sup>* \<longleftrightarrow> (\<exists>p \<in> set (succs g v). (p, e) \<in> (edges g)\<^sup>*)"
        using 3(1) by (auto simp: edges_def elim: converse_rtranclE intro: converse_rtrancl_into_rtrancl)
      ultimately show ?thesis using 1(2) [OF Cons 3] by (auto simp: Cons)
    qed
  qed
qed

lemma reaches_iff: "reaches g s e \<longleftrightarrow> (s, e) \<in> (edges g)\<^sup>*"
  unfolding reaches_def using reach_loop_iff [of e "[]" g "[s]"] by simp

section \<open>Hints keep the graph acyclic\<close>

lemma full_graph_good:
  fixes transfers :: "(string, chain_transfer) dict" and ids :: "string list"
  defines "hard \<equiv> hard_graph transfers ids"
  shows "good_graph ids (full_graph transfers ids)" "edges hard \<subseteq> edges (full_graph transfers ids)"
    "has_dependencies hard \<Longrightarrow> acyclic (edges hard) \<Longrightarrow> acyclic (edges (full_graph transfers ids))"
proof -
  let ?P = "\<lambda>g s t. wallet_hint transfers s t \<and> hint_allowed hard (has_dependencies hard) g s t"
  have "set (List.product ids ids) \<subseteq> set ids \<times> set ids" by simp
  note f = add_edges_fold [OF hard_graph_edges(1) [of ids transfers] this, where P = ?P, folded hard_def]
  show "good_graph ids (full_graph transfers ids)" "edges hard \<subseteq> edges (full_graph transfers ids)"
    using f [where Q = "\<lambda>_. True"] by (simp_all add: full_graph_def hard_def Let_def)
  assume "has_dependencies hard" "acyclic (edges hard)"
  then have "acyclic (edges (fold (\<lambda>(s, t) g. if ?P g s t then add_successor s t g else g) (List.product ids ids) hard))"
    using f [where Q = "\<lambda>g. acyclic (edges g)"]
    by (auto simp: edges_add acyclic_insert hint_allowed_def reaches_iff)
  then show "acyclic (edges (full_graph transfers ids))" by (simp add: full_graph_def hard_def Let_def)
qed

section \<open>The sort is topological\<close>

lemma incoming_fold:
  "dict_get (fold (\<lambda>t d. AList.update t (dict_get d t 0 + 1) d) ts d) v 0 = dict_get d v (0 :: int) + int (count_list ts v)"
  by (induction ts arbitrary: d) (auto simp: dict_get_update)

lemma count_predecessors:
  assumes "distinct (map fst g)" and "\<And>k ts. (k, ts) \<in> set g \<Longrightarrow> distinct ts"
  shows "finite {s. t \<in> set (succs g s)} \<and> count_list (concat (map snd g)) t = card {s. t \<in> set (succs g s)}"
  using assms
proof (induction g)
  case Nil
  then show ?case by (simp add: succs_def)
next
  case (Cons p g)
  obtain k ts where p: "p = (k, ts)" by (cases p)
  have k: "map_of g k = None" using Cons.prems(1) by (simp add: p map_of_eq_None_iff)
  have eq: "{s. t \<in> set (succs (p # g) s)} = (if t \<in> set ts then {k} else {}) \<union> {s. t \<in> set (succs g s)}"
    using k by (auto simp: p succs_def dict_get_def split: if_splits)
  have IH: "finite {s. t \<in> set (succs g s)}" "count_list (concat (map snd g)) t = card {s. t \<in> set (succs g s)}"
    using Cons.IH Cons.prems by auto
  have "distinct ts" using Cons.prems(2) by (auto simp: p)
  then have "count_list ts t = (if t \<in> set ts then 1 else 0)" by (induction ts) auto
  moreover have "k \<notin> {s. t \<in> set (succs g s)}" using k by (simp add: succs_def dict_get_def)
  ultimately show ?case using IH unfolding eq by (auto simp: p count_list_append)
qed

lemma initial_incoming_card:
  assumes "good_graph ids g"
  shows "dict_get (initial_incoming g ids) t 0 = int (card {s. (s, t) \<in> edges g})"
proof -
  have "distinct ts" if "(k, ts) \<in> set g" for k ts
    using assms that by (auto simp: good_graph_def succs_def dict_get_def) (metis map_of_is_SomeI option.simps(5))
  then have "count_list (concat (map snd g)) t = card {s. (s, t) \<in> edges g}"
    using count_predecessors [of g t] assms by (simp add: good_graph_def edges_def)
  moreover have "dict_get (map (\<lambda>i. (i, 0)) xs) t 0 = (0 :: int)" for xs
    by (induction xs) (auto simp: dict_get_def)
  ultimately show ?thesis by (simp add: initial_incoming_def incoming_fold)
qed

definition topological :: "(string \<times> string) set \<Rightarrow> string list \<Rightarrow> bool" where
  "topological E xs \<longleftrightarrow> (\<forall>i < length xs. \<forall>s. (s, xs ! i) \<in> E \<longrightarrow> s \<in> set (take i xs))"

definition waiting :: "(string \<times> string) set \<Rightarrow> string list \<Rightarrow> string \<Rightarrow> string set" where
  "waiting E ordered t = {s. (s, t) \<in> E \<and> s \<notin> set ordered}"

definition kahn_inv ::
  "(string \<times> string) set \<Rightarrow> string set \<Rightarrow> (string, int) dict \<Rightarrow> string list \<Rightarrow> string list \<Rightarrow> bool" where
  "kahn_inv E V incoming ready ordered \<longleftrightarrow>
     distinct (ordered @ ready) \<and> set (ordered @ ready) \<subseteq> V
     \<and> (\<forall>t \<in> V. dict_get incoming t 0 = int (card (waiting E ordered t)))
     \<and> (\<forall>t \<in> V. waiting E ordered t = {} \<longleftrightarrow> t \<in> set (ordered @ ready))
     \<and> topological E ordered"

lemma topological_snoc:
  assumes "topological E xs" and "waiting E xs i = {}"
  shows "topological E (xs @ [i])"
  unfolding topological_def
proof (intro allI impI)
  fix j s
  assume j: "j < length (xs @ [i])" and e: "(s, (xs @ [i]) ! j) \<in> E"
  show "s \<in> set (take j (xs @ [i]))"
  proof (cases "j < length xs")
    case True
    then show ?thesis using e assms(1) by (simp add: topological_def nth_append)
  next
    case False
    then have "j = length xs" using j by simp
    then show ?thesis using e assms(2) by (auto simp: waiting_def)
  qed
qed

lemma release_pair:
  "release t (incoming, ready) =
     (AList.update t (dict_get incoming t 0 - 1) incoming, if dict_get incoming t 0 - 1 = 0 then ready @ [t] else ready)"
  by (simp add: release_def Let_def)

lemma singleton_card: "i \<in> W \<and> card W = 1 \<longleftrightarrow> W = {i}"
  by (metis card_1_singletonE is_singletonI is_singleton_altdef singletonD singletonI)

lemma release_fold:
  assumes "distinct ts" and "fold release ts (incoming, ready) = (incoming', ready')"
  shows "dict_get incoming' v 0 = dict_get incoming v 0 - (if v \<in> set ts then 1 else 0)
    \<and> ready' = ready @ filter (\<lambda>t. dict_get incoming t 0 = 1) ts"
  using assms
proof (induction ts arbitrary: incoming ready)
  case (Cons t ts)
  let ?i = "AList.update t (dict_get incoming t 0 - 1) incoming"
  let ?r = "if dict_get incoming t 0 - 1 = 0 then ready @ [t] else ready"
  have "fold release ts (?i, ?r) = (incoming', ready')" using Cons.prems(2)
    by (simp only: fold_simps release_pair)
  moreover have "filter (\<lambda>u. dict_get ?i u 0 = 1) ts = filter (\<lambda>u. dict_get incoming u 0 = 1) ts"
    by (rule filter_cong [OF refl]) (use Cons.prems(1) in \<open>auto simp: dict_get_update\<close>)
  ultimately show ?case using Cons.IH [of ?i ?r] Cons.prems(1) by (auto simp: dict_get_update)
qed simp

lemma kahn_step_inv:
  assumes inv: "kahn_inv (edges g) V incoming (i # rest) ordered"
    and g: "edges g \<subseteq> V \<times> V" "distinct (succs g i)" "finite V"
    and step: "fold release (sort_key rank (succs g i)) (incoming, rest) = (incoming', ready')"
  shows "kahn_inv (edges g) V incoming' (sort_key rank ready') (ordered @ [i])"
proof -
  let ?E = "edges g" and ?o = "ordered @ [i]"
  have ts: "distinct (sort_key rank (succs g i))" "set (sort_key rank (succs g i)) = {t. (i, t) \<in> ?E}"
    using g(2) by (simp_all add: edges_def)
  note r = release_fold [OF ts(1) step]
  have wait: "waiting ?E ?o t = waiting ?E ordered t - {i}" for t by (auto simp: waiting_def)
  have fin: "finite (waiting ?E ordered t)" for t
    using g(1,3) by (auto simp: waiting_def intro: finite_subset [of _ V])
  have i: "i \<notin> set ordered" "i \<in> V" "waiting ?E ordered i = {}" using inv by (auto simp: kahn_inv_def)
  have cnt: "dict_get incoming t 0 = int (card (waiting ?E ordered t))" if "t \<in> V" for t
    using inv that unfolding kahn_inv_def by blast
  have new: "t \<in> set ready' \<longleftrightarrow> t \<in> set rest \<or> (waiting ?E ordered t = {i})" if "t \<in> V" for t
  proof -
    have "dict_get incoming t 0 = int (card (waiting ?E ordered t))" by (rule cnt [OF that])
    moreover have "(i, t) \<in> ?E \<longleftrightarrow> i \<in> waiting ?E ordered t" using i(1) by (simp add: waiting_def)
    ultimately have "(i, t) \<in> ?E \<and> dict_get incoming t 0 = 1 \<longleftrightarrow> waiting ?E ordered t = {i}"
      using singleton_card [of i "waiting ?E ordered t"] by simp
    then show ?thesis using r ts(2) by auto
  qed
  have sub: "set ready' \<subseteq> V" using r ts(2) g(1) inv by (auto simp: kahn_inv_def)
  have "distinct (?o @ sort_key rank ready')"
  proof -
    have "t \<notin> set ?o" "t \<notin> set rest" if "t \<in> V" "waiting ?E ordered t = {i}" for t
      using inv that i(3) by (auto simp: kahn_inv_def)
    moreover have "distinct (filter (\<lambda>t. dict_get incoming t 0 = 1) (sort_key rank (succs g i)))" using ts(1) by simp
    moreover have "waiting ?E ordered t = {i}"
      if "t \<in> set (filter (\<lambda>t. dict_get incoming t 0 = 1) (sort_key rank (succs g i)))" for t
    proof -
      have t: "(i, t) \<in> ?E" "dict_get incoming t 0 = 1" using that ts(2) by auto
      then have "t \<in> V" "i \<in> waiting ?E ordered t" using g(1) i(1) by (auto simp: waiting_def)
      moreover have "card (waiting ?E ordered t) = 1" using cnt [OF \<open>t \<in> V\<close>] t(2) by simp
      ultimately show ?thesis by (simp only: singleton_card [symmetric])
    qed
    moreover have "distinct (ordered @ i # rest)" using inv by (simp add: kahn_inv_def)
    moreover have "ready' = rest @ filter (\<lambda>t. dict_get incoming t 0 = 1) (sort_key rank (succs g i))" using r by blast
    ultimately have "distinct (?o @ ready')" using sub by fastforce
    then show ?thesis by simp
  qed
  moreover have "dict_get incoming' t 0 = int (card (waiting ?E ?o t))" if "t \<in> V" for t
  proof -
    have "dict_get incoming' t 0 = int (card (waiting ?E ordered t)) - (if (i, t) \<in> ?E then 1 else 0)"
      using r [of t] ts(2) cnt [OF that] by simp
    moreover have "(i, t) \<in> ?E \<longleftrightarrow> i \<in> waiting ?E ordered t" using i(1) by (simp add: waiting_def)
    moreover have "0 < card (waiting ?E ordered t)" if "i \<in> waiting ?E ordered t"
      using that fin by (auto simp: card_gt_0_iff)
    ultimately show ?thesis using fin [of t] by (auto simp: wait card_Diff_singleton_if of_nat_diff)
  qed
  moreover have "waiting ?E ?o t = {} \<longleftrightarrow> t \<in> set (?o @ sort_key rank ready')" if "t \<in> V" for t
    using inv that new [OF that] i(3) by (auto simp: wait kahn_inv_def)
  moreover have "topological ?E ?o" using topological_snoc inv i(3) by (auto simp: kahn_inv_def)
  ultimately show ?thesis using inv sub i(2) by (auto simp: kahn_inv_def)
qed

lemma kahn_loop_inv:
  assumes "kahn_inv (edges g) V incoming ready ordered"
    and "edges g \<subseteq> V \<times> V" "\<And>v. distinct (succs g v)" "finite V"
  shows "\<exists>incoming_end. kahn_inv (edges g) V incoming_end [] (kahn_loop g rank incoming ready ordered)"
  using assms
proof (induction g rank incoming ready ordered rule: kahn_loop.induct)
  case (1 g rank incoming ready ordered)
  show ?case
  proof (cases ready)
    case Nil
    then show ?thesis using 1(2) by (auto simp: kahn_loop.simps [of g rank incoming "[]"])
  next
    case (Cons i rest)
    obtain incoming' ready' where step:
      "fold release (sort_key rank (succs g i)) (incoming, rest) = (incoming', ready')" by fastforce
    have "kahn_inv (edges g) V incoming' (sort_key rank ready') (ordered @ [i])"
      using kahn_step_inv [OF _ 1(3) 1(4) 1(5) step] 1(2) by (simp add: Cons)
    moreover have "kahn_loop g rank incoming ready ordered = kahn_loop g rank incoming' (sort_key rank ready') (ordered @ [i])"
      by (subst kahn_loop.simps) (simp add: Cons step)
    ultimately show ?thesis using 1(1) [OF Cons step [symmetric]] 1(3-5) by simp
  qed
qed

lemma kahn_start:
  fixes g :: successors and ids :: "string list"
  assumes "good_graph ids g" and "distinct ids"
  defines "incoming \<equiv> initial_incoming g ids"
  shows "kahn_inv (edges g) (set ids) incoming (sort_key rank (filter (\<lambda>i. dict_get incoming i 0 = 0) ids)) []"
proof -
  have fin: "finite {s. (s, t) \<in> edges g}" for t
    using assms(1) by (auto simp: good_graph_def intro: finite_subset [of _ "set ids"])
  have "dict_get incoming t 0 = int (card (waiting (edges g) [] t))" for t
    unfolding incoming_def using initial_incoming_card [OF assms(1)] by (simp add: waiting_def)
  moreover have "finite (waiting (edges g) [] t)" for t using fin by (simp add: waiting_def)
  ultimately show ?thesis using assms(2) by (auto simp: kahn_inv_def topological_def)
qed

text \<open>Kahn's loop lists every vertex exactly when the graph has no cycle.\<close>

lemma topological_acyclic:
  assumes "topological E xs" and "distinct xs" and "E \<subseteq> set xs \<times> set xs"
  shows "acyclic E"
proof -
  define pos where "pos s = length (takeWhile (\<lambda>x. x \<noteq> s) xs)" for s
  have at: "pos (xs ! j) = j" if "j < length xs" for j
  proof -
    have xs: "xs = take j xs @ xs ! j # drop (Suc j) xs" using that by (simp add: id_take_nth_drop)
    have "distinct (take j xs @ xs ! j # drop (Suc j) xs)" using xs assms(2) by metis
    then have "takeWhile (\<lambda>x. x \<noteq> xs ! j) (take j xs @ xs ! j # drop (Suc j) xs) = take j xs"
      by (auto simp: takeWhile_tail takeWhile_append2)
    then show ?thesis unfolding pos_def using xs that by (metis length_take less_or_eq_imp_le min.absorb2)
  qed
  have "E \<subseteq> measure pos"
  proof clarify
    fix s t
    assume st: "(s, t) \<in> E"
    then obtain i where i: "i < length xs" "t = xs ! i" using assms(3) by (force simp: in_set_conv_nth)
    then obtain j where j: "j < i" "s = xs ! j" using st assms(1) by (force simp: topological_def in_set_conv_nth)
    show "(s, t) \<in> measure pos" using at [of i] at [of j] i j by simp
  qed
  then show ?thesis using wf_measure wf_subset wf_acyclic by blast
qed

lemma kahn_covers:
  assumes inv: "kahn_inv E V incoming_end [] xs" and fin: "finite V" and sub: "E \<subseteq> V \<times> V"
  shows "set xs = V \<longleftrightarrow> acyclic E"
proof
  assume "set xs = V"
  then show "acyclic E" using inv sub by (intro topological_acyclic [of E xs]) (simp_all add: kahn_inv_def)
next
  assume ac: "acyclic E"
  have "finite E" using fin sub by (meson finite_SigmaI finite_subset)
  then have wf: "wf E" using ac by (simp add: finite_acyclic_wf)
  show "set xs = V"
  proof (rule ccontr)
    assume "set xs \<noteq> V"
    then obtain y where "y \<in> V - set xs" using inv by (auto simp: kahn_inv_def)
    then obtain z where z: "z \<in> V - set xs" "\<And>s. (s, z) \<in> E \<Longrightarrow> s \<notin> V - set xs"
      using wfE_min [OF wf] by metis
    then have "waiting E xs z = {}" using sub by (auto simp: waiting_def)
    then show False using inv z(1) by (auto simp: kahn_inv_def)
  qed
qed

lemma topological_mono: "topological E xs \<Longrightarrow> H \<subseteq> E \<Longrightarrow> topological H xs"
  by (auto simp: topological_def)

section \<open>The property\<close>

text \<open>The observed chain dependencies among the items.\<close>

definition chain_order :: "(string, chain_transfer) dict \<Rightarrow> string list \<Rightarrow> (string \<times> string) set" where
  "chain_order transfers ids = {(s, t). s \<in> set ids \<and> t \<in> set ids \<and> chain_dependency transfers s t}"

lemma has_dependencies_iff:
  assumes "good_graph ids g"
  shows "has_dependencies g \<longleftrightarrow> edges g \<noteq> {}"
proof
  assume "has_dependencies g"
  then obtain k ts where "(k, ts) \<in> set g" "ts \<noteq> []" by (auto simp: has_dependencies_def)
  moreover have "succs g k = ts" using calculation(1) assms by (simp add: good_graph_def succs_def dict_get_def)
  ultimately show "edges g \<noteq> {}" by (auto simp: edges_def neq_Nil_conv)
next
  assume "edges g \<noteq> {}"
  then obtain s t where "t \<in> set (succs g s)" unfolding edges_def by blast
  then obtain ts where "map_of g s = Some ts" "t \<in> set ts"
    by (cases "map_of g s") (auto simp: succs_def dict_get_def)
  then show "has_dependencies g" unfolding has_dependencies_def by (metis (mono_tags, lifting) case_prodI list.distinct(1) list.set_cases map_of_SomeD)
qed

lemma ordered_transfers:
  fixes items :: "transfer_item list" and transfers :: "(string, chain_transfer) dict"
  defines "ids \<equiv> map (snd \<circ> snd) items"
  assumes ids: "distinct ids" and known: "\<forall>i \<in> set ids. map_of transfers i \<noteq> None"
  shows "\<exists>xs. distinct xs \<and> (acyclic (edges (full_graph transfers ids)) \<longrightarrow> set xs = set ids)
    \<and> topological (edges (full_graph transfers ids)) xs
    \<and> order_same_time_transfers items transfers =
       Inr (if acyclic (edges (full_graph transfers ids)) then map (Pair ''transfer'') xs else map snd (sort items))"
proof -
  let ?g = "full_graph transfers ids"
  let ?incoming = "initial_incoming ?g ids"
  let ?ready = "sort_key (original_order items) (filter (\<lambda>i. dict_get ?incoming i 0 = 0) ids)"
  let ?xs = "kahn_loop ?g (original_order items) ?incoming ?ready []"
  have good: "edges ?g \<subseteq> set ids \<times> set ids" "\<And>v. distinct (succs ?g v)"
    using full_graph_good(1) [of ids transfers] by (simp_all add: good_graph_def)
  obtain incoming_end where inv: "kahn_inv (edges ?g) (set ids) incoming_end [] ?xs"
    using kahn_loop_inv [OF kahn_start [OF full_graph_good(1) ids] good] by blast
  have xs: "distinct ?xs" "set ?xs \<subseteq> set ids" using inv by (simp_all add: kahn_inv_def)
  have "length ?xs = length ids \<longleftrightarrow> set ?xs = set ids"
    using xs ids by (metis card_subset_eq distinct_card finite_set)
  then have len: "length ?xs = length ids \<longleftrightarrow> acyclic (edges ?g)"
    using kahn_covers [OF inv _ good(1)] by simp
  have "List.find (\<lambda>i. map_of transfers i = None) ids = None" using known by (simp add: find_None_iff)
  then have "order_same_time_transfers items transfers =
      Inr (if acyclic (edges ?g) then map (Pair ''transfer'') ?xs else map snd (sort items))"
    unfolding order_same_time_transfers_def ids_def [symmetric] Let_def using len by simp
  moreover have "set ?xs = set ids" if "acyclic (edges ?g)" using kahn_covers [OF inv _ good(1)] that by simp
  ultimately show ?thesis using xs(1) inv by (auto simp: kahn_inv_def)
qed

lemma sorted_items_perm:
  assumes "\<forall>(_, k, _) \<in> set items. k = ''transfer''"
  shows "map snd (sort items) = map (Pair ''transfer'') (map (snd \<circ> snd) (sort items))"
  using assms by (auto simp: case_prod_beta prod_eq_iff)

text \<open>
  C30: Items of one timestamp, with known transfers and no id twice, come back as a permutation.
  When the observed chain dependencies have no cycle, every transfer comes after all the
  transfers it depends on, whatever wallet hints say; when they have one, the items are sorted
  by their original position.
\<close>

theorem chronology_respects_chain:
  fixes items :: "transfer_item list" and transfers :: "(string, chain_transfer) dict"
  assumes "distinct (map (snd \<circ> snd) items)" and "\<forall>i \<in> snd ` snd ` set items. map_of transfers i \<noteq> None"
    and "\<forall>(_, k, _) \<in> set items. k = ''transfer''"
  shows "\<exists>xs. order_same_time_transfers items transfers = Inr (map (Pair ''transfer'') xs)
    \<and> mset xs = mset (map (snd \<circ> snd) items)
    \<and> (if acyclic (chain_order transfers (map (snd \<circ> snd) items))
       then topological (chain_order transfers (map (snd \<circ> snd) items)) xs
       else xs = map (snd \<circ> snd) (sort items))"
proof -
  let ?ids = "map (snd \<circ> snd) items" and ?H = "chain_order transfers (map (snd \<circ> snd) items)"
  let ?E = "edges (full_graph transfers ?ids)"
  have H: "edges (hard_graph transfers ?ids) = ?H" by (simp only: hard_graph_edges(2) chain_order_def)
  note g = full_graph_good [where transfers = transfers and ids = ?ids, unfolded H]
  obtain xs where xs: "distinct xs" "acyclic ?E \<Longrightarrow> set xs = set ?ids" "topological ?E xs"
    "order_same_time_transfers items transfers =
       Inr (if acyclic ?E then map (Pair ''transfer'') xs else map snd (sort items))"
    using ordered_transfers [OF assms(1), of transfers] assms(2) unfolding set_map image_comp by blast
  show ?thesis
  proof (cases "acyclic ?E")
    case True
    then have "acyclic ?H" using g(2) acyclic_subset by blast
    moreover have "mset xs = mset ?ids" using xs(1) xs(2) [OF True] assms(1) set_eq_iff_mset_eq_distinct by blast
    ultimately show ?thesis using xs(3,4) True topological_mono [OF _ g(2)] by auto
  next
    case False
    then have "\<not> acyclic ?H \<or> ?H = {}"
      using g(3) has_dependencies_iff [OF hard_graph_edges(1)] H by auto
    then have "if acyclic ?H then topological ?H (map (snd \<circ> snd) (sort items)) else True"
      by (auto simp: topological_def)
    moreover have "mset (map (snd \<circ> snd) (sort items)) = mset ?ids" by (simp only: mset_map mset_sort)
    moreover have "order_same_time_transfers items transfers = Inr (map (Pair ''transfer'') (map (snd \<circ> snd) (sort items)))"
      using xs(4) False sorted_items_perm [OF assms(3)] by simp
    ultimately show ?thesis by (intro exI [of _ "map (snd \<circ> snd) (sort items)"]) simp
  qed
qed

definition example_transfers :: "(string, chain_transfer) dict" where
  "example_transfers =
     [(''spend'', \<lparr>tr_evidence = Some \<lparr>ev_scope = (''bitcoin'', ''main'', ''t2'', ''''), ev_parents = [(''bitcoin'', ''main'', ''t1'', '''')]\<rparr>,
                   tr_from_wallet_id = ''b'', tr_to_wallet_id = ''a''\<rparr>),
      (''fund'', \<lparr>tr_evidence = Some \<lparr>ev_scope = (''bitcoin'', ''main'', ''t1'', ''''), ev_parents = []\<rparr>,
                  tr_from_wallet_id = ''a'', tr_to_wallet_id = ''b''\<rparr>)]"

text \<open>The recorded order and a wallet hint say spend before fund, the chain the opposite.\<close>

theorem chronology_respects_chain_witness:
  "order_same_time_transfers [(0, ''transfer'', ''spend''), (1, ''transfer'', ''fund'')] example_transfers
     = Inr [(''transfer'', ''fund''), (''transfer'', ''spend'')]
   \<and> (\<exists>xs. order_same_time_transfers [(0, ''transfer'', ''spend''), (1, ''transfer'', ''fund'')] example_transfers
         = Inr (map (Pair ''transfer'') xs) \<and> mset xs = mset [''spend'', ''fund''])"
proof -
  have "order_same_time_transfers [(0, ''transfer'', ''spend''), (1, ''transfer'', ''fund'')] example_transfers
     = Inr [(''transfer'', ''fund''), (''transfer'', ''spend'')]" by code_simp
  moreover have "\<forall>i \<in> {''spend'', ''fund''}. map_of example_transfers i \<noteq> None" by (simp add: example_transfers_def)
  then have "\<exists>xs. order_same_time_transfers [(0, ''transfer'', ''spend''), (1, ''transfer'', ''fund'')] example_transfers
         = Inr (map (Pair ''transfer'') xs) \<and> mset xs = mset [''spend'', ''fund'']"
    using chronology_respects_chain [of "[(0, ''transfer'', ''spend''), (1, ''transfer'', ''fund'')]" example_transfers]
    by simp metis
  ultimately show ?thesis by blast
qed

end
