(* ===== verification/Auth_Backoff.thy ===== *)
theory Auth_Backoff
  imports Complex_Main Prelude
begin

text \<open>
  Retry smoothing for database passphrases (\<open>kassiber/secrets/auth_backoff.py\<close>). An object keeps
  a failure count and a deadline in memory and shares them with other processes through a state
  file, which every attempt reads first. Clock readings and delays are exact rationals (rounding
  of Python floats is left out); the infinities and NaN that a JSON file may hold are kept.
\<close>

section \<open>State\<close>

datatype py_float = Finite rat | PosInf | NegInf | NaN

text \<open>The state file: absent, not readable as JSON, or an object with the outcome of the two
  conversions \<open>int(payload.get("failures", 0))\<close> and \<open>float(payload.get("locked_until", 0.0))\<close>.\<close>

datatype auth_file = Missing | Unreadable | Payload "int result" "py_float result"

record auth_memory =
  am_failures :: int
  am_locked_until :: py_float
  am_has_path :: bool

datatype auth_outcome = Allowed | RateLimited string int | Raised py_error

definition AUTH_FAILURES_BEFORE_BACKOFF :: int where "AUTH_FAILURES_BEFORE_BACKOFF = 3"
definition AUTH_BACKOFF_BASE_SECONDS :: rat where "AUTH_BACKOFF_BASE_SECONDS = 5"
definition AUTH_BACKOFF_MAX_SECONDS :: rat where "AUTH_BACKOFF_MAX_SECONDS = 30"

definition new_backoff :: "bool \<Rightarrow> auth_memory" where
  "new_backoff has_path = \<lparr>am_failures = 0, am_locked_until = Finite 0, am_has_path = has_path\<rparr>"

section \<open>Loading and persisting\<close>

text \<open>\<open>max(0.0, x)\<close>: Python keeps the first argument unless the second is greater.\<close>

definition max_zero :: "py_float \<Rightarrow> py_float" where
  "max_zero x = (case x of Finite r \<Rightarrow> Finite (max 0 r) | PosInf \<Rightarrow> PosInf | _ \<Rightarrow> Finite 0)"

definition float_nonpos :: "py_float \<Rightarrow> bool" where
  "float_nonpos x = (case x of Finite r \<Rightarrow> r \<le> 0 | PosInf \<Rightarrow> False | NegInf \<Rightarrow> True | NaN \<Rightarrow> False)"

definition load_locked :: "auth_file \<Rightarrow> auth_memory \<Rightarrow> auth_memory \<times> unit result" where
  "load_locked disk m =
     (if \<not> am_has_path m then (m, Inr ())
      else case disk of
        Payload failures locked_until \<Rightarrow>
          (case failures of
             Inl e \<Rightarrow> (m, Inl e)
           | Inr n \<Rightarrow>
               let m1 = m\<lparr>am_failures := max 0 n\<rparr>
               in case locked_until of
                    Inl e \<Rightarrow> (m1, Inl e)
                  | Inr x \<Rightarrow> (m1\<lparr>am_locked_until := max_zero x\<rparr>, Inr ()))
      | _ \<Rightarrow> (m, Inr ()))"

text \<open>\<open>io\<close> says whether the operating system lets the file be written or removed.\<close>

definition persist_locked :: "bool \<Rightarrow> auth_memory \<Rightarrow> auth_file \<Rightarrow> auth_file" where
  "persist_locked io m disk =
     (if \<not> am_has_path m \<or> \<not> io then disk
      else if am_failures m \<le> 0 \<and> float_nonpos (am_locked_until m) then Missing
      else Payload (Inr (am_failures m)) (Inr (am_locked_until m)))"

section \<open>Operations\<close>

definition retry_after :: "py_float \<Rightarrow> rat \<Rightarrow> py_float" where
  "retry_after locked_until now = (case locked_until of Finite r \<Rightarrow> Finite (r - now) | x \<Rightarrow> x)"

definition retry_after_seconds :: "rat \<Rightarrow> int" where
  "retry_after_seconds r = max 1 \<lfloor>r + 999 / 1000\<rfloor>"

definition check ::
  "bool \<Rightarrow> rat \<Rightarrow> string \<Rightarrow> auth_memory \<Rightarrow> auth_file \<Rightarrow> auth_memory \<times> auth_file \<times> auth_outcome" where
  "check io now scope m disk =
     (case load_locked disk m of
        (m1, Inl e) \<Rightarrow> (m1, disk, Raised e)
      | (m1, Inr _) \<Rightarrow>
          let retry = retry_after (am_locked_until m1) now
          in if float_nonpos retry then
               (if am_locked_until m1 \<noteq> Finite 0 then
                  let m2 = m1\<lparr>am_locked_until := Finite 0\<rparr> in (m2, persist_locked io m2 disk, Allowed)
                else (m1, disk, Allowed))
             else (case retry of
               Finite r \<Rightarrow>
                 if AUTH_BACKOFF_MAX_SECONDS < r then
                   let m2 = m1\<lparr>am_locked_until := Finite (now + AUTH_BACKOFF_MAX_SECONDS)\<rparr>
                   in (m2, persist_locked io m2 disk, RateLimited scope (retry_after_seconds AUTH_BACKOFF_MAX_SECONDS))
                 else (m1, disk, RateLimited scope (retry_after_seconds r))
             | _ \<Rightarrow>
                 let m2 = m1\<lparr>am_locked_until := Finite (now + AUTH_BACKOFF_MAX_SECONDS)\<rparr>
                 in (m2, persist_locked io m2 disk, RateLimited scope (retry_after_seconds AUTH_BACKOFF_MAX_SECONDS))))"

definition record_success :: "bool \<Rightarrow> auth_memory \<Rightarrow> auth_file \<Rightarrow> auth_memory \<times> auth_file" where
  "record_success io m disk =
     (let m1 = m\<lparr>am_failures := 0, am_locked_until := Finite 0\<rparr> in (m1, persist_locked io m1 disk))"

text \<open>\<open>5.0 * 2 ** k\<close>: the power is converted to a float, which overflows from \<open>2 ** 1024\<close> on.\<close>

definition backoff_delay :: "int \<Rightarrow> rat result" where
  "backoff_delay failures =
     (let k = nat (failures - AUTH_FAILURES_BEFORE_BACKOFF)
      in if 1024 \<le> k then Inl OverflowError
         else Inr (min AUTH_BACKOFF_MAX_SECONDS (AUTH_BACKOFF_BASE_SECONDS * 2 ^ k)))"

definition record_failure ::
  "bool \<Rightarrow> rat \<Rightarrow> auth_memory \<Rightarrow> auth_file \<Rightarrow> auth_memory \<times> auth_file \<times> unit result" where
  "record_failure io now m disk =
     (case load_locked disk m of
        (m1, Inl e) \<Rightarrow> (m1, disk, Inl e)
      | (m1, Inr _) \<Rightarrow>
          let m2 = m1\<lparr>am_failures := am_failures m1 + 1\<rparr>
          in if am_failures m2 < AUTH_FAILURES_BEFORE_BACKOFF then (m2, persist_locked io m2 disk, Inr ())
             else case backoff_delay (am_failures m2) of
                    Inl e \<Rightarrow> (m2, disk, Inl e)
                  | Inr delay \<Rightarrow>
                      let m3 = m2\<lparr>am_locked_until := Finite (now + delay)\<rparr>
                      in (m3, persist_locked io m3 disk, Inr ()))"

section \<open>What an attempt reads\<close>

lemma load_idem:
  "load_locked disk m = (m1, Inr u) \<Longrightarrow> load_locked disk m1 = (m1, Inr ())"
  by (auto simp: load_locked_def Let_def max_zero_def split: if_splits auth_file.splits sum.splits py_float.splits)

lemma load_has_path: "load_locked disk m = (m1, r) \<Longrightarrow> am_has_path m1 = am_has_path m"
  by (auto simp: load_locked_def Let_def split: if_splits auth_file.splits sum.splits)

text \<open>What is written is what the next attempt reads.\<close>

lemma load_persisted:
  assumes "am_locked_until m = Finite l" and "0 < l"
  shows "\<exists>m1. load_locked (persist_locked True m disk) m = (m1, Inr ()) \<and> am_locked_until m1 = Finite l"
  using assms by (auto simp: load_locked_def persist_locked_def float_nonpos_def max_zero_def)

lemma retry_after_seconds_bound: "r < of_int (retry_after_seconds r) + 1 / 1000"
proof -
  have "r + 999 / 1000 < of_int \<lfloor>r + 999 / 1000\<rfloor> + 1" by (rule floor_correct [THEN conjunct2, simplified])
  moreover have "(of_int \<lfloor>r + 999 / 1000\<rfloor> :: rat) \<le> of_int (retry_after_seconds r)"
    unfolding of_int_le_iff by (simp add: retry_after_seconds_def)
  ultimately show ?thesis by linarith
qed

lemma retry_after_seconds_range: "r \<le> 30 \<Longrightarrow> 1 \<le> retry_after_seconds r \<and> retry_after_seconds r \<le> 30"
  by (auto simp: retry_after_seconds_def floor_le_iff)

lemma check_allowed:
  assumes "load_locked disk m = (m1, Inr ())" and "am_locked_until m1 = Finite l" and "l \<le> now"
  shows "snd (snd (check io now scope m disk)) = Allowed"
  using assms by (simp add: check_def retry_after_def float_nonpos_def Let_def)

text \<open>A refusal names the remaining time of a finite deadline the next attempt sees.\<close>

lemma check_refused:
  assumes r: "check True now scope m disk = (m', disk', RateLimited s n)" and "0 \<le> now"
  obtains d m1 where "0 < d" "d \<le> 30" "n = retry_after_seconds d" "s = scope"
    "load_locked disk' m' = (m1, Inr ())" "am_locked_until m1 = Finite (now + d)"
proof -
  obtain m0 u where l: "load_locked disk m = (m0, Inr u)"
    using r by (cases "load_locked disk m"; cases "snd (load_locked disk m)") (auto simp: check_def)
  let ?retry = "retry_after (am_locked_until m0) now" and ?m2 = "m0\<lparr>am_locked_until := Finite (now + 30)\<rparr>"
  have c: "check True now scope m disk = (m', disk', RateLimited s n)" by (rule r)
  have pos: "\<not> float_nonpos ?retry"
    using c l by (auto simp: check_def Let_def split: if_splits)
  show ?thesis
  proof (cases "\<exists>d. ?retry = Finite d \<and> d \<le> 30")
    case True
    then obtain d where d: "?retry = Finite d" "d \<le> 30" by blast
    then have "am_locked_until m0 = Finite (now + d)" by (auto simp: retry_after_def split: py_float.splits)
    moreover have "0 < d" using pos d(1) by (simp add: float_nonpos_def)
    moreover have "m' = m0" "disk' = disk" "n = retry_after_seconds d" "s = scope"
      using c l d pos by (simp_all add: check_def Let_def AUTH_BACKOFF_MAX_SECONDS_def)
    ultimately show ?thesis using that load_idem [OF l] d(2) by blast
  next
    case False
    then have *: "m' = ?m2" "disk' = persist_locked True ?m2 disk" "n = retry_after_seconds 30" "s = scope"
      using c l pos by (auto simp: check_def Let_def AUTH_BACKOFF_MAX_SECONDS_def split: py_float.splits if_splits)
    have "\<exists>m1. load_locked (persist_locked True ?m2 disk) ?m2 = (m1, Inr ()) \<and> am_locked_until m1 = Finite (now + 30)"
      using \<open>0 \<le> now\<close> by (intro load_persisted) simp_all
    then show ?thesis using that [of 30] * by auto
  qed
qed

text \<open>
  C34: Whatever the state file holds, a refused attempt whose state can be written names a delay
  between one and thirty seconds, and every attempt more than a millisecond after that delay is
  allowed, unless a failure is recorded in between.
\<close>

theorem backoff_ends:
  assumes "0 \<le> now" and "check True now scope m disk = (m', disk', RateLimited s n)"
    and "now + of_int n + 1 / 1000 \<le> later"
  shows "1 \<le> n \<and> n \<le> 30 \<and> snd (snd (check io later scope' m' disk')) = Allowed"
proof -
  obtain d m1 where d: "d \<le> 30" "n = retry_after_seconds d"
    "load_locked disk' m' = (m1, Inr ())" "am_locked_until m1 = Finite (now + d)"
    using check_refused [OF assms(2,1)] by metis
  have "now + d \<le> later" using retry_after_seconds_bound [of d] assms(3) d(2) by simp
  then show ?thesis using check_allowed [OF d(3,4)] retry_after_seconds_range [OF d(1)] d(2) by simp
qed

theorem backoff_ends_witness:
  "check True 100 ''daemon'' (new_backoff True) (Payload (Inr 9) (Inr PosInf))
     = (\<lparr>am_failures = 9, am_locked_until = Finite 130, am_has_path = True\<rparr>,
        Payload (Inr 9) (Inr (Finite 130)), RateLimited ''daemon'' 30)
   \<and> snd (snd (check True 131 ''broker'' \<lparr>am_failures = 9, am_locked_until = Finite 130, am_has_path = True\<rparr>
        (Payload (Inr 9) (Inr (Finite 130))))) = Allowed"
proof -
  have c: "check True 100 ''daemon'' (new_backoff True) (Payload (Inr 9) (Inr PosInf))
     = (\<lparr>am_failures = 9, am_locked_until = Finite 130, am_has_path = True\<rparr>,
        Payload (Inr 9) (Inr (Finite 130)), RateLimited ''daemon'' 30)"
    by (simp add: check_def new_backoff_def load_locked_def max_zero_def retry_after_def float_nonpos_def
        persist_locked_def AUTH_BACKOFF_MAX_SECONDS_def retry_after_seconds_def floor_eq_iff)
  show ?thesis using backoff_ends [OF _ c, of 131] c by simp
qed

section \<open>Refinement of the throttle\<close>

text \<open>The throttle the module promises: consecutive failures and the time until which attempts
  are refused. It has no file, no clamping and no reset of an expired deadline.\<close>

record throttle =
  th_failures :: int
  th_until :: rat

datatype auth_event = Attempt rat string | Success | Failure rat | Restart

definition throttle_delay :: "int \<Rightarrow> rat" where
  "throttle_delay k = min 30 (5 * 2 ^ nat (k - 3))"

definition throttle_step :: "auth_event \<Rightarrow> throttle \<Rightarrow> throttle \<times> auth_outcome list" where
  "throttle_step ev t =
     (case ev of
        Attempt now scope \<Rightarrow> (t, [if th_until t \<le> now then Allowed else RateLimited scope (retry_after_seconds (th_until t - now))])
      | Success \<Rightarrow> (\<lparr>th_failures = 0, th_until = 0\<rparr>, [])
      | Failure now \<Rightarrow>
          (\<lparr>th_failures = th_failures t + 1,
            th_until = (if th_failures t + 1 < 3 then th_until t else now + throttle_delay (th_failures t + 1))\<rparr>, [])
      | Restart \<Rightarrow> (t, []))"

text \<open>The same events on the object and its file; a restart builds a new object.\<close>

definition auth_step :: "auth_event \<Rightarrow> auth_memory \<times> auth_file \<Rightarrow> (auth_memory \<times> auth_file) \<times> auth_outcome list" where
  "auth_step ev w =
     (case (ev, w) of
        (Attempt now scope, m, disk) \<Rightarrow> (case check True now scope m disk of (m', disk', out) \<Rightarrow> ((m', disk'), [out]))
      | (Success, m, disk) \<Rightarrow> (record_success True m disk, [])
      | (Failure now, m, disk) \<Rightarrow>
          (case record_failure True now m disk of
             (m', disk', Inl e) \<Rightarrow> ((m', disk'), [Raised e])
           | (m', disk', Inr _) \<Rightarrow> ((m', disk'), []))
      | (Restart, m, disk) \<Rightarrow> ((new_backoff (am_has_path m), disk), []))"

fun run :: "('e \<Rightarrow> 's \<Rightarrow> 's \<times> 'o list) \<Rightarrow> 'e list \<Rightarrow> 's \<Rightarrow> 'o list" where
  "run step [] s = []"
| "run step (ev # evs) s = (case step ev s of (s', out) \<Rightarrow> out @ run step evs s')"

fun event_time :: "auth_event \<Rightarrow> rat option" where
  "event_time (Attempt now _) = Some now"
| "event_time (Failure now) = Some now"
| "event_time _ = None"

fun chronological :: "rat \<Rightarrow> auth_event list \<Rightarrow> bool" where
  "chronological now [] = True"
| "chronological now (ev # evs) =
     (case event_time ev of None \<Rightarrow> chronological now evs | Some t \<Rightarrow> now \<le> t \<and> chronological t evs)"

definition failures_in :: "auth_event list \<Rightarrow> nat" where
  "failures_in evs = length (filter (\<lambda>ev. case ev of Failure _ \<Rightarrow> True | _ \<Rightarrow> False) evs)"

text \<open>What an attempt would load: the file when it exists, else the memory.\<close>

definition represents :: "int \<Rightarrow> rat \<Rightarrow> auth_memory \<times> auth_file \<Rightarrow> bool" where
  "represents k l = (\<lambda>(m, disk). am_has_path m \<and> 0 \<le> k \<and> 0 \<le> l \<and>
     (disk = Missing \<and> k = 0 \<and> l = 0 \<and> m = new_backoff True
      \<or> disk = Payload (Inr k) (Inr (Finite l))))"

definition simulates :: "rat \<Rightarrow> throttle \<Rightarrow> auth_memory \<times> auth_file \<Rightarrow> bool" where
  "simulates now t w \<longleftrightarrow>
     (\<exists>l. represents (th_failures t) l w \<and> th_until t \<le> now + 30
        \<and> (l = th_until t \<or> l = 0 \<and> th_until t \<le> now))"

lemma represents_load:
  "represents k l (m, disk) \<Longrightarrow>
     load_locked disk m = (\<lparr>am_failures = k, am_locked_until = Finite l, am_has_path = True\<rparr>, Inr ())"
  by (cases m) (auto simp: represents_def load_locked_def new_backoff_def max_zero_def)

lemma represents_persist:
  "0 \<le> k \<Longrightarrow> 0 \<le> l \<Longrightarrow>
     represents k l (\<lparr>am_failures = k, am_locked_until = Finite l, am_has_path = True\<rparr>,
       persist_locked True \<lparr>am_failures = k, am_locked_until = Finite l, am_has_path = True\<rparr> disk)"
  by (auto simp: represents_def persist_locked_def float_nonpos_def new_backoff_def)

lemma represents_memory:
  "represents k l (m, disk) \<Longrightarrow>
     represents k l (\<lparr>am_failures = k, am_locked_until = Finite l, am_has_path = True\<rparr>, disk)"
  by (auto simp: represents_def new_backoff_def)

lemma attempt_simulates:
  assumes sim: "simulates now t w" and le: "now \<le> now'" and "0 \<le> now"
    and step: "auth_step (Attempt now' scope) w = (w', out)"
  shows "simulates now' t w' \<and> out = snd (throttle_step (Attempt now' scope) t)"
proof -
  obtain m disk where w: "w = (m, disk)" by (cases w)
  obtain l where l: "represents (th_failures t) l (m, disk)" "th_until t \<le> now + 30"
    "l = th_until t \<or> l = 0 \<and> th_until t \<le> now" using sim by (auto simp: simulates_def w)
  let ?m = "\<lparr>am_failures = th_failures t, am_locked_until = Finite l, am_has_path = True\<rparr>"
  let ?reset = "\<lparr>am_failures = th_failures t, am_locked_until = Finite 0, am_has_path = True\<rparr>"
  note load = represents_load [OF l(1)]
  show ?thesis
  proof (cases "l \<le> now'")
    case True
    then have "w' = (if l \<noteq> 0 then (?reset, persist_locked True ?reset disk) else (?m, disk))" "out = [Allowed]"
      using step by (auto simp: w auth_step_def check_def load retry_after_def float_nonpos_def Let_def split: if_splits)
    moreover have "represents (th_failures t) 0 (?reset, persist_locked True ?reset disk)"
      using l(1) by (intro represents_persist) (simp_all add: represents_def)
    moreover have "th_until t \<le> now'" using True l(3) le by auto
    ultimately show ?thesis using represents_memory [OF l(1)] le
      by (auto simp: simulates_def throttle_step_def)
  next
    case False
    then have u: "l = th_until t" "th_until t - now' \<le> 30" using l le \<open>0 \<le> now\<close> by auto
    then have "w' = (?m, disk)" "out = [RateLimited scope (retry_after_seconds (l - now'))]"
      using step False by (auto simp: w auth_step_def check_def load retry_after_def float_nonpos_def Let_def AUTH_BACKOFF_MAX_SECONDS_def)
    moreover have "simulates now' t (?m, disk)"
      unfolding simulates_def using represents_memory [OF l(1)] u by (intro exI [of _ l]) simp
    ultimately show ?thesis using u False by (simp add: throttle_step_def)
  qed
qed

lemma failure_simulates:
  assumes sim: "simulates now t w" and le: "now \<le> now'" and "0 \<le> now" and few: "th_failures t < 1026"
    and step: "auth_step (Failure now') w = (w', out)"
  shows "simulates now' (fst (throttle_step (Failure now') t)) w' \<and> out = []"
proof -
  obtain m disk where w: "w = (m, disk)" by (cases w)
  obtain l where l: "represents (th_failures t) l (m, disk)" "th_until t \<le> now + 30"
    "l = th_until t \<or> l = 0 \<and> th_until t \<le> now" using sim by (auto simp: simulates_def w)
  have nn: "0 \<le> th_failures t" "0 \<le> l" using l(1) by (auto simp: represents_def)
  let ?k = "th_failures t + 1"
  let ?m = "\<lambda>u. \<lparr>am_failures = ?k, am_locked_until = Finite u, am_has_path = True\<rparr>"
  note load = represents_load [OF l(1)]
  define u where "u = (if ?k < 3 then l else now' + throttle_delay ?k)"
  have d: "backoff_delay ?k = Inr (throttle_delay ?k)"
    using few by (simp add: backoff_delay_def throttle_delay_def Let_def AUTH_FAILURES_BEFORE_BACKOFF_def
        AUTH_BACKOFF_MAX_SECONDS_def AUTH_BACKOFF_BASE_SECONDS_def)
  have "w' = (?m u, persist_locked True (?m u) disk)" "out = []"
    using step by (auto simp: w auth_step_def record_failure_def load Let_def AUTH_FAILURES_BEFORE_BACKOFF_def u_def d split: if_splits)
  moreover have "0 \<le> u" using nn \<open>0 \<le> now\<close> le by (simp add: u_def throttle_delay_def)
  then have "represents ?k u (?m u, persist_locked True (?m u) disk)"
    using nn by (intro represents_persist) simp_all
  moreover have "throttle_delay ?k \<le> 30" by (simp add: throttle_delay_def)
  ultimately show ?thesis using l(2,3) le by (auto simp: simulates_def throttle_step_def u_def)
qed

lemma run_refines:
  assumes "simulates now t w" and "0 \<le> now" and "chronological now evs"
    and "th_failures t + int (failures_in evs) \<le> 1026"
  shows "run auth_step evs w = run throttle_step evs t"
  using assms
proof (induction evs arbitrary: now t w)
  case (Cons ev evs)
  obtain w' out where step: "auth_step ev w = (w', out)" by fastforce
  obtain t' out' where spec: "throttle_step ev t = (t', out')" by fastforce
  show ?case
  proof (cases ev)
    case (Attempt now' scope)
    have "simulates now' t w' \<and> out = out'" "t' = t"
      using attempt_simulates [of now t w now' scope w' out] Cons.prems step spec Attempt
      by (auto simp: throttle_step_def)
    then show ?thesis using Cons.IH [of now' t w'] Cons.prems step spec by (simp add: Attempt failures_in_def)
  next
    case Success
    then have "simulates now t' w'" "out = []" "out' = []" "th_failures t' = 0"
      using Cons.prems(1,2) step spec
      by (auto simp: auth_step_def record_success_def Let_def throttle_step_def simulates_def represents_def
          persist_locked_def float_nonpos_def new_backoff_def split: prod.splits)
    moreover have "0 \<le> th_failures t" using Cons.prems(1) by (auto simp: simulates_def represents_def)
    ultimately show ?thesis using Cons.IH [of now t' w'] Cons.prems step spec by (simp add: Success failures_in_def)
  next
    case (Failure now')
    have "simulates now' t' w' \<and> out = []" "out' = []" "th_failures t' = th_failures t + 1"
      using failure_simulates [of now t w now' w' out] Cons.prems step spec Failure
      by (auto simp: throttle_step_def failures_in_def)
    then show ?thesis using Cons.IH [of now' t' w'] Cons.prems step spec by (simp add: Failure failures_in_def)
  next
    case Restart
    then have "simulates now t' w'" "out = []" "out' = []" "t' = t"
      using Cons.prems(1) step spec
      by (auto simp: auth_step_def throttle_step_def simulates_def represents_def new_backoff_def split: prod.splits)
    then show ?thesis using Cons.IH [of now t' w'] Cons.prems step spec by (simp add: Restart failures_in_def)
  qed
qed simp

text \<open>
  C35: On every chronological history of attempts, successes, failures and restarts of one object
  with a writable state file, of at most 1026 failures, the outcomes are those of the abstract
  throttle: an attempt is refused exactly while the delay after the third or a later consecutive
  failure runs, five seconds doubled with every further failure up to thirty.
\<close>

theorem backoff_refines_throttle:
  assumes "0 \<le> start" and "chronological start evs" and "failures_in evs \<le> 1026"
  shows "run auth_step evs (new_backoff True, Missing) = run throttle_step evs \<lparr>th_failures = 0, th_until = 0\<rparr>"
proof (rule run_refines)
  show "simulates start \<lparr>th_failures = 0, th_until = 0\<rparr> (new_backoff True, Missing)"
    using assms(1) by (simp add: simulates_def represents_def new_backoff_def)
qed (use assms in simp_all)

theorem backoff_refines_throttle_witness:
  "run auth_step [Failure 0, Failure 1, Failure 2, Attempt 3 ''daemon'', Restart, Attempt 8 ''daemon'', Success]
     (new_backoff True, Missing) = [RateLimited ''daemon'' 4, Allowed]"
  using backoff_refines_throttle
    [of 0 "[Failure 0, Failure 1, Failure 2, Attempt 3 ''daemon'', Restart, Attempt 8 ''daemon'', Success]"]
  by (simp add: throttle_step_def throttle_delay_def failures_in_def retry_after_seconds_def floor_eq_iff)

section \<open>Errors and the shared file\<close>

text \<open>
  An attempt raises something other than the rate limit exactly when a number in the state
  file cannot be converted, and leaves the file as it is; a recorded failure raises that or, from
  the 1027th consecutive failure on, \<open>OverflowError\<close>, and then nothing is written.
\<close>

theorem backoff_errors:
  "((\<exists>m'. check io now scope m disk = (m', disk', Raised e)) \<longleftrightarrow>
      disk' = disk \<and> snd (load_locked disk m) = Inl e)
   \<and> ((\<exists>m'. record_failure io now m disk = (m', disk', Inl e)) \<longleftrightarrow>
      disk' = disk \<and> (snd (load_locked disk m) = Inl e
        \<or> snd (load_locked disk m) = Inr () \<and> 1026 \<le> am_failures (fst (load_locked disk m)) \<and> e = OverflowError))"
proof -
  obtain m1 r where l: "load_locked disk m = (m1, r)" by fastforce
  have "(\<exists>m'. check io now scope m disk = (m', disk', Raised e)) \<longleftrightarrow> disk' = disk \<and> r = Inl e"
    using l by (cases r) (auto simp: check_def Let_def split: py_float.splits)
  moreover have "(\<exists>m'. record_failure io now m disk = (m', disk', Inl e)) \<longleftrightarrow>
      disk' = disk \<and> (r = Inl e \<or> r = Inr () \<and> 1026 \<le> am_failures m1 \<and> e = OverflowError)"
    using l by (cases r)
      (auto simp: record_failure_def backoff_delay_def Let_def AUTH_FAILURES_BEFORE_BACKOFF_def split: if_splits)
  ultimately show ?thesis using l by simp
qed

text \<open>
  An object that remembers a running deadline keeps refusing attempts after another process
  that shares its state file has recorded a success and removed the file.
\<close>

theorem success_not_shared:
  assumes "am_has_path other" and "am_locked_until m = Finite l" and "now < l"
  shows "\<exists>n. snd (snd (check io now scope m (snd (record_success True other disk)))) = RateLimited scope n"
proof -
  have "snd (record_success True other disk) = Missing"
    using assms(1) by (simp add: record_success_def persist_locked_def float_nonpos_def Let_def)
  then show ?thesis using assms(2,3)
    by (auto simp: check_def load_locked_def retry_after_def float_nonpos_def Let_def)
qed

end
