(* ===== verification/Native_Reconciliation.thy ===== *)
theory Native_Reconciliation
  imports Component_Claims Chronology
begin

text \<open>
  Replacement of reviewed shortcuts by native wallet history
  (\<open>kassiber/core/custody_native_reconciliation.py\<close>): a reviewed component yields to a route of
  native claims when that route, followed with the FIFO allocator through the wallets in between,
  reproduces every reviewed allocation and every fee. The model calls the component compiler,
  the chronology and the allocator of the other theories. The evidence read from the rows
  (\<open>chain_order_evidence\<close> of a row) and the SHA-256 of the reviewed allocations are arguments.
  Python sets are lists without repetition. An unknown observation hash raises
  \<open>KeyError\<close> where the claims are indexed; the later lookups (\<open>observed\<close>, the claim amounts of a
  certificate) only ask for keys of that index and are total.
\<close>

section \<open>Data\<close>

definition anchor_of :: "component_leg \<Rightarrow> string" where
  "anchor_of leg = str_or_empty (py_or (leg_anchor_transaction_id leg) (leg_transaction_id leg))"

type_synonym custody_pool = "string \<times> string \<times> string \<times> string"

definition pool_of :: "quantity_observation \<Rightarrow> custody_pool" where
  "pool_of ob = (wallet_id ob, asset ob, ek_chain (event_key ob), ek_network (event_key ob))"

record reconciled_allocation =
  ra_source_transaction_id :: string
  ra_target_transaction_id :: "string option"
  ra_asset :: string
  ra_amount_msat :: int
  ra_destination_kind :: string

record native_component_reconciliation =
  nr_component_id :: string
  nr_component_revision :: int
  nr_native_claim_ids :: "string list"
  nr_native_claim_amounts :: "(string \<times> int) list"
  nr_transaction_ids :: "string list"
  nr_reviewed_allocation_digest :: string
  nr_allocations :: "reconciled_allocation list"

text \<open>The component dictionary with its revision, which only this module reads.\<close>

record native_component = custody_component +
  comp_revision :: int

type_synonym hash_index = "(string, quantity_observation) dict"

definition observed :: "hash_index \<Rightarrow> string \<Rightarrow> quantity_observation" where
  "observed by_hash h = the (map_of by_hash h)"

text \<open>\<open>{item.quantity_hash: item for item in observations.values()}\<close>\<close>

definition hash_index_of :: "observation_map \<Rightarrow> hash_index" where
  "hash_index_of observations = fold (\<lambda>(_, ob). AList.update (quantity_hash ob) ob) observations []"

definition first_occurrences :: "'a list \<Rightarrow> 'a list" where
  "first_occurrences xs = rev (remdups (rev xs))"

section \<open>Library routines\<close>

text \<open>\<open>bisect_left\<close> and \<open>bisect_right\<close> as the binary searches they are.\<close>

function bisect_left :: "string list \<Rightarrow> string \<Rightarrow> nat \<Rightarrow> nat \<Rightarrow> nat" where
  "bisect_left xs x lo hi =
     (if lo < hi then
        let mid = (lo + hi) div 2
        in if xs ! mid < x then bisect_left xs x (mid + 1) hi else bisect_left xs x lo mid
      else lo)"
  by pat_completeness auto
termination by (relation "measure (\<lambda>(xs, x, lo, hi). hi - lo)") auto

function bisect_right :: "string list \<Rightarrow> string \<Rightarrow> nat \<Rightarrow> nat \<Rightarrow> nat" where
  "bisect_right xs x lo hi =
     (if lo < hi then
        let mid = (lo + hi) div 2
        in if x < xs ! mid then bisect_right xs x lo mid else bisect_right xs x (mid + 1) hi
      else lo)"
  by pat_completeness auto
termination by (relation "measure (\<lambda>(xs, x, lo, hi). hi - lo)") auto

declare bisect_left.simps [simp del] bisect_right.simps [simp del]

text \<open>The items at \<open>range(bisect_left(keys, start), bisect_right(keys, end))\<close>.\<close>

definition between :: "('a \<Rightarrow> string) \<Rightarrow> 'a list \<Rightarrow> string \<Rightarrow> string \<Rightarrow> 'a list" where
  "between key xs start stop =
     (let keys = map key xs; lower = bisect_left keys start 0 (length keys);
          upper = bisect_right keys stop 0 (length keys)
      in take (upper - lower) (drop lower xs))"

text \<open>\<open>itertools.groupby\<close>: runs of adjacent items with equal keys.\<close>

fun group_runs :: "('a \<Rightarrow> 'k) \<Rightarrow> 'a list \<Rightarrow> 'a list list" where
  "group_runs key [] = []"
| "group_runs key (x # xs) =
     (case group_runs key xs of
        (y # ys) # rest \<Rightarrow> if key x = key y then (x # y # ys) # rest else [x] # (y # ys) # rest
      | rest \<Rightarrow> [x] # rest)"

text \<open>\<open>int(text)\<close> on a string of decimal digits.\<close>

definition int_of_digits :: "string \<Rightarrow> nat" where
  "int_of_digits text = fold (\<lambda>c n. 10 * n + (of_char c - 48)) text 0"

section \<open>Native edges\<close>

record native_index =
  ni_outgoing :: "(string, quantity_claim list) dict"
  ni_incoming :: "(string, quantity_claim list) dict"
  ni_claim_amounts :: "(string, int) dict"

text \<open>The endpoints of a claim that counts as a native edge; \<open>None\<close> is the loop's \<open>continue\<close>.\<close>

definition native_edge ::
  "hash_index \<Rightarrow> string list \<Rightarrow> quantity_claim \<Rightarrow> (quantity_observation \<times> quantity_observation) option result" where
  "native_edge by_hash blocked_ids claim =
     (case claim_target claim of
        None \<Rightarrow> Inr None
      | Some t \<Rightarrow>
          if claim_priority claim \<noteq> EXACT_NATIVE_EVENT \<or> claim_state claim \<noteq> INTERNAL_VERIFIED then Inr None
          else case map_of by_hash (observation_hash (claim_source claim)) of
            None \<Rightarrow> Inl (KeyError (observation_hash (claim_source claim)))
          | Some source \<Rightarrow>
              (case map_of by_hash (observation_hash t) of
                 None \<Rightarrow> Inl (KeyError (observation_hash t))
               | Some target \<Rightarrow>
                   if \<not> authoritative_chain_observation source
                      \<or> \<not> authoritative_chain_observation target
                      \<or> event_key source \<noteq> event_key target
                      \<or> ek_native_namespace (event_key source) \<noteq> ''chain''
                      \<or> ek_chain (event_key source) \<notin> {''bitcoin'', ''liquid''}
                      \<or> asset source \<noteq> asset target
                      \<or> wallet_id source = wallet_id target
                      \<or> {transaction_id source, transaction_id target} \<inter> set blocked_ids \<noteq> {}
                   then Inr None else Inr (Some (source, target))))"

definition add_native_edge :: "quantity_claim \<Rightarrow> quantity_observation \<Rightarrow> quantity_observation \<Rightarrow> native_index \<Rightarrow> native_index" where
  "add_native_edge claim source target idx =
     idx\<lparr>ni_outgoing := dict_append (quantity_hash source) claim (ni_outgoing idx),
         ni_incoming := dict_append (quantity_hash target) claim (ni_incoming idx),
         ni_claim_amounts := AList.update (claim_id claim) (slice_amount (claim_source claim)) (ni_claim_amounts idx)\<rparr>"

fun native_index_of :: "hash_index \<Rightarrow> string list \<Rightarrow> quantity_claim list \<Rightarrow> native_index \<Rightarrow> native_index result" where
  "native_index_of by_hash blocked_ids [] idx = Inr idx"
| "native_index_of by_hash blocked_ids (claim # claims) idx =
     bind_res (native_edge by_hash blocked_ids claim) (\<lambda>edge.
       native_index_of by_hash blocked_ids claims
         (case edge of None \<Rightarrow> idx | Some (source, target) \<Rightarrow> add_native_edge claim source target idx))"

section \<open>Complete sources\<close>

fun tile_cursor :: "int \<Rightarrow> quantity_slice list \<Rightarrow> int option" where
  "tile_cursor cursor [] = Some cursor"
| "tile_cursor cursor (s # ss) = (if start_msat s \<noteq> cursor then None else tile_cursor (end_msat s) ss)"

definition complete :: "quantity_slice list \<Rightarrow> int \<Rightarrow> bool" where
  "complete slices amount \<longleftrightarrow> tile_cursor 0 (sort_key start_msat slices) = Some amount"

definition target_of :: "quantity_claim \<Rightarrow> quantity_slice" where
  "target_of claim = the (claim_target claim)"

definition outgoing_of :: "native_index \<Rightarrow> string \<Rightarrow> quantity_claim list" where
  "outgoing_of idx h = dict_get (ni_outgoing idx) h []"

definition incoming_of :: "native_index \<Rightarrow> string \<Rightarrow> quantity_claim list" where
  "incoming_of idx h = dict_get (ni_incoming idx) h []"

definition complete_source :: "hash_index \<Rightarrow> native_index \<Rightarrow> string \<Rightarrow> bool" where
  "complete_source by_hash idx h \<longleftrightarrow>
     complete (map claim_source (outgoing_of idx h)) (principal_msat (observed by_hash h))
     \<and> fee_attribution (observed by_hash h) = ''exact''
     \<and> 0 \<le> fee_msat (observed by_hash h)
     \<and> (\<forall>c \<in> set (outgoing_of idx h).
          let t = observation_hash (target_of c)
          in complete (map target_of (incoming_of idx t)) (principal_msat (observed by_hash t)))"

definition complete_sources :: "hash_index \<Rightarrow> native_index \<Rightarrow> string list" where
  "complete_sources by_hash idx = filter (complete_source by_hash idx) (map fst (ni_outgoing idx))"

section \<open>The order of native sources\<close>

definition native_order_key :: "hash_index \<Rightarrow> string \<Rightarrow> string \<times> string \<times> string" where
  "native_order_key by_hash h =
     (occurred_at (observed by_hash h), ek_native_event_id (event_key (observed by_hash h)), h)"

definition native_transfer ::
  "(string \<Rightarrow> chain_order_evidence option) \<Rightarrow> hash_index \<Rightarrow> string \<Rightarrow> quantity_claim \<Rightarrow> chain_transfer" where
  "native_transfer evidence_of by_hash h claim =
     \<lparr>tr_evidence = evidence_of (anchor_transaction_id (observed by_hash h)),
      tr_from_wallet_id = wallet_id (observed by_hash h),
      tr_to_wallet_id = wallet_id (observed by_hash (observation_hash (target_of claim)))\<rparr>"

definition order_run ::
  "(string \<Rightarrow> chain_order_evidence option) \<Rightarrow> hash_index \<Rightarrow> native_index \<Rightarrow> string list \<Rightarrow> string list result" where
  "order_run evidence_of by_hash idx sources =
     (if length sources = 1 then Inr sources
      else
        let pairs = concat (map (\<lambda>h. map (Pair h) (outgoing_of idx h)) sources);
            transfers = fold (\<lambda>(h, c). AList.update (claim_id c) (native_transfer evidence_of by_hash h c)) pairs [];
            source_by_claim = fold (\<lambda>(h, c). AList.update (claim_id c) h) pairs [];
            items = map (\<lambda>(index, cid). (int index, ''transfer'', cid)) (List.enumerate 0 (map fst transfers))
        in bind_res (order_same_time_transfers items transfers) (\<lambda>ordered.
             Inr (first_occurrences (map (\<lambda>(_, cid). the (map_of source_by_claim cid)) ordered))))"

definition ordered_native_sources ::
  "(string \<Rightarrow> chain_order_evidence option) \<Rightarrow> hash_index \<Rightarrow> native_index \<Rightarrow> string list \<Rightarrow> string list result" where
  "ordered_native_sources evidence_of by_hash idx source_hashes =
     bind_res (map_res (order_run evidence_of by_hash idx)
        (group_runs (\<lambda>h. occurred_at (observed by_hash h)) (sort_key (native_order_key by_hash) source_hashes)))
       (\<lambda>runs. Inr (concat runs))"

section \<open>What the review expects\<close>

record reviewed_expectation =
  rx_expected :: "(string \<times> string, int) dict"
  rx_sources :: "string list"
  rx_targets :: "string list"

text \<open>\<open>d[k] += n\<close> on a \<open>defaultdict(int)\<close>\<close>

definition dict_add :: "'k \<Rightarrow> int \<Rightarrow> ('k, int) dict \<Rightarrow> ('k, int) dict" where
  "dict_add k n d = AList.update k (dict_get d k 0 + n) d"

text \<open>The sink a reviewed claim is booked under; \<open>None\<close> makes the component unsupported.\<close>

definition reviewed_sink :: "quantity_claim \<Rightarrow> string option" where
  "reviewed_sink claim =
     (case claim_target claim of
        Some t \<Rightarrow> Some (observation_hash t)
      | None \<Rightarrow>
          if destination_kind claim = Some ''fee'' \<and> claim_reason claim = ''reviewed_network_fee'' then Some ''fee''
          else if claim_state claim = CUSTODY_SUSPENSE \<and> claim_reason claim = ''reviewed_residual_suspense''
          then Some ''fee'' else None)"

fun expect_claims :: "quantity_claim list \<Rightarrow> reviewed_expectation \<Rightarrow> reviewed_expectation option" where
  "expect_claims [] rx = Some rx"
| "expect_claims (claim # claims) rx =
     (let h = observation_hash (claim_source claim)
      in case reviewed_sink claim of
           None \<Rightarrow> None
         | Some sink \<Rightarrow>
             expect_claims claims
               \<lparr>rx_expected = dict_add (h, sink) (slice_amount (claim_source claim)) (rx_expected rx),
                rx_sources = List.insert h (rx_sources rx),
                rx_targets = (if claim_target claim = None then rx_targets rx else List.insert sink (rx_targets rx))\<rparr>)"

definition add_source_fees :: "hash_index \<Rightarrow> reviewed_expectation \<Rightarrow> (string \<times> string, int) dict" where
  "add_source_fees by_hash rx =
     fold (\<lambda>h d. if fee_msat (observed by_hash h) \<noteq> 0 then dict_add (h, ''fee'') (fee_msat (observed by_hash h)) d else d)
       (rx_sources rx) (rx_expected rx)"

section \<open>Following the native route\<close>

record walk_context =
  wc_by_hash :: hash_index
  wc_index :: native_index
  wc_expected :: "(string \<times> string, int) dict"
  wc_sources :: "string list"
  wc_targets :: "string list"
  wc_protected :: "string list"
  wc_anchors :: "string list"
  wc_selected_rows :: "string list"

record route_walk =
  rw_pools :: "(custody_pool, (string, int) dict) dict"
  rw_actual :: "(string \<times> string, int) dict"
  rw_used :: "string list"
  rw_used_claims :: "string list"
  rw_seeded :: "string list"
  rw_intermediate :: "custody_pool list"

definition foreign_anchor :: "walk_context \<Rightarrow> quantity_observation \<Rightarrow> bool" where
  "foreign_anchor ctx ob \<longleftrightarrow> transaction_id ob \<in> set (wc_protected ctx) \<and> transaction_id ob \<notin> set (wc_anchors ctx)"

definition walk_cell ::
  "walk_context \<Rightarrow> quantity_claim list \<Rightarrow> allocation_cell \<Rightarrow> route_walk \<Rightarrow> route_walk option" where
  "walk_cell ctx claims cell w =
     (if cell_sink_id cell = ''fee'' then
        Some (w\<lparr>rw_actual := dict_add (cell_source_id cell, ''fee'') (cell_amount_msat cell) (rw_actual w)\<rparr>)
      else
        let target = observed (wc_by_hash ctx) (observation_hash (target_of (claims ! int_of_digits (cell_sink_id cell))));
            w1 = w\<lparr>rw_used := List.insert (transaction_id target) (rw_used w)\<rparr>
        in if transaction_id target \<in> set (wc_selected_rows ctx) \<or> foreign_anchor ctx target then None
           else if quantity_hash target \<in> set (wc_targets ctx) then
             Some (w1\<lparr>rw_actual := dict_add (cell_source_id cell, quantity_hash target) (cell_amount_msat cell) (rw_actual w1)\<rparr>)
           else
             Some (w1\<lparr>rw_intermediate := List.insert (pool_of target) (rw_intermediate w1),
                      rw_pools := AList.update (pool_of target)
                        (dict_add (cell_source_id cell) (cell_amount_msat cell) (dict_get (rw_pools w1) (pool_of target) []))
                        (rw_pools w1)\<rparr>))"

fun walk_cells :: "walk_context \<Rightarrow> quantity_claim list \<Rightarrow> allocation_cell list \<Rightarrow> route_walk \<Rightarrow> route_walk option" where
  "walk_cells ctx claims [] w = Some w"
| "walk_cells ctx claims (cell # cells) w =
     (case walk_cell ctx claims cell w of None \<Rightarrow> None | Some w' \<Rightarrow> walk_cells ctx claims cells w')"

definition bucket_seq :: "(string \<times> int) list \<Rightarrow> raw_buckets" where
  "bucket_seq bs = BucketSeq (map (\<lambda>(k, n). BucketPair (Some k) (AmountInt n)) bs)"

definition ordered_claims :: "walk_context \<Rightarrow> string \<Rightarrow> quantity_claim list" where
  "ordered_claims ctx h = sort_key (\<lambda>c. start_msat (claim_source c)) (outgoing_of (wc_index ctx) h)"

definition native_sinks :: "walk_context \<Rightarrow> string \<Rightarrow> (string \<times> int) list" where
  "native_sinks ctx h =
     map (\<lambda>(i, c). (nat_str i, slice_amount (claim_source c))) (List.enumerate 0 (ordered_claims ctx h))
     @ (if fee_msat (observed (wc_by_hash ctx) h) \<noteq> 0 then [(''fee'', fee_msat (observed (wc_by_hash ctx) h))] else [])"

definition expected_debit :: "walk_context \<Rightarrow> string \<Rightarrow> int" where
  "expected_debit ctx h = (\<Sum>((k, _), n) \<leftarrow> wc_expected ctx. if k = h then n else 0)"

text \<open>The debit of a source out of the credits of its pool, once they are known.\<close>

definition spend_source ::
  "walk_context \<Rightarrow> string \<Rightarrow> (string, int) dict \<Rightarrow> route_walk \<Rightarrow> route_walk option result" where
  "spend_source ctx h credits w =
     (let source = observed (wc_by_hash ctx) h in
      if (\<Sum>(_, n) \<leftarrow> credits. n) < principal_msat source + fee_msat source then Inr None
      else bind_res (the (allocate_msat_fifo (bucket_seq credits) (bucket_seq (native_sinks ctx h)) None)) (\<lambda>allocated.
        Inr (walk_cells ctx (ordered_claims ctx h) (res_cells allocated)
               (w\<lparr>rw_pools := AList.update (pool_of source)
                    (filter (\<lambda>(_, n). n \<noteq> 0) (res_source_remaining allocated)) (rw_pools w),
                  rw_used := List.insert (transaction_id source) (rw_used w),
                  rw_used_claims := fold List.insert (map claim_id (ordered_claims ctx h)) (rw_used_claims w)\<rparr>))))"

definition walk_source :: "walk_context \<Rightarrow> string \<Rightarrow> route_walk \<Rightarrow> route_walk option result" where
  "walk_source ctx h w =
     (let source = observed (wc_by_hash ctx) h;
          credits = dict_get (rw_pools w) (pool_of source) []
      in if h \<in> set (wc_sources ctx) then
           (if expected_debit ctx h \<noteq> principal_msat source + fee_msat source then Inr None
            else spend_source ctx h (dict_add h (expected_debit ctx h) credits)
                   (w\<lparr>rw_seeded := List.insert h (rw_seeded w)\<rparr>))
         else if credits = [] then Inr (Some w)
         else if foreign_anchor ctx source then Inr None
         else spend_source ctx h credits w)"

fun walk_route :: "walk_context \<Rightarrow> string list \<Rightarrow> route_walk \<Rightarrow> route_walk option result" where
  "walk_route ctx [] w = Inr (Some w)"
| "walk_route ctx (h # hs) w =
     bind_res (walk_source ctx h w) (\<lambda>r. case r of None \<Rightarrow> Inr None | Some w' \<Rightarrow> walk_route ctx hs w')"

definition empty_walk :: route_walk where
  "empty_walk = \<lparr>rw_pools = [], rw_actual = [], rw_used = [], rw_used_claims = [], rw_seeded = [], rw_intermediate = []\<rparr>"

section \<open>One component\<close>

text \<open>Equality of dictionaries, whatever their order.\<close>

definition dict_eq :: "('k, 'v) dict \<Rightarrow> ('k, 'v) dict \<Rightarrow> bool" where
  "dict_eq d e \<longleftrightarrow> (\<forall>k \<in> set (map fst d @ map fst e). map_of d k = map_of e k)"

definition activity_of :: "hash_index \<Rightarrow> custody_pool \<Rightarrow> quantity_observation list" where
  "activity_of by_hash pool =
     sort_key occurred_at
       (filter (\<lambda>ob. (principal_msat ob \<noteq> 0 \<or> fee_msat ob \<noteq> 0) \<and> pool_of ob = pool) (map snd by_hash))"

definition route_matches :: "walk_context \<Rightarrow> string \<Rightarrow> string \<Rightarrow> route_walk \<Rightarrow> bool" where
  "route_matches ctx start stop w \<longleftrightarrow>
     set (rw_seeded w) = set (wc_sources ctx)
     \<and> dict_eq (rw_actual w) (wc_expected ctx)
     \<and> (\<forall>(_, credits) \<in> set (rw_pools w). credits = [])
     \<and> \<not> set (rw_used w) \<subseteq> set (wc_anchors ctx)
     \<and> (\<forall>pool \<in> set (rw_intermediate w).
          \<forall>ob \<in> set (between occurred_at (activity_of (wc_by_hash ctx) pool) start stop).
            transaction_id ob \<in> set (rw_used w))"

definition reconciled :: "hash_index \<Rightarrow> (string \<times> string) \<times> int \<Rightarrow> reconciled_allocation" where
  "reconciled by_hash = (\<lambda>((source, target), amount).
     \<lparr>ra_source_transaction_id = anchor_transaction_id (observed by_hash source),
      ra_target_transaction_id =
        (if target \<noteq> ''fee'' then Some (anchor_transaction_id (observed by_hash target)) else None),
      ra_asset = asset (observed by_hash source),
      ra_amount_msat = amount,
      ra_destination_kind = (if target = ''fee'' then ''fee'' else ''wallet'')\<rparr>)"

definition certificate ::
  "(((string \<times> string) \<times> int) list \<Rightarrow> string) \<Rightarrow> native_component \<Rightarrow> walk_context \<Rightarrow> route_walk
     \<Rightarrow> native_component_reconciliation" where
  "certificate digest component ctx w =
     \<lparr>nr_component_id = str_of_opt (comp_id component),
      nr_component_revision = comp_revision component,
      nr_native_claim_ids = sort (rw_used_claims w),
      nr_native_claim_amounts =
        map (\<lambda>k. (k, dict_get (ni_claim_amounts (wc_index ctx)) k 0)) (sort (rw_used_claims w)),
      nr_transaction_ids = sort (rw_used w),
      nr_reviewed_allocation_digest = digest (sort (wc_expected ctx)),
      nr_allocations = map (reconciled (wc_by_hash ctx)) (sort (wc_expected ctx))\<rparr>"

definition component_anchors :: "native_component \<Rightarrow> string list" where
  "component_anchors component = filter (\<lambda>a. a \<noteq> '''') (remdups (map anchor_of (comp_legs component)))"

definition caught :: "py_error \<Rightarrow> bool" where
  "caught e \<longleftrightarrow> (case e of AppError _ _ \<Rightarrow> True | ValueError _ \<Rightarrow> True | CustodyGapHoldCompileError _ \<Rightarrow> True | _ \<Rightarrow> False)"

text \<open>The fixed data of one call.\<close>

record reconcile_env =
  re_observations :: observation_map
  re_index :: native_index
  re_complete :: "string list"
  re_ordered :: "string list"
  re_protected :: "string list"
  re_blocked :: "string list"
  re_digest :: "((string \<times> string) \<times> int) list \<Rightarrow> string"

definition reconcile_reviewed ::
  "reconcile_env \<Rightarrow> string list \<Rightarrow> native_component \<Rightarrow> quantity_claim list
     \<Rightarrow> native_component_reconciliation option result" where
  "reconcile_reviewed env selected_rows component claims =
     (let by_hash = hash_index_of (re_observations env) in
      case expect_claims claims \<lparr>rx_expected = [], rx_sources = [], rx_targets = []\<rparr> of
        None \<Rightarrow> Inr None
      | Some rx \<Rightarrow>
          if rx_sources rx = [] \<or> rx_targets rx = [] \<or> \<not> set (rx_sources rx) \<subseteq> set (re_complete env) then Inr None
          else
            let ctx = \<lparr>wc_by_hash = by_hash, wc_index = re_index env, wc_expected = add_source_fees by_hash rx,
                       wc_sources = rx_sources rx, wc_targets = rx_targets rx, wc_protected = re_protected env,
                       wc_anchors = component_anchors component, wc_selected_rows = selected_rows\<rparr>;
                start = Min ((\<lambda>h. occurred_at (observed by_hash h)) ` set (rx_sources rx));
                stop = Max ((\<lambda>h. occurred_at (observed by_hash h)) ` set (rx_targets rx))
            in bind_res (walk_route ctx (between (\<lambda>h. occurred_at (observed by_hash h)) (re_ordered env) start stop) empty_walk)
                 (\<lambda>r. case r of
                        None \<Rightarrow> Inr None
                      | Some w \<Rightarrow>
                          Inr (if route_matches ctx start stop w then Some (certificate (re_digest env) component ctx w) else None)))"

definition reconcile_component ::
  "reconcile_env \<Rightarrow> string list \<Rightarrow> native_component \<Rightarrow> native_component_reconciliation option result" where
  "reconcile_component env selected_rows component =
     (let anchors = component_anchors component in
      if comp_effective_state component \<noteq> Some ''active'' \<or> comp_conservation_mode component \<noteq> Some ''quantity''
         \<or> comp_economic_terms component \<noteq> [] then Inr None
      else if set anchors \<inter> set (re_blocked env) \<noteq> {} \<or> set anchors \<inter> set selected_rows \<noteq> {} then Inr None
      else case compile_component_quantity_claims (custody_component.truncate component)
                  (filter (\<lambda>(k, _). k \<in> set anchors) (re_observations env)) of
             Inl e \<Rightarrow> if caught e then Inr None else Inl e
           | Inr reviewed \<Rightarrow> reconcile_reviewed env selected_rows component (cc_claims reviewed))"

fun reconcile_loop ::
  "reconcile_env \<Rightarrow> native_component list \<Rightarrow> string list \<Rightarrow> native_component_reconciliation list result" where
  "reconcile_loop env [] selected_rows = Inr []"
| "reconcile_loop env (component # components) selected_rows =
     bind_res (reconcile_component env selected_rows component) (\<lambda>r.
       case r of
         None \<Rightarrow> reconcile_loop env components selected_rows
       | Some cert \<Rightarrow>
           bind_res (reconcile_loop env components (selected_rows @ nr_transaction_ids cert)) (\<lambda>certs. Inr (cert # certs)))"

definition reconcile_native_components ::
  "(((string \<times> string) \<times> int) list \<Rightarrow> string) \<Rightarrow> (string \<Rightarrow> chain_order_evidence option)
     \<Rightarrow> native_component list \<Rightarrow> observation_map \<Rightarrow> quantity_claim list \<Rightarrow> string list
     \<Rightarrow> native_component_reconciliation list result" where
  "reconcile_native_components digest evidence_of components observations native_claims blocked_ids =
     (let by_hash = hash_index_of observations in
      bind_res (native_index_of by_hash blocked_ids native_claims
                  \<lparr>ni_outgoing = [], ni_incoming = [], ni_claim_amounts = []\<rparr>) (\<lambda>idx.
        let complete = complete_sources by_hash idx in
        if complete = [] then Inr []
        else bind_res (ordered_native_sources evidence_of by_hash idx complete) (\<lambda>ordered.
          bind_res (reconcile_loop
              \<lparr>re_observations = observations, re_index = idx, re_complete = complete, re_ordered = ordered,
               re_protected = remdups (concat (map component_anchors components)),
               re_blocked = blocked_ids, re_digest = digest\<rparr> components [])
            (\<lambda>certs. Inr (sort_key nr_component_id certs)))))"

end
