(* ===== verification/Native_Soundness.thy ===== *)
theory Native_Soundness
  imports Native_Reconciliation
begin

text \<open>
  What a native certificate means. The FIFO allocator used to follow a route never fails there
  and fills every sink, so the walk over native sources keeps an exact account of fees and of
  the rows it used; a certificate therefore reproduces the reviewed quantities exactly, and the
  reconciliation raises nothing of its own.
\<close>

section \<open>Dictionaries and digits\<close>

lemma dict_add_distinct [simp]: "distinct (map fst d) \<Longrightarrow> distinct (map fst (dict_add k n d))"
  by (simp add: dict_add_def distinct_update)

lemma dict_add_keys [simp]: "fst ` set (dict_add k n d) = insert k (fst ` set d)"
  by (simp add: dict_add_def update_fst_image)

lemma dict_add_sum:
  assumes "distinct (map fst d)"
  shows "(\<Sum>(k, v) \<leftarrow> dict_add k0 n d. if P k then v else 0)
    = (\<Sum>(k, v) \<leftarrow> d. if P k then v else 0) + (if P k0 then n else 0)"
  using assms
proof (induction d)
  case Nil
  then show ?case by (simp add: dict_add_def dict_get_def)
next
  case (Cons p d)
  obtain k v where p: "p = (k, v)" by (cases p)
  show ?case
  proof (cases "k = k0")
    case True
    then show ?thesis by (simp add: p dict_add_def dict_get_def)
  next
    case False
    then have "dict_add k0 n (p # d) = p # dict_add k0 n d" by (auto simp: p dict_add_def dict_get_def)
    then show ?thesis using Cons by (simp add: p)
  qed
qed

lemma dict_add_nonneg:
  assumes "distinct (map fst d)" and "\<forall>(_, v) \<in> set d. 0 \<le> v" and "0 \<le> n"
  shows "\<forall>(_, v) \<in> set (dict_add k n d). (0 :: int) \<le> v"
proof clarify
  fix k' v'
  have "0 \<le> dict_get d k 0" using assms(2) by (fastforce simp: dict_get_def split: option.splits dest: map_of_SomeD)
  moreover assume "(k', v') \<in> set (dict_add k n d)"
  ultimately show "0 \<le> v'" using assms update_member [OF assms(1)] by (fastforce simp: dict_add_def)
qed

lemma dict_eq_mset:
  assumes "dict_eq d e" and "distinct (map fst d)" and "distinct (map fst e)"
  shows "mset d = mset e"
proof -
  have "map_of d k = map_of e k" for k
    using assms(1) by (cases "k \<in> set (map fst d @ map fst e)") (auto simp: dict_eq_def map_of_eq_None_iff [symmetric])
  then have "set d = set e" using assms(2,3) by (metis map_of_inject_set ext)
  then show ?thesis using assms(2,3) by (simp add: set_eq_iff_mset_eq_distinct distinct_map)
qed

lemma int_of_digits_append: "int_of_digits (xs @ [c]) = 10 * int_of_digits xs + (of_char c - 48)"
  by (simp add: int_of_digits_def)

lemma int_of_digits_nat_str [simp]: "int_of_digits (nat_str n) = n"
proof (induction n rule: nat_str.induct)
  case (1 n)
  show ?case
  proof (cases "n < 10")
    case True
    then show ?thesis by (simp add: nat_str.simps [of n] int_of_digits_def of_char_of)
  next
    case False
    then have "int_of_digits (nat_str n) = 10 * (n div 10) + n mod 10"
      using 1 by (simp add: nat_str.simps [of n] int_of_digits_append of_char_of)
    then show ?thesis by simp
  qed
qed

lemma nat_str_inject [simp]: "nat_str m = nat_str n \<longleftrightarrow> m = n"
  by (metis int_of_digits_nat_str)

lemma nat_str_digits: "c \<in> set (nat_str n) \<Longrightarrow> (of_char c :: nat) \<le> 57"
proof (induction n rule: nat_str.induct)
  case (1 n)
  then show ?case by (cases "n < 10") (auto simp: nat_str.simps [of n] of_char_of)
qed

lemma nat_str_not_fee [simp]: "nat_str n \<noteq> ''fee''" "''fee'' \<noteq> nat_str n"
proof -
  show "nat_str n \<noteq> ''fee''"
  proof
    assume "nat_str n = ''fee''"
    then have "CHR ''f'' \<in> set (nat_str n)" by simp
    from nat_str_digits [OF this] show False by simp
  qed
  then show "''fee'' \<noteq> nat_str n" by metis
qed

lemma nat_str_not_empty [simp]: "nat_str n \<noteq> ''''"
  by (subst nat_str.simps) simp

section \<open>The allocator on a route\<close>

definition bucket_dict :: "(string \<times> int) list \<Rightarrow> bool" where
  "bucket_dict bs \<longleftrightarrow> distinct (map fst bs) \<and> (\<forall>(k, n) \<in> set bs. k \<noteq> '''' \<and> 0 \<le> n)"

lemma bucket_seq_buckets: "bucket_dict bs \<Longrightarrow> allocation_buckets kind (bucket_seq bs) = Inr bs"
proof -
  assume bs: "bucket_dict bs"
  then have "map_res (normalize_bucket kind) (map (\<lambda>(k, n). BucketPair (Some k) (AmountInt n)) bs) = Inr bs"
    unfolding bucket_dict_def
    by (induction bs) (auto simp: normalize_bucket_def str_or_empty_def)
  then show ?thesis using bs by (simp add: allocation_buckets_def bucket_seq_def bucket_dict_def)
qed

text \<open>Every sink is filled: the cells of a sink sum to its amount.\<close>

lemma side_exact_full:
  assumes "side_exact cid cstart bs left cells" and "distinct (map fst bs)"
    and "(\<Sum>c \<leftarrow> cells. cell_amount_msat c) = (\<Sum>b \<leftarrow> bs. snd b)" and "b \<in> set bs"
  shows "cells_of cid (fst b) cells = snd b"
proof -
  have le: "cells_of cid (fst b) cells \<le> snd b" if "b \<in> set bs" for b
    using assms(1) that by (fastforce simp: side_exact_def in_set_conv_nth)
  have "(\<Sum>k \<leftarrow> map fst bs. \<Sum>c \<leftarrow> filter (\<lambda>c. cid c = k) cells. cell_amount_msat c) = (\<Sum>c \<leftarrow> cells. cell_amount_msat c)"
    using assms(1,2) by (intro sum_list_regroup) (auto simp: side_exact_def)
  then have "(\<Sum>b \<leftarrow> bs. snd b - cells_of cid (fst b) cells) = 0"
    using assms(3) by (simp add: cells_of_def comp_def sum_list_subtractf)
  moreover have "\<forall>x \<in> set (map (\<lambda>b. snd b - cells_of cid (fst b) cells) bs). 0 \<le> x" using le by auto
  ultimately have "\<forall>x \<in> set (map (\<lambda>b. snd b - cells_of cid (fst b) cells) bs). x = 0"
    using sum_list_nonneg_eq_0_iff [of "map (\<lambda>b. snd b - cells_of cid (fst b) cells) bs"] by blast
  then show ?thesis using assms(4) by auto
qed

lemma fifo_fills_sinks:
  assumes "bucket_dict credits" and "bucket_dict sinks" and "(\<Sum>b \<leftarrow> sinks. snd b) \<le> (\<Sum>b \<leftarrow> credits. snd b)"
  obtains r where "allocate_msat_fifo (bucket_seq credits) (bucket_seq sinks) None = Some (Inr r)"
    "\<And>b. b \<in> set sinks \<Longrightarrow> cells_of cell_sink_id (fst b) (res_cells r) = snd b"
    "\<And>c. c \<in> set (res_cells r) \<Longrightarrow> cell_source_id c \<in> fst ` set credits \<and> cell_sink_id c \<in> fst ` set sinks \<and> 0 < cell_amount_msat c"
    "bucket_dict (res_source_remaining r)"
proof -
  note b = bucket_seq_buckets [OF assms(1)] bucket_seq_buckets [OF assms(2)]
  have "0 \<le> (\<Sum>b \<leftarrow> sinks. snd b)" using assms(2) by (intro sum_list_nonneg_int) (auto simp: bucket_dict_def)
  then have "fifo_feasible (bucket_seq credits) (bucket_seq sinks) None"
    using assms(3) by (simp add: fifo_feasible_def b requested_msat_def)
  then obtain r where r: "allocate_msat_fifo (bucket_seq credits) (bucket_seq sinks) None = Some (Inr r)"
    "fifo_exact_result (bucket_seq credits) (bucket_seq sinks) None r" using allocate_msat_fifo_feasible by blast
  then have ex: "(\<Sum>c \<leftarrow> res_cells r. cell_amount_msat c) = (\<Sum>b \<leftarrow> sinks. snd b)"
    "side_exact cell_source_id cell_source_start_msat credits (res_source_remaining r) (res_cells r)"
    "side_exact cell_sink_id cell_sink_start_msat sinks (res_sink_remaining r) (res_cells r)"
    by (auto simp: fifo_exact_result_def b requested_msat_def)
  have keys: "map fst (res_source_remaining r) = map fst credits" using ex(2) by (simp add: side_exact_def)
  have "0 \<le> snd x" if x: "x \<in> set (res_source_remaining r)" for x
  proof -
    obtain i where "i < length (res_source_remaining r)" "x = res_source_remaining r ! i"
      using x unfolding in_set_conv_nth by blast
    moreover have "length (res_source_remaining r) = length credits" using keys by (metis length_map)
    ultimately show ?thesis using ex(2) by (simp add: side_exact_def)
  qed
  moreover have "fst x \<noteq> ''''" if x: "x \<in> set (res_source_remaining r)" for x
  proof -
    have "fst x \<in> fst ` set credits" using x keys by (metis image_eqI set_map)
    then obtain y where "y \<in> set credits" "fst x = fst y" by blast
    then show ?thesis using assms(1) by (simp add: bucket_dict_def case_prod_beta)
  qed
  ultimately have "bucket_dict (res_source_remaining r)"
    using assms(1) keys by (simp add: bucket_dict_def case_prod_beta)
  moreover have "cells_of cell_sink_id (fst b) (res_cells r) = snd b" if "b \<in> set sinks" for b
    using side_exact_full [OF ex(3) _ ex(1) that] assms(2) by (simp add: bucket_dict_def)
  ultimately show thesis using that r(1) ex(2,3) by (auto simp: side_exact_def)
qed

section \<open>Complete sources\<close>

lemma tile_cursor_sum: "tile_cursor s ss = Some e \<Longrightarrow> (\<Sum>x \<leftarrow> ss. slice_amount x) = e - s"
  by (induction ss arbitrary: s) (auto simp: slice_amount_def split: if_splits)

lemma complete_sum: "complete ss n \<Longrightarrow> (\<Sum>x \<leftarrow> ss. slice_amount x) = n"
  using tile_cursor_sum [of 0 "sort_key start_msat ss" n] by (simp add: complete_def sum_list_sort_key)

text \<open>What the walk needs of a source: claims with positive amounts that tile its principal.\<close>

definition good_source :: "walk_context \<Rightarrow> string \<Rightarrow> bool" where
  "good_source ctx h \<longleftrightarrow>
     (\<forall>c \<in> set (outgoing_of (wc_index ctx) h). valid_slice (claim_source c))
     \<and> (\<Sum>c \<leftarrow> outgoing_of (wc_index ctx) h. slice_amount (claim_source c)) = principal_msat (observed (wc_by_hash ctx) h)
     \<and> 0 \<le> fee_msat (observed (wc_by_hash ctx) h) \<and> h \<noteq> ''''"

lemma native_sinks_good:
  assumes "good_source ctx h"
  shows "bucket_dict (native_sinks ctx h)"
    "(\<Sum>b \<leftarrow> native_sinks ctx h. snd b) = principal_msat (observed (wc_by_hash ctx) h) + fee_msat (observed (wc_by_hash ctx) h)"
    "k \<in> fst ` set (native_sinks ctx h) \<Longrightarrow> k = ''fee'' \<or> (\<exists>i < length (ordered_claims ctx h). k = nat_str i)"
proof -
  let ?cs = "ordered_claims ctx h" and ?fee = "fee_msat (observed (wc_by_hash ctx) h)"
  let ?s = "map (\<lambda>(i, c). (nat_str i, slice_amount (claim_source c))) (List.enumerate 0 ?cs)"
  have fst: "map fst ?s = map nat_str [0..<length ?cs]"
    by (auto intro!: nth_equalityI simp: nth_enumerate_eq)
  have "distinct (map nat_str [0..<length ?cs])" by (simp add: distinct_map inj_on_def)
  moreover have "0 \<le> slice_amount (claim_source c)" if "c \<in> set ?cs" for c
    using assms that by (auto simp: good_source_def ordered_claims_def valid_slice_def slice_amount_def)
  then have "\<forall>(k, n) \<in> set ?s. k \<noteq> '''' \<and> 0 \<le> n"
    by (auto simp: in_set_enumerate_eq)
  moreover have "''fee'' \<notin> set (map nat_str [0..<length ?cs])" by auto
  ultimately show "bucket_dict (native_sinks ctx h)"
    using assms fst unfolding bucket_dict_def native_sinks_def by (auto simp: good_source_def simp del: map_map)
  have "(\<Sum>b \<leftarrow> ?s. snd b) = (\<Sum>c \<leftarrow> ?cs. slice_amount (claim_source c))"
    by (simp add: comp_def case_prod_beta map_snd_enumerate_sum [where f = "\<lambda>c. slice_amount (claim_source c)"])
  then show "(\<Sum>b \<leftarrow> native_sinks ctx h. snd b) = principal_msat (observed (wc_by_hash ctx) h) + ?fee"
    using assms by (simp add: native_sinks_def good_source_def ordered_claims_def sum_list_sort_key)
  show "k = ''fee'' \<or> (\<exists>i < length ?cs. k = nat_str i)" if "k \<in> fst ` set (native_sinks ctx h)"
    using that by (auto simp: native_sinks_def in_set_enumerate_eq split: if_splits)
qed

section \<open>The account of a walk\<close>

definition fee_total :: "(string \<times> string, int) dict \<Rightarrow> int" where
  "fee_total d = (\<Sum>(k, n) \<leftarrow> d. if snd k = ''fee'' then n else 0)"

definition pools_ok :: "route_walk \<Rightarrow> bool" where
  "pools_ok w \<longleftrightarrow> distinct (map fst (rw_pools w)) \<and> (\<forall>(_, d) \<in> set (rw_pools w). bucket_dict d)"

text \<open>Well-formed pools and account, and every used row satisfies \<open>U\<close>.\<close>

definition walk_ok :: "(string \<Rightarrow> bool) \<Rightarrow> route_walk \<Rightarrow> bool" where
  "walk_ok U w \<longleftrightarrow> pools_ok w \<and> distinct (map fst (rw_actual w)) \<and> (\<forall>tx \<in> set (rw_used w). U tx)"

definition target_observation :: "walk_context \<Rightarrow> quantity_claim \<Rightarrow> quantity_observation" where
  "target_observation ctx c = observed (wc_by_hash ctx) (observation_hash (target_of c))"

lemma fee_total_add:
  "distinct (map fst d) \<Longrightarrow> fee_total (dict_add (s, t) n d) = fee_total d + (if t = ''fee'' then n else 0)"
  using dict_add_sum [of d "\<lambda>k. snd k = ''fee''" "(s, t)" n]
  by (simp add: fee_total_def)

lemma bucket_dict_add:
  assumes "bucket_dict d" and "k \<noteq> ''''" and "0 \<le> n"
  shows "bucket_dict (dict_add k n d)"
proof -
  have "\<forall>(_, v) \<in> set (dict_add k n d). 0 \<le> v"
    using assms by (intro dict_add_nonneg) (auto simp: bucket_dict_def)
  moreover have "fst x \<noteq> ''''" if "x \<in> set (dict_add k n d)" for x
    using imageI [OF that, of fst] assms(1,2) by (auto simp: bucket_dict_def)
  ultimately show ?thesis using assms(1) by (fastforce simp: bucket_dict_def)
qed

lemma pools_ok_get: "pools_ok w \<Longrightarrow> bucket_dict (dict_get (rw_pools w) p [])"
  by (auto simp: pools_ok_def dict_get_def bucket_dict_def split: option.splits dest: map_of_SomeD)

lemma pools_ok_update: "pools_ok w \<Longrightarrow> bucket_dict d \<Longrightarrow> pools_ok (w\<lparr>rw_pools := AList.update p d (rw_pools w)\<rparr>)"
  by (auto simp: pools_ok_def distinct_update dest: update_member [rotated])

lemma walk_cell_ok:
  assumes "walk_ok U w" and "walk_cell ctx claims cell w = Some w'"
    and "cell_source_id cell \<noteq> ''''" and "0 < cell_amount_msat cell"
    and "cell_sink_id cell = ''fee'' \<or> (\<exists>i < length claims. cell_sink_id cell = nat_str i)"
    and "\<And>c. c \<in> set claims \<Longrightarrow> \<not> foreign_anchor ctx (target_observation ctx c) \<Longrightarrow> U (transaction_id (target_observation ctx c))"
    and "''fee'' \<notin> set (wc_targets ctx)"
  shows "walk_ok U w' \<and> fee_total (rw_actual w') = fee_total (rw_actual w) + (if cell_sink_id cell = ''fee'' then cell_amount_msat cell else 0)
    \<and> rw_used_claims w' = rw_used_claims w \<and> rw_seeded w' = rw_seeded w"
proof (cases "cell_sink_id cell = ''fee''")
  case True
  then show ?thesis using assms(1,2) by (auto simp: walk_cell_def walk_ok_def pools_ok_def fee_total_add)
next
  case False
  then obtain i where i: "i < length claims" "cell_sink_id cell = nat_str i" using assms(5) by blast
  let ?t = "target_observation ctx (claims ! i)"
  let ?w1 = "w\<lparr>rw_used := List.insert (transaction_id ?t) (rw_used w)\<rparr>"
  have ok: "\<not> foreign_anchor ctx ?t"
    using assms(2) False i by (auto simp: walk_cell_def target_observation_def Let_def split: if_splits)
  then have w1: "walk_ok U ?w1" using assms(1,6) i(1) by (auto simp: walk_ok_def pools_ok_def)
  have w': "w' = (if quantity_hash ?t \<in> set (wc_targets ctx)
      then ?w1\<lparr>rw_actual := dict_add (cell_source_id cell, quantity_hash ?t) (cell_amount_msat cell) (rw_actual ?w1)\<rparr>
      else ?w1\<lparr>rw_intermediate := List.insert (pool_of ?t) (rw_intermediate ?w1),
               rw_pools := AList.update (pool_of ?t)
                 (dict_add (cell_source_id cell) (cell_amount_msat cell) (dict_get (rw_pools ?w1) (pool_of ?t) []))
                 (rw_pools ?w1)\<rparr>)"
    using assms(2) False i by (auto simp: walk_cell_def target_observation_def Let_def split: if_splits)
  show ?thesis
  proof (cases "quantity_hash ?t \<in> set (wc_targets ctx)")
    case True
    then have "quantity_hash ?t \<noteq> ''fee''" using assms(7) by metis
    then show ?thesis using True w1 False by (simp add: w' walk_ok_def pools_ok_def fee_total_add)
  next
    case other: False
    have "bucket_dict (dict_add (cell_source_id cell) (cell_amount_msat cell) (dict_get (rw_pools ?w1) (pool_of ?t) []))"
      using w1 assms(3,4) by (intro bucket_dict_add pools_ok_get) (simp_all add: walk_ok_def)
    from pools_ok_update [OF _ this, of ?w1 "pool_of ?t"] show ?thesis
      using other w1 False by (simp add: w' walk_ok_def pools_ok_def)
  qed
qed

lemma walk_cells_ok:
  assumes "walk_ok U w" and "walk_cells ctx claims cells w = Some w'"
    and "\<And>c. c \<in> set cells \<Longrightarrow> cell_source_id c \<noteq> '''' \<and> 0 < cell_amount_msat c
          \<and> (cell_sink_id c = ''fee'' \<or> (\<exists>i < length claims. cell_sink_id c = nat_str i))"
    and "\<And>c. c \<in> set claims \<Longrightarrow> \<not> foreign_anchor ctx (target_observation ctx c) \<Longrightarrow> U (transaction_id (target_observation ctx c))"
    and "''fee'' \<notin> set (wc_targets ctx)"
  shows "walk_ok U w' \<and> fee_total (rw_actual w') = fee_total (rw_actual w) + cells_of cell_sink_id ''fee'' cells
    \<and> rw_used_claims w' = rw_used_claims w \<and> rw_seeded w' = rw_seeded w"
  using assms(1-3)
proof (induction cells arbitrary: w)
  case (Cons cell cells)
  obtain v where v: "walk_cell ctx claims cell w = Some v" "walk_cells ctx claims cells v = Some w'"
    using Cons.prems(2) by (auto split: option.splits)
  have "walk_ok U v \<and> fee_total (rw_actual v) = fee_total (rw_actual w) + (if cell_sink_id cell = ''fee'' then cell_amount_msat cell else 0)
    \<and> rw_used_claims v = rw_used_claims w \<and> rw_seeded v = rw_seeded w"
    using Cons.prems(3) [of cell] by (intro walk_cell_ok [OF Cons.prems(1) v(1) _ _ _ assms(4,5)]) auto
  moreover have "cells_of cell_sink_id ''fee'' (cell # cells)
      = (if cell_sink_id cell = ''fee'' then cell_amount_msat cell else 0) + cells_of cell_sink_id ''fee'' cells"
    by (simp add: cells_of_def)
  ultimately show ?case using Cons.IH [of v] v(2) Cons.prems(3) by (simp add: add.assoc)
qed simp

lemma spend_source_ok:
  assumes ok: "walk_ok U w" and h: "good_source ctx h" and credits: "bucket_dict credits"
    and targets: "\<And>c. c \<in> set (outgoing_of (wc_index ctx) h) \<Longrightarrow> \<not> foreign_anchor ctx (target_observation ctx c)
      \<Longrightarrow> U (transaction_id (target_observation ctx c))"
    and fee: "''fee'' \<notin> set (wc_targets ctx)" and source: "U (transaction_id (observed (wc_by_hash ctx) h))"
  shows "\<exists>r. spend_source ctx h credits w = Inr r \<and> (\<forall>w'. r = Some w' \<longrightarrow>
    walk_ok U w' \<and> fee_total (rw_actual w') = fee_total (rw_actual w) + fee_msat (observed (wc_by_hash ctx) h)
    \<and> set (rw_used_claims w') = set (rw_used_claims w) \<union> claim_id ` set (outgoing_of (wc_index ctx) h)
    \<and> rw_seeded w' = rw_seeded w)"
proof (cases "(\<Sum>(_, n) \<leftarrow> credits. n) < principal_msat (observed (wc_by_hash ctx) h) + fee_msat (observed (wc_by_hash ctx) h)")
  case True
  then show ?thesis by (simp add: spend_source_def Let_def)
next
  case False
  let ?sinks = "native_sinks ctx h" and ?fee = "fee_msat (observed (wc_by_hash ctx) h)" and ?ob = "observed (wc_by_hash ctx) h"
  note s = native_sinks_good [OF h]
  have "(\<Sum>(_, n) \<leftarrow> credits. n) = (\<Sum>b \<leftarrow> credits. snd b)" by (induction credits) auto
  then have "(\<Sum>b \<leftarrow> ?sinks. snd b) \<le> (\<Sum>b \<leftarrow> credits. snd b)" using False s(2) by simp
  then obtain r where r: "allocate_msat_fifo (bucket_seq credits) (bucket_seq ?sinks) None = Some (Inr r)"
    "\<And>b. b \<in> set ?sinks \<Longrightarrow> cells_of cell_sink_id (fst b) (res_cells r) = snd b"
    "\<And>c. c \<in> set (res_cells r) \<Longrightarrow> cell_source_id c \<in> fst ` set credits \<and> cell_sink_id c \<in> fst ` set ?sinks \<and> 0 < cell_amount_msat c"
    "bucket_dict (res_source_remaining r)"
    using fifo_fills_sinks [OF credits s(1)] by metis
  have paid: "cells_of cell_sink_id ''fee'' (res_cells r) = ?fee"
  proof (cases "?fee = 0")
    case True
    then have "''fee'' \<notin> fst ` set ?sinks" by (auto simp: native_sinks_def)
    then have "filter (\<lambda>c. cell_sink_id c = ''fee'') (res_cells r) = []"
      unfolding filter_empty_conv using r(3) by metis
    then show ?thesis using True by (simp add: cells_of_def)
  next
    case False
    then show ?thesis using r(2) [of "(''fee'', ?fee)"] by (simp add: native_sinks_def)
  qed
  define rest where "rest = filter (\<lambda>(_, n). n \<noteq> 0) (res_source_remaining r)"
  let ?w = "w\<lparr>rw_pools := AList.update (pool_of ?ob) rest (rw_pools w),
              rw_used := List.insert (transaction_id ?ob) (rw_used w),
              rw_used_claims := fold List.insert (map claim_id (ordered_claims ctx h)) (rw_used_claims w)\<rparr>"
  have "bucket_dict rest" unfolding rest_def using r(4) by (auto simp: bucket_dict_def distinct_map_filter)
  then have w: "walk_ok U ?w" using ok source pools_ok_update [of w] by (simp add: walk_ok_def pools_ok_def)
  have claims: "set (rw_used_claims ?w) = set (rw_used_claims w) \<union> claim_id ` set (outgoing_of (wc_index ctx) h)"
  proof -
    have "set (fold List.insert xs ys) = set ys \<union> set xs" for xs ys :: "string list"
      by (induction xs arbitrary: ys) auto
    then show ?thesis by (simp add: ordered_claims_def)
  qed
  have cells: "cell_source_id c \<noteq> '''' \<and> 0 < cell_amount_msat c
      \<and> (cell_sink_id c = ''fee'' \<or> (\<exists>i < length (ordered_claims ctx h). cell_sink_id c = nat_str i))"
    if "c \<in> set (res_cells r)" for c
  proof -
    have "cell_source_id c \<in> fst ` set credits" "0 < cell_amount_msat c" "cell_sink_id c \<in> fst ` set ?sinks"
      using r(3) [OF that] by simp_all
    moreover have "k \<noteq> ''''" if "k \<in> fst ` set credits" for k using that credits by (auto simp: bucket_dict_def)
    ultimately show ?thesis using s(3) by simp
  qed
  have "walk_ok U w' \<and> fee_total (rw_actual w') = fee_total (rw_actual w) + ?fee
      \<and> set (rw_used_claims w') = set (rw_used_claims w) \<union> claim_id ` set (outgoing_of (wc_index ctx) h)
      \<and> rw_seeded w' = rw_seeded w"
    if "walk_cells ctx (ordered_claims ctx h) (res_cells r) ?w = Some w'" for w'
    using walk_cells_ok [OF w that cells _ fee] targets paid claims by (simp add: ordered_claims_def)
  moreover have "spend_source ctx h credits w = Inr (walk_cells ctx (ordered_claims ctx h) (res_cells r) ?w)"
    using False r(1) by (simp add: spend_source_def Let_def rest_def)
  ultimately show ?thesis by blast
qed

definition walk_inv :: "walk_context \<Rightarrow> (string \<Rightarrow> bool) \<Rightarrow> string list \<Rightarrow> route_walk \<Rightarrow> bool" where
  "walk_inv ctx U P w \<longleftrightarrow>
     walk_ok U w
     \<and> fee_total (rw_actual w) = (\<Sum>h \<leftarrow> P. fee_msat (observed (wc_by_hash ctx) h))
     \<and> set (rw_used_claims w) = (\<Union>h \<in> set P. claim_id ` set (outgoing_of (wc_index ctx) h))
     \<and> (\<forall>h \<in> set (rw_seeded w). expected_debit ctx h
           = principal_msat (observed (wc_by_hash ctx) h) + fee_msat (observed (wc_by_hash ctx) h))"

text \<open>What is assumed of the sources a walk may visit: they are good, and \<open>U\<close> holds of the rows of
  a source and of its targets unless they belong to another component.\<close>

definition may_visit :: "walk_context \<Rightarrow> (string \<Rightarrow> bool) \<Rightarrow> string \<Rightarrow> bool" where
  "may_visit ctx U h \<longleftrightarrow> good_source ctx h
     \<and> (h \<in> set (wc_sources ctx) \<or> \<not> foreign_anchor ctx (observed (wc_by_hash ctx) h)
          \<longrightarrow> U (transaction_id (observed (wc_by_hash ctx) h)))
     \<and> (\<forall>c \<in> set (outgoing_of (wc_index ctx) h). \<not> foreign_anchor ctx (target_observation ctx c)
          \<longrightarrow> U (transaction_id (target_observation ctx c)))"

lemma walk_source_inv:
  assumes inv: "walk_inv ctx U P w" and h: "may_visit ctx U h" and fee: "''fee'' \<notin> set (wc_targets ctx)"
  shows "\<exists>r. walk_source ctx h w = Inr r \<and> (\<forall>w'. r = Some w' \<longrightarrow> walk_inv ctx U (P @ [h]) w' \<or> walk_inv ctx U P w')"
proof -
  let ?ob = "observed (wc_by_hash ctx) h"
  let ?credits = "dict_get (rw_pools w) (pool_of ?ob) []"
  have good: "good_source ctx h" and pools: "bucket_dict ?credits" and ok: "walk_ok U w"
    using inv h by (auto simp: walk_inv_def walk_ok_def may_visit_def intro: pools_ok_get)
  note spend = spend_source_ok [OF _ good _ _ fee]
  consider "h \<in> set (wc_sources ctx)" "expected_debit ctx h \<noteq> principal_msat ?ob + fee_msat ?ob"
    | "h \<in> set (wc_sources ctx)" "expected_debit ctx h = principal_msat ?ob + fee_msat ?ob"
    | "h \<notin> set (wc_sources ctx)" "?credits = [] \<or> foreign_anchor ctx ?ob"
    | "h \<notin> set (wc_sources ctx)" "?credits \<noteq> []" "\<not> foreign_anchor ctx ?ob" by blast
  then show ?thesis
  proof cases
    case 2
    let ?w = "w\<lparr>rw_seeded := List.insert h (rw_seeded w)\<rparr>"
    have "0 \<le> principal_msat ?ob"
    proof -
      have "0 \<le> (\<Sum>c \<leftarrow> outgoing_of (wc_index ctx) h. slice_amount (claim_source c))"
        using good by (intro sum_list_nonneg_int) (auto simp: good_source_def valid_slice_def slice_amount_def)
      then show ?thesis using good by (simp add: good_source_def)
    qed
    then have "bucket_dict (dict_add h (expected_debit ctx h) ?credits)"
      using 2 pools good by (intro bucket_dict_add) (auto simp: good_source_def)
    moreover have "walk_ok U ?w" using ok by (simp add: walk_ok_def pools_ok_def)
    ultimately show ?thesis using spend [of U ?w "dict_add h (expected_debit ctx h) ?credits"] h 2 inv
      by (auto simp: walk_source_def Let_def walk_inv_def may_visit_def)
  next
    case 4
    then show ?thesis using spend [OF ok pools] h inv
      by (auto simp: walk_source_def Let_def walk_inv_def may_visit_def)
  qed (use inv in \<open>auto simp: walk_source_def Let_def\<close>)
qed

lemma walk_route_inv:
  assumes "walk_inv ctx U P w" and "\<forall>h \<in> set hs. may_visit ctx U h" and "''fee'' \<notin> set (wc_targets ctx)"
  shows "\<exists>r. walk_route ctx hs w = Inr r \<and> (\<forall>w'. r = Some w' \<longrightarrow>
    (\<exists>Q. set Q \<subseteq> set hs \<and> (distinct hs \<longrightarrow> distinct Q) \<and> walk_inv ctx U (P @ Q) w'))"
  using assms(1,2)
proof (induction hs arbitrary: P w)
  case Nil
  then show ?case by (auto intro: exI [of _ "[]"])
next
  case (Cons h hs)
  obtain r where r: "walk_source ctx h w = Inr r"
    "\<And>w'. r = Some w' \<Longrightarrow> walk_inv ctx U (P @ [h]) w' \<or> walk_inv ctx U P w'"
    using walk_source_inv [OF Cons.prems(1) _ assms(3), of h] Cons.prems(2) by auto
  show ?case
  proof (cases r)
    case None
    then show ?thesis using r(1) by simp
  next
    case (Some v)
    then consider "walk_inv ctx U (P @ [h]) v" | "walk_inv ctx U P v" using r(2) by blast
    then show ?thesis
    proof cases
      case 1
      then obtain r' where r': "walk_route ctx hs v = Inr r'" "\<And>w'. r' = Some w' \<Longrightarrow>
        \<exists>Q. set Q \<subseteq> set hs \<and> (distinct hs \<longrightarrow> distinct Q) \<and> walk_inv ctx U (P @ h # Q) w'"
        using Cons.IH [of "P @ [h]" v] Cons.prems(2) by auto
      have "\<exists>Q. set Q \<subseteq> set (h # hs) \<and> (distinct (h # hs) \<longrightarrow> distinct Q) \<and> walk_inv ctx U (P @ Q) w'"
        if s: "r' = Some w'" for w'
      proof -
        obtain Q where "set Q \<subseteq> set hs" "distinct hs \<longrightarrow> distinct Q" "walk_inv ctx U (P @ h # Q) w'" using r'(2) [OF s] by blast
        then show ?thesis by (intro exI [of _ "h # Q"]) auto
      qed
      then show ?thesis using r(1) r'(1) Some by simp
    next
      case 2
      then show ?thesis using Cons.IH [of P v] Cons.prems(2) r(1) Some by (auto; meson subset_insertI2)
    qed
  qed
qed

section \<open>Dictionaries built by a loop\<close>

lemma update_fold_keys: "fst ` set (fold (\<lambda>x. AList.update (k x) (v x)) xs d) = fst ` set d \<union> k ` set xs"
  by (induction xs arbitrary: d) (auto simp: update_fst_image)

lemma update_fold_distinct:
  "distinct (map fst d) \<Longrightarrow> distinct (map fst (fold (\<lambda>x. AList.update (k x) (v x)) xs d))"
  by (induction xs arbitrary: d) (auto simp: distinct_update)

lemma update_fold_value:
  "map_of (fold (\<lambda>x. AList.update (k x) (v x)) xs d) y = Some z \<Longrightarrow> map_of d y = Some z \<or> z \<in> v ` set xs"
  by (induction xs arbitrary: d) (fastforce simp: update_conv' split: if_splits)+

section \<open>The index of native edges\<close>

lemma hash_index_fold:
  "map_of (fold (\<lambda>(_, ob). AList.update (quantity_hash ob) ob) obs d) h = Some x \<Longrightarrow>
     map_of d h = Some x \<or> quantity_hash x = h \<and> x \<in> snd ` set obs"
  by (induction obs arbitrary: d) (fastforce simp: update_conv' split: if_splits)+

lemma hash_index_some:
  "map_of (hash_index_of observations) h = Some ob \<Longrightarrow> quantity_hash ob = h \<and> ob \<in> snd ` set observations"
  using hash_index_fold [of observations "[]" h ob] by (simp add: hash_index_of_def)

lemma hash_index_dom: "fst ` set (hash_index_of observations) = quantity_hash ` snd ` set observations"
  using update_fold_keys [of "\<lambda>x. quantity_hash (snd x)" snd observations "[]"]
  by (simp add: hash_index_of_def case_prod_unfold image_comp comp_def)

lemma observed_hash:
  assumes "distinct (map quantity_hash (map snd observations))" and "ob \<in> snd ` set observations"
  shows "observed (hash_index_of observations) (quantity_hash ob) = ob"
proof -
  obtain x where x: "map_of (hash_index_of observations) (quantity_hash ob) = Some x"
    using assms(2) hash_index_dom [of observations] map_of_eq_None_iff
    by (metis image_eqI not_None_eq)
  then have "quantity_hash x = quantity_hash ob" "x \<in> set (map snd observations)"
    using hash_index_some by fastforce+
  then have "x = ob" using assms by (metis distinct_map inj_onD set_map)
  then show ?thesis using x by (simp add: observed_def)
qed

definition native_link :: "hash_index \<Rightarrow> string list \<Rightarrow> quantity_claim \<Rightarrow> bool" where
  "native_link by_hash blocked_ids c \<longleftrightarrow> (\<exists>s t. native_edge by_hash blocked_ids c = Inr (Some (s, t)))"

lemma native_edge_observed:
  assumes "native_edge by_hash blocked_ids c = Inr (Some (s, t))"
  shows "map_of by_hash (observation_hash (claim_source c)) = Some s"
    "claim_target c \<noteq> None" "map_of by_hash (observation_hash (target_of c)) = Some t"
    "transaction_id s \<notin> set blocked_ids" "transaction_id t \<notin> set blocked_ids"
  using assms by (auto simp: native_edge_def target_of_def split: option.splits if_splits)

text \<open>The claims of a source in the index are the native links that leave it.\<close>

lemma native_index_outgoing:
  assumes "native_index_of by_hash blocked_ids claims idx = Inr r"
    and "\<And>h ob. map_of by_hash h = Some ob \<Longrightarrow> quantity_hash ob = h"
  shows "outgoing_of r h = outgoing_of idx h
      @ filter (\<lambda>c. native_link by_hash blocked_ids c \<and> observation_hash (claim_source c) = h) claims"
  using assms(1)
proof (induction claims arbitrary: idx)
  case (Cons c claims)
  obtain edge where e: "native_edge by_hash blocked_ids c = Inr edge" using Cons.prems by (auto simp: result_simps)
  show ?case
  proof (cases edge)
    case None
    then show ?thesis using Cons e by (simp add: native_link_def)
  next
    case (Some st)
    obtain s t where st: "st = (s, t)" by (cases st)
    have "quantity_hash s = observation_hash (claim_source c)"
      using native_edge_observed(1) [of by_hash blocked_ids c s t] e assms(2) by (simp add: Some st)
    then have "outgoing_of (add_native_edge c s t idx) h
        = outgoing_of idx h @ (if observation_hash (claim_source c) = h then [c] else [])"
      by (auto simp: outgoing_of_def add_native_edge_def dict_get_def map_of_dict_append split: option.splits)
    moreover have "native_link by_hash blocked_ids c" using e by (simp add: native_link_def Some st)
    ultimately show ?thesis using Cons.IH [of "add_native_edge c s t idx"] Cons.prems e by (simp add: Some st)
  qed
qed simp

lemma native_index_keys:
  assumes "native_index_of by_hash blocked_ids claims idx = Inr r"
    and "distinct (map fst (ni_outgoing idx))" and "\<forall>(_, cs) \<in> set (ni_outgoing idx). cs \<noteq> []"
  shows "distinct (map fst (ni_outgoing r)) \<and> (\<forall>(_, cs) \<in> set (ni_outgoing r). cs \<noteq> [])"
  using assms
proof (induction claims arbitrary: idx)
  case (Cons c claims)
  obtain edge where e: "native_edge by_hash blocked_ids c = Inr edge" using Cons.prems(1) by (auto simp: result_simps)
  show ?case
  proof (cases edge)
    case None
    then show ?thesis using Cons e by simp
  next
    case (Some st)
    obtain s t where st: "st = (s, t)" by (cases st)
    have "distinct (map fst (ni_outgoing (add_native_edge c s t idx)))"
      using Cons.prems(2) by (simp add: add_native_edge_def distinct_dict_append)
    moreover have "\<forall>(_, cs) \<in> set (ni_outgoing (add_native_edge c s t idx)). cs \<noteq> []"
      using Cons.prems(3) update_member [OF Cons.prems(2)] by (fastforce simp: add_native_edge_def dict_append_def)
    ultimately show ?thesis using Cons.IH [of "add_native_edge c s t idx"] Cons.prems(1) e by (simp add: Some st)
  qed
qed simp

lemma native_index_total:
  assumes "\<And>c t. c \<in> set claims \<Longrightarrow> claim_target c = Some t \<Longrightarrow>
    observation_hash (claim_source c) \<in> fst ` set by_hash \<and> observation_hash t \<in> fst ` set by_hash"
  shows "\<exists>r. native_index_of by_hash blocked_ids claims idx = Inr r"
  using assms
proof (induction claims arbitrary: idx)
  case (Cons c claims)
  have "\<exists>e. native_edge by_hash blocked_ids c = Inr e"
    using Cons.prems [of c] map_of_eq_None_iff [of by_hash]
    by (auto simp: native_edge_def split: option.splits)
  then obtain e where e: "native_edge by_hash blocked_ids c = Inr e" by blast
  have "\<exists>r. native_index_of by_hash blocked_ids claims (case e of None \<Rightarrow> idx | Some (s, t) \<Rightarrow> add_native_edge c s t idx) = Inr r"
    by (rule Cons.IH) (use Cons.prems in auto)
  then show ?case by (simp add: e)
qed simp

section \<open>The order of native sources\<close>

lemma concat_group_runs: "concat (group_runs key xs) = xs"
  by (induction key xs rule: group_runs.induct) (auto split: list.splits)

lemma first_occurrences_set [simp]: "set (first_occurrences xs) = set xs" "distinct (first_occurrences xs)"
  by (simp_all add: first_occurrences_def)

lemma order_same_time_ids:
  assumes "distinct (map (snd \<circ> snd) items)" and "\<forall>i \<in> snd ` snd ` set items. map_of transfers i \<noteq> None"
  shows "\<exists>ordered. order_same_time_transfers items transfers = Inr ordered \<and> snd ` set ordered = snd ` snd ` set items"
proof -
  let ?ac = "acyclic (edges (full_graph transfers (map (snd \<circ> snd) items)))"
  obtain xs where xs: "?ac \<Longrightarrow> set xs = set (map (snd \<circ> snd) items)"
    "order_same_time_transfers items transfers = Inr (if ?ac then map (Pair ''transfer'') xs else map snd (sort items))"
    using ordered_transfers [OF assms(1), of transfers] assms(2) unfolding set_map image_comp by blast
  show ?thesis
  proof (cases ?ac)
    case True
    then show ?thesis using xs by (simp add: image_comp comp_def)
  next
    case False
    then show ?thesis using xs(2) by (simp add: image_comp comp_def)
  qed
qed

lemma order_run_sound:
  "\<exists>run. order_run evidence_of by_hash idx sources = Inr run \<and> set run \<subseteq> set sources \<and> distinct run"
proof (cases "length sources = 1")
  case True
  then show ?thesis by (auto simp: order_run_def length_Suc_conv)
next
  case False
  define pairs where "pairs = concat (map (\<lambda>h. map (Pair h) (outgoing_of idx h)) sources)"
  define transfers where "transfers = fold (\<lambda>x. AList.update (claim_id (snd x)) (native_transfer evidence_of by_hash (fst x) (snd x))) pairs []"
  define owner where "owner = fold (\<lambda>x. AList.update (claim_id (snd x)) (fst x)) pairs []"
  let ?items = "map (\<lambda>(index, cid). (int index, ''transfer'', cid)) (List.enumerate 0 (map fst transfers))"
  have ids: "map (snd \<circ> snd) ?items = map fst transfers"
    by (auto intro!: nth_equalityI simp: nth_enumerate_eq)
  have "snd ` snd ` set ?items = fst ` set transfers"
    using arg_cong [OF ids, of set] unfolding set_map image_comp by simp
  moreover have "distinct (map (snd \<circ> snd) ?items)" unfolding ids by (simp add: transfers_def update_fold_distinct)
  moreover have "\<forall>i \<in> fst ` set transfers. map_of transfers i \<noteq> None" by (metis map_of_eq_None_iff)
  ultimately obtain ordered where o: "order_same_time_transfers ?items transfers = Inr ordered"
    "snd ` set ordered = fst ` set transfers"
    using order_same_time_ids [of ?items transfers] by metis
  have "the (map_of owner cid) \<in> set sources" if "(k, cid) \<in> set ordered" for k cid
  proof -
    have "cid \<in> fst ` set owner" using imageI [OF that, of snd] o(2) by (simp add: transfers_def owner_def update_fold_keys)
    then obtain h where h: "map_of owner cid = Some h" by (metis map_of_eq_None_iff option.exhaust)
    then have "h \<in> fst ` set pairs" using update_fold_value [of "\<lambda>x. claim_id (snd x)" fst pairs "[]" cid h] by (simp add: owner_def)
    then show ?thesis using h by (auto simp: pairs_def)
  qed
  moreover have "order_run evidence_of by_hash idx sources
      = Inr (first_occurrences (map (\<lambda>(_, cid). the (map_of owner cid)) ordered))"
    using False o(1) unfolding order_run_def Let_def pairs_def [symmetric]
    by (simp add: transfers_def owner_def case_prod_unfold)
  ultimately show ?thesis by auto
qed

lemma ordered_native_sources_sound:
  assumes "distinct hs"
  shows "\<exists>ordered. ordered_native_sources evidence_of by_hash idx hs = Inr ordered \<and> set ordered \<subseteq> set hs \<and> distinct ordered"
proof -
  let ?runs = "group_runs (\<lambda>h. occurred_at (observed by_hash h)) (sort_key (native_order_key by_hash) hs)"
  have "\<exists>rs. map_res (order_run evidence_of by_hash idx) runs = Inr rs \<and> set (concat rs) \<subseteq> set (concat runs) \<and> distinct (concat rs)"
    if "distinct (concat runs)" for runs
    using that
  proof (induction runs)
    case (Cons run runs)
    then obtain rs where rs: "map_res (order_run evidence_of by_hash idx) runs = Inr rs" "set (concat rs) \<subseteq> set (concat runs)" "distinct (concat rs)"
      by auto
    obtain r where r: "order_run evidence_of by_hash idx run = Inr r" "set r \<subseteq> set run" "distinct r" using order_run_sound by blast
    have "set run \<inter> set (concat runs) = {}" using Cons.prems by simp
    then show ?case using rs r by (intro exI [of _ "r # rs"]) fastforce
  qed simp
  from this [of ?runs] show ?thesis
    using assms by (auto simp: concat_group_runs ordered_native_sources_def)
qed

section \<open>What the review expects\<close>

definition expectation_ok :: "reviewed_expectation \<Rightarrow> bool" where
  "expectation_ok rx \<longleftrightarrow> distinct (map fst (rx_expected rx)) \<and> distinct (rx_sources rx)
     \<and> fst ` fst ` set (rx_expected rx) \<subseteq> set (rx_sources rx)"

lemma expect_claims_ok:
  assumes "expect_claims claims rx = Some rx'" and "expectation_ok rx"
  shows "expectation_ok rx'
    \<and> set (rx_sources rx') = set (rx_sources rx) \<union> (observation_hash \<circ> claim_source) ` set claims
    \<and> (\<forall>t \<in> set (rx_targets rx'). t \<in> set (rx_targets rx) \<or> (\<exists>c \<in> set claims. \<exists>s. claim_target c = Some s \<and> t = observation_hash s))"
  using assms
proof (induction claims arbitrary: rx)
  case (Cons c claims)
  obtain sink where sink: "reviewed_sink c = Some sink" using Cons.prems(1) by (auto simp: Let_def split: option.splits)
  let ?h = "observation_hash (claim_source c)"
  let ?rx = "\<lparr>rx_expected = dict_add (?h, sink) (slice_amount (claim_source c)) (rx_expected rx),
              rx_sources = List.insert ?h (rx_sources rx),
              rx_targets = (if claim_target c = None then rx_targets rx else List.insert sink (rx_targets rx))\<rparr>"
  have "fst ` fst ` set (rx_expected ?rx) = insert ?h (fst ` fst ` set (rx_expected rx))" by simp
  then have "expectation_ok ?rx" using Cons.prems(2) by (auto simp: expectation_ok_def)
  moreover have "expect_claims claims ?rx = Some rx'" using Cons.prems(1) sink by (simp add: Let_def)
  moreover have "sink = observation_hash s" if "claim_target c = Some s" for s
    using sink that by (simp add: reviewed_sink_def)
  ultimately show ?case using Cons.IH [of ?rx] by (auto split: if_splits)
qed simp

lemma add_source_fees_ok:
  assumes "expectation_ok rx"
  shows "distinct (map fst (add_source_fees by_hash rx)) \<and> fst ` fst ` set (add_source_fees by_hash rx) \<subseteq> set (rx_sources rx)"
proof -
  let ?step = "\<lambda>h d. if fee_msat (observed by_hash h) \<noteq> 0 then dict_add (h, ''fee'') (fee_msat (observed by_hash h)) d else d"
  have "distinct (map fst (fold ?step hs d)) \<and> fst ` fst ` set (fold ?step hs d) \<subseteq> A"
    if "distinct (map fst d)" "fst ` fst ` set d \<subseteq> A" "set hs \<subseteq> A" for hs d A
    using that
  proof (induction hs arbitrary: d)
    case (Cons h hs)
    have "fst ` fst ` set (dict_add (h, ''fee'') n d) = insert h (fst ` fst ` set d)" for n by simp
    then show ?case using Cons.IH [of "?step h d"] Cons.prems by auto
  qed simp
  from this [of "rx_expected rx" "set (rx_sources rx)" "rx_sources rx"] show ?thesis
    using assms unfolding add_source_fees_def expectation_ok_def by blast
qed

lemma expected_total:
  assumes "fst ` fst ` set (wc_expected ctx) \<subseteq> set hs" and "distinct hs"
  shows "(\<Sum>(_, n) \<leftarrow> wc_expected ctx. n) = (\<Sum>h \<leftarrow> hs. expected_debit ctx h)"
proof -
  have "(\<Sum>x \<leftarrow> filter (\<lambda>x. fst (fst x) = h) (wc_expected ctx). snd x) = expected_debit ctx h" for h
    unfolding expected_debit_def sum_list_filter_if by (simp add: case_prod_unfold)
  then show ?thesis
    using sum_list_regroup [OF assms(2), of "wc_expected ctx" "\<lambda>x. fst (fst x)" snd] assms(1)
    by (simp add: case_prod_unfold image_subset_iff)
qed

lemma sum_list_mset: "mset d = mset e \<Longrightarrow> (\<Sum>x \<leftarrow> d. (f x :: int)) = (\<Sum>x \<leftarrow> e. f x)"
  by (metis mset_map sum_mset_sum_list)

lemma fee_total_mset: "mset d = mset e \<Longrightarrow> fee_total d = fee_total e"
  unfolding fee_total_def by (rule sum_list_mset)

section \<open>Certificates\<close>

definition native_inputs :: "observation_map \<Rightarrow> quantity_claim list \<Rightarrow> bool" where
  "native_inputs observations native_claims \<longleftrightarrow>
     observations_ok (map snd observations)
     \<and> (\<forall>(k, ob) \<in> set observations. transaction_id ob = k)
     \<and> (\<forall>c \<in> set native_claims. valid_claim c \<and>
          (\<forall>t. claim_target c = Some t \<longrightarrow>
             {observation_hash (claim_source c), observation_hash t} \<subseteq> quantity_hash ` snd ` set observations))"

definition reviewed_claims :: "observation_map \<Rightarrow> native_component \<Rightarrow> claim_compilation result" where
  "reviewed_claims observations component =
     compile_component_quantity_claims (custody_component.truncate component)
       (filter (\<lambda>(k, _). k \<in> set (component_anchors component)) observations)"

text \<open>
  What a certificate means: it names a component whose reviewed claims leave the sources \<open>S\<close>, and
  a set \<open>P\<close> of native sources whose links it lists. Its allocations account for the whole debit of
  \<open>S\<close>, its fees are the network fees of \<open>P\<close>, and its rows are neither blocked nor anchors of
  another component.
\<close>

definition certificate_holds ::
  "observation_map \<Rightarrow> quantity_claim list \<Rightarrow> string list \<Rightarrow> native_component list
     \<Rightarrow> native_component_reconciliation \<Rightarrow> bool" where
  "certificate_holds observations native_claims blocked_ids components cert \<longleftrightarrow>
     (let by_hash = hash_index_of observations in
      \<exists>component \<in> set components. \<exists>reviewed S P.
        reviewed_claims observations component = Inr reviewed
        \<and> set S = (observation_hash \<circ> claim_source) ` set (cc_claims reviewed)
        \<and> distinct S \<and> distinct P \<and> set P \<subseteq> quantity_hash ` snd ` set observations
        \<and> nr_component_id cert = str_of_opt (comp_id component)
        \<and> (\<Sum>a \<leftarrow> nr_allocations cert. ra_amount_msat a)
            = (\<Sum>h \<leftarrow> S. principal_msat (observed by_hash h) + fee_msat (observed by_hash h))
        \<and> (\<Sum>a \<leftarrow> filter (\<lambda>a. ra_destination_kind a = ''fee'') (nr_allocations cert). ra_amount_msat a)
            = (\<Sum>h \<leftarrow> P. fee_msat (observed by_hash h))
        \<and> set (nr_native_claim_ids cert)
            = claim_id ` {c \<in> set native_claims. native_link by_hash blocked_ids c \<and> observation_hash (claim_source c) \<in> set P}
        \<and> set (nr_transaction_ids cert) \<inter> set blocked_ids = {}
        \<and> (\<forall>other \<in> set components.
             set (nr_transaction_ids cert) \<inter> set (component_anchors other) \<subseteq> set (component_anchors component)))"

lemma certificate_sums:
  "(\<Sum>a \<leftarrow> nr_allocations (certificate digest component ctx w). ra_amount_msat a) = (\<Sum>(_, n) \<leftarrow> wc_expected ctx. n)"
  "(\<Sum>a \<leftarrow> filter (\<lambda>a. ra_destination_kind a = ''fee'') (nr_allocations (certificate digest component ctx w)). ra_amount_msat a)
     = fee_total (wc_expected ctx)"
proof -
  have "ra_amount_msat (reconciled b x) = snd x" "ra_destination_kind (reconciled b x) = ''fee'' \<longleftrightarrow> snd (fst x) = ''fee''"
    for b x by (simp_all add: reconciled_def case_prod_unfold)
  then show "(\<Sum>a \<leftarrow> nr_allocations (certificate digest component ctx w). ra_amount_msat a) = (\<Sum>(_, n) \<leftarrow> wc_expected ctx. n)"
    "(\<Sum>a \<leftarrow> filter (\<lambda>a. ra_destination_kind a = ''fee'') (nr_allocations (certificate digest component ctx w)). ra_amount_msat a)
     = fee_total (wc_expected ctx)"
    by (simp_all add: certificate_def comp_def fee_total_def filter_map case_prod_unfold sum_list_filter_if sum_list_sort_key)
qed

text \<open>The environment that \<open>reconcile_native_components\<close> builds.\<close>

definition env_ok ::
  "observation_map \<Rightarrow> quantity_claim list \<Rightarrow> string list \<Rightarrow> native_component list \<Rightarrow> reconcile_env \<Rightarrow> bool" where
  "env_ok observations native_claims blocked_ids components env \<longleftrightarrow>
     re_observations env = observations
     \<and> native_index_of (hash_index_of observations) blocked_ids native_claims
          \<lparr>ni_outgoing = [], ni_incoming = [], ni_claim_amounts = []\<rparr> = Inr (re_index env)
     \<and> re_complete env = complete_sources (hash_index_of observations) (re_index env)
     \<and> set (re_ordered env) \<subseteq> set (re_complete env) \<and> distinct (re_ordered env)
     \<and> re_protected env = remdups (concat (map component_anchors components))
     \<and> re_blocked env = blocked_ids"

lemma env_outgoing:
  assumes "env_ok observations native_claims blocked_ids components env"
  shows "outgoing_of (re_index env) h
    = filter (\<lambda>c. native_link (hash_index_of observations) blocked_ids c \<and> observation_hash (claim_source c) = h) native_claims"
proof -
  have "native_index_of (hash_index_of observations) blocked_ids native_claims
      \<lparr>ni_outgoing = [], ni_incoming = [], ni_claim_amounts = []\<rparr> = Inr (re_index env)"
    using assms by (simp add: env_ok_def)
  from native_index_outgoing [OF this, of h] hash_index_some show ?thesis
    by (simp add: outgoing_of_def)
qed

lemma env_complete:
  assumes "env_ok observations native_claims blocked_ids components env" and "h \<in> set (re_complete env)"
  shows "complete_source (hash_index_of observations) (re_index env) h" "outgoing_of (re_index env) h \<noteq> []"
proof -
  have "native_index_of (hash_index_of observations) blocked_ids native_claims
      \<lparr>ni_outgoing = [], ni_incoming = [], ni_claim_amounts = []\<rparr> = Inr (re_index env)"
    using assms(1) by (simp add: env_ok_def)
  note keys = native_index_keys [OF this, simplified]
  show "complete_source (hash_index_of observations) (re_index env) h"
    using assms by (simp add: env_ok_def complete_sources_def)
  obtain cs where "(h, cs) \<in> set (ni_outgoing (re_index env))"
    using assms by (auto simp: env_ok_def complete_sources_def)
  moreover have "map_of (ni_outgoing (re_index env)) h = Some cs" using calculation keys by simp
  ultimately show "outgoing_of (re_index env) h \<noteq> []"
    using keys by (auto simp: outgoing_of_def dict_get_def)
qed

lemma may_visit_env:
  assumes env: "env_ok observations native_claims blocked_ids components env"
    and inputs: "native_inputs observations native_claims"
    and ctx: "wc_by_hash ctx = hash_index_of observations" "wc_index ctx = re_index env"
      "wc_protected ctx = re_protected env"
    and sources: "\<And>h. h \<in> set (wc_sources ctx) \<Longrightarrow> transaction_id (observed (wc_by_hash ctx) h) \<in> set (wc_anchors ctx)"
    and h: "h \<in> set (re_complete env)"
  shows "may_visit ctx (\<lambda>tx. tx \<notin> set blocked_ids \<and> (tx \<in> set (re_protected env) \<longrightarrow> tx \<in> set (wc_anchors ctx))) h"
proof -
  let ?by = "hash_index_of observations"
  have link: "c \<in> set native_claims" "native_link ?by blocked_ids c" "observation_hash (claim_source c) = h"
    if "c \<in> set (outgoing_of (re_index env) h)" for c
    using that by (simp_all add: env_outgoing [OF env])
  have edge: "map_of ?by h \<noteq> None" "transaction_id (observed ?by h) \<notin> set blocked_ids"
      "transaction_id (target_observation ctx c) \<notin> set blocked_ids"
    if c: "c \<in> set (outgoing_of (re_index env) h)" for c
  proof -
    obtain s t where "native_edge ?by blocked_ids c = Inr (Some (s, t))" using link(2) [OF c] by (auto simp: native_link_def)
    from native_edge_observed [OF this] link(3) [OF c]
    show "map_of ?by h \<noteq> None" "transaction_id (observed ?by h) \<notin> set blocked_ids"
      "transaction_id (target_observation ctx c) \<notin> set blocked_ids"
      by (auto simp: observed_def target_observation_def ctx)
  qed
  have ne: "outgoing_of (re_index env) h \<noteq> []" by (rule env_complete(2) [OF env h])
  then obtain c where c: "c \<in> set (outgoing_of (re_index env) h)" by (meson hd_in_set)
  have cs: "complete_source ?by (re_index env) h" by (rule env_complete(1) [OF env h])
  have "good_source ctx h"
    unfolding good_source_def ctx
  proof (intro conjI ballI)
    show "valid_slice (claim_source c)" if "c \<in> set (outgoing_of (re_index env) h)" for c
      using inputs link(1) [OF that] by (auto simp: native_inputs_def valid_claim_def)
    show "(\<Sum>c \<leftarrow> outgoing_of (re_index env) h. slice_amount (claim_source c)) = principal_msat (observed ?by h)"
      using cs complete_sum [of "map claim_source (outgoing_of (re_index env) h)"] by (simp add: complete_source_def comp_def)
    show "0 \<le> fee_msat (observed ?by h)" using cs by (simp add: complete_source_def)
    show "h \<noteq> ''''"
      using inputs link [OF c] by (auto simp: native_inputs_def valid_claim_def valid_slice_def)
  qed
  then show ?thesis using edge c sources [of h]
    by (auto simp: may_visit_def ctx foreign_anchor_def)
qed

lemma reviewed_source_anchor:
  assumes inputs: "native_inputs observations native_claims"
    and cc: "reviewed_claims observations component = Inr reviewed" and c: "c \<in> set (cc_claims reviewed)"
  shows "transaction_id (observed (hash_index_of observations) (observation_hash (claim_source c))) \<in> set (component_anchors component)"
    "claim_target c = Some t \<Longrightarrow> observation_hash t \<noteq> ''fee''"
proof -
  let ?tx = "filter (\<lambda>(k, _). k \<in> set (component_anchors component)) observations"
  obtain base cs where inv: "compile_inv (component_context (custody_component.truncate component) (cc_component_id reviewed) ?tx) base cs"
    and claims: "cc_claims reviewed = cs_claims cs"
    using cc unfolding reviewed_claims_def by (rule compile_component_Inr)
  have "grounded_claim (ctx_observations (component_context (custody_component.truncate component) (cc_component_id reviewed) ?tx))
      (ctx_component_id (component_context (custody_component.truncate component) (cc_component_id reviewed) ?tx)) c"
    using inv c claims by (simp add: compile_inv_def)
  then have g: "grounded_claim ?tx (cc_component_id reviewed) c" by (simp add: component_context_def Let_def)
  then obtain ob where ob: "ob \<in> snd ` set ?tx" "observation_hash (claim_source c) = quantity_hash ob"
    unfolding grounded_claim_def observed_slice_def by blast
  have ok: "observations_ok (map snd observations)" "\<And>k x. (k, x) \<in> set observations \<Longrightarrow> transaction_id x = k"
    using inputs by (auto simp: native_inputs_def)
  have "ob \<in> snd ` set observations" using ob(1) by auto
  then have "observed (hash_index_of observations) (quantity_hash ob) = ob"
    using ok(1) by (intro observed_hash) (auto simp: observations_ok_def)
  moreover have "transaction_id ob \<in> set (component_anchors component)" using ob(1) ok(2) by auto
  ultimately show "transaction_id (observed (hash_index_of observations) (observation_hash (claim_source c))) \<in> set (component_anchors component)"
    using ob(2) by simp
  show "observation_hash t \<noteq> ''fee''" if "claim_target c = Some t"
  proof -
    obtain x where "x \<in> snd ` set ?tx" "observation_hash t = quantity_hash x"
      using g \<open>claim_target c = Some t\<close> unfolding grounded_claim_def observed_slice_def by blast
    then have "valid_observation x" using ok(1) by (auto simp: observations_ok_def)
    then have "length (quantity_hash x) = 64" by (auto simp: validate_observation_def hash_well_formed_def split: if_splits)
    then show ?thesis using \<open>observation_hash t = quantity_hash x\<close> by auto
  qed
qed

lemma between_subset:
  "set (between key xs start stop) \<subseteq> set xs" "distinct xs \<Longrightarrow> distinct (between key xs start stop)"
  by (auto simp: between_def Let_def dest!: in_set_takeD in_set_dropD)

lemma reconcile_reviewed_sound:
  assumes env: "env_ok observations native_claims blocked_ids components env"
    and inputs: "native_inputs observations native_claims"
    and component: "component \<in> set components"
    and cc: "reviewed_claims observations component = Inr reviewed"
  shows "\<exists>r. reconcile_reviewed env selected_rows component (cc_claims reviewed) = Inr r
    \<and> (\<forall>cert. r = Some cert \<longrightarrow> certificate_holds observations native_claims blocked_ids components cert)"
proof (cases "expect_claims (cc_claims reviewed) \<lparr>rx_expected = [], rx_sources = [], rx_targets = []\<rparr>")
  case None
  then show ?thesis by (simp add: reconcile_reviewed_def)
next
  case (Some rx)
  let ?by = "hash_index_of observations"
  have rx: "expectation_ok rx" "set (rx_sources rx) = (observation_hash \<circ> claim_source) ` set (cc_claims reviewed)"
    "\<And>t. t \<in> set (rx_targets rx) \<Longrightarrow> \<exists>c \<in> set (cc_claims reviewed). \<exists>s. claim_target c = Some s \<and> t = observation_hash s"
    using expect_claims_ok [OF Some] by (auto simp: expectation_ok_def)
  define ctx where "ctx = \<lparr>wc_by_hash = ?by, wc_index = re_index env, wc_expected = add_source_fees ?by rx,
                       wc_sources = rx_sources rx, wc_targets = rx_targets rx, wc_protected = re_protected env,
                       wc_anchors = component_anchors component, wc_selected_rows = selected_rows\<rparr>"
  define start where "start = Min ((\<lambda>h. occurred_at (observed ?by h)) ` set (rx_sources rx))"
  define stop where "stop = Max ((\<lambda>h. occurred_at (observed ?by h)) ` set (rx_targets rx))"
  define hs where "hs = between (\<lambda>h. occurred_at (observed ?by h)) (re_ordered env) start stop"
  let ?U = "\<lambda>tx. tx \<notin> set blocked_ids \<and> (tx \<in> set (re_protected env) \<longrightarrow> tx \<in> set (component_anchors component))"
  have hs: "set hs \<subseteq> set (re_complete env)" "distinct hs"
    using env between_subset [where xs = "re_ordered env"] unfolding hs_def env_ok_def by blast+
  have visit: "\<forall>h \<in> set hs. may_visit ctx ?U h"
    using may_visit_env [OF env inputs, of ctx] hs(1) reviewed_source_anchor(1) [OF inputs cc] rx(2)
    by (fastforce simp: ctx_def)
  have fee: "''fee'' \<notin> set (wc_targets ctx)"
    using rx(3) reviewed_source_anchor(2) [OF inputs cc] by (fastforce simp: ctx_def)
  have start: "walk_inv ctx ?U [] empty_walk"
    by (simp add: walk_inv_def walk_ok_def pools_ok_def empty_walk_def fee_total_def)
  obtain r where r: "walk_route ctx hs empty_walk = Inr r"
    "\<And>w. r = Some w \<Longrightarrow> \<exists>Q. set Q \<subseteq> set hs \<and> distinct Q \<and> walk_inv ctx ?U Q w"
    using walk_route_inv [OF start visit fee] hs(2) by auto
  have "certificate_holds observations native_claims blocked_ids components (certificate (re_digest env) component ctx w)"
    if w: "r = Some w" "route_matches ctx start stop w" for w
  proof -
    obtain Q where Q: "set Q \<subseteq> set hs" "distinct Q" "walk_inv ctx ?U Q w" using r(2) [OF w(1)] by blast
    have exp: "distinct (map fst (wc_expected ctx))" "fst ` fst ` set (wc_expected ctx) \<subseteq> set (rx_sources rx)"
      using add_source_fees_ok [OF rx(1)] by (auto simp: ctx_def)
    have "mset (rw_actual w) = mset (wc_expected ctx)"
      using w(2) Q(3) exp(1) by (intro dict_eq_mset) (auto simp: route_matches_def walk_inv_def walk_ok_def)
    then have fees: "fee_total (wc_expected ctx) = (\<Sum>h \<leftarrow> Q. fee_msat (observed ?by h))"
      using Q(3) fee_total_mset [of "rw_actual w" "wc_expected ctx"] by (simp add: walk_inv_def ctx_def)
    have "expected_debit ctx h = principal_msat (observed ?by h) + fee_msat (observed ?by h)" if "h \<in> set (rx_sources rx)" for h
      using w(2) Q(3) that by (auto simp: route_matches_def walk_inv_def ctx_def)
    then have total: "(\<Sum>(_, n) \<leftarrow> wc_expected ctx. n)
        = (\<Sum>h \<leftarrow> rx_sources rx. principal_msat (observed ?by h) + fee_msat (observed ?by h))"
      using expected_total [OF exp(2)] rx(1) by (simp add: expectation_ok_def cong: map_cong)
    have ids: "set (rw_used_claims w)
        = claim_id ` {c \<in> set native_claims. native_link ?by blocked_ids c \<and> observation_hash (claim_source c) \<in> set Q}"
      using Q(3) by (auto simp: walk_inv_def ctx_def env_outgoing [OF env])
    have used: "\<And>tx. tx \<in> set (rw_used w) \<Longrightarrow> ?U tx" using Q(3) by (simp add: walk_inv_def walk_ok_def)
    have known: "set Q \<subseteq> quantity_hash ` snd ` set observations"
    proof
      fix h
      assume "h \<in> set Q"
      then have "outgoing_of (re_index env) h \<noteq> []" using env_complete(2) [OF env] Q(1) hs(1) by blast
      then obtain c where "c \<in> set (outgoing_of (re_index env) h)" by (meson hd_in_set)
      then have "native_link ?by blocked_ids c" "observation_hash (claim_source c) = h" by (simp_all add: env_outgoing [OF env])
      then have "map_of ?by h \<noteq> None" by (auto simp: native_link_def dest: native_edge_observed(1))
      then show "h \<in> quantity_hash ` snd ` set observations" by (simp add: map_of_eq_None_iff hash_index_dom)
    qed
    have prot: "re_protected env = remdups (concat (map component_anchors components))" using env by (simp add: env_ok_def)
    show ?thesis unfolding certificate_holds_def Let_def
    proof (rule bexI [OF _ component], rule exI [of _ reviewed], rule exI [of _ "rx_sources rx"], rule exI [of _ Q], intro conjI)
      show "set (nr_transaction_ids (certificate (re_digest env) component ctx w)) \<inter> set blocked_ids = {}"
        using used by (auto simp: certificate_def)
      show "\<forall>other \<in> set components. set (nr_transaction_ids (certificate (re_digest env) component ctx w)) \<inter> set (component_anchors other)
          \<subseteq> set (component_anchors component)"
        using used by (auto simp: certificate_def prot)
    qed (use cc rx(1,2) Q(2) known total fees ids in \<open>simp_all add: certificate_sums expectation_ok_def\<close>,
         simp_all add: certificate_def)
  qed
  moreover have "reconcile_reviewed env selected_rows component (cc_claims reviewed)
      = (if rx_sources rx = [] \<or> rx_targets rx = [] \<or> \<not> set (rx_sources rx) \<subseteq> set (re_complete env) then Inr None
         else bind_res (walk_route ctx hs empty_walk) (\<lambda>r. case r of None \<Rightarrow> Inr None
           | Some w \<Rightarrow> Inr (if route_matches ctx start stop w then Some (certificate (re_digest env) component ctx w) else None)))"
  proof -
    have obs: "re_observations env = observations" using env by (simp add: env_ok_def)
    show ?thesis unfolding reconcile_reviewed_def obs Some ctx_def start_def stop_def hs_def Let_def option.case by (rule refl)
  qed
  ultimately show ?thesis using r(1) by (auto split: option.splits)
qed

text \<open>An exception of the component compiler that the reconciliation does not catch.\<close>

definition escapes :: "observation_map \<Rightarrow> native_component \<Rightarrow> py_error \<Rightarrow> bool" where
  "escapes observations component e \<longleftrightarrow> reviewed_claims observations component = Inl e \<and> \<not> caught e"

lemma reconcile_component_sound:
  assumes env: "env_ok observations native_claims blocked_ids components env"
    and inputs: "native_inputs observations native_claims" and component: "component \<in> set components"
  shows "case reconcile_component env selected_rows component of
      Inl e \<Rightarrow> escapes observations component e
    | Inr r \<Rightarrow> \<forall>cert. r = Some cert \<longrightarrow> certificate_holds observations native_claims blocked_ids components cert"
proof -
  have obs: "re_observations env = observations" using env by (simp add: env_ok_def)
  show ?thesis
  proof (cases "reviewed_claims observations component")
    case (Inl e)
    then show ?thesis
      by (simp add: reconcile_component_def Let_def obs reviewed_claims_def escapes_def)
  next
    case (Inr reviewed)
    then show ?thesis
      using reconcile_reviewed_sound [OF env inputs component Inr, of selected_rows]
      by (auto simp: reconcile_component_def Let_def obs reviewed_claims_def)
  qed
qed

lemma reconcile_loop_sound:
  assumes "env_ok observations native_claims blocked_ids components env"
    and "native_inputs observations native_claims" and "set cs \<subseteq> set components"
  shows "case reconcile_loop env cs selected_rows of
      Inl e \<Rightarrow> \<exists>c \<in> set components. escapes observations c e
    | Inr certs \<Rightarrow> \<forall>cert \<in> set certs. certificate_holds observations native_claims blocked_ids components cert"
  using assms(3)
proof (induction cs arbitrary: selected_rows)
  case (Cons c cs)
  have c: "c \<in> set components" using Cons.prems by simp
  note step = reconcile_component_sound [OF assms(1,2) c, of selected_rows]
  show ?case
  proof (cases "reconcile_component env selected_rows c")
    case (Inl e)
    then show ?thesis using step c by auto
  next
    case (Inr r)
    show ?thesis
    proof (cases r)
      case None
      then show ?thesis using Inr Cons by simp
    next
      case (Some cert)
      then show ?thesis
        using Inr step Cons.IH [of "selected_rows @ nr_transaction_ids cert"] Cons.prems
        by (cases "reconcile_loop env cs (selected_rows @ nr_transaction_ids cert)") auto
    qed
  qed
qed simp

text \<open>
  C36: On validated observations keyed by their transaction and well-formed native claims about
  them, the reconciliation raises nothing but an exception of the component compiler that it does
  not catch: the allocator it calls on the way never fails, and no lookup misses. Every returned
  certificate is exact: its allocations account for the whole debit, principal and fee, of every
  source the review claims; its fees are the sum of the observed network fees of the native
  sources whose complete sets of links it lists; its rows are never blocked and never an anchor
  of another component.
\<close>

theorem native_certificates_sound:
  assumes "native_inputs observations native_claims"
  shows "case reconcile_native_components digest evidence_of components observations native_claims blocked_ids of
      Inl e \<Rightarrow> \<exists>c \<in> set components. escapes observations c e
    | Inr certs \<Rightarrow> \<forall>cert \<in> set certs. certificate_holds observations native_claims blocked_ids components cert"
proof -
  let ?by = "hash_index_of observations"
  have "\<exists>idx. native_index_of ?by blocked_ids native_claims \<lparr>ni_outgoing = [], ni_incoming = [], ni_claim_amounts = []\<rparr> = Inr idx"
    by (rule native_index_total) (use assms in \<open>auto simp: native_inputs_def hash_index_dom\<close>)
  then obtain idx where idx: "native_index_of ?by blocked_ids native_claims \<lparr>ni_outgoing = [], ni_incoming = [], ni_claim_amounts = []\<rparr> = Inr idx"
    by blast
  have "distinct (complete_sources ?by idx)" using native_index_keys [OF idx] by (simp add: complete_sources_def)
  then obtain ordered where ordered: "ordered_native_sources evidence_of ?by idx (complete_sources ?by idx) = Inr ordered"
    "set ordered \<subseteq> set (complete_sources ?by idx)" "distinct ordered"
    using ordered_native_sources_sound by blast
  define env where "env = \<lparr>re_observations = observations, re_index = idx, re_complete = complete_sources ?by idx, re_ordered = ordered,
               re_protected = remdups (concat (map component_anchors components)),
               re_blocked = blocked_ids, re_digest = digest\<rparr>"
  have "env_ok observations native_claims blocked_ids components env" using idx ordered by (simp add: env_ok_def env_def)
  note loop = reconcile_loop_sound [OF this assms subset_refl, of "[]"]
  show ?thesis
  proof (cases "complete_sources ?by idx = []")
    case True
    then show ?thesis by (simp add: reconcile_native_components_def Let_def idx)
  next
    case False
    then have "reconcile_native_components digest evidence_of components observations native_claims blocked_ids
        = bind_res (reconcile_loop env components []) (\<lambda>certs. Inr (sort_key nr_component_id certs))"
      by (simp add: reconcile_native_components_def Let_def idx ordered(1) env_def)
    then show ?thesis using loop by (cases "reconcile_loop env components []") auto
  qed
qed

section \<open>An example\<close>

text \<open>50 msat leave \<open>w-a\<close> for \<open>w-b\<close>, 48 of them go on to \<open>w-d\<close> and 2 are the fee of that hop.
  The review knows only the way from the first row to the last, with 2 msat unexplained.\<close>

definition hop_observation :: "char \<Rightarrow> char \<Rightarrow> string \<Rightarrow> string \<Rightarrow> int \<Rightarrow> int \<Rightarrow> quantity_observation" where
  "hop_observation c event wallet dir amount fee =
     (sample_observation c dir amount fee)\<lparr>authoritative_chain_observation := True, fee_attribution := ''exact'',
        observation_authority_reason := ''authoritative'', wallet_id := wallet, occurred_at := [event],
        event_key := \<lparr>ek_chain = ''bitcoin'', ek_network = ''main'', ek_native_namespace = ''chain'', ek_native_event_id = [event]\<rparr>\<rparr>"

definition hop_observations :: observation_map where
  "hop_observations =
     [(''tx-a'', hop_observation (CHR ''a'') (CHR ''1'') ''wa'' ''outbound'' 50 3),
      (''tx-b'', hop_observation (CHR ''b'') (CHR ''1'') ''wb'' ''inbound'' 50 0),
      (''tx-c'', hop_observation (CHR ''c'') (CHR ''2'') ''wb'' ''outbound'' 48 2),
      (''tx-d'', hop_observation (CHR ''d'') (CHR ''2'') ''wd'' ''inbound'' 48 0)]"

definition hop_claim :: "string \<Rightarrow> char \<Rightarrow> char \<Rightarrow> int \<Rightarrow> quantity_claim" where
  "hop_claim i source target amount =
     \<lparr>claim_id = i, claim_source = \<lparr>observation_hash = replicate 64 source, start_msat = 0, end_msat = amount\<rparr>,
      claim_state = INTERNAL_VERIFIED, claim_priority = EXACT_NATIVE_EVENT, claim_reason = ''native'',
      claim_target = Some \<lparr>observation_hash = replicate 64 target, start_msat = 0, end_msat = amount\<rparr>,
      atomic_bundle_id = None, destination_kind = None, external_economic_subtype = None,
      transfer_kind = None, transfer_policy = None, claim_component_id = None, allow_cross_rail = False\<rparr>"

definition hop_claims :: "quantity_claim list" where
  "hop_claims = [hop_claim ''n1'' (CHR ''a'') (CHR ''b'') 50, hop_claim ''n2'' (CHR ''c'') (CHR ''d'') 48]"

definition hop_component :: native_component where
  "hop_component =
     \<lparr>comp_id = Some ''c1'', comp_effective_state = Some ''active'',
      comp_legs = [route_leg ''s'' ''source'' (Some ''tx-a''), route_leg ''d'' ''destination'' (Some ''tx-d''),
                   route_leg ''u'' ''suspense'' None],
      comp_component_type = Some ''manual_bridge'', comp_evidence_kind = None,
      comp_residual_classification = None, comp_economic_terms = [],
      comp_allocations = [route_alloc ''1'' ''s'' ''d'' 48, route_alloc ''2'' ''s'' ''u'' 2],
      comp_conservation_mode = Some ''quantity'', comp_conversion_policy = None, comp_revision = 1\<rparr>"

lemma hop_inputs: "native_inputs hop_observations hop_claims"
proof -
  have "valid_observation (hop_observation (CHR ''a'') (CHR ''1'') ''wa'' ''outbound'' 50 3)"
    "valid_observation (hop_observation (CHR ''b'') (CHR ''1'') ''wb'' ''inbound'' 50 0)"
    "valid_observation (hop_observation (CHR ''c'') (CHR ''2'') ''wb'' ''outbound'' 48 2)"
    "valid_observation (hop_observation (CHR ''d'') (CHR ''2'') ''wd'' ''inbound'' 48 0)"
    by (simp_all add: validate_observation_def hop_observation_def sample_observation_def sample_hash_ok)
  then have "observations_ok (map snd hop_observations)"
    by (simp add: observations_ok_def hop_observations_def)
       (simp add: hop_observation_def sample_observation_def replicate_eq_replicate)
  moreover have "\<forall>(k, ob) \<in> set hop_observations. transaction_id ob = k"
    by (simp add: hop_observations_def hop_observation_def sample_observation_def)
  moreover have "make_claim (hop_claim ''n1'' (CHR ''a'') (CHR ''b'') 50) = Inr (hop_claim ''n1'' (CHR ''a'') (CHR ''b'') 50)"
    "make_claim (hop_claim ''n2'' (CHR ''c'') (CHR ''d'') 48) = Inr (hop_claim ''n2'' (CHR ''c'') (CHR ''d'') 48)"
    by code_simp+
  then have "\<forall>c \<in> set hop_claims. valid_claim c"
    by (simp add: hop_claims_def valid_claim_def) (simp add: hop_claim_def valid_slice_def)
  moreover have "quantity_hash ` snd ` set hop_observations
      = {replicate 64 (CHR ''a''), replicate 64 (CHR ''b''), replicate 64 (CHR ''c''), replicate 64 (CHR ''d'')}"
    by (simp add: hop_observations_def hop_observation_def sample_observation_def)
  ultimately show ?thesis
    unfolding native_inputs_def by (simp add: hop_claims_def) (simp add: hop_claim_def)
qed

theorem native_certificates_sound_witness:
  "case reconcile_native_components (\<lambda>_. ''digest'') (\<lambda>_. None) [hop_component] hop_observations hop_claims [] of
     Inl _ \<Rightarrow> False
   | Inr certs \<Rightarrow> map nr_transaction_ids certs = [[''tx-a'', ''tx-b'', ''tx-c'', ''tx-d'']]
       \<and> (\<forall>cert \<in> set certs. certificate_holds hop_observations hop_claims [] [hop_component] cert)"
proof -
  have "case reconcile_native_components (\<lambda>_. ''digest'') (\<lambda>_. None) [hop_component] hop_observations hop_claims [] of
     Inl _ \<Rightarrow> False | Inr certs \<Rightarrow> map nr_transaction_ids certs = [[''tx-a'', ''tx-b'', ''tx-c'', ''tx-d'']]"
    by code_simp
  then show ?thesis
    using native_certificates_sound [OF hop_inputs, where digest = "\<lambda>_. ''digest''" and evidence_of = "\<lambda>_. None"
        and components = "[hop_component]" and blocked_ids = "[]"]
    by (simp split: sum.splits)
qed

end
