(* ===== verification/Address_Scripts.thy ===== *)
theory Address_Scripts
  imports Bytes
begin

text \<open>
  Addresses as output scripts (\<open>kassiber/core/address_scripts.py\<close>): Base58Check, Bech32 and
  Bech32m, the regrouping of bits, and the scripts built from the decoded payload. Python
  integers are \<open>int\<close>, counts of bits are naturals. SHA-256 is an argument; the double hash of
  the source is built from it. Group widths of \<open>convertbits\<close> are taken to be positive, as in every
  call.
\<close>

unbundle bit_operations_syntax

section \<open>Base58Check\<close>

definition app_error :: "string \<Rightarrow> py_error" where
  "app_error message = AppError ''app_error'' message"

definition B58_ALPHABET :: string where
  "B58_ALPHABET = ''123456789ABCDEFGHJKLMNPQRSTUVWXYZabcdefghijkmnopqrstuvwxyz''"

definition BECH32_CHARSET :: string where
  "BECH32_CHARSET = ''qpzry9x8gf2tvdw0s3jn54khce6mua7l''"

text \<open>\<open>{char: index for index, char in enumerate(alphabet)}\<close>, looked up.\<close>

definition char_index :: "string \<Rightarrow> char \<Rightarrow> int option" where
  "char_index alphabet c = map_of (zip alphabet (map int [0..<length alphabet])) c"

definition sha256d :: "(byte list \<Rightarrow> byte list) \<Rightarrow> byte list \<Rightarrow> byte list" where
  "sha256d sha256 payload = sha256 (sha256 payload)"

fun b58_number :: "string \<Rightarrow> string \<Rightarrow> int \<Rightarrow> int result" where
  "b58_number value [] number = Inr number"
| "b58_number value (c # cs) number =
     (case char_index B58_ALPHABET c of
        None \<Rightarrow> Inl (app_error (''Unsupported base58 address: '' @ value))
      | Some i \<Rightarrow> b58_number value cs (number * 58 + i))"

text \<open>\<open>number.to_bytes((number.bit_length() + 7) // 8, "big")\<close>: the shortest big-endian form, empty
  for zero.\<close>

function big_endian :: "int \<Rightarrow> byte list" where
  "big_endian n = (if n \<le> 0 then [] else big_endian (n div 256) @ [word_of_int (n mod 256)])"
  by pat_completeness auto
termination by (relation "measure nat") auto

declare big_endian.simps [simp del]

definition base58check_decode :: "(byte list \<Rightarrow> byte list) \<Rightarrow> string \<Rightarrow> byte list result" where
  "base58check_decode sha256 value =
     bind_res (b58_number value value 0) (\<lambda>number.
       let leading_zeros = length (takeWhile (\<lambda>c. c = CHR ''1'') value);
           payload = replicate leading_zeros 0 @ big_endian number
       in if length payload < 5 then Inl (app_error (''Unsupported base58 address: '' @ value))
          else let body = take (length payload - 4) payload; checksum = drop (length payload - 4) payload
               in if take 4 (sha256d sha256 body) \<noteq> checksum
                  then Inl (app_error (''Invalid base58 checksum for address: '' @ value))
                  else Inr body)"

section \<open>Bech32\<close>

definition generators :: "int list" where
  "generators = [0x3B6A57B2, 0x26508E6D, 0x1EA119FA, 0x3D4233DD, 0x2A1462B3]"

definition polymod_step :: "int \<Rightarrow> int \<Rightarrow> int" where
  "polymod_step value checksum =
     (let top = drop_bit 25 checksum
      in fold (\<lambda>(index, g) c. if (drop_bit index top) AND 1 \<noteq> 0 then c XOR g else c)
           (List.enumerate 0 generators) ((push_bit 5 (checksum AND 0x1FFFFFF)) XOR value))"

definition bech32_polymod :: "int list \<Rightarrow> int" where
  "bech32_polymod values = fold polymod_step values 1"

definition bech32_hrp_expand :: "string \<Rightarrow> int list" where
  "bech32_hrp_expand hrp =
     map (\<lambda>c. drop_bit 5 (of_char c)) hrp @ [0] @ map (\<lambda>c. of_char c AND 31) hrp"

fun bech32_data :: "string \<Rightarrow> string \<Rightarrow> int list result" where
  "bech32_data value [] = Inr []"
| "bech32_data value (c # cs) =
     (case char_index BECH32_CHARSET c of
        None \<Rightarrow> Inl (app_error (''Unsupported bech32 address: '' @ value))
      | Some i \<Rightarrow> bind_res (bech32_data value cs) (\<lambda>data. Inr (i # data)))"

text \<open>\<open>s.rfind("1")\<close>; \<open>None\<close> is Python's \<open>-1\<close>.\<close>

definition rfind_one :: "string \<Rightarrow> nat option" where
  "rfind_one s =
     (let tail = length (takeWhile (\<lambda>c. c \<noteq> CHR ''1'') (rev s))
      in if tail = length s then None else Some (length s - tail - 1))"

datatype bech32_spec = Bech32 | Bech32m

definition checksum_spec :: "int \<Rightarrow> bech32_spec option" where
  "checksum_spec polymod = (if polymod = 1 then Some Bech32 else if polymod = 0x2BC830A3 then Some Bech32m else None)"

definition bech32_decode :: "string \<Rightarrow> (string \<times> int list \<times> bech32_spec) result" where
  "bech32_decode value =
     (if py_lower value \<noteq> value \<and> py_upper value \<noteq> value then
        Inl (app_error (''Invalid bech32 address casing: '' @ value))
      else
        let normalized = py_lower value
        in case rfind_one normalized of
             None \<Rightarrow> Inl (app_error (''Unsupported bech32 address: '' @ value))
           | Some separator \<Rightarrow>
               if separator < 1 \<or> length normalized < separator + 7 then
                 Inl (app_error (''Unsupported bech32 address: '' @ value))
               else
                 let hrp = take separator normalized
                 in bind_res (bech32_data value (drop (separator + 1) normalized)) (\<lambda>data.
                      case checksum_spec (bech32_polymod (bech32_hrp_expand hrp @ data)) of
                        None \<Rightarrow> Inl (app_error (''Invalid bech32 checksum for address: '' @ value))
                      | Some spec \<Rightarrow> Inr (hrp, take (length data - 6) data, spec)))"

section \<open>Regrouping bits\<close>

text \<open>The inner loop: groups of \<open>to_bits\<close> bits from the top of the accumulator.\<close>

function drain :: "nat \<Rightarrow> int \<Rightarrow> nat \<Rightarrow> int list \<Rightarrow> nat \<times> int list" where
  "drain to_bits accumulator bits out =
     (if 0 < to_bits \<and> to_bits \<le> bits
      then drain to_bits accumulator (bits - to_bits)
             (out @ [(drop_bit (bits - to_bits) accumulator) AND (2 ^ to_bits - 1)])
      else (bits, out))"
  by pat_completeness auto
termination by (relation "measure (\<lambda>(to_bits, accumulator, bits, out). bits)") auto

declare drain.simps [simp del]

fun convert_loop :: "nat \<Rightarrow> nat \<Rightarrow> int list \<Rightarrow> int \<Rightarrow> nat \<Rightarrow> int list \<Rightarrow> (int \<times> nat \<times> int list) result" where
  "convert_loop from_bits to_bits [] accumulator bits out = Inr (accumulator, bits, out)"
| "convert_loop from_bits to_bits (v # vs) accumulator bits out =
     (if v < 0 \<or> drop_bit from_bits v \<noteq> 0 then Inl (app_error ''Invalid bit group in address encoding'')
      else
        let acc = (push_bit from_bits accumulator OR v) AND (2 ^ (from_bits + to_bits - 1) - 1)
        in case drain to_bits acc (bits + from_bits) out of
             (bits', out') \<Rightarrow> convert_loop from_bits to_bits vs acc bits' out')"

definition convertbits :: "int list \<Rightarrow> nat \<Rightarrow> nat \<Rightarrow> bool \<Rightarrow> int list result" where
  "convertbits data from_bits to_bits pad =
     bind_res (convert_loop from_bits to_bits data 0 0 []) (\<lambda>(accumulator, bits, out).
       let last_group = push_bit (to_bits - bits) accumulator AND (2 ^ to_bits - 1)
       in if pad then Inr (if bits \<noteq> 0 then out @ [last_group] else out)
          else if from_bits \<le> bits \<or> last_group \<noteq> 0 then Inl (app_error ''Invalid address padding'')
          else Inr out)"

section \<open>Scripts\<close>

text \<open>\<open>bytes(values)\<close> raises for a value outside a byte.\<close>

definition bytes_of :: "int list \<Rightarrow> byte list result" where
  "bytes_of values =
     (if \<forall>v \<in> set values. 0 \<le> v \<and> v < 256 then Inr (map word_of_int values)
      else Inl (ValueError ''bytes must be in range(0, 256)''))"

definition starts_with :: "string \<Rightarrow> string \<Rightarrow> bool" where
  "starts_with s p \<longleftrightarrow> take (length p) s = p"

definition segwit_script :: "string \<Rightarrow> byte list result" where
  "segwit_script address =
     bind_res (bech32_decode address) (\<lambda>(_, data, spec).
       case data of
         [] \<Rightarrow> Inl (app_error (''Invalid segwit address: '' @ address))
       | version # rest \<Rightarrow>
           if 16 < version then
             Inl (app_error (''Unsupported segwit witness version for address: '' @ address))
           else bind_res (bind_res (convertbits rest 5 8 False) bytes_of) (\<lambda>program.
             if length program < 2 \<or> 40 < length program then
               Inl (app_error (''Invalid segwit program length for address: '' @ address))
             else if version = 0 \<and> length program \<notin> {20, 32} then
               Inl (app_error (''Invalid segwit v0 program length for address: '' @ address))
             else if version = 0 \<and> spec \<noteq> Bech32 then
               Inl (app_error (''Invalid bech32 checksum type for address: '' @ address))
             else if 0 < version \<and> spec \<noteq> Bech32m then
               Inl (app_error (''Invalid bech32m checksum type for address: '' @ address))
             else Inr ([word_of_int (if version = 0 then 0 else 0x50 + version), word_of_nat (length program)] @ program)))"

definition base58_script :: "(byte list \<Rightarrow> byte list) \<Rightarrow> string \<Rightarrow> byte list result" where
  "base58_script sha256 address =
     bind_res (base58check_decode sha256 address) (\<lambda>payload.
       case payload of
         [] \<Rightarrow> Inl IndexError
       | version # hash160 \<Rightarrow>
           if length hash160 \<noteq> 20 then
             Inl (app_error (''Unsupported base58 payload length for address: '' @ address))
           else if version \<in> {0x00, 0x6F} then Inr ([0x76, 0xA9, 0x14] @ hash160 @ [0x88, 0xAC])
           else if version \<in> {0x05, 0xC4} then Inr ([0xA9, 0x14] @ hash160 @ [0x87])
           else Inl (app_error (''Unsupported address version for address: '' @ address)))"

definition address_to_scriptpubkey :: "(byte list \<Rightarrow> byte list) \<Rightarrow> string \<Rightarrow> byte list result" where
  "address_to_scriptpubkey sha256 address =
     (if \<exists>p \<in> set [''bc1'', ''tb1'', ''bcrt1'']. starts_with (py_lower address) p
      then segwit_script address else base58_script sha256 address)"

text \<open>Only \<open>AppError\<close> is caught.\<close>

definition scriptpubkey_for_address_or_none ::
  "(byte list \<Rightarrow> byte list) \<Rightarrow> string option \<Rightarrow> string option result" where
  "scriptpubkey_for_address_or_none sha256 address =
     (case address of
        None \<Rightarrow> Inr None
      | Some a \<Rightarrow>
          if a = '''' then Inr None
          else case address_to_scriptpubkey sha256 a of
                 Inr script \<Rightarrow> Inr (Some (bytes_hex script))
               | Inl (AppError _ _) \<Rightarrow> Inr None
               | Inl e \<Rightarrow> Inl e)"

section \<open>Groups of bits as digits\<close>

text \<open>The number that groups of \<open>n\<close> bits spell, most significant group first.\<close>

definition group_value :: "nat \<Rightarrow> int list \<Rightarrow> int" where
  "group_value n gs = foldl (\<lambda>v g. v * 2 ^ n + g) 0 gs"

definition groups_ok :: "nat \<Rightarrow> int list \<Rightarrow> bool" where
  "groups_ok n gs \<longleftrightarrow> (\<forall>g \<in> set gs. 0 \<le> g \<and> g < 2 ^ n)"

lemma group_value_simps [simp]:
  "group_value n [] = 0" "group_value n (gs @ [g]) = group_value n gs * 2 ^ n + g"
  by (simp_all add: group_value_def)

lemma group_value_append: "group_value n (xs @ ys) = group_value n xs * 2 ^ (n * length ys) + group_value n ys"
  by (induction ys rule: rev_induct)
     (simp_all add: algebra_simps power_add flip: append_assoc)

lemma group_value_inject:
  assumes "length xs = length ys" and "groups_ok n xs" and "groups_ok n ys" and "group_value n xs = group_value n ys"
  shows "xs = ys"
  using assms
proof (induction xs arbitrary: ys rule: rev_induct)
  case (snoc x xs)
  obtain y ys' where ys: "ys = ys' @ [y]" using snoc.prems(1) by (cases ys rule: rev_exhaust) auto
  have b: "0 \<le> x" "x < 2 ^ n" "0 \<le> y" "y < 2 ^ n" using snoc.prems(2,3) by (auto simp: ys groups_ok_def)
  have e: "group_value n xs * 2 ^ n + x = group_value n ys' * 2 ^ n + y" using snoc.prems(4) by (simp add: ys)
  have "x = y" using arg_cong [OF e, of "\<lambda>z. z mod 2 ^ n"] b by simp
  moreover have "group_value n xs = group_value n ys'" using e calculation by simp
  ultimately show ?case using snoc.IH [of ys'] snoc.prems by (simp add: ys groups_ok_def)
qed simp

lemma and_low_bits: "(a :: int) AND (2 ^ n - 1) = a mod 2 ^ n"
  by (simp add: take_bit_eq_mod flip: mask_eq_exp_minus_1 take_bit_eq_mask)

lemma or_low_bits:
  assumes "0 \<le> v" and "v < 2 ^ n"
  shows "push_bit n a OR v = a * 2 ^ n + (v :: int)"
proof -
  have "take_bit n v = v" using assms by (simp add: take_bit_int_eq_self)
  then have "push_bit n a + v = push_bit n a OR v"
    by (intro disjunctive_add) (metis bit_push_bit_iff bit_take_bit_iff not_le)
  then show ?thesis by (simp add: push_bit_eq_mult)
qed

lemma split_low_bits: "(a :: int) mod 2 ^ (b + t) = (a div 2 ^ b) mod 2 ^ t * 2 ^ b + a mod 2 ^ b"
  using zmod_zmult2_eq [of "2 ^ t" a "2 ^ b"] by (simp add: power_add mult.commute)

lemma drain_groups:
  assumes "drain t acc bits out = (bits', out')" and "0 < t" and "groups_ok t out"
  shows "bits' < t \<and> groups_ok t out' \<and> t * length out' + bits' = t * length out + bits
    \<and> group_value t out' * 2 ^ bits' + acc mod 2 ^ bits' = group_value t out * 2 ^ bits + acc mod 2 ^ bits"
  using assms
proof (induction t acc bits out rule: drain.induct)
  case (1 t acc bits out)
  show ?case
  proof (cases "t \<le> bits")
    case True
    let ?b = "bits - t"
    let ?g = "(drop_bit ?b acc) AND (2 ^ t - 1)"
    have g: "?g = acc div 2 ^ ?b mod 2 ^ t" by (simp add: and_low_bits drop_bit_eq_div)
    have step: "drain t acc ?b (out @ [?g]) = (bits', out')" using 1(2,3) True by (subst (asm) drain.simps) simp
    have ok: "groups_ok t (out @ [?g])" using 1(4) by (auto simp: g groups_ok_def)
    have "acc mod 2 ^ bits = ?g * 2 ^ ?b + acc mod 2 ^ ?b"
      using split_low_bits [of acc ?b t] True by (simp add: g)
    moreover have "(2 :: int) ^ bits = 2 ^ t * 2 ^ ?b" using True by (simp flip: power_add)
    ultimately show ?thesis using 1(1) [OF _ step 1(3) ok] 1(3) True by (simp add: algebra_simps)
  next
    case False
    then show ?thesis using 1(2,4) by (subst (asm) drain.simps) auto
  qed
qed

lemma convert_loop_groups:
  assumes "convert_loop f t vs acc bits out = Inr (acc', bits', out')" and "0 < f" and "0 < t" and "bits < t" and "groups_ok t out"
  shows "groups_ok f vs \<and> groups_ok t out' \<and> bits' < t \<and> t * length out' + bits' = t * length out + bits + f * length vs
    \<and> group_value t out' * 2 ^ bits' + acc' mod 2 ^ bits'
      = (group_value t out * 2 ^ bits + acc mod 2 ^ bits) * 2 ^ (f * length vs) + group_value f vs"
  using assms
proof (induction vs arbitrary: acc bits out)
  case Nil
  then show ?case by (simp add: groups_ok_def)
next
  case (Cons v vs)
  let ?acc = "(push_bit f acc OR v) AND (2 ^ (f + t - 1) - 1)"
  obtain b o' where d: "drain t ?acc (bits + f) out = (b, o')" by fastforce
  have nn: "0 \<le> v" "drop_bit f v = 0" and rest: "convert_loop f t vs ?acc b o' = Inr (acc', bits', out')"
    using Cons.prems(1) d by (auto simp: Let_def split: if_splits)
  have "v = v mod 2 ^ f" using nn(2) div_mult_mod_eq [of v "2 ^ f"] by (simp add: drop_bit_eq_div)
  moreover have "v mod 2 ^ f < 2 ^ f" by simp
  ultimately have v: "0 \<le> v" "v < 2 ^ f" using nn(1) by simp_all
  note dg = drain_groups [OF d Cons.prems(3,5)]
  have "?acc mod 2 ^ (bits + f) = (acc * 2 ^ f + v) mod 2 ^ (bits + f)"
  proof -
    have "(2 :: int) ^ (bits + f) dvd 2 ^ (f + t - 1)" using Cons.prems(2-4) by (intro le_imp_power_dvd) simp
    then show ?thesis by (simp add: and_low_bits or_low_bits [OF v] mod_mod_cancel)
  qed
  also have "\<dots> = acc mod 2 ^ bits * 2 ^ f + v"
    using split_low_bits [of "acc * 2 ^ f + v" f bits] v by (simp add: add.commute [of f])
  finally have acc: "?acc mod 2 ^ (bits + f) = acc mod 2 ^ bits * 2 ^ f + v" .
  have total: "group_value t o' * 2 ^ b + ?acc mod 2 ^ b = (group_value t out * 2 ^ bits + acc mod 2 ^ bits) * 2 ^ f + v"
    using dg acc by (simp add: algebra_simps power_add)
  have "group_value f (v # vs) = v * 2 ^ (f * length vs) + group_value f vs"
    using group_value_append [of f "[v]" vs] by (simp add: group_value_def)
  moreover have "groups_ok f (v # vs) \<longleftrightarrow> groups_ok f vs" using v by (simp add: groups_ok_def)
  moreover have "b < t" "groups_ok t o'" using dg by simp_all
  note ih = Cons.IH [OF rest Cons.prems(2,3) this, unfolded total]
  ultimately show ?case using ih dg by (simp add: algebra_simps power_add)
qed

lemma convert_loop_total:
  "groups_ok f vs \<Longrightarrow> \<exists>acc' bits' out'. convert_loop f t vs acc bits out = Inr (acc', bits', out')"
proof (induction vs arbitrary: acc bits out)
  case (Cons v vs)
  have "0 \<le> v" "drop_bit f v = 0" using Cons.prems by (auto simp: groups_ok_def drop_bit_eq_div div_pos_pos_trivial)
  moreover obtain b o' where "drain t ((push_bit f acc OR v) AND (2 ^ (f + t - 1) - 1)) (bits + f) out = (b, o')" by fastforce
  ultimately show ?case using Cons.IH [of "(push_bit f acc OR v) AND (2 ^ (f + t - 1) - 1)" b o'] Cons.prems
    by (simp add: Let_def groups_ok_def)
qed simp

lemma last_group_value: "r \<le> t \<Longrightarrow> (push_bit (t - r) acc AND (2 ^ t - 1) :: int) = acc mod 2 ^ r * 2 ^ (t - r)"
  using mod_mult_mult2 [of acc "2 ^ (t - r)" "2 ^ r"]
  by (simp add: and_low_bits push_bit_eq_mult flip: power_add)

text \<open>With padding: the groups spell the same number followed by \<open>p\<close> zero bits.\<close>

lemma convertbits_pad:
  assumes "groups_ok f data" and "0 < f" and "0 < t"
  shows "\<exists>ys p. convertbits data f t True = Inr ys \<and> p < t \<and> t * length ys = f * length data + p
    \<and> group_value t ys = group_value f data * 2 ^ p \<and> groups_ok t ys"
proof -
  obtain acc r out where c: "convert_loop f t data 0 0 [] = Inr (acc, r, out)" using convert_loop_total [OF assms(1)] by blast
  have g: "groups_ok t out" "r < t" "t * length out + r = f * length data"
    "group_value t out * 2 ^ r + acc mod 2 ^ r = group_value f data"
    using convert_loop_groups [OF c assms(2,3)] assms(3) by (simp_all add: groups_ok_def)
  show ?thesis
  proof (cases "r = 0")
    case True
    then show ?thesis using c g assms(3) by (intro exI [of _ out] exI [of _ 0]) (simp add: convertbits_def)
  next
    case False
    let ?g = "acc mod 2 ^ r * 2 ^ (t - r)"
    have "(2 :: int) ^ t = 2 ^ r * 2 ^ (t - r)" using g(2) by (simp flip: power_add)
    then have "0 \<le> ?g" "?g < 2 ^ t" "group_value t (out @ [?g]) = group_value f data * 2 ^ (t - r)"
      using g(4) [symmetric] by (simp_all add: algebra_simps)
    moreover have "convertbits data f t True = Inr (out @ [?g])"
      using c False g(2) by (simp add: convertbits_def last_group_value Let_def)
    ultimately show ?thesis using g(1-3) False
      by (intro exI [of _ "out @ [?g]"] exI [of _ "t - r"]) (auto simp: groups_ok_def)
  qed
qed

text \<open>Without padding: groups that spell a number followed by fewer zero bits than either width.\<close>

lemma convertbits_exact:
  assumes "groups_ok f ys" and "groups_ok t xs" and "0 < f" and "0 < t" and "p < f" and "p < t"
    and "f * length ys = t * length xs + p" and "group_value f ys = group_value t xs * 2 ^ p"
  shows "convertbits ys f t False = Inr xs"
proof -
  obtain acc r out where c: "convert_loop f t ys 0 0 [] = Inr (acc, r, out)" using convert_loop_total [OF assms(1)] by blast
  have g: "groups_ok t out" "r < t" "t * length out + r = f * length ys"
    "group_value t out * 2 ^ r + acc mod 2 ^ r = group_value f ys"
    using convert_loop_groups [OF c assms(3,4)] assms(4) by (simp_all add: groups_ok_def)
  have len: "t * length out + r = t * length xs + p" using g(3) assms(7) by simp
  have "r = p" using arg_cong [OF len, of "\<lambda>n. n mod t"] g(2) assms(6) by simp
  moreover have "length out = length xs" using len assms(4) calculation by simp
  moreover have e: "group_value t out * 2 ^ p + acc mod 2 ^ p = group_value t xs * 2 ^ p"
    using g(4) assms(8) calculation(1) by simp
  have "acc mod 2 ^ p = 0" using arg_cong [OF e, of "\<lambda>z. z mod 2 ^ p"] by simp
  moreover have "out = xs" using e calculation g(1) assms(2) by (intro group_value_inject) simp_all
  ultimately show ?thesis using c assms(5,6) by (simp add: convertbits_def Let_def last_group_value)
qed

lemma convertbits_groups:
  assumes "convertbits ys f t False = Inr xs" and "0 < f" and "0 < t"
  shows "groups_ok t xs"
proof -
  obtain acc r where "convert_loop f t ys 0 0 [] = Inr (acc, r, xs)"
    using assms(1) by (auto simp: convertbits_def result_simps Let_def split: if_splits)
  then show ?thesis using convert_loop_groups [of f t ys 0 0 "[]"] assms(2,3) by (simp add: groups_ok_def)
qed

text \<open>
  Regrouping bits into groups that are not wider, with padding, and back without padding
  returns the original groups; both directions succeed on every valid input.
\<close>

theorem convertbits_round_trip:
  assumes "0 < to_bits" and "to_bits \<le> from_bits" and "groups_ok from_bits data"
  shows "\<exists>groups. convertbits data from_bits to_bits True = Inr groups \<and> groups_ok to_bits groups
    \<and> convertbits groups to_bits from_bits False = Inr data"
proof -
  obtain ys p where "convertbits data from_bits to_bits True = Inr ys" "p < to_bits"
    "to_bits * length ys = from_bits * length data + p"
    "group_value to_bits ys = group_value from_bits data * 2 ^ p" "groups_ok to_bits ys"
    using convertbits_pad [OF assms(3), of to_bits] assms(1,2) by auto
  then show ?thesis using convertbits_exact [of to_bits ys from_bits data p] assms by auto
qed

section \<open>The scripts\<close>

text \<open>Pay to public-key hash, pay to script hash, or a witness program.\<close>

definition witness_script_of :: "int \<Rightarrow> byte list \<Rightarrow> byte list" where
  "witness_script_of version program =
     [word_of_int (if version = 0 then 0 else 0x50 + version), word_of_nat (length program)] @ program"

definition witness_program_ok :: "int \<Rightarrow> byte list \<Rightarrow> bool" where
  "witness_program_ok version program \<longleftrightarrow>
     0 \<le> version \<and> version \<le> 16 \<and> 2 \<le> length program \<and> length program \<le> 40
     \<and> (version = 0 \<longrightarrow> length program \<in> {20, 32})"

definition standard_script :: "byte list \<Rightarrow> bool" where
  "standard_script script \<longleftrightarrow>
     (\<exists>h. length h = 20 \<and> script = [0x76, 0xA9, 0x14] @ h @ [0x88, 0xAC])
     \<or> (\<exists>h. length h = 20 \<and> script = [0xA9, 0x14] @ h @ [0x87])
     \<or> (\<exists>version program. witness_program_ok version program \<and> script = witness_script_of version program)"

definition is_app_error :: "py_error \<Rightarrow> bool" where
  "is_app_error e \<longleftrightarrow> (\<exists>m. e = app_error m)"

lemma is_app_error_simp [simp]: "is_app_error (app_error m)"
  by (auto simp: is_app_error_def)

lemma b58_number_errors: "b58_number value cs n = Inl e \<Longrightarrow> is_app_error e"
  by (induction cs arbitrary: n) (auto split: option.splits)

lemma base58_decode_body:
  "case base58check_decode sha256 value of Inl e \<Rightarrow> is_app_error e | Inr body \<Rightarrow> body \<noteq> []"
proof (cases "b58_number value value 0")
  case (Inl e)
  then show ?thesis using b58_number_errors [OF Inl] by (simp add: base58check_decode_def)
next
  case (Inr n)
  define payload where "payload = replicate (length (takeWhile (\<lambda>c. c = CHR ''1'') value)) 0 @ big_endian n"
  have "base58check_decode sha256 value =
      (if length payload < 5 then Inl (app_error (''Unsupported base58 address: '' @ value))
       else if take 4 (sha256d sha256 (take (length payload - 4) payload)) \<noteq> drop (length payload - 4) payload
            then Inl (app_error (''Invalid base58 checksum for address: '' @ value))
            else Inr (take (length payload - 4) payload))"
    using Inr unfolding base58check_decode_def by (simp only: bind_res_simps Let_def payload_def)
  moreover have "take (length payload - 4) payload \<noteq> []" if "\<not> length payload < 5" using that by (cases payload) auto
  ultimately show ?thesis by simp
qed

lemma base58_script_standard:
  "case base58_script sha256 address of Inl e \<Rightarrow> is_app_error e | Inr s \<Rightarrow> standard_script s"
  using base58_decode_body [of sha256 address]
  by (auto simp: base58_script_def standard_script_def split: sum.splits list.splits)

lemma char_index_nonneg: "char_index alphabet c = Some i \<Longrightarrow> 0 \<le> i \<and> i < int (length alphabet)"
  by (auto simp: char_index_def dest!: map_of_SomeD set_zip_rightD)

lemma bech32_data_values:
  "case bech32_data value cs of Inl e \<Rightarrow> is_app_error e | Inr data \<Rightarrow> \<forall>d \<in> set data. 0 \<le> d"
proof (induction cs)
  case (Cons c cs)
  then show ?case
    by (cases "char_index BECH32_CHARSET c"; cases "bech32_data value cs")
       (auto dest: char_index_nonneg)
qed simp

lemma bech32_decode_values:
  "case bech32_decode address of Inl e \<Rightarrow> is_app_error e | Inr (_, data, _) \<Rightarrow> \<forall>d \<in> set data. 0 \<le> d"
proof (cases "py_lower address \<noteq> address \<and> py_upper address \<noteq> address \<or> rfind_one (py_lower address) = None")
  case True
  then show ?thesis by (auto simp: bech32_decode_def Let_def split: option.splits)
next
  case False
  then obtain sep where sep: "rfind_one (py_lower address) = Some sep" by auto
  let ?cs = "drop (sep + 1) (py_lower address)"
  show ?thesis
  proof (cases "bech32_data address ?cs")
    case (Inl e)
    then show ?thesis using False bech32_data_values [of address ?cs] by (simp add: bech32_decode_def Let_def sep)
  next
    case (Inr data)
    then show ?thesis using False bech32_data_values [of address ?cs]
      by (auto simp: bech32_decode_def Let_def sep split: option.splits dest: in_set_takeD)
  qed
qed

lemma convert_loop_errors: "convert_loop f t vs acc bits out = Inl e \<Longrightarrow> is_app_error e"
  by (induction f t vs acc bits out rule: convert_loop.induct) (auto simp: Let_def split: if_splits prod.splits)

lemma program_bytes:
  "case bind_res (convertbits rest 5 8 False) bytes_of of Inl e \<Rightarrow> is_app_error e | Inr _ \<Rightarrow> True"
proof (cases "convertbits rest 5 8 False")
  case (Inl e)
  then show ?thesis
    by (auto simp: convertbits_def result_simps Let_def split: if_splits dest: convert_loop_errors)
next
  case (Inr xs)
  then show ?thesis using convertbits_groups [OF Inr] by (simp add: bytes_of_def groups_ok_def)
qed

lemma segwit_script_standard:
  "case segwit_script address of Inl e \<Rightarrow> is_app_error e | Inr s \<Rightarrow> standard_script s"
proof (cases "bech32_decode address")
  case (Inl e)
  then show ?thesis using bech32_decode_values [of address] by (simp add: segwit_script_def)
next
  case (Inr r)
  obtain hrp data spec where r: "r = (hrp, data, spec)" by (cases r)
  show ?thesis
  proof (cases data)
    case Nil
    then show ?thesis using Inr by (simp add: segwit_script_def r)
  next
    case (Cons version rest)
    have "0 \<le> version" using bech32_decode_values [of address] Inr by (simp add: r Cons)
    then show ?thesis using Inr program_bytes [of rest]
      by (cases "bind_res (convertbits rest 5 8 False) bytes_of")
         (auto simp: segwit_script_def r Cons standard_script_def witness_program_ok_def witness_script_of_def)
  qed
qed

text \<open>
  C37: An address becomes a standard output script (pay to public-key hash, pay to script hash, or
  a witness program of version 0 to 16 with an allowed length) or raises \<open>AppError\<close>, whatever the
  string and the hash function are; the variant for optional addresses never raises and returns
  nothing or the hexadecimal form of such a script.
\<close>

theorem address_script_type:
  "(case address_to_scriptpubkey sha256 address of Inl e \<Rightarrow> is_app_error e | Inr s \<Rightarrow> standard_script s)
   \<and> (case scriptpubkey_for_address_or_none sha256 optional of
        Inl _ \<Rightarrow> False
      | Inr None \<Rightarrow> True
      | Inr (Some text) \<Rightarrow> \<exists>s. bytes_fromhex text = Some s \<and> standard_script s)"
proof -
  have all: "case address_to_scriptpubkey sha256 a of Inl e \<Rightarrow> is_app_error e | Inr s \<Rightarrow> standard_script s" for a
    using segwit_script_standard base58_script_standard by (simp add: address_to_scriptpubkey_def)
  moreover have "case scriptpubkey_for_address_or_none sha256 optional of
        Inl _ \<Rightarrow> False | Inr None \<Rightarrow> True
      | Inr (Some text) \<Rightarrow> \<exists>s. bytes_fromhex text = Some s \<and> standard_script s"
  proof (cases optional)
    case (Some a)
    then show ?thesis using all [of a]
      by (auto simp: scriptpubkey_for_address_or_none_def is_app_error_def app_error_def split: sum.splits)
  qed (simp add: scriptpubkey_for_address_or_none_def)
  ultimately show ?thesis by blast
qed

section \<open>Segwit addresses\<close>

definition charset_char :: "int \<Rightarrow> char" where
  "charset_char d = BECH32_CHARSET ! nat d"

text \<open>A segwit address as BIP 173 and BIP 350 print it, with a given checksum.\<close>

definition segwit_address :: "string \<Rightarrow> int \<Rightarrow> int list \<Rightarrow> int list \<Rightarrow> string" where
  "segwit_address hrp version groups checksum =
     hrp @ ''1'' @ map charset_char (version # groups @ checksum)"

definition segwit_hrps :: "string list" where
  "segwit_hrps = [''bc'', ''tb'', ''bcrt'']"

definition lower_ascii :: "char \<Rightarrow> bool" where
  "lower_ascii c \<longleftrightarrow> py_lower_char c = c"

lemma charset_facts:
  "distinct BECH32_CHARSET" "length BECH32_CHARSET = 32" "CHR ''1'' \<notin> set BECH32_CHARSET"
  "\<forall>c \<in> set BECH32_CHARSET. lower_ascii c"
  by (simp_all add: BECH32_CHARSET_def lower_ascii_def py_lower_char_def)

lemma charset_char_member: "0 \<le> d \<Longrightarrow> d < 32 \<Longrightarrow> charset_char d \<in> set BECH32_CHARSET"
  by (simp add: charset_char_def charset_facts(2) nat_less_iff)

lemma char_index_charset:
  assumes "0 \<le> d" and "d < 32"
  shows "char_index BECH32_CHARSET (charset_char d) = Some d"
proof -
  have n: "nat d < length BECH32_CHARSET" using assms by (simp add: charset_facts(2) nat_less_iff)
  have "(charset_char d, d) \<in> set (zip BECH32_CHARSET (map int [0..<length BECH32_CHARSET]))"
    unfolding in_set_zip charset_char_def using n assms(1) by (intro exI [of _ "nat d"]) simp
  then show ?thesis unfolding char_index_def
    by (intro map_of_is_SomeI) (simp_all add: charset_facts(1))
qed

lemma bech32_data_charset:
  "groups_ok 5 ds \<Longrightarrow> bech32_data value (map charset_char ds) = Inr ds"
  by (induction ds) (simp_all add: char_index_charset groups_ok_def)

lemma rfind_one_last:
  assumes "CHR ''1'' \<notin> set ds"
  shows "rfind_one (hrp @ ''1'' @ ds) = Some (length hrp)"
proof -
  have "takeWhile (\<lambda>c. c \<noteq> CHR ''1'') (rev (hrp @ ''1'' @ ds)) = rev ds"
  proof -
    have "takeWhile (\<lambda>c. c \<noteq> CHR ''1'') (rev ds @ CHR ''1'' # rev hrp) = rev ds @ takeWhile (\<lambda>c. c \<noteq> CHR ''1'') (CHR ''1'' # rev hrp)"
      by (rule takeWhile_append2) (use assms in auto)
    then show ?thesis by simp
  qed
  then show ?thesis by (simp add: rfind_one_def)
qed

lemma lower_segwit:
  assumes "hrp \<in> set segwit_hrps" and "groups_ok 5 ds"
  shows "py_lower (hrp @ ''1'' @ map charset_char ds) = hrp @ ''1'' @ map charset_char ds"
proof -
  have "py_lower hrp = hrp" "py_lower ''1'' = ''1''"
    using assms(1) by (auto simp: segwit_hrps_def py_lower_def py_lower_char_def)
  moreover have "py_lower (map charset_char ds) = map charset_char ds"
    using assms(2) charset_facts(4) charset_char_member
    by (auto simp: py_lower_def groups_ok_def lower_ascii_def)
  ultimately show ?thesis by (simp add: py_lower_def)
qed

lemma bech32_decode_segwit:
  assumes "hrp \<in> set segwit_hrps" and "groups_ok 5 (data @ checksum)" and "length checksum = 6"
    and "checksum_spec (bech32_polymod (bech32_hrp_expand hrp @ data @ checksum)) = Some spec"
  shows "bech32_decode (hrp @ ''1'' @ map charset_char (data @ checksum)) = Inr (hrp, data, spec)"
proof -
  let ?ds = "data @ checksum"
  have low: "py_lower (hrp @ ''1'' @ map charset_char ?ds) = hrp @ ''1'' @ map charset_char ?ds"
    by (rule lower_segwit [OF assms(1,2)])
  have "CHR ''1'' \<notin> set (map charset_char ?ds)"
    using assms(2) charset_char_member charset_facts(3) by (auto simp: groups_ok_def)
  from rfind_one_last [OF this, of hrp] have sep: "rfind_one (hrp @ ''1'' @ map charset_char ?ds) = Some (length hrp)" .
  have "bech32_data s (map charset_char ?ds) = Inr ?ds" for s by (rule bech32_data_charset [OF assms(2)])
  moreover have "0 < length hrp" using assms(1) by (auto simp: segwit_hrps_def)
  ultimately show ?thesis using assms(3,4) low sep
    by (simp add: bech32_decode_def Let_def)
qed

text \<open>
  A segwit address printed for a witness version and program, with any checksum of the right
  kind, decodes to exactly the output script of that version and program.
\<close>

theorem segwit_address_round_trip:
  assumes "hrp \<in> set segwit_hrps" and "witness_program_ok version program"
    and "convertbits (map uint program) 8 5 True = Inr groups"
    and "length checksum = 6" and "groups_ok 5 checksum"
    and "checksum_spec (bech32_polymod (bech32_hrp_expand hrp @ version # groups @ checksum))
           = Some (if version = 0 then Bech32 else Bech32m)"
  shows "address_to_scriptpubkey sha256 (segwit_address hrp version groups checksum)
           = Inr (witness_script_of version program)"
proof -
  have v: "0 \<le> version" "version \<le> 16" using assms(2) by (auto simp: witness_program_ok_def)
  have "groups_ok 8 (map uint program)"
    using uint_bounded [where 'a = 8] by (auto simp: groups_ok_def)
  then obtain ys p where ys: "convertbits (map uint program) 8 5 True = Inr ys" "p < 5"
    "5 * length ys = 8 * length (map uint program) + p" "group_value 5 ys = group_value 8 (map uint program) * 2 ^ p" "groups_ok 5 ys"
    using convertbits_pad [of 8 "map uint program" 5] by auto
  then have groups: "groups_ok 5 groups" "convertbits groups 5 8 False = Inr (map uint program)"
    using assms(3) convertbits_exact [of 5 ys 8 "map uint program" p] \<open>groups_ok 8 (map uint program)\<close> by auto
  have "groups_ok 5 ((version # groups) @ checksum)" using groups(1) assms(5) v by (auto simp: groups_ok_def)
  from bech32_decode_segwit [OF assms(1) this assms(4)] assms(6)
  have dec: "bech32_decode (segwit_address hrp version groups checksum)
      = Inr (hrp, version # groups, if version = 0 then Bech32 else Bech32m)"
    by (simp add: segwit_address_def)
  have "bytes_of (map uint program) = Inr program"
    using uint_bounded [where 'a = 8] by (simp add: bytes_of_def comp_def)
  then have "segwit_script (segwit_address hrp version groups checksum) = Inr (witness_script_of version program)"
    using dec groups(2) assms(2) v by (auto simp: segwit_script_def witness_program_ok_def witness_script_of_def)
  moreover have "\<exists>p \<in> set [''bc1'', ''tb1'', ''bcrt1'']. starts_with (py_lower (segwit_address hrp version groups checksum)) p"
  proof -
    have "py_lower (segwit_address hrp version groups checksum) = segwit_address hrp version groups checksum"
      using lower_segwit [OF assms(1) \<open>groups_ok 5 ((version # groups) @ checksum)\<close>] by (simp add: segwit_address_def)
    then show ?thesis using assms(1) by (auto simp: segwit_hrps_def starts_with_def segwit_address_def)
  qed
  ultimately show ?thesis by (simp add: address_to_scriptpubkey_def)
qed

text \<open>The shortest test vector of BIP 350.\<close>

theorem segwit_address_round_trip_witness:
  "segwit_address ''bc'' 16 [14, 20, 15, 0] [8, 13, 2, 10, 20, 18] = ''bc1sw50qgdz25j''
   \<and> address_to_scriptpubkey id ''bc1sw50qgdz25j'' = Inr (witness_script_of 16 [0x75, 0x1E])"
proof -
  have a: "segwit_address ''bc'' 16 [14, 20, 15, 0] [8, 13, 2, 10, 20, 18] = ''bc1sw50qgdz25j''" by code_simp
  have "convertbits (map uint [0x75, 0x1E :: byte]) 8 5 True = Inr [14, 20, 15, 0]" by code_simp
  moreover have "checksum_spec (bech32_polymod (bech32_hrp_expand ''bc'' @ 16 # [14, 20, 15, 0] @ [8, 13, 2, 10, 20, 18])) = Some Bech32m"
    by code_simp
  ultimately show ?thesis
    using segwit_address_round_trip [of "''bc''" 16 "[0x75, 0x1E]" "[14, 20, 15, 0]" "[8, 13, 2, 10, 20, 18]" id] a
    by (simp add: segwit_hrps_def witness_program_ok_def groups_ok_def)
qed

end
