(* ===== verification/Safe_Tar.thy ===== *)
theory Safe_Tar
  imports Bytes "HOL-Library.Sublist"
begin

text \<open>
  Inspection and extraction of backup archives (\<open>backup/safe_tar.py\<close>). Member names are
  strings, as the archive gives them. The file system is a map from absolute paths, read as
  lists of components, to directories and regular files; it has no symbolic links, which the
  extraction never makes. Shown: which archives pass the inspection, that an extraction touches
  nothing outside the destination whatever the archive says, and what it leaves on disk.
\<close>

unbundle bit_operations_syntax

section \<open>Strings\<close>

text \<open>\<open>s.split("/")\<close>\<close>

fun split_slash :: "string \<Rightarrow> string list" where
  "split_slash [] = [[]]"
| "split_slash (c # cs) =
     (if c = CHR ''/'' then [] # split_slash cs
      else case split_slash cs of [] \<Rightarrow> [[c]] | p # ps \<Rightarrow> (c # p) # ps)"

text \<open>\<open>repr\<close> of a text (\<open>False\<close>) or of a byte string (\<open>True\<close>): single quotes unless the value has
  one and no double quote, backslash escapes, and hexadecimal escapes for what does not print.\<close>

definition repr_char :: "bool \<Rightarrow> char \<Rightarrow> char \<Rightarrow> string" where
  "repr_char raw q c = (let n = of_char c :: nat in
     if c = q \<or> n = 92 then [CHR 0x5C, c]
     else if n = 9 then [CHR 0x5C, CHR ''t'']
     else if n = 10 then [CHR 0x5C, CHR ''n'']
     else if n = 13 then [CHR 0x5C, CHR ''r'']
     else if n < 32 \<or> n = 127 \<or> (127 < n \<and> (raw \<or> n \<le> 160 \<or> n = 173))
       then [CHR 0x5C, CHR ''x'', hex_digit (n div 16), hex_digit (n mod 16)]
     else [c])"

definition py_repr :: "bool \<Rightarrow> string \<Rightarrow> string" where
  "py_repr raw s =
     (let q = (if CHR 0x27 \<in> set s \<and> CHR 0x22 \<notin> set s then CHR 0x22 else CHR 0x27)
      in (if raw then ''b'' else '''') @ [q] @ concat (map (repr_char raw q) s) @ [q])"

definition repr_list :: "string list \<Rightarrow> string" where
  "repr_list xs = ''['' @ join_with '', '' (map (py_repr False) xs) @ '']''"

section \<open>Archive members\<close>

record tar_info =
  ti_name :: string
  ti_size :: int
  ti_mtime :: int
  ti_mode :: int
  ti_type :: char
  ti_uid :: int
  ti_gid :: int
  ti_uname :: string
  ti_gname :: string

text \<open>Type flags of \<open>tarfile\<close>: \<open>REGULAR_TYPES\<close>, and one flag for each of the others.\<close>

definition isfile :: "tar_info \<Rightarrow> bool" where
  "isfile m \<longleftrightarrow> ti_type m \<in> {CHR ''0'', CHR 0x00, CHR ''7'', CHR ''S''}"

definition islnk :: "tar_info \<Rightarrow> bool" where
  "islnk m \<longleftrightarrow> ti_type m = CHR ''1''"

definition issym :: "tar_info \<Rightarrow> bool" where
  "issym m \<longleftrightarrow> ti_type m = CHR ''2''"

definition ischr :: "tar_info \<Rightarrow> bool" where
  "ischr m \<longleftrightarrow> ti_type m = CHR ''3''"

definition isblk :: "tar_info \<Rightarrow> bool" where
  "isblk m \<longleftrightarrow> ti_type m = CHR ''4''"

definition isdir :: "tar_info \<Rightarrow> bool" where
  "isdir m \<longleftrightarrow> ti_type m = CHR ''5''"

definition isfifo :: "tar_info \<Rightarrow> bool" where
  "isfifo m \<longleftrightarrow> ti_type m = CHR ''6''"

lemmas type_flags = isfile_def islnk_def issym_def ischr_def isblk_def isdir_def isfifo_def

datatype tar_error =
    UnsafeTarMember string string
  | BackupAppError string string "(string \<times> string) list"
  | FileExistsError
  | NotADirectoryError
  | IsADirectoryError
  | StreamReadError

type_synonym 'a tar_result = "tar_error + 'a"

section \<open>Inspection\<close>

definition DEFAULT_ALLOWED_TOP_LEVEL :: "string list" where
  "DEFAULT_ALLOWED_TOP_LEVEL = [''manifest.json'', ''kassiber.sqlite3'', ''attachments'', ''config'']"

definition DEFAULT_MAX_MEMBER_BYTES :: int where
  "DEFAULT_MAX_MEMBER_BYTES = 4 * 1024 * 1024 * 1024"

fun normalize_parts :: "string \<Rightarrow> string list \<Rightarrow> string list \<Rightarrow> string list tar_result" where
  "normalize_parts name [] acc = Inr acc"
| "normalize_parts name (part # rest) acc =
     (if part = '''' \<or> part = ''.'' then normalize_parts name rest acc
      else if part = ''..'' then Inl (UnsafeTarMember name ''parent-directory traversal'')
      else normalize_parts name rest (acc @ [part]))"

definition normalize_member_path :: "string \<Rightarrow> string tar_result" where
  "normalize_member_path name =
     (if take 1 name = ''/'' then Inl (UnsafeTarMember name ''absolute path'')
      else if CHR 0x5C \<in> set name
        then Inl (UnsafeTarMember name ''backslash in path (Windows-style)'')
      else if CHR 0x00 \<in> set name then Inl (UnsafeTarMember name ''NUL byte in path'')
      else case normalize_parts name (split_slash name) [] of
             Inl e \<Rightarrow> Inl e
           | Inr parts \<Rightarrow>
               if parts = [] then Inl (UnsafeTarMember name ''empty path after normalization'')
               else Inr (join_with ''/'' parts))"

definition clean_info :: "string \<Rightarrow> tar_info \<Rightarrow> tar_info" where
  "clean_info normalized info =
     \<lparr>ti_name = normalized, ti_size = ti_size info, ti_mtime = ti_mtime info,
      ti_mode = ti_mode info AND 0x1FF, ti_type = ti_type info,
      ti_uid = 0, ti_gid = 0, ti_uname = '''', ti_gname = ''''\<rparr>"

text \<open>The body of the loop before the duplicate check: the normalised name, or the first
  objection to the member.\<close>

definition inspect_member :: "string list \<Rightarrow> int \<Rightarrow> tar_info \<Rightarrow> string tar_result" where
  "inspect_member allowed max_bytes info =
     (case normalize_member_path (ti_name info) of
        Inl e \<Rightarrow> Inl e
      | Inr normalized \<Rightarrow>
          (let top = hd (split_slash normalized);
               unsafe = (\<lambda>reason. Inl (UnsafeTarMember (ti_name info) reason))
           in if top \<notin> set allowed
                then unsafe (''top-level entry '' @ py_repr False top @ '' not in ''
                              @ repr_list (sort (remdups allowed)))
              else if issym info then unsafe ''symlink''
              else if islnk info then unsafe ''hardlink''
              else if ischr info \<or> isblk info then unsafe ''device node''
              else if isfifo info then unsafe ''FIFO''
              else if \<not> (isfile info \<or> isdir info)
                then unsafe (''unsupported member type '' @ py_repr True [ti_type info])
              else if isfile info \<and> ti_size info > max_bytes
                then unsafe (''declared size '' @ int_str (ti_size info) @ '' exceeds limit ''
                              @ int_str max_bytes)
              else Inr normalized))"

fun inspect_loop :: "string list \<Rightarrow> int \<Rightarrow> tar_info list \<Rightarrow> string list \<Rightarrow> tar_info list
    \<Rightarrow> tar_info list tar_result" where
  "inspect_loop allowed max_bytes [] seen sanitized = Inr sanitized"
| "inspect_loop allowed max_bytes (info # rest) seen sanitized =
     (case inspect_member allowed max_bytes info of
        Inl e \<Rightarrow> Inl e
      | Inr normalized \<Rightarrow>
          if normalized \<in> set seen then Inl (UnsafeTarMember (ti_name info) ''duplicate path'')
          else inspect_loop allowed max_bytes rest (normalized # seen)
                 (sanitized @ [clean_info normalized info]))"

definition inspect_tar_members :: "string list \<Rightarrow> int \<Rightarrow> tar_info list \<Rightarrow> tar_info list tar_result" where
  "inspect_tar_members allowed max_bytes members = inspect_loop allowed max_bytes members [] []"

section \<open>Extraction\<close>

datatype fs_node = Dir | Reg "byte list" int

type_synonym fs = "string list \<Rightarrow> fs_node option"

text \<open>\<open>destination / name\<close> of \<open>pathlib\<close>: an absolute name replaces the destination, empty and
  single-dot components vanish, double dots stay. The operating system then resolves those.\<close>

definition path_parts :: "string \<Rightarrow> string list" where
  "path_parts name = filter (\<lambda>p. p \<noteq> '''' \<and> p \<noteq> ''.'') (split_slash name)"

definition join_path :: "string list \<Rightarrow> string \<Rightarrow> string list" where
  "join_path destination name =
     (if take 1 name = ''/'' then path_parts name else destination @ path_parts name)"

definition os_path :: "string list \<Rightarrow> string list" where
  "os_path p = fold (\<lambda>part acc. if part = ''..'' then butlast acc else acc @ [part]) p []"

text \<open>\<open>Path.mkdir(parents=True, exist_ok=True)\<close>: missing directories are made from the top; a
  regular file in the way stops it.\<close>

fun make_dirs :: "fs \<Rightarrow> string list \<Rightarrow> string list \<Rightarrow> fs \<times> tar_error option" where
  "make_dirs s base [] = (s, None)"
| "make_dirs s base (c # cs) =
     (case s (base @ [c]) of
        None \<Rightarrow> make_dirs (s(base @ [c] \<mapsto> Dir)) (base @ [c]) cs
      | Some Dir \<Rightarrow> make_dirs s (base @ [c]) cs
      | Some (Reg _ _) \<Rightarrow> (s, Some (if cs = [] then FileExistsError else NotADirectoryError)))"

definition path_mkdir :: "fs \<Rightarrow> string list \<Rightarrow> fs \<times> tar_error option" where
  "path_mkdir s p = make_dirs s [] (os_path p)"

text \<open>An archive is its members with what reading each of them yields: the results of the
  successive calls of \<open>read\<close>, \<^const>\<open>None\<close> for a call that raises.\<close>

type_synonym stream = "byte list option list"
type_synonym archive = "(tar_info \<times> stream) list"

text \<open>\<open>TarFile.extractfile\<close> on what the inspection lets through (links, which it would follow,
  never reach it): a stream for a regular file, nothing for a directory.\<close>

definition extractfile :: "tar_info \<times> stream \<Rightarrow> stream option" where
  "extractfile m = (if isfile (fst m) then Some (snd m) else None)"

text \<open>The copy loop: what was written, and whether the loop ended without an exception.\<close>

fun copy_chunks :: "stream \<Rightarrow> byte list \<Rightarrow> byte list \<times> bool" where
  "copy_chunks [] written = (written, True)"
| "copy_chunks (None # rest) written = (written, False)"
| "copy_chunks (Some chunk # rest) written =
     (if chunk = [] then (written, True) else copy_chunks rest (written @ chunk))"

text \<open>\<open>open(target, "wb")\<close>, the copy loop and \<open>os.chmod\<close>. A file that exists keeps its mode until the
  \<open>chmod\<close>, a new one has the mode the process gives new files.\<close>

definition write_target :: "int \<Rightarrow> fs \<Rightarrow> string list \<Rightarrow> stream \<Rightarrow> int \<Rightarrow> fs \<times> tar_error option" where
  "write_target new_mode s p src mode =
     (if s p = Some Dir then (s, Some IsADirectoryError)
      else let m = (case s p of Some (Reg _ m) \<Rightarrow> m | _ \<Rightarrow> new_mode);
               (written, ok) = copy_chunks src []
           in if ok then (s(p \<mapsto> Reg written (if mode = 0 then 0x180 else mode)), None)
              else (s(p \<mapsto> Reg written m), Some StreamReadError))"

definition extract_member :: "int \<Rightarrow> string list \<Rightarrow> fs \<Rightarrow> tar_info \<times> stream \<Rightarrow> tar_info \<Rightarrow> fs \<times> tar_error option" where
  "extract_member new_mode destination s original clean =
     (let target = join_path destination (ti_name clean)
      in if isdir clean then path_mkdir s target
         else case path_mkdir s (butlast target) of
                (s', Some e) \<Rightarrow> (s', Some e)
              | (s', None) \<Rightarrow>
                  (case extractfile original of
                     None \<Rightarrow> (s', Some (BackupAppError
                       (''could not stream backup member '' @ py_repr False (ti_name (fst original)))
                       ''backup_stream_error'' []))
                   | Some src \<Rightarrow> write_target new_mode s' (os_path target) src (ti_mode clean)))"

fun extract_loop :: "int \<Rightarrow> string list \<Rightarrow> fs \<Rightarrow> ((tar_info \<times> stream) \<times> tar_info) list
    \<Rightarrow> string list list \<Rightarrow> fs \<times> string list list tar_result" where
  "extract_loop new_mode destination s [] extracted = (s, Inr extracted)"
| "extract_loop new_mode destination s ((original, clean) # rest) extracted =
     (case extract_member new_mode destination s original clean of
        (s', Some e) \<Rightarrow> (s', Inl e)
      | (s', None) \<Rightarrow>
          extract_loop new_mode destination s' rest
            (extracted @ [join_path destination (ti_name clean)]))"

definition backup_error :: "tar_error \<Rightarrow> tar_error" where
  "backup_error e =
     (case e of
        UnsafeTarMember name reason \<Rightarrow>
          BackupAppError (''backup contains an unsafe tar member: '' @ reason)
            ''unsafe_backup_member'' [(''member'', name), (''reason'', reason)]
      | _ \<Rightarrow> e)"

definition extract_tar_safely :: "int \<Rightarrow> string list \<Rightarrow> int \<Rightarrow> string list \<Rightarrow> fs \<Rightarrow> archive
    \<Rightarrow> fs \<times> string list list tar_result" where
  "extract_tar_safely new_mode allowed max_bytes destination s tar =
     (case path_mkdir s destination of
        (s', Some e) \<Rightarrow> (s', Inl e)
      | (s', None) \<Rightarrow>
          (case inspect_tar_members allowed max_bytes (map fst tar) of
             Inl e \<Rightarrow> (s', Inl (backup_error e))
           | Inr sanitized \<Rightarrow> extract_loop new_mode destination s' (zip tar sanitized) []))"

section \<open>What the inspection accepts\<close>

text \<open>A name is safe when it is relative, has none of the refused characters and no double-dot
  component, and names something; a member is safe when its name is, its first component is
  allowed, it is a regular file or a directory, and the file is not declared too large.\<close>

definition safe_name :: "string \<Rightarrow> bool" where
  "safe_name name \<longleftrightarrow> take 1 name \<noteq> ''/'' \<and> CHR 0x5C \<notin> set name \<and> CHR 0x00 \<notin> set name
     \<and> ''..'' \<notin> set (path_parts name) \<and> path_parts name \<noteq> []"

definition safe_member :: "string list \<Rightarrow> int \<Rightarrow> tar_info \<Rightarrow> bool" where
  "safe_member allowed max_bytes m \<longleftrightarrow>
     safe_name (ti_name m) \<and> hd (path_parts (ti_name m)) \<in> set allowed
     \<and> (isdir m \<or> isfile m \<and> ti_size m \<le> max_bytes)"

definition clean_name :: "tar_info \<Rightarrow> string" where
  "clean_name m = join_with ''/'' (path_parts (ti_name m))"

lemma split_slash_nonempty [simp]: "split_slash s \<noteq> []"
  by (induction s) (auto split: list.splits)

lemma split_slash_no_slash: "p \<in> set (split_slash s) \<Longrightarrow> CHR ''/'' \<notin> set p"
  by (induction s arbitrary: p) (auto split: list.splits if_splits)

lemma split_slash_plain: "CHR ''/'' \<notin> set p \<Longrightarrow> split_slash p = [p]"
  by (induction p) auto

lemma split_slash_append:
  "CHR ''/'' \<notin> set p \<Longrightarrow> split_slash (p @ CHR ''/'' # s) = p # split_slash s"
  by (induction p) auto

lemma split_join:
  "ps \<noteq> [] \<Longrightarrow> \<forall>p \<in> set ps. CHR ''/'' \<notin> set p \<Longrightarrow> split_slash (join_with ''/'' ps) = ps"
proof (induction "''/''" ps rule: join_with.induct)
  case (3 x y ys)
  then show ?case by (simp add: split_slash_append)
qed (simp_all add: split_slash_plain)

lemma path_parts_join:
  assumes "ps \<noteq> []" "\<forall>p \<in> set ps. CHR ''/'' \<notin> set p \<and> p \<noteq> '''' \<and> p \<noteq> ''.''"
  shows "path_parts (join_with ''/'' ps) = ps"
proof -
  have "split_slash (join_with ''/'' ps) = ps" using assms by (simp add: split_join)
  then show ?thesis using assms by (simp add: path_parts_def filter_id_conv)
qed

lemma path_parts_facts:
  "p \<in> set (path_parts name) \<Longrightarrow> CHR ''/'' \<notin> set p \<and> p \<noteq> '''' \<and> p \<noteq> ''.''"
  using split_slash_no_slash [of p name] by (simp add: path_parts_def)

lemma path_parts_clean_name:
  "path_parts (ti_name m) \<noteq> [] \<Longrightarrow> path_parts (clean_name m) = path_parts (ti_name m)"
  unfolding clean_name_def by (rule path_parts_join) (use path_parts_facts in blast)+

lemma clean_name_inject:
  assumes "path_parts (ti_name m) \<noteq> []" "path_parts (ti_name m') \<noteq> []"
  shows "clean_name m = clean_name m' \<longleftrightarrow> path_parts (ti_name m) = path_parts (ti_name m')"
  using path_parts_clean_name [OF assms(1)] path_parts_clean_name [OF assms(2)]
  by (metis clean_name_def)

lemma join_first_char:
  "p \<noteq> '''' \<Longrightarrow> CHR ''/'' \<notin> set p \<Longrightarrow> take 1 (join_with ''/'' (p # ps)) \<noteq> ''/''"
  by (cases p; cases ps) auto

lemma clean_name_relative:
  assumes "path_parts (ti_name m) \<noteq> []"
  shows "take 1 (clean_name m) \<noteq> ''/''"
proof (cases "path_parts (ti_name m)")
  case (Cons p ps)
  then have "p \<noteq> ''''" "CHR ''/'' \<notin> set p" using path_parts_facts [of p "ti_name m"] by simp_all
  then show ?thesis unfolding clean_name_def Cons by (rule join_first_char)
qed (use assms in simp)

lemma normalize_parts_result:
  "normalize_parts name ps acc =
     (if ''..'' \<in> set (filter (\<lambda>p. p \<noteq> '''' \<and> p \<noteq> ''.'') ps)
      then Inl (UnsafeTarMember name ''parent-directory traversal'')
      else Inr (acc @ filter (\<lambda>p. p \<noteq> '''' \<and> p \<noteq> ''.'') ps))"
  by (induction ps arbitrary: acc) simp_all

lemma normalize_member_path_Inr:
  "normalize_member_path name = Inr n \<longleftrightarrow> safe_name name \<and> n = join_with ''/'' (path_parts name)"
  by (auto simp: normalize_member_path_def normalize_parts_result safe_name_def path_parts_def
      split: if_splits)

lemma normalize_member_path_Inl:
  "\<not> safe_name name \<Longrightarrow> \<exists>reason. normalize_member_path name = Inl (UnsafeTarMember name reason)"
  by (auto simp: normalize_member_path_def normalize_parts_result safe_name_def path_parts_def)

lemma clean_top: "safe_name (ti_name m) \<Longrightarrow> hd (split_slash (clean_name m)) = hd (path_parts (ti_name m))"
  unfolding clean_name_def safe_name_def using split_join path_parts_facts by metis

lemma inspect_member_Inr:
  "inspect_member allowed max_bytes m = Inr n \<longleftrightarrow> safe_member allowed max_bytes m \<and> n = clean_name m"
proof (cases "safe_name (ti_name m)")
  case True
  then have "normalize_member_path (ti_name m) = Inr (clean_name m)"
    by (simp add: normalize_member_path_Inr clean_name_def)
  then show ?thesis using True clean_top [OF True]
    by (auto simp: inspect_member_def safe_member_def Let_def type_flags split: if_splits)
next
  case False
  then obtain reason where "normalize_member_path (ti_name m) = Inl (UnsafeTarMember (ti_name m) reason)"
    using normalize_member_path_Inl by blast
  then show ?thesis using False by (simp add: inspect_member_def safe_member_def)
qed

lemma inspect_member_Inl:
  assumes "\<not> safe_member allowed max_bytes m"
  shows "\<exists>reason. inspect_member allowed max_bytes m = Inl (UnsafeTarMember (ti_name m) reason)"
proof (cases "inspect_member allowed max_bytes m")
  case (Inl e)
  show ?thesis
  proof (cases "safe_name (ti_name m)")
    case True
    then have "normalize_member_path (ti_name m) = Inr (clean_name m)"
      by (simp add: normalize_member_path_Inr clean_name_def)
    then show ?thesis using Inl by (auto simp: inspect_member_def Let_def split: if_splits)
  next
    case False
    then show ?thesis using normalize_member_path_Inl [of "ti_name m"] by (auto simp: inspect_member_def)
  qed
qed (use assms inspect_member_Inr in blast)

text \<open>The first objection of the loop: the members before index \<open>i\<close> are safe and new, the member at
  \<open>i\<close> is not.\<close>

definition first_objection :: "string list \<Rightarrow> int \<Rightarrow> string list \<Rightarrow> tar_info list \<Rightarrow> nat \<Rightarrow> bool" where
  "first_objection allowed max_bytes seen ms i \<longleftrightarrow> i < length ms
     \<and> (\<forall>j < i. safe_member allowed max_bytes (ms ! j))
     \<and> distinct (map clean_name (take i ms)) \<and> set (map clean_name (take i ms)) \<inter> set seen = {}
     \<and> (safe_member allowed max_bytes (ms ! i)
          \<longrightarrow> clean_name (ms ! i) \<in> set seen \<union> set (map clean_name (take i ms)))"

lemma first_objection_Suc:
  "safe_member allowed max_bytes m \<Longrightarrow> clean_name m \<notin> set seen \<Longrightarrow>
   first_objection allowed max_bytes (clean_name m # seen) ms i \<Longrightarrow>
   first_objection allowed max_bytes seen (m # ms) (Suc i)"
  by (auto simp: first_objection_def less_Suc_eq_0_disj)

lemma inspect_loop_result:
  "(\<exists>i reason. first_objection allowed max_bytes seen ms i
      \<and> inspect_loop allowed max_bytes ms seen acc = Inl (UnsafeTarMember (ti_name (ms ! i)) reason))
   \<or> ((\<forall>m \<in> set ms. safe_member allowed max_bytes m) \<and> distinct (map clean_name ms)
      \<and> set (map clean_name ms) \<inter> set seen = {}
      \<and> inspect_loop allowed max_bytes ms seen acc = Inr (acc @ map (\<lambda>m. clean_info (clean_name m) m) ms))"
proof (induction ms arbitrary: seen acc)
  case (Cons m ms)
  show ?case
  proof (cases "safe_member allowed max_bytes m")
    case False
    then have "first_objection allowed max_bytes seen (m # ms) 0" by (simp add: first_objection_def)
    then show ?thesis using inspect_member_Inl [OF False] by fastforce
  next
    case True
    then have ok: "inspect_member allowed max_bytes m = Inr (clean_name m)" by (simp add: inspect_member_Inr)
    show ?thesis
    proof (cases "clean_name m \<in> set seen")
      case dup: True
      then have "first_objection allowed max_bytes seen (m # ms) 0" by (simp add: first_objection_def)
      then show ?thesis using ok dup by fastforce
    next
      case False
      show ?thesis
        using Cons.IH [of "clean_name m # seen" "acc @ [clean_info (clean_name m) m]"]
      proof
        assume "\<exists>i reason. first_objection allowed max_bytes (clean_name m # seen) ms i \<and>
          inspect_loop allowed max_bytes ms (clean_name m # seen) (acc @ [clean_info (clean_name m) m])
            = Inl (UnsafeTarMember (ti_name (ms ! i)) reason)"
        then show ?thesis using first_objection_Suc [OF True False] ok False by fastforce
      qed (use ok False True in auto)
    qed
  qed
qed simp

lemma distinct_clean_names:
  assumes "\<forall>m \<in> set ms. safe_member allowed max_bytes m"
  shows "distinct (map clean_name ms) \<longleftrightarrow> distinct (map (path_parts \<circ> ti_name) ms)"
proof -
  have "\<forall>m \<in> set ms. path_parts (ti_name m) \<noteq> []" using assms by (simp add: safe_member_def safe_name_def)
  then show ?thesis by (auto simp: distinct_map inj_on_def clean_name_inject)
qed

lemma objection_excludes:
  assumes first: "first_objection allowed max_bytes [] ms i"
    and safe: "\<forall>m \<in> set ms. safe_member allowed max_bytes m"
  shows "\<not> distinct (map clean_name ms)"
proof
  assume "distinct (map clean_name ms)"
  moreover from first safe have i: "i < length ms" "clean_name (ms ! i) \<in> set (map clean_name (take i ms))"
    by (auto simp: first_objection_def)
  moreover from i(2) obtain j where "j < i" "clean_name (ms ! i) = clean_name (ms ! j)"
    by (auto simp: in_set_conv_nth)
  ultimately show False by (auto simp: distinct_conv_nth)
qed

lemma inspect_Inr:
  "inspect_tar_members allowed max_bytes ms = Inr out \<longleftrightarrow>
     (\<forall>m \<in> set ms. safe_member allowed max_bytes m) \<and> distinct (map (path_parts \<circ> ti_name) ms)
     \<and> out = map (\<lambda>m. clean_info (clean_name m) m) ms"
  using inspect_loop_result [of allowed max_bytes "[]" ms "[]"] objection_excludes distinct_clean_names
  unfolding inspect_tar_members_def by fastforce

text \<open>\<open>inspect_tar_members\<close> accepts exactly the archives whose members are all safe and name
  pairwise different paths, and then returns every member in order with its normalised name, the
  permission bits of its mode and no owner. Otherwise it raises \<open>UnsafeTarMember\<close> for the first
  member that is unsafe or repeats the path of an earlier one, under the name the archive gave it.\<close>

theorem inspect_exact:
  "(inspect_tar_members allowed max_bytes ms = Inr out \<longleftrightarrow>
      (\<forall>m \<in> set ms. safe_member allowed max_bytes m) \<and> distinct (map (path_parts \<circ> ti_name) ms)
      \<and> out = map (\<lambda>m. clean_info (clean_name m) m) ms)
   \<and> (\<forall>e. inspect_tar_members allowed max_bytes ms = Inl e \<longrightarrow>
      (\<exists>i reason. first_objection allowed max_bytes [] ms i \<and> e = UnsafeTarMember (ti_name (ms ! i)) reason))"
  (is "?exact \<and> ?error")
proof
  show ?exact by (rule inspect_Inr)
  show ?error
    using inspect_loop_result [of allowed max_bytes "[]" ms "[]"]
    unfolding inspect_tar_members_def by fastforce
qed

section \<open>The file system\<close>

lemma os_path_plain: "''..'' \<notin> set p \<Longrightarrow> os_path p = p"
proof -
  have "''..'' \<notin> set p \<Longrightarrow>
    fold (\<lambda>part acc. if part = ''..'' then butlast acc else acc @ [part]) p acc = acc @ p" for acc
    by (induction p arbitrary: acc) auto
  then show "''..'' \<notin> set p \<Longrightarrow> os_path p = p" by (simp add: os_path_def)
qed

definition member_path :: "string list \<Rightarrow> tar_info \<Rightarrow> string list" where
  "member_path destination m = destination @ path_parts (ti_name m)"

lemma clean_target:
  "safe_name (ti_name m) \<Longrightarrow> join_path destination (clean_name m) = member_path destination m"
  using clean_name_relative [of m] path_parts_clean_name [of m]
  by (simp add: join_path_def member_path_def safe_name_def)

lemma member_path_plain:
  "safe_name (ti_name m) \<Longrightarrow> ''..'' \<notin> set destination \<Longrightarrow> ''..'' \<notin> set (member_path destination m)"
  by (simp add: member_path_def safe_name_def)

lemma member_path_below:
  "safe_name (ti_name m) \<Longrightarrow> strict_prefix destination (member_path destination m)"
  by (simp add: member_path_def safe_name_def strict_prefix_def)

lemma make_dirs_ok:
  assumes "\<And>q. strict_prefix base q \<Longrightarrow> prefix q (base @ cs) \<Longrightarrow> s q = None \<or> s q = Some Dir"
  shows "make_dirs s base cs =
    (\<lambda>q. if strict_prefix base q \<and> prefix q (base @ cs) then Some Dir else s q, None)"
  using assms
proof (induction cs arbitrary: s base)
  case Nil
  then show ?case by (auto simp: fun_eq_iff strict_prefix_def dest: prefix_order.antisym)
next
  case (Cons c cs)
  have below: "strict_prefix base q \<and> prefix q (base @ c # cs) \<longleftrightarrow>
    q = base @ [c] \<or> strict_prefix (base @ [c]) q \<and> prefix q ((base @ [c]) @ cs)" for q
    by (auto simp: strict_prefix_def prefix_def append_eq_append_conv2 append_eq_Cons_conv Cons_eq_append_conv)
  have here: "s (base @ [c]) = None \<or> s (base @ [c]) = Some Dir"
    using Cons.prems below [of "base @ [c]"] by blast
  define t where "t = (if s (base @ [c]) = None then s(base @ [c] \<mapsto> Dir) else s)"
  have step: "make_dirs s base (c # cs) = make_dirs t (base @ [c]) cs"
    using here by (auto simp: t_def)
  have free: "\<And>q. strict_prefix (base @ [c]) q \<Longrightarrow> prefix q ((base @ [c]) @ cs) \<Longrightarrow> t q = None \<or> t q = Some Dir"
    using Cons.prems below by (auto simp: t_def)
  have t: "t = (\<lambda>q. if q = base @ [c] then Some Dir else s q)"
    using here by (auto simp: t_def fun_eq_iff)
  have rest: "make_dirs t (base @ [c]) cs =
    (\<lambda>q. if strict_prefix (base @ [c]) q \<and> prefix q ((base @ [c]) @ cs) then Some Dir else t q, None)"
    by (rule Cons.IH) (rule free)
  show ?case unfolding step rest below by (simp add: t fun_eq_iff)
qed

lemma make_dirs_frame:
  assumes "make_dirs s base cs = (s', r)" "s' q \<noteq> s q"
  shows "s q = None \<and> s' q = Some Dir \<and> prefix q (base @ cs)"
  using assms
proof (induction cs arbitrary: s base)
  case (Cons c cs)
  show ?case
  proof (cases "s (base @ [c])")
    case None
    then have step: "make_dirs (s(base @ [c] \<mapsto> Dir)) (base @ [c]) cs = (s', r)" using Cons.prems by simp
    show ?thesis
    proof (cases "s' q = (s(base @ [c] \<mapsto> Dir)) q")
      case True
      then have "q = base @ [c]" using Cons.prems(2) by (auto split: if_splits)
      then show ?thesis using None True by simp
    next
      case False
      then show ?thesis using Cons.IH [OF step] by (auto split: if_splits)
    qed
  next
    case (Some n)
    then show ?thesis using Cons.IH [of s "base @ [c]"] Cons.prems by (cases n) auto
  qed
qed simp
section \<open>Confinement\<close>

text \<open>What one extraction of the members \<open>ms\<close> may do to a path: nothing, make it a directory where
  there was nothing on the way to a member, or write the regular file of a member.\<close>

definition touched :: "string list \<Rightarrow> tar_info set \<Rightarrow> fs \<Rightarrow> fs \<Rightarrow> bool" where
  "touched destination ms s s' \<longleftrightarrow> (\<forall>q. s' q = s q
     \<or> s q = None \<and> s' q = Some Dir \<and> (\<exists>m \<in> ms. prefix q (member_path destination m))
     \<or> s q \<noteq> Some Dir \<and> (\<exists>c mode. s' q = Some (Reg c mode))
         \<and> (\<exists>m \<in> ms. isfile m \<and> q = member_path destination m))"

lemma touched_refl [simp]: "touched destination ms s s"
  by (simp add: touched_def)

lemma touched_trans:
  assumes "touched destination ms s s'" "touched destination ms s' s''"
  shows "touched destination ms s s''"
  unfolding touched_def
proof
  fix q
  from assms [unfolded touched_def, THEN spec [of _ q]]
  show "s'' q = s q
     \<or> s q = None \<and> s'' q = Some Dir \<and> (\<exists>m \<in> ms. prefix q (member_path destination m))
     \<or> s q \<noteq> Some Dir \<and> (\<exists>c mode. s'' q = Some (Reg c mode))
         \<and> (\<exists>m \<in> ms. isfile m \<and> q = member_path destination m)"
    by (elim disjE) auto
qed

lemma touched_mono: "touched destination ms s s' \<Longrightarrow> ms \<subseteq> ms' \<Longrightarrow> touched destination ms' s s'"
  unfolding touched_def by (meson subsetD)

lemma path_mkdir_touched:
  assumes "path_mkdir s p = (s', r)" "''..'' \<notin> set p" "prefix p (member_path destination m)" "m \<in> ms"
  shows "touched destination ms s s'"
  unfolding touched_def
proof
  fix q
  show "s' q = s q
     \<or> s q = None \<and> s' q = Some Dir \<and> (\<exists>m \<in> ms. prefix q (member_path destination m))
     \<or> s q \<noteq> Some Dir \<and> (\<exists>c mode. s' q = Some (Reg c mode))
         \<and> (\<exists>m \<in> ms. isfile m \<and> q = member_path destination m)"
    using make_dirs_frame [of s "[]" p s' r q] assms prefix_order.trans
    by (auto simp: path_mkdir_def os_path_plain)
qed

lemma write_target_touched:
  assumes "write_target new_mode s p src mode = (s', r)" "isfile m" "p = member_path destination m" "m \<in> ms"
  shows "touched destination ms s s'"
  using assms by (auto simp: write_target_def touched_def Let_def split: if_splits prod.splits)

lemma safe_is_dir: "safe_member allowed max_bytes m \<Longrightarrow> isdir m \<longleftrightarrow> \<not> isfile m"
  by (auto simp: safe_member_def type_flags)

lemma clean_info_simps [simp]:
  "ti_name (clean_info n m) = n" "isdir (clean_info n m) = isdir m"
  "ti_mode (clean_info n m) = ti_mode m AND 0x1FF"
  by (simp_all add: clean_info_def isdir_def)

lemma in_set_member_butlast: "x \<notin> set xs \<Longrightarrow> x \<notin> set (butlast xs)"
  by (blast dest: in_set_butlastD)

lemma prefix_butlast: "prefix (butlast xs) xs"
  by (metis append_butlast_last_id butlast.simps(1) prefixI prefix_order.order_refl)

text \<open>The extraction of a safe member, with its paths computed.\<close>

lemma extract_member_safe:
  assumes safe: "safe_member allowed max_bytes (fst o_m)" and dots: "''..'' \<notin> set destination"
  shows "extract_member new_mode destination s o_m (clean_info (clean_name (fst o_m)) (fst o_m)) =
    (if isfile (fst o_m)
     then case path_mkdir s (butlast (member_path destination (fst o_m))) of
            (s', Some e) \<Rightarrow> (s', Some e)
          | (s', None) \<Rightarrow> write_target new_mode s' (member_path destination (fst o_m)) (snd o_m)
                            (ti_mode (fst o_m) AND 0x1FF)
     else path_mkdir s (member_path destination (fst o_m)))"
proof -
  have name: "safe_name (ti_name (fst o_m))" using safe by (simp add: safe_member_def)
  have path: "os_path (member_path destination (fst o_m)) = member_path destination (fst o_m)"
    by (rule os_path_plain) (rule member_path_plain [OF name dots])
  show ?thesis
    using safe_is_dir [OF safe] clean_target [OF name, of destination] path
    by (auto simp: extract_member_def extractfile_def Let_def split: option.splits prod.splits)
qed

lemma extract_member_touched:
  assumes "safe_member allowed max_bytes (fst o_m)" "''..'' \<notin> set destination" "fst o_m \<in> ms"
    and "extract_member new_mode destination s o_m (clean_info (clean_name (fst o_m)) (fst o_m)) = (s', r)"
  shows "touched destination ms s s'"
proof -
  let ?p = "member_path destination (fst o_m)"
  have dots: "''..'' \<notin> set ?p"
    using assms(1,2) by (intro member_path_plain) (simp_all add: safe_member_def)
  note parent = in_set_member_butlast [OF dots]
  show ?thesis
  proof (cases "isfile (fst o_m)")
    case True
    obtain s1 r1 where mk: "path_mkdir s (butlast ?p) = (s1, r1)" by fastforce
    then have "touched destination ms s s1"
      using path_mkdir_touched parent prefix_butlast assms(3) by blast
    moreover have "touched destination ms s1 s'"
      using assms(4) True mk write_target_touched [OF _ True refl assms(3)]
      unfolding extract_member_safe [OF assms(1,2)] by (auto split: option.splits)
    ultimately show ?thesis by (rule touched_trans)
  next
    case False
    then show ?thesis
      using assms(4) path_mkdir_touched [OF _ dots _ assms(3)]
      unfolding extract_member_safe [OF assms(1,2)] by auto
  qed
qed

abbreviation cleaned :: "archive \<Rightarrow> ((tar_info \<times> stream) \<times> tar_info) list" where
  "cleaned tar \<equiv> zip tar (map (\<lambda>m. clean_info (clean_name m) m) (map fst tar))"

lemma extract_loop_touched:
  assumes "\<forall>m \<in> set (map fst tar). safe_member allowed max_bytes m" "''..'' \<notin> set destination"
    and "set (map fst tar) \<subseteq> ms"
    and "extract_loop new_mode destination s (cleaned tar) acc = (s', r)"
  shows "touched destination ms s s'"
  using assms(1,3,4)
proof (induction tar arbitrary: s acc)
  case (Cons o_m tar)
  obtain s1 r1 where step: "extract_member new_mode destination s o_m
      (clean_info (clean_name (fst o_m)) (fst o_m)) = (s1, r1)" by fastforce
  have "touched destination ms s s1"
    by (rule extract_member_touched [where allowed = allowed and max_bytes = max_bytes, OF _ assms(2) _ step])
      (use Cons.prems(1,2) in simp_all)
  moreover have "touched destination ms s1 s'"
    using Cons.IH [of s1] Cons.prems step by (auto split: option.splits)
  ultimately show ?case by (rule touched_trans)
qed simp

text \<open>Everything the extraction changes, for a destination that \<open>resolve\<close> has made plain.\<close>

definition confined :: "string list \<Rightarrow> string list \<Rightarrow> archive \<Rightarrow> fs \<Rightarrow> fs \<Rightarrow> bool" where
  "confined allowed destination tar s s' \<longleftrightarrow> (\<forall>q. s' q \<noteq> s q \<longrightarrow>
     prefix q destination \<and> s q = None \<and> s' q = Some Dir
     \<or> (\<exists>m \<in> fst ` set tar. \<exists>top rest. top \<in> set allowed \<and> q = destination @ top # rest
          \<and> prefix q (member_path destination m)
          \<and> (s q = None \<and> s' q = Some Dir
             \<or> isfile m \<and> q = member_path destination m \<and> s q \<noteq> Some Dir
                 \<and> (\<exists>c mode. s' q = Some (Reg c mode)))))"

lemma below_destination:
  assumes "prefix q (member_path destination m)" "\<not> prefix q destination"
    "safe_member allowed max_bytes m"
  shows "\<exists>top rest. top \<in> set allowed \<and> q = destination @ top # rest"
proof -
  obtain r where r: "q = destination @ r" "r \<noteq> []" "prefix r (path_parts (ti_name m))"
    using assms(1,2) by (auto simp: member_path_def prefix_append)
  then obtain top rest where tr: "r = top # rest" by (cases r) auto
  have "top = hd (path_parts (ti_name m))" using r(3) tr by (cases "path_parts (ti_name m)") auto
  then show ?thesis using r(1) tr assms(3) by (auto simp: safe_member_def)
qed

lemma touched_confined:
  assumes made: "\<And>q. s1 q \<noteq> s q \<Longrightarrow> prefix q destination \<and> s q = None \<and> s1 q = Some Dir"
    and touched: "touched destination (fst ` set tar) s1 s'"
    and safe: "\<forall>m \<in> fst ` set tar. safe_member allowed max_bytes m"
  shows "confined allowed destination tar s s'"
  unfolding confined_def
proof (intro allI impI)
  fix q
  assume change: "s' q \<noteq> s q"
  let ?goal = "\<exists>m \<in> fst ` set tar. \<exists>top rest. top \<in> set allowed \<and> q = destination @ top # rest
          \<and> prefix q (member_path destination m)
          \<and> (s q = None \<and> s' q = Some Dir
             \<or> isfile m \<and> q = member_path destination m \<and> s q \<noteq> Some Dir
                 \<and> (\<exists>c mode. s' q = Some (Reg c mode)))"
  show "prefix q destination \<and> s q = None \<and> s' q = Some Dir \<or> ?goal"
  proof (cases "prefix q destination")
    case True
    have "q \<noteq> member_path destination m" if "m \<in> fst ` set tar" for m
      using member_path_below [of m destination] True safe that
      by (auto simp: safe_member_def strict_prefix_def dest: prefix_order.antisym)
    then show ?thesis using touched [unfolded touched_def, THEN spec [of _ q]] made [of q] change True
      by (cases "s1 q = s q") auto
  next
    case False
    then have same: "s1 q = s q" using made by blast
    from touched [unfolded touched_def, THEN spec [of _ q]] change same
    obtain m where m: "m \<in> fst ` set tar" "prefix q (member_path destination m)"
      "s q = None \<and> s' q = Some Dir
       \<or> isfile m \<and> q = member_path destination m \<and> s q \<noteq> Some Dir \<and> (\<exists>c mode. s' q = Some (Reg c mode))"
      by auto
    then show ?thesis using below_destination [OF m(2) False] safe by blast
  qed
qed

lemma plain_confined:
  assumes "\<And>q. s' q \<noteq> s q \<Longrightarrow> prefix q destination \<and> s q = None \<and> s' q = Some Dir"
  shows "confined allowed destination tar s s'"
  using assms unfolding confined_def by blast

text \<open>C38: Whatever the archive holds and wherever the extraction stops, the only paths whose
  content changes are missing ancestors of the destination, which become directories, and paths
  below the destination whose first component is allowed: those become directories on the way to
  a member, or the file at the path of a regular member; an existing directory is never replaced.
  If one member is unsafe or two members share a path, nothing below the destination changes.\<close>

theorem extract_confined:
  assumes "''..'' \<notin> set destination"
    and "extract_tar_safely new_mode allowed max_bytes destination s tar = (s', r)"
  shows "confined allowed destination tar s s'
    \<and> (\<not> ((\<forall>m \<in> set (map fst tar). safe_member allowed max_bytes m)
          \<and> distinct (map (path_parts \<circ> ti_name) (map fst tar)))
       \<longrightarrow> (\<forall>q. strict_prefix destination q \<longrightarrow> s' q = s q))"
proof -
  obtain s1 r1 where mk: "path_mkdir s destination = (s1, r1)" by fastforce
  then have made: "\<And>q. s1 q \<noteq> s q \<Longrightarrow> prefix q destination \<and> s q = None \<and> s1 q = Some Dir"
    using make_dirs_frame [of s "[]" destination] assms(1) by (simp add: path_mkdir_def os_path_plain)
  have kept: "s1 q = s q" if "strict_prefix destination q" for q
    using made [of q] that by (auto simp: strict_prefix_def dest: prefix_order.antisym)
  show ?thesis
  proof (cases "r1 = None \<and> (\<exists>out. inspect_tar_members allowed max_bytes (map fst tar) = Inr out)")
    case False
    then have "s' = s1" using assms(2) mk
      by (cases r1; cases "inspect_tar_members allowed max_bytes (map fst tar)")
        (auto simp: extract_tar_safely_def)
    then show ?thesis using plain_confined made kept by blast
  next
    case True
    then obtain out where out: "r1 = None" "inspect_tar_members allowed max_bytes (map fst tar) = Inr out" by blast
    note ok = out(2) [unfolded inspect_Inr]
    then have safe: "\<forall>m \<in> set (map fst tar). safe_member allowed max_bytes m" by blast
    have "extract_loop new_mode destination s1 (cleaned tar) [] = (s', r)"
      using assms(2) mk out ok by (simp add: extract_tar_safely_def)
    then have "touched destination (fst ` set tar) s1 s'"
      by (intro extract_loop_touched [OF safe assms(1)]) auto
    then show ?thesis using touched_confined [OF made] safe ok by auto
  qed
qed
section \<open>What an extraction leaves on disk\<close>

definition stream_ok :: "stream \<Rightarrow> bool" where
  "stream_ok st \<longleftrightarrow> None \<notin> set (takeWhile (\<lambda>r. r \<noteq> Some []) st)"

definition stream_data :: "stream \<Rightarrow> byte list" where
  "stream_data st = concat (map the (takeWhile (\<lambda>r. r \<noteq> None \<and> r \<noteq> Some []) st))"

lemma copy_chunks_result: "copy_chunks st written = (written @ stream_data st, stream_ok st)"
  by (induction st written rule: copy_chunks.induct) (auto simp: stream_ok_def stream_data_def)

definition file_mode :: "tar_info \<Rightarrow> int" where
  "file_mode m = (let mode = ti_mode m AND 0x1FF in if mode = 0 then 0x180 else mode)"

text \<open>The tree an archive stands for, and archives that stand for a tree: no regular file is on the
  way to another member.\<close>

definition unpacked :: "string list \<Rightarrow> archive \<Rightarrow> fs" where
  "unpacked destination tar q =
     (case find (\<lambda>m. isfile (fst m) \<and> member_path destination (fst m) = q) tar of
        Some m \<Rightarrow> Some (Reg (stream_data (snd m)) (file_mode (fst m)))
      | None \<Rightarrow> if \<exists>m \<in> set tar. prefix q (member_path destination (fst m)) then Some Dir else None)"

definition tree_shaped :: "archive \<Rightarrow> bool" where
  "tree_shaped tar \<longleftrightarrow> (\<forall>m \<in> set tar. \<forall>m' \<in> set tar. isfile (fst m) \<longrightarrow>
     \<not> strict_prefix (path_parts (ti_name (fst m))) (path_parts (ti_name (fst m'))))"

definition holds_tree :: "string list \<Rightarrow> archive \<Rightarrow> fs \<Rightarrow> bool" where
  "holds_tree destination tar s \<longleftrightarrow>
     (\<forall>q. strict_prefix destination q \<longrightarrow> s q = unpacked destination tar q)
     \<and> (\<forall>q. prefix q destination \<and> q \<noteq> [] \<longrightarrow> s q = Some Dir)"

lemma unpacked_file:
  "unpacked destination tar q = Some (Reg c k) \<Longrightarrow>
   \<exists>m \<in> set tar. isfile (fst m) \<and> member_path destination (fst m) = q"
  by (auto simp: unpacked_def find_Some_iff split: option.splits if_splits)

lemma unpacked_dir:
  "unpacked destination tar q = Some Dir \<Longrightarrow> \<exists>m \<in> set tar. prefix q (member_path destination (fst m))"
  by (auto simp: unpacked_def split: option.splits if_splits)

lemma find_snoc:
  "find P (xs @ [x]) = (case find P xs of Some y \<Rightarrow> Some y | None \<Rightarrow> if P x then Some x else None)"
  by (induction xs) auto

lemma unpacked_snoc:
  assumes "\<And>q c k. prefix q (member_path destination (fst m)) \<Longrightarrow> unpacked destination tar q \<noteq> Some (Reg c k)"
  shows "unpacked destination (tar @ [m]) q =
    (if isfile (fst m) \<and> q = member_path destination (fst m) then Some (Reg (stream_data (snd m)) (file_mode (fst m)))
     else if prefix q (member_path destination (fst m)) then Some Dir else unpacked destination tar q)"
proof (cases "find (\<lambda>m. isfile (fst m) \<and> member_path destination (fst m) = q) tar")
  case None
  then show ?thesis by (auto simp: unpacked_def find_snoc)
next
  case (Some y)
  then have "\<exists>c k. unpacked destination tar q = Some (Reg c k)" by (simp add: unpacked_def)
  then have "\<not> prefix q (member_path destination (fst m))" using assms by blast
  moreover from this have "q \<noteq> member_path destination (fst m)" by auto
  ultimately show ?thesis using Some by (simp add: unpacked_def find_snoc)
qed

lemma path_mkdir_ok:
  assumes "''..'' \<notin> set p"
    and "\<And>q. q \<noteq> [] \<Longrightarrow> prefix q p \<Longrightarrow> s q = None \<or> s q = Some Dir"
  shows "path_mkdir s p = (\<lambda>q. if q \<noteq> [] \<and> prefix q p then Some Dir else s q, None)"
proof -
  have "strict_prefix [] q \<longleftrightarrow> q \<noteq> []" for q :: "string list" by (cases q) auto
  then show ?thesis using make_dirs_ok [of "[]" p s] assms
    by (simp add: path_mkdir_def os_path_plain)
qed

lemma strict_below_cases:
  assumes "prefix q (member_path destination m)" "q \<noteq> []"
  shows "prefix q destination \<or> strict_prefix destination q"
proof -
  have "prefix q destination \<or> prefix destination q"
    using assms(1) prefix_same_cases [of q "member_path destination m" destination]
    by (auto simp: member_path_def)
  then show ?thesis by (auto simp: strict_prefix_def)
qed

lemma prefix_butlast_iff: "prefix q (butlast p) \<longleftrightarrow> (if p = [] then q = [] else strict_prefix q p)"
  by (cases p rule: rev_cases) (auto simp: strict_prefix_def)

text \<open>In an archive that stands for a tree, the way to a new member is free of regular files, and a
  new regular member is not yet a directory.\<close>

lemma step_no_file:
  assumes fresh: "path_parts (ti_name (fst m)) \<notin> (\<lambda>m. path_parts (ti_name (fst m))) ` set tar"
    and shaped: "tree_shaped (tar @ [m])" and way: "prefix q (member_path destination (fst m))"
  shows "unpacked destination tar q \<noteq> Some (Reg c k)"
proof
  assume "unpacked destination tar q = Some (Reg c k)"
  then obtain m' where m': "m' \<in> set tar" "isfile (fst m')" "member_path destination (fst m') = q"
    using unpacked_file by blast
  have "path_parts (ti_name (fst m)) \<noteq> path_parts (ti_name (fst m'))" using fresh m'(1) by auto
  then have "strict_prefix (path_parts (ti_name (fst m'))) (path_parts (ti_name (fst m)))"
    using way m'(3) by (auto simp: member_path_def strict_prefix_def)
  then show False using shaped m' by (auto simp: tree_shaped_def)
qed

lemma step_no_dir:
  assumes fresh: "path_parts (ti_name (fst m)) \<notin> (\<lambda>m. path_parts (ti_name (fst m))) ` set tar"
    and shaped: "tree_shaped (tar @ [m])" and m: "isfile (fst m)"
  shows "unpacked destination tar (member_path destination (fst m)) \<noteq> Some Dir"
proof
  assume "unpacked destination tar (member_path destination (fst m)) = Some Dir"
  then obtain m' where m': "m' \<in> set tar" "prefix (member_path destination (fst m)) (member_path destination (fst m'))"
    using unpacked_dir by blast
  have "path_parts (ti_name (fst m)) \<noteq> path_parts (ti_name (fst m'))" using fresh m'(1) by auto
  then have "strict_prefix (path_parts (ti_name (fst m))) (path_parts (ti_name (fst m')))"
    using m'(2) by (auto simp: member_path_def strict_prefix_def)
  then show False using shaped m'(1) m by (auto simp: tree_shaped_def)
qed

text \<open>One step of the extraction adds exactly its member to the tree.\<close>

lemma extract_member_tree:
  assumes tree: "holds_tree destination tar s"
    and safe: "safe_member allowed max_bytes (fst m)" and dots: "''..'' \<notin> set destination"
    and fresh: "path_parts (ti_name (fst m)) \<notin> (\<lambda>m. path_parts (ti_name (fst m))) ` set tar"
    and shaped: "tree_shaped (tar @ [m])" and stream: "isfile (fst m) \<longrightarrow> stream_ok (snd m)"
  shows "\<exists>s'. extract_member new_mode destination s m (clean_info (clean_name (fst m)) (fst m)) = (s', None)
    \<and> holds_tree destination (tar @ [m]) s'"
proof -
  let ?p = "member_path destination (fst m)"
  have name: "safe_name (ti_name (fst m))" using safe by (simp add: safe_member_def)
  have plain: "''..'' \<notin> set ?p" by (rule member_path_plain [OF name dots])
  note no_file = step_no_file [OF fresh shaped]
  have way: "s q = None \<or> s q = Some Dir" if "q \<noteq> []" "prefix q ?p" for q
    using strict_below_cases [OF that(2,1)] tree no_file [OF that(2)] that
    by (cases "s q"; cases "the (s q)") (auto simp: holds_tree_def)
  have no_dir: "s ?p \<noteq> Some Dir" if "isfile (fst m)"
    using step_no_dir [OF fresh shaped that, of destination] tree member_path_below [OF name]
    by (simp add: holds_tree_def)
  note snoc = unpacked_snoc [of destination m tar, OF no_file]
  note below = member_path_below [OF name, of destination]
  show ?thesis
  proof (cases "isfile (fst m)")
    case False
    have "path_mkdir s ?p = (\<lambda>q. if q \<noteq> [] \<and> prefix q ?p then Some Dir else s q, None)"
      using path_mkdir_ok [OF plain way] .
    moreover have "holds_tree destination (tar @ [m]) (\<lambda>q. if q \<noteq> [] \<and> prefix q ?p then Some Dir else s q)"
      using tree below False by (auto simp: holds_tree_def snoc)
    ultimately show ?thesis using False by (simp add: extract_member_safe [OF safe dots])
  next
    case True
    let ?s1 = "\<lambda>q. if q \<noteq> [] \<and> strict_prefix q ?p then Some Dir else s q"
    let ?s2 = "?s1(?p \<mapsto> Reg (stream_data (snd m)) (file_mode (fst m)))"
    have parent: "prefix q (butlast ?p) \<longleftrightarrow> strict_prefix q ?p" for q
      using below by (auto simp: prefix_butlast_iff)
    have "path_mkdir s (butlast ?p) = (?s1, None)"
      using path_mkdir_ok [of "butlast ?p" s] way in_set_member_butlast [OF plain]
      by (simp add: parent strict_prefix_def)
    moreover have "write_target new_mode ?s1 ?p (snd m) (ti_mode (fst m) AND 0x1FF) = (?s2, None)"
      using no_dir [OF True] stream True
      by (simp add: write_target_def copy_chunks_result file_mode_def Let_def)
    moreover have "holds_tree destination (tar @ [m]) ?s2"
      using tree below True by (auto simp: holds_tree_def snoc strict_prefix_def)
    ultimately show ?thesis using True by (simp add: extract_member_safe [OF safe dots])
  qed
qed

lemma tree_shaped_mono: "tree_shaped tar \<Longrightarrow> set tar' \<subseteq> set tar \<Longrightarrow> tree_shaped tar'"
  unfolding tree_shaped_def by (meson subsetD)

lemma extract_loop_tree:
  assumes "holds_tree destination done s" "''..'' \<notin> set destination"
    and "\<forall>m \<in> set tar. safe_member allowed max_bytes (fst m) \<and> (isfile (fst m) \<longrightarrow> stream_ok (snd m))"
    and "distinct (map (\<lambda>m. path_parts (ti_name (fst m))) (done @ tar))" "tree_shaped (done @ tar)"
  shows "\<exists>s'. extract_loop new_mode destination s (cleaned tar) acc
        = (s', Inr (acc @ map (member_path destination \<circ> fst) tar))
      \<and> holds_tree destination (done @ tar) s'"
  using assms(1,3-5)
proof (induction tar arbitrary: s acc "done")
  case (Cons m tar)
  have safe: "safe_member allowed max_bytes (fst m)" using Cons.prems(2) by simp
  have shaped: "tree_shaped (done @ [m])" by (rule tree_shaped_mono [OF Cons.prems(4)]) auto
  have fresh: "path_parts (ti_name (fst m)) \<notin> (\<lambda>m. path_parts (ti_name (fst m))) ` set done"
    using Cons.prems(3) by auto
  have stream: "isfile (fst m) \<longrightarrow> stream_ok (snd m)" using Cons.prems(2) by simp
  obtain s1 where s1: "extract_member new_mode destination s m (clean_info (clean_name (fst m)) (fst m)) = (s1, None)"
    "holds_tree destination (done @ [m]) s1"
    using extract_member_tree [OF Cons.prems(1) safe assms(2) fresh shaped stream] by blast
  have "join_path destination (clean_name (fst m)) = member_path destination (fst m)"
    using safe clean_target by (simp add: safe_member_def)
  then show ?case
    using Cons.IH [OF s1(2), of "acc @ [member_path destination (fst m)]"] Cons.prems(2-4) s1(1) by simp
qed simp

text \<open>The extraction of a safe archive whose members have different paths, read without error and
  stand for a tree, into a destination that is new or empty, returns the path of every member in
  order and leaves below the destination exactly that tree: every regular member is a file with
  the bytes its stream gave and its permission bits (0600 when it has none), every directory member
  and every ancestor of a member is a directory, and there is nothing else.\<close>

theorem extract_writes_archive:
  assumes "''..'' \<notin> set destination"
    and "\<forall>m \<in> set tar. safe_member allowed max_bytes (fst m) \<and> (isfile (fst m) \<longrightarrow> stream_ok (snd m))"
    and "distinct (map (\<lambda>m. path_parts (ti_name (fst m))) tar)" "tree_shaped tar"
    and "\<forall>q. prefix q destination \<and> q \<noteq> [] \<longrightarrow> s q = None \<or> s q = Some Dir"
    and "\<forall>q. strict_prefix destination q \<longrightarrow> s q = None"
  shows "\<exists>s'. extract_tar_safely new_mode allowed max_bytes destination s tar
        = (s', Inr (map (member_path destination \<circ> fst) tar))
      \<and> (\<forall>q. strict_prefix destination q \<longrightarrow> s' q = unpacked destination tar q)"
proof -
  let ?s1 = "\<lambda>q. if q \<noteq> [] \<and> prefix q destination then Some Dir else s q"
  have mk: "path_mkdir s destination = (?s1, None)"
    using path_mkdir_ok [OF assms(1), of s] assms(5) by blast
  have "holds_tree destination [] ?s1"
    using assms(6) by (auto simp: holds_tree_def unpacked_def strict_prefix_def dest: prefix_order.antisym)
  from extract_loop_tree [OF this assms(1) assms(2), of new_mode "[]"] assms(3,4)
  obtain s' where s': "extract_loop new_mode destination ?s1 (cleaned tar) []
      = (s', Inr (map (member_path destination \<circ> fst) tar))" "holds_tree destination tar s'" by auto
  have "inspect_tar_members allowed max_bytes (map fst tar) = Inr (map (\<lambda>m. clean_info (clean_name m) m) (map fst tar))"
    using assms(2,3) by (auto simp: inspect_Inr comp_def)
  then show ?thesis using mk s' by (simp add: extract_tar_safely_def holds_tree_def)
qed

section \<open>A sample archive\<close>

definition tar_entry :: "string \<Rightarrow> char \<Rightarrow> int \<Rightarrow> int \<Rightarrow> tar_info" where
  "tar_entry name type bytes mode =
     \<lparr>ti_name = name, ti_size = bytes, ti_mtime = 0, ti_mode = mode, ti_type = type,
      ti_uid = 1000, ti_gid = 1000, ti_uname = ''u'', ti_gname = ''g''\<rparr>"

definition sample_tar :: archive where
  "sample_tar =
     [(tar_entry ''./manifest.json'' CHR ''0'' 3 0, [Some [123, 10], Some [125], Some []]),
      (tar_entry ''attachments/'' CHR ''5'' 0 0x1ED, []),
      (tar_entry ''attachments/a.txt'' CHR ''0'' 1 0x1A4, [Some [65]])]"

definition sample_dest :: "string list" where
  "sample_dest = [''tmp'', ''stage'']"

definition sample_fs :: fs where
  "sample_fs q = (if q = [''tmp''] then Some Dir else None)"

lemma sample_tar_safe:
  "\<forall>m \<in> set sample_tar. safe_member DEFAULT_ALLOWED_TOP_LEVEL DEFAULT_MAX_MEMBER_BYTES (fst m)
     \<and> (isfile (fst m) \<longrightarrow> stream_ok (snd m))"
  by code_simp

lemma sample_tar_distinct: "distinct (map (\<lambda>m. path_parts (ti_name (fst m))) sample_tar)"
  by code_simp

lemma sample_tar_shaped: "tree_shaped sample_tar"
  by code_simp

lemma extract_writes_archive_witness:
  "\<exists>s'. extract_tar_safely 0x1B4 DEFAULT_ALLOWED_TOP_LEVEL DEFAULT_MAX_MEMBER_BYTES sample_dest sample_fs sample_tar
      = (s', Inr (map (member_path sample_dest \<circ> fst) sample_tar))
     \<and> s' [''tmp'', ''stage'', ''manifest.json''] = Some (Reg [123, 10, 125] 0x180)
     \<and> s' [''tmp'', ''stage'', ''attachments'', ''a.txt''] = Some (Reg [65] 0x1A4)"
proof -
  have "\<forall>q. prefix q sample_dest \<and> q \<noteq> [] \<longrightarrow> sample_fs q = None \<or> sample_fs q = Some Dir"
    and "\<forall>q. strict_prefix sample_dest q \<longrightarrow> sample_fs q = None"
    by (auto simp: sample_dest_def sample_fs_def)
  moreover have "''..'' \<notin> set sample_dest" by code_simp
  ultimately obtain s' where
    "extract_tar_safely 0x1B4 DEFAULT_ALLOWED_TOP_LEVEL DEFAULT_MAX_MEMBER_BYTES sample_dest sample_fs sample_tar
      = (s', Inr (map (member_path sample_dest \<circ> fst) sample_tar))"
    "\<forall>q. strict_prefix sample_dest q \<longrightarrow> s' q = unpacked sample_dest sample_tar q"
    using extract_writes_archive [OF _ sample_tar_safe sample_tar_distinct sample_tar_shaped] by blast
  moreover have "unpacked sample_dest sample_tar [''tmp'', ''stage'', ''manifest.json''] = Some (Reg [123, 10, 125] 0x180)"
    by code_simp
  moreover have "unpacked sample_dest sample_tar [''tmp'', ''stage'', ''attachments'', ''a.txt''] = Some (Reg [65] 0x1A4)"
    by code_simp
  ultimately show ?thesis by (auto simp: sample_dest_def)
qed

lemma extract_confined_witness:
  "confined DEFAULT_ALLOWED_TOP_LEVEL sample_dest
     ((tar_entry ''config/../../x'' CHR ''0'' 0 0, []) # sample_tar) sample_fs
     (fst (extract_tar_safely 0x1B4 DEFAULT_ALLOWED_TOP_LEVEL DEFAULT_MAX_MEMBER_BYTES sample_dest sample_fs
        ((tar_entry ''config/../../x'' CHR ''0'' 0 0, []) # sample_tar)))"
  by (rule extract_confined [THEN conjunct1, OF _ surjective_pairing]) code_simp

end
