(* ===== verification/Ring_Buffer.thy ===== *)
theory Ring_Buffer
  imports Bytes
begin

text \<open>
  The bounded in-memory buffer that \<open>log_ring.py\<close> (\<open>LogRing\<close>) and \<open>egress_ledger.py\<close>
  (\<open>EgressLedger\<close>) keep: numbered records with their serialised size, evicted from the front while
  there are too many or they are too large. What a record is, how it is numbered and how large
  it is are arguments. The locale \<open>numbered_records\<close> states what the buffer relies on; both
  components interpret it. In it, the buffer is shown to hold the longest end of the whole log that
  fits its bounds.
\<close>

section \<open>JSON text\<close>

text \<open>\<open>json.dumps\<close> of the values the records hold, with ASCII escapes. A float is given by its
  \<open>repr\<close>.\<close>

definition json_char :: "char \<Rightarrow> string" where
  "json_char c = (let n = of_char c :: nat in
     if n = 34 \<or> n = 92 then [CHR 0x5C, c]
     else if n = 8 then [CHR 0x5C, CHR ''b'']
     else if n = 9 then [CHR 0x5C, CHR ''t'']
     else if n = 10 then [CHR 0x5C, CHR ''n'']
     else if n = 12 then [CHR 0x5C, CHR ''f'']
     else if n = 13 then [CHR 0x5C, CHR ''r'']
     else if n < 32 \<or> 126 < n
       then [CHR 0x5C, CHR ''u'', CHR ''0'', CHR ''0'', hex_digit (n div 16), hex_digit (n mod 16)]
     else [c])"

definition json_string :: "string \<Rightarrow> string" where
  "json_string s = [CHR 0x22] @ concat (map json_char s) @ [CHR 0x22]"

definition json_bool :: "bool \<Rightarrow> string" where
  "json_bool b = (if b then ''true'' else ''false'')"

definition json_option :: "('a \<Rightarrow> string) \<Rightarrow> 'a option \<Rightarrow> string" where
  "json_option dump v = (case v of None \<Rightarrow> ''null'' | Some x \<Rightarrow> dump x)"

text \<open>An object from keys and serialised values, with the item and key separators.\<close>

definition json_object :: "string \<Rightarrow> string \<Rightarrow> (string \<times> string) list \<Rightarrow> string" where
  "json_object item_sep key_sep kvs =
     ''{'' @ join_with item_sep (map (\<lambda>(k, v). json_string k @ key_sep @ v) kvs) @ ''}''"

section \<open>The buffer\<close>

record 'r ring =
  rg_records :: "('r \<times> int) list"
  rg_next_id :: int
  rg_evicted_through :: int
  rg_buffer_bytes :: int
  rg_max_records :: int
  rg_max_bytes :: int
  rg_created_at :: string

definition new_ring :: "int \<Rightarrow> int \<Rightarrow> string \<Rightarrow> 'r ring" where
  "new_ring max_records max_bytes now =
     \<lparr>rg_records = [], rg_next_id = 1, rg_evicted_through = 0, rg_buffer_bytes = 0,
      rg_max_records = max_records, rg_max_bytes = max_bytes, rg_created_at = now\<rparr>"

fun evict_loop :: "('r \<Rightarrow> int) \<Rightarrow> int \<Rightarrow> int \<Rightarrow> ('r \<times> int) list \<Rightarrow> int \<Rightarrow> int
    \<Rightarrow> ('r \<times> int) list \<times> int \<times> int" where
  "evict_loop rid max_records max_bytes (r # r' # rest) buffer_bytes evicted_through =
     (if int (length (r # r' # rest)) > max_records \<or> buffer_bytes > max_bytes
      then evict_loop rid max_records max_bytes (r' # rest) (buffer_bytes - snd r) (rid (fst r))
      else (r # r' # rest, buffer_bytes, evicted_through))"
| "evict_loop rid max_records max_bytes rs buffer_bytes evicted_through =
     (rs, buffer_bytes, evicted_through)"

text \<open>The critical section of \<open>append\<close> and \<open>record\<close>: number the record, measure it, store it,
  evict.\<close>

definition ring_push :: "('r \<Rightarrow> int) \<Rightarrow> (int \<Rightarrow> 'r \<Rightarrow> 'r) \<Rightarrow> ('r \<Rightarrow> int) \<Rightarrow> 'r \<Rightarrow> 'r ring \<Rightarrow> int \<times> 'r ring" where
  "ring_push rid with_id rsize r ring =
     (let numbered = with_id (rg_next_id ring) r;
          bytes = rsize numbered;
          (records, total, evicted) =
            evict_loop rid (rg_max_records ring) (rg_max_bytes ring) (rg_records ring @ [(numbered, bytes)])
              (rg_buffer_bytes ring + bytes) (rg_evicted_through ring)
      in (rid numbered,
          ring\<lparr>rg_records := records, rg_next_id := rg_next_id ring + 1,
               rg_evicted_through := evicted, rg_buffer_bytes := total\<rparr>))"

text \<open>The selection loop of both \<open>snapshot\<close> methods: it tests the limit after it has appended.\<close>

fun select_loop :: "('r \<Rightarrow> int) \<Rightarrow> int \<Rightarrow> int \<Rightarrow> ('r \<times> int) list \<Rightarrow> 'r list \<Rightarrow> 'r list" where
  "select_loop rid after_id limit [] acc = acc"
| "select_loop rid after_id limit ((r, _) # rest) acc =
     (if rid r \<le> after_id then select_loop rid after_id limit rest acc
      else if int (length (acc @ [r])) \<ge> limit then acc @ [r]
      else select_loop rid after_id limit rest (acc @ [r]))"

definition clamp_after :: "int \<Rightarrow> int" where
  "clamp_after after_id = max 0 after_id"

definition clamp_limit :: "int \<Rightarrow> int" where
  "clamp_limit limit = max 0 (min limit 2000)"

section \<open>The whole log\<close>

text \<open>The reference: every record ever pushed, numbered from one, and its longest end that fits (or
  the last record alone).\<close>

definition numbered_log :: "(int \<Rightarrow> 'r \<Rightarrow> 'r) \<Rightarrow> 'r list \<Rightarrow> 'r list" where
  "numbered_log with_id rs = map (\<lambda>(i, r). with_id (int i) r) (enumerate 1 rs)"

definition ring_fits :: "('r \<Rightarrow> int) \<Rightarrow> int \<Rightarrow> int \<Rightarrow> 'r list \<Rightarrow> bool" where
  "ring_fits rsize max_records max_bytes rs \<longleftrightarrow>
     int (length rs) \<le> max_records \<and> sum_list (map rsize rs) \<le> max_bytes"

fun fitting_end :: "('r \<Rightarrow> int) \<Rightarrow> int \<Rightarrow> int \<Rightarrow> 'r list \<Rightarrow> 'r list" where
  "fitting_end rsize max_records max_bytes (r # r' # rest) =
     (if ring_fits rsize max_records max_bytes (r # r' # rest) then r # r' # rest
      else fitting_end rsize max_records max_bytes (r' # rest))"
| "fitting_end rsize max_records max_bytes rs = rs"

lemma numbered_log_snoc: "numbered_log with_id (rs @ [r]) = numbered_log with_id rs @ [with_id (int (length rs) + 1) r]"
  by (simp add: numbered_log_def enumerate_append_eq add.commute)

lemma length_numbered_log [simp]: "length (numbered_log with_id rs) = length rs"
  by (simp add: numbered_log_def)

lemma fitting_end_suffix: "\<exists>n. fitting_end rsize mr mb rs = drop n rs"
proof (induction rsize mr mb rs rule: fitting_end.induct)
  case (1 rsize mr mb r r' rest)
  show ?case
  proof (cases "ring_fits rsize mr mb (r # r' # rest)")
    case True
    then show ?thesis by (intro exI [of _ 0]) simp
  next
    case False
    then obtain n where "fitting_end rsize mr mb (r # r' # rest) = drop n (r' # rest)" using 1 by auto
    then show ?thesis by (intro exI [of _ "Suc n"]) simp
  qed
qed (auto intro: exI [of _ 0])

lemma fitting_end_length: "length (fitting_end rsize mr mb rs) \<le> length rs"
  using fitting_end_suffix [of rsize mr mb rs] by auto

lemma fitting_end_drop: "fitting_end rsize mr mb rs = drop (length rs - length (fitting_end rsize mr mb rs)) rs"
proof -
  obtain n where n: "fitting_end rsize mr mb rs = drop n rs" using fitting_end_suffix by blast
  show ?thesis unfolding n by (cases "n \<le> length rs") auto
qed

lemma fitting_end_fits:
  "ring_fits rsize mr mb (fitting_end rsize mr mb rs) \<or> length (fitting_end rsize mr mb rs) \<le> 1"
  by (induction rsize mr mb rs rule: fitting_end.induct) auto

lemma fitting_end_last: "rs \<noteq> [] \<Longrightarrow> fitting_end rsize mr mb rs \<noteq> []"
  by (induction rsize mr mb rs rule: fitting_end.induct) auto

text \<open>It is the longest end that fits: one record more does not fit.\<close>

lemma fitting_end_longest:
  assumes "n < length rs - length (fitting_end rsize mr mb rs)"
  shows "\<not> ring_fits rsize mr mb (drop n rs)"
  using assms
proof (induction rsize mr mb rs arbitrary: n rule: fitting_end.induct)
  case (1 rsize mr mb r r' rest)
  then show ?case by (cases n) (auto split: if_splits)
qed auto

text \<open>The end of a log that a buffer should keep.\<close>

definition is_fitting_end :: "('r \<Rightarrow> int) \<Rightarrow> int \<Rightarrow> int \<Rightarrow> 'r list \<Rightarrow> 'r list \<Rightarrow> bool" where
  "is_fitting_end rsize max_records max_bytes log kept \<longleftrightarrow>
     kept = drop (length log - length kept) log
     \<and> (ring_fits rsize max_records max_bytes kept \<or> length kept \<le> 1)
     \<and> (\<forall>n < length log - length kept. \<not> ring_fits rsize max_records max_bytes (drop n log))
     \<and> (kept = [] \<longleftrightarrow> log = [])"

lemma fitting_end_is_end: "is_fitting_end rsize mr mb log (fitting_end rsize mr mb log)"
  unfolding is_fitting_end_def
proof (intro conjI)
  show "fitting_end rsize mr mb log = [] \<longleftrightarrow> log = []"
    using fitting_end_last [of log rsize mr mb] by (cases "log = []") simp_all
qed (use fitting_end_drop fitting_end_fits fitting_end_longest in blast)+

lemma select_loop_take:
  assumes "int (length acc) < max 1 limit"
  shows "select_loop rid after_id limit (map (\<lambda>r. (r, f r)) rs) acc
    = acc @ take (nat (max 1 limit) - length acc) (filter (\<lambda>r. after_id < rid r) rs)"
  using assms
proof (induction rs arbitrary: acc)
  case (Cons r rs)
  show ?case
  proof (cases "after_id < rid r")
    case True
    show ?thesis
    proof (cases "int (length (acc @ [r])) \<ge> limit")
      case full: True
      then have "nat (max 1 limit) - length acc = 1" using Cons.prems by auto
      then show ?thesis using full True by simp
    next
      case False
      then have "nat (max 1 limit) - length acc = Suc (nat (max 1 limit) - length (acc @ [r]))"
        using Cons.prems by auto
      then show ?thesis using False True Cons.IH [of "acc @ [r]"] by simp
    qed
  qed (use Cons in simp)
qed simp

definition push_all :: "('r \<Rightarrow> int) \<Rightarrow> (int \<Rightarrow> 'r \<Rightarrow> 'r) \<Rightarrow> ('r \<Rightarrow> int) \<Rightarrow> 'r list \<Rightarrow> 'r ring \<Rightarrow> 'r ring" where
  "push_all rid with_id rsize rs ring = fold (\<lambda>r ring. snd (ring_push rid with_id rsize r ring)) rs ring"

text \<open>A buffer holds a log: its records are the fitting end, and its counters are those of the
  log.\<close>

definition ring_holds :: "('r \<Rightarrow> int) \<Rightarrow> 'r list \<Rightarrow> 'r ring \<Rightarrow> bool" where
  "ring_holds rsize log ring \<longleftrightarrow>
     (let kept = fitting_end rsize (rg_max_records ring) (rg_max_bytes ring) log in
        rg_records ring = map (\<lambda>r. (r, rsize r)) kept \<and> rg_next_id ring = int (length log) + 1
        \<and> rg_evicted_through ring = int (length log) - int (length kept)
        \<and> rg_buffer_bytes ring = sum_list (map rsize kept))"

lemma fitting_end_subset: "set (fitting_end rsize mr mb rs) \<subseteq> set rs"
  by (subst fitting_end_drop) (rule set_drop_subset)

lemma ring_holds_member:
  "ring_holds rsize log ring \<Longrightarrow> (r, n) \<in> set (rg_records ring) \<Longrightarrow> r \<in> set log \<and> n = rsize r"
  using fitting_end_subset [of rsize "rg_max_records ring" "rg_max_bytes ring" log]
  by (auto simp: ring_holds_def Let_def)

lemma ring_holds_new: "ring_holds rsize [] (new_ring mr mb now)"
  by (simp add: ring_holds_def new_ring_def)

locale numbered_records =
  fixes rid :: "'r \<Rightarrow> int" and with_id :: "int \<Rightarrow> 'r \<Rightarrow> 'r" and rsize :: "'r \<Rightarrow> int"
  assumes rid_with_id: "rid (with_id i r) = i"
    and rsize_nonneg: "0 \<le> rsize r"
begin

lemma log_ids: "i < length rs \<Longrightarrow> rid (numbered_log with_id rs ! i) = int i + 1"
  by (simp add: numbered_log_def nth_enumerate_eq rid_with_id)

lemma fits_front: "ring_fits rsize mr mb (rs @ [r]) \<Longrightarrow> ring_fits rsize mr mb rs"
  using rsize_nonneg [of r] by (simp add: ring_fits_def)

lemma fitting_end_snoc:
  "fitting_end rsize mr mb (fitting_end rsize mr mb rs @ [r]) = fitting_end rsize mr mb (rs @ [r])"
proof (induction rs rule: induct_list012)
  case (3 x y rs)
  show ?case
  proof (cases "ring_fits rsize mr mb (x # y # rs)")
    case False
    then have "\<not> ring_fits rsize mr mb (x # y # rs @ [r])" using fits_front [of mr mb "x # y # rs" r] by auto
    then show ?thesis using False 3(2) by simp
  qed simp
qed simp_all

lemma evict_loop_end:
  assumes "bytes = sum_list (map rsize rs)"
  shows "evict_loop rid mr mb (map (\<lambda>r. (r, rsize r)) rs) bytes evicted =
    (map (\<lambda>r. (r, rsize r)) (fitting_end rsize mr mb rs), sum_list (map rsize (fitting_end rsize mr mb rs)),
     let n = length rs - length (fitting_end rsize mr mb rs) in if n = 0 then evicted else rid (rs ! (n - 1)))"
  using assms
proof (induction rs arbitrary: bytes evicted rule: induct_list012)
  case (3 x y rs)
  let ?fit = "fitting_end rsize mr mb (y # rs)"
  have "length ?fit \<le> Suc (length rs)" using fitting_end_length [of rsize mr mb "y # rs"] by simp
  then have count: "Suc (Suc (length rs)) - length ?fit = Suc (Suc (length rs) - length ?fit)" by simp
  show ?case
  proof (cases "ring_fits rsize mr mb (x # y # rs)")
    case True
    then show ?thesis using 3(3) by (simp add: ring_fits_def)
  next
    case False
    then have over: "int (length (x # y # rs)) > mr \<or> bytes > mb"
      using 3(3) by (auto simp: ring_fits_def)
    have "evict_loop rid mr mb (map (\<lambda>r. (r, rsize r)) (x # y # rs)) bytes evicted
        = evict_loop rid mr mb (map (\<lambda>r. (r, rsize r)) (y # rs)) (bytes - rsize x) (rid x)"
      using over by simp
    also have "\<dots> = (map (\<lambda>r. (r, rsize r)) ?fit, sum_list (map rsize ?fit),
        let n = length (y # rs) - length ?fit in if n = 0 then rid x else rid ((y # rs) ! (n - 1)))"
      by (rule 3(2)) (simp add: 3(3))
    finally show ?thesis using False count by (simp add: Let_def nth_Cons' del: evict_loop.simps)
  qed
qed simp_all

lemma push_holds:
  assumes holds: "ring_holds rsize (numbered_log with_id rs) ring"
  shows "fst (ring_push rid with_id rsize r ring) = int (length rs) + 1
    \<and> ring_holds rsize (numbered_log with_id (rs @ [r])) (snd (ring_push rid with_id rsize r ring))"
proof -
  let ?log = "numbered_log with_id rs" and ?r = "with_id (int (length rs) + 1) r"
  let ?mr = "rg_max_records ring" and ?mb = "rg_max_bytes ring"
  let ?kept = "fitting_end rsize ?mr ?mb ?log" and ?kept' = "fitting_end rsize ?mr ?mb (?log @ [?r])"
  have parts: "rg_records ring = map (\<lambda>r. (r, rsize r)) ?kept" "rg_next_id ring = int (length rs) + 1"
    "rg_evicted_through ring = int (length rs) - int (length ?kept)"
    "rg_buffer_bytes ring = sum_list (map rsize ?kept)"
    using holds by (simp_all add: ring_holds_def Let_def)
  have le: "length ?kept \<le> length rs" using fitting_end_length [of rsize ?mr ?mb ?log] by simp
  have le': "length ?kept' \<le> length ?kept + 1"
    using fitting_end_length [of rsize ?mr ?mb "?kept @ [?r]"] by (simp add: fitting_end_snoc)
  let ?n = "Suc (length ?kept) - length ?kept'"
  have tail: "?kept @ [?r] = drop (length rs - length ?kept) (?log @ [?r])"
    using fitting_end_drop [of rsize ?mr ?mb ?log] le by simp
  have "(?kept @ [?r]) ! (?n - 1) = (?log @ [?r]) ! (length rs - length ?kept + (?n - 1))"
    by (subst tail, rule nth_drop) simp
  then have evicted: "rid ((?kept @ [?r]) ! (?n - 1)) = int (length rs) - int (length ?kept) + int ?n" if "?n \<noteq> 0"
    using that log_ids [of "length rs - length ?kept + (?n - 1)" "rs @ [r]"] le le'
    by (simp add: numbered_log_snoc)
  have "evict_loop rid ?mr ?mb (rg_records ring @ [(?r, rsize ?r)]) (rg_buffer_bytes ring + rsize ?r)
      (rg_evicted_through ring) =
    (map (\<lambda>r. (r, rsize r)) ?kept', sum_list (map rsize ?kept'), int (length rs) - int (length ?kept) + int ?n)"
    using evict_loop_end [of "sum_list (map rsize (?kept @ [?r]))" "?kept @ [?r]" ?mr ?mb "rg_evicted_through ring"]
      evicted parts by (simp add: fitting_end_snoc Let_def)
  then show ?thesis using parts le le'
    by (simp add: ring_push_def ring_holds_def rid_with_id numbered_log_snoc Let_def)
qed

end

lemma ring_push_bounds:
  "rg_max_records (snd (ring_push rid with_id rsize r ring)) = rg_max_records ring"
  "rg_max_bytes (snd (ring_push rid with_id rsize r ring)) = rg_max_bytes ring"
  "rg_created_at (snd (ring_push rid with_id rsize r ring)) = rg_created_at ring"
  by (simp_all add: ring_push_def Let_def split: prod.splits)

lemma set_drop_nth: "x \<in> set (drop n xs) \<longleftrightarrow> (\<exists>j < length xs. n \<le> j \<and> xs ! j = x)"
proof
  assume "x \<in> set (drop n xs)"
  then obtain k where "k < length xs - n" "drop n xs ! k = x" by (auto simp: in_set_conv_nth)
  then show "\<exists>j < length xs. n \<le> j \<and> xs ! j = x" by (intro exI [of _ "n + k"]) simp
next
  assume "\<exists>j < length xs. n \<le> j \<and> xs ! j = x"
  then obtain j where "j < length xs" "n \<le> j" "xs ! j = x" by blast
  then have "drop n xs ! (j - n) = x" "j - n < length (drop n xs)" by simp_all
  then show "x \<in> set (drop n xs)" by (metis nth_mem)
qed

lemma push_all_snoc:
  "push_all rid with_id rsize (rs @ [r]) ring = snd (ring_push rid with_id rsize r (push_all rid with_id rsize rs ring))"
  by (simp add: push_all_def)

lemma push_all_bounds:
  "rg_max_records (push_all rid with_id rsize rs ring) = rg_max_records ring
   \<and> rg_max_bytes (push_all rid with_id rsize rs ring) = rg_max_bytes ring
   \<and> rg_created_at (push_all rid with_id rsize rs ring) = rg_created_at ring"
  by (induction rs rule: rev_induct) (simp_all add: push_all_snoc ring_push_bounds, simp add: push_all_def)

context numbered_records
begin

lemma push_all_holds:
  "ring_holds rsize (numbered_log with_id rs) (push_all rid with_id rsize rs (new_ring mr mb now))"
proof (induction rs rule: rev_induct)
  case Nil
  then show ?case by (simp add: push_all_def numbered_log_def ring_holds_new)
next
  case (snoc r rs)
  then show ?case using push_holds by (simp add: push_all_snoc)
qed

lemma log_ids_apart:
  "i < length rs \<Longrightarrow> j < length rs \<Longrightarrow> numbered_log with_id rs ! i = numbered_log with_id rs ! j \<longleftrightarrow> i = j"
  by (metis add_right_cancel log_ids of_nat_eq_iff)

text \<open>The gap flag of a snapshot: a record that the reader has not seen is no longer there.\<close>

lemma gap_iff_lost:
  assumes holds: "ring_holds rsize (numbered_log with_id rs) ring" and after: "0 \<le> after_id"
  shows "after_id < rg_evicted_through ring \<longleftrightarrow>
    (\<exists>r \<in> set (numbered_log with_id rs). after_id < rid r \<and> r \<notin> fst ` set (rg_records ring))"
proof -
  let ?log = "numbered_log with_id rs"
  let ?kept = "fitting_end rsize (rg_max_records ring) (rg_max_bytes ring) ?log"
  let ?n = "length rs - length ?kept"
  have le: "length ?kept \<le> length rs" using fitting_end_length [of rsize _ _ ?log] by simp
  have kept: "fst ` set (rg_records ring) = set (drop ?n ?log)" and n: "rg_evicted_through ring = int ?n"
    using holds le fitting_end_drop [of rsize _ _ ?log] by (simp_all add: ring_holds_def Let_def image_image)
  have lost: "?log ! i \<notin> set (drop ?n ?log) \<longleftrightarrow> i < ?n" if "i < length rs" for i
    using that log_ids_apart [OF _ that] by (auto simp: set_drop_nth not_le)
  show ?thesis
  proof
    assume "after_id < rg_evicted_through ring"
    then have "?n - 1 < length rs" "after_id < rid (?log ! (?n - 1))" "?log ! (?n - 1) \<notin> set (drop ?n ?log)"
      using n after log_ids [of "?n - 1" rs] lost [of "?n - 1"] by auto
    then show "\<exists>r \<in> set ?log. after_id < rid r \<and> r \<notin> fst ` set (rg_records ring)"
      unfolding kept by (metis length_numbered_log nth_mem)
  next
    assume "\<exists>r \<in> set ?log. after_id < rid r \<and> r \<notin> fst ` set (rg_records ring)"
    then obtain i where "i < length rs" "after_id < rid (?log ! i)" "?log ! i \<notin> set (drop ?n ?log)"
      unfolding kept by (auto simp: in_set_conv_nth)
    then show "after_id < rg_evicted_through ring" using lost n log_ids by auto
  qed
qed

lemma filter_after:
  "0 \<le> a \<Longrightarrow> filter (\<lambda>r. a < rid r) (drop n (numbered_log with_id rs)) = drop (max (nat a) n) (numbered_log with_id rs)"
  by (induction rs rule: rev_induct)
    (auto simp: numbered_log_snoc rid_with_id numbered_log_def [of _ "[]"] max_def nat_le_iff drop_Cons')

lemma kept_after:
  assumes "0 \<le> a"
  shows "filter (\<lambda>r. a < rid r) (fitting_end rsize mr mb (numbered_log with_id rs)) =
    drop (max (nat a) (length rs - length (fitting_end rsize mr mb (numbered_log with_id rs)))) (numbered_log with_id rs)"
  using filter_after [OF assms, of "length rs - length (fitting_end rsize mr mb (numbered_log with_id rs))" rs]
    fitting_end_drop [of rsize mr mb "numbered_log with_id rs"] by simp

text \<open>What both snapshots read off the buffer, in terms of the whole log.\<close>

lemma ring_reads_log:
  "let log = numbered_log with_id rs; kept = fitting_end rsize mr mb log; a = clamp_after after_id;
       ring = push_all rid with_id rsize rs (new_ring mr mb now)
   in select_loop rid a (clamp_limit limit) (map (\<lambda>r. (r, rsize r)) kept) []
        = take (nat (max 1 (clamp_limit limit))) (drop (max (nat a) (length log - length kept)) log)
    \<and> rg_records ring = map (\<lambda>r. (r, rsize r)) kept
    \<and> rg_next_id ring = int (length log) + 1
    \<and> (a < rg_evicted_through ring \<longleftrightarrow> (\<exists>r \<in> set log. a < rid r \<and> r \<notin> set kept))
    \<and> rg_created_at ring = now \<and> rg_max_bytes ring = mb
    \<and> rg_buffer_bytes ring = sum_list (map rsize kept)"
proof -
  let ?ring = "push_all rid with_id rsize rs (new_ring mr mb now)"
  let ?log = "numbered_log with_id rs" and ?a = "clamp_after after_id"
  let ?kept = "fitting_end rsize mr mb ?log"
  have bounds: "rg_max_records ?ring = mr" "rg_max_bytes ?ring = mb" "rg_created_at ?ring = now"
    using push_all_bounds [of rid with_id rsize rs "new_ring mr mb now"] by (simp_all add: new_ring_def)
  have a: "0 \<le> ?a" by (simp add: clamp_after_def)
  note holds = push_all_holds [of rs mr mb now]
  have parts: "rg_records ?ring = map (\<lambda>r. (r, rsize r)) ?kept" "rg_next_id ?ring = int (length rs) + 1"
    "rg_buffer_bytes ?ring = sum_list (map rsize ?kept)"
    using holds bounds by (simp_all add: ring_holds_def Let_def)
  have gap: "?a < rg_evicted_through ?ring \<longleftrightarrow> (\<exists>r \<in> set ?log. ?a < rid r \<and> r \<notin> set ?kept)"
    using gap_iff_lost [OF holds a] by (simp add: parts(1) image_image)
  have records: "select_loop rid ?a (clamp_limit limit) (map (\<lambda>r. (r, rsize r)) ?kept) []
    = take (nat (max 1 (clamp_limit limit))) (drop (max (nat ?a) (length ?log - length ?kept)) ?log)"
    using kept_after [OF a] by (simp add: select_loop_take)
  show ?thesis using records gap parts bounds by (simp add: Let_def)
qed

end

end
