(* ===== verification/Log_Ring.thy ===== *)
theory Log_Ring
  imports Ring_Buffer "HOL-Library.Sublist"
begin

text \<open>
  The in-memory log (\<open>log_ring.py\<close>), with the test for sensitive keys of \<open>redaction.py\<close>. The
  secret floor \<open>redact_secret_text\<close> (a sequence of regular-expression substitutions), the home
  directory and the clock are arguments. A call of \<open>append\<close> is a record of its arguments, with the
  request id of the context and the time it is made at. Shown: what a snapshot reads, for every
  history of calls, and what a stored record can hold.
\<close>

section \<open>Paths\<close>

definition norm_slashes :: "string \<Rightarrow> string" where
  "norm_slashes s = map (\<lambda>c. if c = CHR 0x5C then CHR ''/'' else c) s"

definition occurs_at :: "string \<Rightarrow> string \<Rightarrow> nat \<Rightarrow> bool" where
  "occurs_at pat s i \<longleftrightarrow> take (length pat) (drop i s) = pat"

definition rfind :: "string \<Rightarrow> string \<Rightarrow> int" where
  "rfind pat s = (case rev (filter (occurs_at pat s) [0..<Suc (length s)]) of [] \<Rightarrow> -1 | i # _ \<Rightarrow> int i)"

definition rstrip_char :: "char \<Rightarrow> string \<Rightarrow> string" where
  "rstrip_char c s = rev (dropWhile (\<lambda>x. x = c) (rev s))"

definition base_name :: "string \<Rightarrow> string" where
  "base_name s = rev (takeWhile (\<lambda>x. x \<noteq> CHR ''/'') (rev s))"

definition starts_with :: "string \<Rightarrow> string \<Rightarrow> bool" where
  "starts_with s p \<longleftrightarrow> take (length p) s = p"

definition relativize_path :: "string \<Rightarrow> string \<Rightarrow> string" where
  "relativize_path user_home path =
     (if path = '''' then path
      else let norm = norm_slashes path; idx = rfind ''site-packages/'' norm
      in if idx \<noteq> -1 then drop (nat idx + length ''site-packages/'') norm
         else if starts_with norm ''kassiber/'' \<or> starts_with norm ''tests/'' then norm
         else let best = max (max (-1) (rfind ''/kassiber/'' norm)) (rfind ''/tests/'' norm)
         in if best \<noteq> -1 then drop (nat (best + 1)) norm
            else let home = rstrip_char CHR ''/'' (norm_slashes user_home)
            in if home \<noteq> '''' \<and> home \<noteq> ''~'' \<and> starts_with norm (home @ ''/'')
                 then ''~'' @ drop (length home) norm
               else if CHR ''/'' \<in> set norm then base_name norm
               else norm)"

section \<open>Fields\<close>

definition SENSITIVE_KEY_PARTS :: "string list" where
  "SENSITIVE_KEY_PARTS =
     [''api_key'', ''api-key'', ''auth_header'', ''auth-header'', ''auth_response'', ''blinding'',
      ''cookie'', ''descriptor'', ''mnemonic'', ''password'', ''passphrase'', ''private'', ''recovery'',
      ''secret'', ''seed'', ''scan_key'', ''scankey'', ''scan_private'', ''scanprivate'',
      ''silent_payment'', ''silentpayment'', ''sp_descriptor'', ''spscan'', ''spspend'', ''token'',
      ''xprv'']"

definition underscored :: "string \<Rightarrow> string" where
  "underscored s = map (\<lambda>c. if c = CHR ''-'' then CHR ''_'' else c) s"

definition contains_text :: "string \<Rightarrow> string \<Rightarrow> bool" where
  "contains_text s pat \<longleftrightarrow> list_ex (occurs_at pat s) [0..<Suc (length s)]"

definition is_sensitive_key :: "string \<Rightarrow> bool" where
  "is_sensitive_key key =
     (let lowered = underscored (py_lower key)
      in list_ex (\<lambda>part. contains_text lowered (underscored part)) SENSITIVE_KEY_PARTS)"

text \<open>A value passed to the logger: a JSON primitive, a dict with the keys \<open>type\<close> and \<open>value\<close> (its
  type as text, its value, and its own \<open>str\<close>), or any other object by its \<open>str\<close>.\<close>

datatype log_value =
    LStr string
  | LInt int
  | LFloat string
  | LBool bool
  | LNone
  | LTyped string log_value string
  | LObj string

fun py_str :: "log_value \<Rightarrow> string" where
  "py_str (LStr s) = s"
| "py_str (LInt i) = int_str i"
| "py_str (LFloat r) = r"
| "py_str (LBool b) = (if b then ''True'' else ''False'')"
| "py_str LNone = ''None''"
| "py_str (LTyped _ _ r) = r"
| "py_str (LObj r) = r"

record log_field =
  lf_type :: string
  lf_value :: log_value

fun floor_value :: "(string \<Rightarrow> string) \<Rightarrow> log_value \<Rightarrow> log_value" where
  "floor_value redact (LStr s) = LStr (redact s)"
| "floor_value redact (LTyped t v r) = LStr (redact (py_str (LTyped t v r)))"
| "floor_value redact (LObj r) = LStr (redact (py_str (LObj r)))"
| "floor_value redact v = v"

definition text_field :: "string \<Rightarrow> log_field" where
  "text_field s = \<lparr>lf_type = ''text'', lf_value = LStr s\<rparr>"

definition coerce_field :: "(string \<Rightarrow> string) \<Rightarrow> string \<Rightarrow> log_value \<Rightarrow> log_field" where
  "coerce_field redact field_name v =
     (if is_sensitive_key field_name then text_field ''[redacted]''
      else case v of
             LTyped t fval _ \<Rightarrow> \<lparr>lf_type = t, lf_value = floor_value redact fval\<rparr>
           | _ \<Rightarrow> text_field (redact (py_str v)))"

section \<open>Records\<close>

record log_record =
  lr_id :: int
  lr_ts :: string
  lr_level :: string
  lr_module :: string
  lr_file :: string
  lr_line :: int
  lr_msg :: string
  lr_fields :: "(string, log_field) dict"

fun json_value :: "log_value \<Rightarrow> string" where
  "json_value (LStr s) = json_string s"
| "json_value (LInt i) = int_str i"
| "json_value (LFloat r) = r"
| "json_value (LBool b) = json_bool b"
| "json_value LNone = ''null''"
| "json_value v = json_string (py_str v)"

definition json_field :: "log_field \<Rightarrow> string" where
  "json_field f = json_object '', '' '': ''
     [(''type'', json_string (lf_type f)), (''value'', json_value (lf_value f))]"

definition json_log_record :: "log_record \<Rightarrow> string" where
  "json_log_record r = json_object '', '' '': ''
     [(''id'', int_str (lr_id r)), (''ts'', json_string (lr_ts r)), (''level'', json_string (lr_level r)),
      (''module'', json_string (lr_module r)), (''file'', json_string (lr_file r)),
      (''line'', int_str (lr_line r)), (''msg'', json_string (lr_msg r)),
      (''fields'', json_object '', '' '': '' (map (\<lambda>(k, f). (k, json_field f)) (lr_fields r)))]"

definition log_size :: "log_record \<Rightarrow> int" where
  "log_size r = int (length (json_log_record r))"

definition with_log_id :: "int \<Rightarrow> log_record \<Rightarrow> log_record" where
  "with_log_id i r = r\<lparr>lr_id := i\<rparr>"

definition LEVELS :: "string list" where
  "LEVELS = [''trace'', ''debug'', ''info'', ''warning'', ''error'']"

record log_call =
  lc_level :: string
  lc_module :: string
  lc_file :: string
  lc_line :: "int option"
  lc_msg :: string
  lc_fields :: "(string \<times> log_value) list"
  lc_request_id :: "string option"
  lc_context_id :: "string option"
  lc_ts :: string

definition clean_fields :: "(string \<Rightarrow> string) \<Rightarrow> log_call \<Rightarrow> (string, log_field) dict" where
  "clean_fields redact call =
     (let fields = fold (\<lambda>(k, v) d. AList.update k (coerce_field redact k v) d) (lc_fields call) [];
          rid = (case lc_request_id call of Some r \<Rightarrow> Some r | None \<Rightarrow> lc_context_id call)
      in case rid of
           Some r \<Rightarrow> if r \<noteq> '''' \<and> map_of fields ''request_id'' = None
                     then AList.update ''request_id'' (text_field r) fields else fields
         | None \<Rightarrow> fields)"

definition draft_record :: "string \<Rightarrow> (string \<Rightarrow> string) \<Rightarrow> log_call \<Rightarrow> log_record" where
  "draft_record user_home redact call =
     \<lparr>lr_id = 0, lr_ts = lc_ts call,
      lr_level = (if lc_level call \<in> set LEVELS then lc_level call else ''info''),
      lr_module = lc_module call, lr_file = relativize_path user_home (lc_file call),
      lr_line = (case lc_line call of Some n \<Rightarrow> n | None \<Rightarrow> 0),
      lr_msg = redact (lc_msg call), lr_fields = clean_fields redact call\<rparr>"

section \<open>The ring\<close>

definition log_append :: "string \<Rightarrow> (string \<Rightarrow> string) \<Rightarrow> log_call \<Rightarrow> log_record ring \<Rightarrow> int \<times> log_record ring" where
  "log_append user_home redact call ring =
     ring_push lr_id with_log_id log_size (draft_record user_home redact call) ring"

record log_snapshot =
  ls_records :: "log_record list"
  ls_last_id :: int
  ls_gap :: bool
  ls_started_at :: string
  ls_buffer_bytes :: int
  ls_max_bytes :: int

definition log_ring_snapshot :: "int \<Rightarrow> int \<Rightarrow> log_record ring \<Rightarrow> log_snapshot" where
  "log_ring_snapshot after_id limit ring =
     \<lparr>ls_records = select_loop lr_id (clamp_after after_id) (clamp_limit limit) (rg_records ring) [],
      ls_last_id = rg_next_id ring - 1,
      ls_gap = (clamp_after after_id < rg_evicted_through ring),
      ls_started_at = rg_created_at ring,
      ls_buffer_bytes = rg_buffer_bytes ring, ls_max_bytes = rg_max_bytes ring\<rparr>"

definition run_log :: "string \<Rightarrow> (string \<Rightarrow> string) \<Rightarrow> log_call list \<Rightarrow> log_record ring \<Rightarrow> log_record ring" where
  "run_log user_home redact calls ring = fold (\<lambda>call ring. snd (log_append user_home redact call ring)) calls ring"

interpretation log_records: numbered_records lr_id with_log_id log_size
  by unfold_locales (simp_all add: with_log_id_def log_size_def)

section \<open>The logging handler\<close>

text \<open>A record of the \<open>logging\<close> module as \<open>RingHandler.emit\<close> reads it: its fields when they are a
  dict, and its exception as \<open>sanitize_exception\<close> renders it.\<close>

record py_log_event =
  ev_levelno :: int
  ev_name :: string
  ev_pathname :: string
  ev_lineno :: int
  ev_message :: string
  ev_kb_fields :: "(string \<times> log_value) list option"
  ev_exception :: "string option"

definition handler_level :: "int \<Rightarrow> string" where
  "handler_level levelno =
     (if levelno \<ge> 40 then ''error'' else if levelno \<ge> 30 then ''warning''
      else if levelno \<ge> 20 then ''info'' else if levelno \<ge> 10 then ''debug'' else ''trace'')"

definition emit_call :: "string \<Rightarrow> string option \<Rightarrow> string \<Rightarrow> py_log_event \<Rightarrow> log_call" where
  "emit_call user_home context_id ts ev =
     (let fields = (case ev_kb_fields ev of Some kvs \<Rightarrow> kvs | None \<Rightarrow> []);
          fields' = (case ev_exception ev of
                       Some t \<Rightarrow> AList.update ''traceback'' (LTyped ''text'' (LStr t) []) fields
                     | None \<Rightarrow> fields)
      in \<lparr>lc_level = handler_level (ev_levelno ev), lc_module = ev_name ev,
          lc_file = relativize_path user_home (ev_pathname ev), lc_line = Some (ev_lineno ev),
          lc_msg = ev_message ev, lc_fields = fields', lc_request_id = None,
          lc_context_id = context_id, lc_ts = ts\<rparr>)"

definition ring_emit :: "string \<Rightarrow> (string \<Rightarrow> string) \<Rightarrow> string option \<Rightarrow> string \<Rightarrow> py_log_event
    \<Rightarrow> log_record ring \<Rightarrow> log_record ring" where
  "ring_emit user_home redact context_id ts ev ring =
     snd (log_append user_home redact (emit_call user_home context_id ts ev) ring)"

section \<open>Snapshots read the log\<close>

lemma run_log_push:
  "run_log user_home redact calls ring
    = push_all lr_id with_log_id log_size (map (draft_record user_home redact) calls) ring"
  by (simp add: run_log_def push_all_def log_append_def fold_map comp_def)

text \<open>What was logged by a history of calls, and what of it the bounds leave.\<close>

definition whole_log :: "string \<Rightarrow> (string \<Rightarrow> string) \<Rightarrow> log_call list \<Rightarrow> log_record list" where
  "whole_log user_home redact calls = numbered_log with_log_id (map (draft_record user_home redact) calls)"

definition kept_log :: "int \<Rightarrow> int \<Rightarrow> log_record list \<Rightarrow> log_record list" where
  "kept_log max_records max_bytes = fitting_end log_size max_records max_bytes"

lemma length_whole_log [simp]: "length (whole_log user_home redact calls) = length calls"
  by (simp add: whole_log_def)

text \<open>C39: A snapshot of the log ring after any history of calls is one of the whole log. The ring
  holds the longest end of everything logged that is within \<open>max_records\<close> and \<open>max_bytes\<close> (and
  never less than the last record); a snapshot returns, in order, the records after the reader's
  position that the ring still holds, as many as the clamped limit says but one when that is zero;
  its \<open>gap\<close> is set exactly when a record after the position is lost, and its counters are those of
  the log.\<close>

theorem log_snapshot_reads_log:
  "let log = whole_log user_home redact calls; kept = kept_log max_records max_bytes log;
       a = clamp_after after_id
   in log_ring_snapshot after_id limit (run_log user_home redact calls (new_ring max_records max_bytes now))
      = \<lparr>ls_records = take (nat (max 1 (clamp_limit limit))) (drop (max (nat a) (length log - length kept)) log),
         ls_last_id = int (length calls),
         ls_gap = (\<exists>r \<in> set log. a < lr_id r \<and> r \<notin> set kept),
         ls_started_at = now,
         ls_buffer_bytes = sum_list (map log_size kept), ls_max_bytes = max_bytes\<rparr>
   \<and> is_fitting_end log_size max_records max_bytes log kept"
  using log_records.ring_reads_log [of "map (draft_record user_home redact) calls" max_records max_bytes after_id now limit]
    fitting_end_is_end [of log_size max_records max_bytes "whole_log user_home redact calls"]
  unfolding run_log_push whole_log_def kept_log_def
  by (simp add: log_ring_snapshot_def Let_def)

section \<open>Stored records\<close>

text \<open>A stored text went through the secret floor; the value of a sensitive key is a placeholder. The
  only text of a field outside the floor is a request id.\<close>

definition floored_text :: "(string \<Rightarrow> string) \<Rightarrow> log_value \<Rightarrow> bool" where
  "floored_text redact v \<longleftrightarrow>
     (case v of LStr s \<Rightarrow> (\<exists>t. s = redact t) | LTyped _ _ _ \<Rightarrow> False | LObj _ \<Rightarrow> False | _ \<Rightarrow> True)"

definition floored_field :: "(string \<Rightarrow> string) \<Rightarrow> string \<Rightarrow> log_field \<Rightarrow> bool" where
  "floored_field redact k f \<longleftrightarrow>
     (if is_sensitive_key k then f = text_field ''[redacted]''
      else floored_text redact (lf_value f) \<or> k = ''request_id'' \<and> lf_type f = ''text'')"

definition floored_fields :: "(string \<Rightarrow> string) \<Rightarrow> (string, log_field) dict \<Rightarrow> bool" where
  "floored_fields redact d \<longleftrightarrow> distinct (map fst d) \<and> (\<forall>(k, f) \<in> set d. floored_field redact k f)"

definition clean_record :: "(string \<Rightarrow> string) \<Rightarrow> log_record \<Rightarrow> bool" where
  "clean_record redact r \<longleftrightarrow>
     lr_level r \<in> set LEVELS \<and> (\<exists>t. lr_msg r = redact t) \<and> take 1 (lr_file r) \<noteq> ''/''
     \<and> floored_fields redact (lr_fields r)"

lemma floor_value_text [simp]: "floored_text redact (floor_value redact v)"
  by (cases v) (auto simp: floored_text_def)

lemma redacted_text [simp]: "floored_text redact (LStr (redact t))"
  by (auto simp: floored_text_def)

lemma coerce_field_floored: "floored_field redact k (coerce_field redact k v)"
  by (cases v) (simp_all add: floored_field_def coerce_field_def text_field_def)

lemma request_id_floored: "floored_field redact ''request_id'' (text_field r)"
proof -
  have "\<not> is_sensitive_key ''request_id''" by code_simp
  then show ?thesis by (simp add: floored_field_def text_field_def)
qed

lemma update_floored:
  assumes "floored_fields redact d" "floored_field redact k f"
  shows "floored_fields redact (AList.update k f d)"
proof -
  have d: "distinct (map fst d)" using assms by (simp add: floored_fields_def)
  have "floored_field redact k' f'" if "(k', f') \<in> set (AList.update k f d)" for k' f'
    using update_member [OF d that] assms by (auto simp: floored_fields_def)
  then show ?thesis using distinct_update [OF d] by (auto simp: floored_fields_def)
qed

lemma fold_update_floored:
  "floored_fields redact d \<Longrightarrow>
   floored_fields redact (fold (\<lambda>(k, v) d. AList.update k (coerce_field redact k v) d) kvs d)"
  by (induction kvs arbitrary: d) (simp_all add: case_prod_unfold update_floored coerce_field_floored)

lemma clean_fields_floored: "floored_fields redact (clean_fields redact call)"
proof -
  have "floored_fields redact (fold (\<lambda>(k, v) d. AList.update k (coerce_field redact k v) d) (lc_fields call) [])"
    by (rule fold_update_floored) (simp add: floored_fields_def)
  then show ?thesis
    by (simp add: clean_fields_def Let_def update_floored request_id_floored split: option.splits)
qed
section \<open>Relative paths\<close>

lemma rfind_occurs:
  assumes "rfind pat s \<noteq> -1"
  shows "0 \<le> rfind pat s" "nat (rfind pat s) \<le> length s" "occurs_at pat s (nat (rfind pat s))"
proof -
  obtain i js where js: "rev (filter (occurs_at pat s) [0..<Suc (length s)]) = i # js"
    using assms by (cases "rev (filter (occurs_at pat s) [0..<Suc (length s)])") (auto simp: rfind_def)
  then have "i \<in> set (filter (occurs_at pat s) [0..<Suc (length s)])" by (metis list.set_intros(1) set_rev)
  then have "i \<le> length s \<and> occurs_at pat s i" by (simp add: less_Suc_eq_le del: upt_Suc)
  moreover have "rfind pat s = int i" unfolding rfind_def js by simp
  ultimately show "0 \<le> rfind pat s" "nat (rfind pat s) \<le> length s" "occurs_at pat s (nat (rfind pat s))"
    by auto
qed

lemma occurs_at_split: "occurs_at pat s i \<Longrightarrow> drop i s = pat @ drop (i + length pat) s"
  unfolding occurs_at_def by (metis add.commute append_take_drop_id drop_drop)

lemma rfind_ge: "-1 \<le> rfind pat s"
  using rfind_occurs(1) [of pat s] by (cases "rfind pat s = -1") auto

lemma base_name_plain: "CHR ''/'' \<notin> set (base_name s)"
  by (auto simp: base_name_def dest: set_takeWhileD)

lemma not_slash_first: "CHR ''/'' \<notin> set s \<Longrightarrow> take 1 s \<noteq> ''/''"
  by (cases s) auto

lemma after_marker:
  assumes "occurs_at (CHR ''/'' # c # pat) s i" "c \<noteq> CHR ''/''"
  shows "take 1 (drop (Suc i) s) \<noteq> ''/''"
proof -
  have "drop (Suc i) s = c # pat @ drop (i + length (CHR ''/'' # c # pat)) s"
    using occurs_at_split [OF assms(1)] by (metis append_Cons drop_Suc list.sel(3) tl_drop)
  then show ?thesis using assms(2) by simp
qed

text \<open>A stored path is never absolute, unless the package directory in it is followed by a second
  slash.\<close>

lemma relativize_path_relative:
  assumes "\<not> contains_text (norm_slashes path) ''site-packages//''"
  shows "take 1 (relativize_path user_home path) \<noteq> ''/''"
proof -
  let ?n = "norm_slashes path"
  consider (pkg) "rfind ''site-packages/'' ?n \<noteq> -1"
    | (own) "rfind ''site-packages/'' ?n = -1" "starts_with ?n ''kassiber/'' \<or> starts_with ?n ''tests/''"
    | (other) "rfind ''site-packages/'' ?n = -1" "\<not> (starts_with ?n ''kassiber/'' \<or> starts_with ?n ''tests/'')"
    by blast
  then show ?thesis
  proof cases
    case pkg
    define i where "i = nat (rfind ''site-packages/'' ?n)"
    note occ = rfind_occurs [OF pkg, folded i_def]
    have "take 1 (drop (i + length ''site-packages/'') ?n) \<noteq> ''/''"
    proof
      assume "take 1 (drop (i + length ''site-packages/'') ?n) = ''/''"
      then obtain rest where "drop (i + length ''site-packages/'') ?n = CHR ''/'' # rest"
        by (cases "drop (i + length ''site-packages/'') ?n") auto
      then have "occurs_at ''site-packages//'' ?n i"
        using occurs_at_split [OF occ(3)] by (simp add: occurs_at_def)
      then show False using assms occ(2) by (auto simp: contains_text_def list_ex_iff)
    qed
    then show ?thesis using pkg by (simp add: relativize_path_def Let_def i_def)
  next
    case own
    then show ?thesis
      by (cases ?n) (auto simp: relativize_path_def Let_def starts_with_def)
  next
    case other
    define best where "best = max (max (-1) (rfind ''/kassiber/'' ?n)) (rfind ''/tests/'' ?n)"
    have "take 1 (drop (nat (best + 1)) ?n) \<noteq> ''/''" if "best \<noteq> -1"
    proof -
      from that have "0 \<le> best" and "best = rfind ''/kassiber/'' ?n \<and> rfind ''/kassiber/'' ?n \<noteq> -1
          \<or> best = rfind ''/tests/'' ?n \<and> rfind ''/tests/'' ?n \<noteq> -1"
        using rfind_ge [of "''/kassiber/''" ?n] rfind_ge [of "''/tests/''" ?n] unfolding best_def by linarith+
      then have "occurs_at ''/kassiber/'' ?n (nat best) \<or> occurs_at ''/tests/'' ?n (nat best)"
        using rfind_occurs(3) by blast
      then have "take 1 (drop (Suc (nat best)) ?n) \<noteq> ''/''"
        using after_marker [of "CHR ''k''" "''assiber/''" ?n] after_marker [of "CHR ''t''" "''ests/''" ?n] by force
      then show ?thesis using \<open>0 \<le> best\<close> by (simp add: nat_add_distrib)
    qed
    then show ?thesis
      using other base_name_plain not_slash_first
      by (simp add: relativize_path_def Let_def best_def [symmetric])
  qed
qed

text \<open>Whatever is logged, every record in the ring has one of the five levels, a message that went
  through the secret floor, a path that is not absolute (as long as no path has a double slash after
  the package directory), and fields with different names whose texts went through the floor, where
  the value of a sensitive name is replaced; the request id is the one text stored as it is given.\<close>

theorem log_records_clean:
  assumes "\<forall>call \<in> set calls. \<not> contains_text (norm_slashes (lc_file call)) ''site-packages//''"
  shows "\<forall>(r, n) \<in> set (rg_records (run_log user_home redact calls (new_ring max_records max_bytes now))).
    clean_record redact r \<and> n = log_size r"
proof -
  let ?drafts = "map (draft_record user_home redact) calls"
  let ?ring = "push_all lr_id with_log_id log_size ?drafts (new_ring max_records max_bytes now)"
  have draft: "clean_record redact (with_log_id i (draft_record user_home redact call))" if "call \<in> set calls" for i call
    using that assms relativize_path_relative clean_fields_floored
    by (auto simp: clean_record_def with_log_id_def draft_record_def LEVELS_def)
  have "\<forall>r \<in> set (numbered_log with_log_id ?drafts). clean_record redact r"
    using draft by (auto simp: numbered_log_def enumerate_eq_zip dest!: set_zip_rightD)
  then show ?thesis
    using ring_holds_member [OF log_records.push_all_holds [of ?drafts max_records max_bytes now]]
    unfolding run_log_push by blast
qed

section \<open>A sample history\<close>

definition sample_call :: "string \<Rightarrow> log_call" where
  "sample_call msg =
     \<lparr>lc_level = ''notice'', lc_module = ''m'', lc_file = ''/home/u/kassiber/daemon.py'', lc_line = Some 7,
      lc_msg = msg, lc_fields = [(''api-key'', LStr ''k''), (''n'', LTyped ''count'' (LInt 3) [])],
      lc_request_id = None, lc_context_id = Some ''req'', lc_ts = ''t''\<rparr>"

definition sample_calls :: "log_call list" where
  "sample_calls = [sample_call ''a'', sample_call ''b'', sample_call ''c'']"

lemma log_snapshot_reads_log_witness:
  "length (ls_records (log_ring_snapshot 0 0
     (run_log ''/home/u'' (\<lambda>t. t) sample_calls (new_ring 2 100000 ''now'')))) = 1
   \<and> ls_gap (log_ring_snapshot 0 0 (run_log ''/home/u'' (\<lambda>t. t) sample_calls (new_ring 2 100000 ''now'')))"
proof -
  let ?log = "whole_log ''/home/u'' (\<lambda>t. t) sample_calls"
  let ?kept = "kept_log 2 100000 ?log"
  have "length (take (nat (max 1 (clamp_limit 0))) (drop (max (nat (clamp_after 0)) (length ?log - length ?kept)) ?log)) = 1"
    by code_simp
  moreover have "\<exists>r \<in> set ?log. clamp_after 0 < lr_id r \<and> r \<notin> set ?kept" by code_simp
  ultimately show ?thesis
    using log_snapshot_reads_log [of "''/home/u''" "\<lambda>t. t" sample_calls 2 100000 0 0 "''now''"]
    unfolding Let_def by simp
qed

end
