(* ===== verification/Egress_Ledger.thy ===== *)
theory Egress_Ledger
  imports Ring_Buffer
begin

text \<open>
  The ledger of outbound connections (\<open>egress_ledger.py\<close>): recording an attempt, matching it against
  the allowlist, and the snapshot with its summary. The buffer is that of \<open>Ring_Buffer\<close>; the clock is
  an argument of a call. Shown: for every history of attempts, a snapshot is a function of all
  recorded attempts, and its summary counts them by allowlist and subsystem.
\<close>

section \<open>Recording\<close>

definition MAX_RECORDS :: int where
  "MAX_RECORDS = 5000"

definition MAX_BYTES :: int where
  "MAX_BYTES = 2 * 1024 * 1024"

definition normalize_host :: "string option \<Rightarrow> string" where
  "normalize_host host =
     py_lower (rev (dropWhile (\<lambda>c. c = CHR ''.'') (rev (py_strip (str_or_empty host)))))"

record egress_record =
  er_id :: int
  er_ts :: string
  er_subsystem :: string
  er_host :: string
  er_port :: "int option"
  er_scheme :: string
  er_operation :: string
  er_method :: "string option"
  er_bytes_out :: int
  er_via_proxy :: bool

text \<open>The arguments of a call; a port or byte count that does not convert to an integer is
  \<^const>\<open>None\<close>.\<close>

record egress_call =
  ec_subsystem :: string
  ec_host :: "string option"
  ec_port :: "int option"
  ec_scheme :: "string option"
  ec_operation :: string
  ec_method :: "string option"
  ec_bytes_out :: "int option"
  ec_via_proxy :: bool
  ec_ts :: string

definition json_egress_record :: "egress_record \<Rightarrow> string" where
  "json_egress_record r = json_object '','' '':''
     [(''id'', int_str (er_id r)), (''ts'', json_string (er_ts r)),
      (''subsystem'', json_string (er_subsystem r)), (''host'', json_string (er_host r)),
      (''port'', json_option int_str (er_port r)), (''scheme'', json_string (er_scheme r)),
      (''operation'', json_string (er_operation r)), (''method'', json_option json_string (er_method r)),
      (''bytes_out'', int_str (er_bytes_out r)), (''via_proxy'', json_bool (er_via_proxy r))]"

definition egress_size :: "egress_record \<Rightarrow> int" where
  "egress_size r = int (length (json_egress_record r))"

definition with_egress_id :: "int \<Rightarrow> egress_record \<Rightarrow> egress_record" where
  "with_egress_id i r = r\<lparr>er_id := i\<rparr>"

definition draft_egress :: "egress_call \<Rightarrow> egress_record" where
  "draft_egress call =
     (let verb = py_upper (str_or_empty (ec_method call)) in
      \<lparr>er_id = 0, er_ts = ec_ts call,
       er_subsystem = (if ec_subsystem call = '''' then ''unknown'' else ec_subsystem call),
       er_host = normalize_host (ec_host call), er_port = ec_port call,
       er_scheme = str_or_empty (ec_scheme call),
       er_operation = (if ec_operation call = '''' then ''connect'' else ec_operation call),
       er_method = (if verb = '''' then None else Some verb),
       er_bytes_out = (case ec_bytes_out call of Some n \<Rightarrow> max 0 n | None \<Rightarrow> 0),
       er_via_proxy = ec_via_proxy call\<rparr>)"

definition ledger_record :: "egress_call \<Rightarrow> egress_record ring \<Rightarrow> int \<times> egress_record ring" where
  "ledger_record call ring =
     (if normalize_host (ec_host call) = '''' then (0, ring)
      else ring_push er_id with_egress_id egress_size (draft_egress call) ring)"

section \<open>The allowlist\<close>

record allow_entry =
  al_host :: string
  al_port :: "int option"
  al_subsystem :: string
  al_label :: string
  al_source :: string
  al_user_allowlisted :: bool

definition entry_matches :: "allow_entry \<Rightarrow> string \<Rightarrow> int option \<Rightarrow> string \<Rightarrow> bool" where
  "entry_matches e host port subsystem =
     (if al_host e \<noteq> normalize_host (Some host) then False
      else if al_port e \<noteq> None \<and> al_port e \<noteq> port then False
      else if al_subsystem e \<noteq> ''any'' \<and> subsystem \<noteq> al_subsystem e then False
      else True)"

definition BUILT_IN_EXPECTED_ENDPOINTS :: "(string \<times> int \<times> string \<times> string) list" where
  "BUILT_IN_EXPECTED_ENDPOINTS =
     [(''api.exchange.coinbase.com'', 443, ''pricing'', ''Coinbase Exchange''),
      (''api.coingecko.com'', 443, ''pricing'', ''CoinGecko'')]"

definition built_in_allowlist_entries :: "allow_entry list" where
  "built_in_allowlist_entries =
     map (\<lambda>(host, port, subsystem, label).
       \<lparr>al_host = host, al_port = Some port, al_subsystem = subsystem, al_label = label,
        al_source = ''built-in'', al_user_allowlisted = False\<rparr>) BUILT_IN_EXPECTED_ENDPOINTS"

record annotated =
  an_record :: egress_record
  an_status :: string
  an_label :: "string option"
  an_source :: "string option"
  an_user_allowlisted :: bool

fun first_match :: "egress_record \<Rightarrow> allow_entry list \<Rightarrow> annotated" where
  "first_match r [] = \<lparr>an_record = r, an_status = ''unexpected'', an_label = None, an_source = None,
     an_user_allowlisted = False\<rparr>"
| "first_match r (e # es) =
     (if entry_matches e (er_host r) (er_port r) (er_subsystem r)
      then \<lparr>an_record = r, an_status = ''expected'', an_label = Some (al_label e),
            an_source = Some (al_source e), an_user_allowlisted = al_user_allowlisted e\<rparr>
      else first_match r es)"

definition annotate_record :: "allow_entry list \<Rightarrow> bool \<Rightarrow> egress_record \<Rightarrow> annotated" where
  "annotate_record allowlist complete r =
     (if \<not> complete
      then \<lparr>an_record = r, an_status = ''unknown'', an_label = None, an_source = None,
            an_user_allowlisted = False\<rparr>
      else first_match r allowlist)"

section \<open>Snapshots\<close>

record egress_summary =
  es_total_records :: int
  es_unexpected :: int
  es_update :: int
  es_by_subsystem :: "(string \<times> int \<times> int) list"

record egress_snapshot =
  eg_records :: "annotated list"
  eg_last_id :: int
  eg_gap :: bool
  eg_started_at :: string
  eg_buffer_bytes :: int
  eg_max_bytes :: int
  eg_allowlist_complete :: bool
  eg_allowlist :: "allow_entry list"
  eg_db_header :: "(string, string) dict"
  eg_summary :: egress_summary

definition count_into :: "(egress_record \<Rightarrow> int) \<Rightarrow> egress_record list \<Rightarrow> (string, int) dict" where
  "count_into weight rs =
     fold (\<lambda>r d. AList.update (er_subsystem r) (dict_get d (er_subsystem r) 0 + weight r) d) rs []"

definition ledger_summary :: "allow_entry list \<Rightarrow> bool \<Rightarrow> egress_record list \<Rightarrow> egress_summary" where
  "ledger_summary allowlist complete all_records =
     (let totals = count_into (\<lambda>_. 1) all_records; bytes_out = count_into er_bytes_out all_records in
      \<lparr>es_total_records = int (length all_records),
       es_unexpected = fold (\<lambda>r n. if an_status (annotate_record allowlist complete r) = ''unexpected''
                                  then n + 1 else n) all_records 0,
       es_update = dict_get totals ''update'' 0,
       es_by_subsystem = map (\<lambda>k. (k, dict_get totals k 0, dict_get bytes_out k 0)) (sort (map fst totals))\<rparr>)"

definition ledger_snapshot :: "int \<Rightarrow> int \<Rightarrow> allow_entry list \<Rightarrow> bool \<Rightarrow> (string, string) dict option
    \<Rightarrow> egress_record ring \<Rightarrow> egress_snapshot" where
  "ledger_snapshot after_id limit allowlist complete db_header ring =
     \<lparr>eg_records = map (annotate_record allowlist complete)
        (select_loop er_id (clamp_after after_id) (clamp_limit limit) (rg_records ring) []),
      eg_last_id = rg_next_id ring - 1,
      eg_gap = (clamp_after after_id < rg_evicted_through ring),
      eg_started_at = rg_created_at ring,
      eg_buffer_bytes = rg_buffer_bytes ring, eg_max_bytes = rg_max_bytes ring,
      eg_allowlist_complete = complete, eg_allowlist = allowlist,
      eg_db_header = (case db_header of Some d \<Rightarrow> d | None \<Rightarrow> []),
      eg_summary = ledger_summary allowlist complete (map fst (rg_records ring))\<rparr>"

definition run_ledger :: "egress_call list \<Rightarrow> egress_record ring \<Rightarrow> egress_record ring" where
  "run_ledger calls ring = fold (\<lambda>call ring. snd (ledger_record call ring)) calls ring"

interpretation egress_records: numbered_records er_id with_egress_id egress_size
  by unfold_locales (simp_all add: with_egress_id_def egress_size_def)

section \<open>The summary\<close>

lemma count_fold:
  fixes weight :: "egress_record \<Rightarrow> int"
  shows "dict_get (fold (\<lambda>r d. AList.update (er_subsystem r) (dict_get d (er_subsystem r) 0 + weight r) d) rs d) k 0
     = dict_get d k 0 + sum_list (map weight (filter (\<lambda>r. er_subsystem r = k) rs))"
  by (induction rs arbitrary: d) (auto simp: dict_get_update)

lemma count_fold_keys:
  "distinct (map fst d) \<Longrightarrow>
   distinct (map fst (fold (\<lambda>r d. AList.update (er_subsystem r) (f r d) d) rs d))
   \<and> fst ` set (fold (\<lambda>r d. AList.update (er_subsystem r) (f r d) d) rs d) = fst ` set d \<union> er_subsystem ` set rs"
  by (induction rs arbitrary: d) (auto simp: distinct_update update_fst_image)

lemma count_into_get: "dict_get (count_into weight rs) k 0 = sum_list (map weight (filter (\<lambda>r. er_subsystem r = k) rs))"
  by (simp add: count_into_def count_fold)

lemma count_into_keys: "sort (map fst (count_into weight rs)) = sort (remdups (map er_subsystem rs))"
  using count_fold_keys [of "[]" "\<lambda>r d. dict_get d (er_subsystem r) 0 + weight r" rs]
  by (intro sorted_distinct_set_unique) (auto simp: count_into_def)

lemma first_match_status:
  "an_status (first_match r es) = ''unexpected'' \<longleftrightarrow>
     \<not> (\<exists>e \<in> set es. entry_matches e (er_host r) (er_port r) (er_subsystem r))"
  by (induction es) simp_all

lemma count_if_fold: "fold (\<lambda>r n. if P r then n + 1 else n) rs n = n + int (length (filter P rs))"
  by (induction rs arbitrary: n) simp_all

text \<open>The summary, counted record by record.\<close>

definition unexpected_record :: "allow_entry list \<Rightarrow> bool \<Rightarrow> egress_record \<Rightarrow> bool" where
  "unexpected_record allowlist complete r \<longleftrightarrow>
     complete \<and> \<not> (\<exists>e \<in> set allowlist. entry_matches e (er_host r) (er_port r) (er_subsystem r))"

definition counted_summary :: "allow_entry list \<Rightarrow> bool \<Rightarrow> egress_record list \<Rightarrow> egress_summary" where
  "counted_summary allowlist complete rs =
     (let of_subsystem = (\<lambda>k. filter (\<lambda>r. er_subsystem r = k) rs) in
      \<lparr>es_total_records = int (length rs),
       es_unexpected = int (length (filter (unexpected_record allowlist complete) rs)),
       es_update = int (length (of_subsystem ''update'')),
       es_by_subsystem = map (\<lambda>k. (k, int (length (of_subsystem k)), sum_list (map er_bytes_out (of_subsystem k))))
         (sort (remdups (map er_subsystem rs)))\<rparr>)"

lemma sum_ones: "sum_list (map (\<lambda>_. 1) xs) = int (length xs)"
  by (induction xs) simp_all

lemma ledger_summary_counted: "ledger_summary allowlist complete rs = counted_summary allowlist complete rs"
proof -
  have "an_status (annotate_record allowlist complete r) = ''unexpected'' \<longleftrightarrow> unexpected_record allowlist complete r" for r
    by (simp add: annotate_record_def unexpected_record_def first_match_status)
  then show ?thesis
    by (simp add: ledger_summary_def counted_summary_def count_into_get count_into_keys count_if_fold sum_ones Let_def)
qed

lemma run_ledger_push:
  "run_ledger calls ring = push_all er_id with_egress_id egress_size
     (map draft_egress (filter (\<lambda>c. normalize_host (ec_host c) \<noteq> '''') calls)) ring"
  by (induction calls arbitrary: ring) (simp_all add: run_ledger_def push_all_def ledger_record_def)

text \<open>Every attempt with a host, numbered, and the end of it that the bounds leave.\<close>

definition whole_ledger :: "egress_call list \<Rightarrow> egress_record list" where
  "whole_ledger calls = numbered_log with_egress_id
     (map draft_egress (filter (\<lambda>c. normalize_host (ec_host c) \<noteq> '''') calls))"

definition kept_ledger :: "int \<Rightarrow> int \<Rightarrow> egress_record list \<Rightarrow> egress_record list" where
  "kept_ledger max_records max_bytes = fitting_end egress_size max_records max_bytes"

text \<open>A snapshot of the egress ledger after any history of attempts is a function of all attempts
  that named a host. The ledger keeps the longest end of them that is within its bounds (never less
  than the last one); a snapshot returns the kept ones after the reader's position, annotated, and
  sets \<open>gap\<close> exactly when one after the position is lost. Its summary counts what is kept: as
  unexpected exactly the records that no entry of a complete allowlist matches, and by subsystem the
  records and the bytes sent.\<close>

theorem ledger_snapshot_reads_attempts:
  "let log = whole_ledger calls; kept = kept_ledger max_records max_bytes log; a = clamp_after after_id
   in ledger_snapshot after_id limit allowlist complete db_header (run_ledger calls (new_ring max_records max_bytes now))
      = \<lparr>eg_records = map (annotate_record allowlist complete)
           (take (nat (max 1 (clamp_limit limit))) (drop (max (nat a) (length log - length kept)) log)),
         eg_last_id = int (length log),
         eg_gap = (\<exists>r \<in> set log. a < er_id r \<and> r \<notin> set kept),
         eg_started_at = now,
         eg_buffer_bytes = sum_list (map egress_size kept), eg_max_bytes = max_bytes,
         eg_allowlist_complete = complete, eg_allowlist = allowlist,
         eg_db_header = (case db_header of Some d \<Rightarrow> d | None \<Rightarrow> []),
         eg_summary = counted_summary allowlist complete kept\<rparr>
   \<and> is_fitting_end egress_size max_records max_bytes log kept"
proof -
  let ?drafts = "map draft_egress (filter (\<lambda>c. normalize_host (ec_host c) \<noteq> '''') calls)"
  show ?thesis
    using egress_records.ring_reads_log [of ?drafts max_records max_bytes after_id now limit]
      fitting_end_is_end [of egress_size max_records max_bytes "numbered_log with_egress_id ?drafts"]
    unfolding run_ledger_push whole_ledger_def kept_ledger_def
    by (simp add: ledger_snapshot_def ledger_summary_counted Let_def comp_def)
qed

end
