(* ===== verification/Access_Switches.thy ===== *)
theory Access_Switches
  imports Complex_Main Ring_Buffer
begin

text \<open>
  The two machine-wide switches: access of external agents (\<open>agent_access.py\<close>) and offline mode
  (\<open>egress_policy.py\<close>), over the fail-closed reader of \<open>private_files.py\<close>. What the operating
  system finds at the path of a preference is a value of \<open>os_entry\<close>; a regular file has a size and
  the JSON value its bytes decode to, or none. Whether a write succeeds is an argument, as are
  \<open>urlsplit\<close> (the scheme and the host of a URL) and the loopback test of \<open>ipaddress\<close>. A file nested
  so deeply that \<open>json.loads\<close> raises \<open>RecursionError\<close> counts as one that does not decode; the
  exception itself is not represented. Shown: exactly which files open access, that everything else keeps it
  closed, and that updates keep what they do not name.
\<close>

section \<open>Preference files\<close>

datatype json =
    JNull
  | JBool bool
  | JInt int
  | JFloat rat
  | JStr string
  | JList "json list"
  | JObj "(string \<times> json) list"

datatype os_entry =
    OsMissing
  | OsStatError
  | OsSymlink
  | OsSpecial
  | OsUnreadable
  | OsRegular int "json option"

text \<open>\<open>read_small_private_file\<close>, followed by \<open>json.loads\<close>: the outer option is the bytes, the inner
  one what they decode to.\<close>

definition read_small_private_file :: "os_entry \<Rightarrow> int \<Rightarrow> json option option" where
  "read_small_private_file e limit =
     (case e of
        OsRegular n content \<Rightarrow> if n \<le> limit then Some content else None
      | _ \<Rightarrow> None)"

definition json_get :: "json \<Rightarrow> string \<Rightarrow> json option" where
  "json_get payload k = (case payload of JObj kvs \<Rightarrow> map_of kvs k | _ \<Rightarrow> None)"

definition is_json_object :: "json \<Rightarrow> bool" where
  "is_json_object payload = (case payload of JObj _ \<Rightarrow> True | _ \<Rightarrow> False)"

text \<open>\<open>json.dumps(document, sort_keys=True)\<close> of a flat document, and the file it makes.\<close>

fun dump_flat :: "json \<Rightarrow> string" where
  "dump_flat (JBool b) = json_bool b"
| "dump_flat (JInt i) = int_str i"
| "dump_flat (JStr s) = json_string s"
| "dump_flat _ = ''null''"

definition written_file :: "(string \<times> json) list \<Rightarrow> os_entry" where
  "written_file doc =
     (let kvs = sort_key fst doc
      in OsRegular (int (length (json_object '', '' '': '' (map (\<lambda>(k, v). (k, dump_flat v)) kvs) @ [CHR 0x0A])))
           (Some (JObj kvs)))"

section \<open>Agent access\<close>

definition GRANTS :: "string list" where
  "GRANTS = [''read'', ''operator'', ''accounting_decisions'']"

definition AGENT_ACCESS_MODES :: "string list" where
  "AGENT_ACCESS_MODES = [''full'', ''restricted'']"

record preference =
  pf_mcp_enabled :: bool
  pf_ai_features :: "bool option"
  pf_grant :: string
  pf_agent_access :: string
  pf_access_recorded :: bool

definition PREF_OFF :: preference where
  "PREF_OFF = \<lparr>pf_mcp_enabled = False, pf_ai_features = None, pf_grant = ''read'',
     pf_agent_access = ''restricted'', pf_access_recorded = False\<rparr>"

definition member_or :: "string list \<Rightarrow> string \<Rightarrow> json option \<Rightarrow> string" where
  "member_or allowed fallback v =
     (case v of Some (JStr s) \<Rightarrow> if s \<in> set allowed then s else fallback | _ \<Rightarrow> fallback)"

definition read_preference :: "os_entry \<Rightarrow> preference" where
  "read_preference e =
     (case read_small_private_file e 1024 of
        None \<Rightarrow> PREF_OFF
      | Some None \<Rightarrow> PREF_OFF
      | Some (Some payload) \<Rightarrow>
          if \<not> is_json_object payload \<or> json_get payload ''schema_version'' \<noteq> Some (JInt 1) then PREF_OFF
          else \<lparr>pf_mcp_enabled = (json_get payload ''mcp_enabled'' = Some (JBool True)),
                pf_ai_features = (case json_get payload ''ai_features_enabled'' of Some (JBool b) \<Rightarrow> Some b | _ \<Rightarrow> None),
                pf_grant = member_or GRANTS ''read'' (json_get payload ''grant''),
                pf_agent_access = member_or AGENT_ACCESS_MODES ''restricted'' (json_get payload ''agent_access''),
                pf_access_recorded = (json_get payload ''grant'' \<noteq> None \<or> json_get payload ''agent_access'' \<noteq> None)\<rparr>)"

datatype access_error =
    AccessAppError string string
  | AccessValueError
  | AccessOSError

type_synonym 'a access_result = "access_error + 'a"

definition normalize_grant :: "string \<Rightarrow> string access_result" where
  "normalize_grant g =
     (if g \<notin> set GRANTS
      then Inl (AccessAppError ''the external agent grant must be read, operator or accounting_decisions'' ''validation'')
      else Inr g)"

definition normalize_agent_access :: "string \<Rightarrow> string access_result" where
  "normalize_agent_access v =
     (if v \<notin> set AGENT_ACCESS_MODES
      then Inl (AccessAppError ''external agent access must be full or restricted'' ''validation'')
      else Inr v)"

text \<open>\<open>GRANTS.index\<close>, which raises for a name that is not there.\<close>

fun list_index :: "string list \<Rightarrow> string \<Rightarrow> nat access_result" where
  "list_index [] x = Inl AccessValueError"
| "list_index (y # ys) x =
     (if y = x then Inr 0 else case list_index ys x of Inl e \<Rightarrow> Inl e | Inr n \<Rightarrow> Inr (Suc n))"

definition grant_allows :: "string \<Rightarrow> string \<Rightarrow> bool access_result" where
  "grant_allows granted required =
     (case list_index GRANTS granted of
        Inl e \<Rightarrow> Inl e
      | Inr m \<Rightarrow> (case list_index GRANTS required of Inl e \<Rightarrow> Inl e | Inr n \<Rightarrow> Inr (m \<ge> n)))"

definition narrower_grant :: "string \<Rightarrow> string \<Rightarrow> string access_result" where
  "narrower_grant first second =
     (case list_index GRANTS first of
        Inl e \<Rightarrow> Inl e
      | Inr m \<Rightarrow> (case list_index GRANTS second of Inl e \<Rightarrow> Inl e | Inr n \<Rightarrow> Inr (if m \<le> n then first else second)))"

record agent_status =
  as_mcp_enabled :: bool
  as_ai_features :: "bool option"
  as_mcp_available :: bool
  as_reason :: "string option"
  as_grant :: string
  as_agent_access :: string
  as_access_recorded :: bool

definition agent_access_status :: "os_entry \<Rightarrow> agent_status" where
  "agent_access_status e =
     (let p = read_preference e;
          reason = (if \<not> pf_mcp_enabled p then Some ''mcp_disabled''
                    else if pf_ai_features p = Some False then Some ''ai_features_disabled'' else None)
      in \<lparr>as_mcp_enabled = pf_mcp_enabled p, as_ai_features = pf_ai_features p,
          as_mcp_available = (reason = None), as_reason = reason, as_grant = pf_grant p,
          as_agent_access = pf_agent_access p, as_access_recorded = pf_access_recorded p\<rparr>)"

definition access_document :: "preference \<Rightarrow> bool option \<Rightarrow> bool option \<Rightarrow> string option \<Rightarrow> string option
    \<Rightarrow> (string \<times> json) list" where
  "access_document current mcp ai grant access =
     [(''schema_version'', JInt 1),
      (''mcp_enabled'', JBool (case mcp of Some b \<Rightarrow> b | None \<Rightarrow> pf_mcp_enabled current)),
      (''ai_features_enabled'',
        (case ai of
           Some b \<Rightarrow> JBool b
         | None \<Rightarrow> (case pf_ai_features current of Some b \<Rightarrow> JBool b | None \<Rightarrow> JNull)))]
     @ (if grant \<noteq> None \<or> access \<noteq> None \<or> pf_access_recorded current
        then [(''grant'', JStr (case grant of Some g \<Rightarrow> g | None \<Rightarrow> pf_grant current)),
              (''agent_access'', JStr (case access of Some a \<Rightarrow> a | None \<Rightarrow> pf_agent_access current))]
        else [])"

text \<open>The update: the file afterwards, and the status or the exception. A write that the operating
  system refuses leaves the file as it is.\<close>

definition set_agent_access :: "bool \<Rightarrow> bool option \<Rightarrow> bool option \<Rightarrow> string option \<Rightarrow> string option
    \<Rightarrow> os_entry \<Rightarrow> os_entry \<times> agent_status access_result" where
  "set_agent_access write_ok mcp ai grant access e =
     (case (case grant of Some g \<Rightarrow> normalize_grant g | None \<Rightarrow> Inr []) of
        Inl err \<Rightarrow> (e, Inl err)
      | Inr _ \<Rightarrow>
          (case (case access of Some a \<Rightarrow> normalize_agent_access a | None \<Rightarrow> Inr []) of
             Inl err \<Rightarrow> (e, Inl err)
           | Inr _ \<Rightarrow>
               if \<not> write_ok then (e, Inl AccessOSError)
               else let e' = written_file (access_document (read_preference e) mcp ai grant access)
                    in (e', Inr (agent_access_status e'))))"

definition require_mcp_access :: "os_entry \<Rightarrow> agent_status access_result" where
  "require_mcp_access e =
     (let status = agent_access_status e
      in if as_mcp_available status then Inr status
         else if as_reason status = Some ''ai_features_disabled''
           then Inl (AccessAppError ''AI features are turned off in Kassiber'' ''ai_features_disabled'')
         else Inl (AccessAppError ''External agents are not enabled for Kassiber'' ''mcp_disabled''))"

section \<open>Offline mode\<close>

text \<open>Python's \<open>==\<close> with the integer 1.\<close>

definition json_is_one :: "json option \<Rightarrow> bool" where
  "json_is_one v =
     (case v of Some (JInt i) \<Rightarrow> i = 1 | Some (JBool b) \<Rightarrow> b | Some (JFloat r) \<Rightarrow> r = 1 | _ \<Rightarrow> False)"

definition offline_mode_enabled :: "os_entry \<Rightarrow> bool" where
  "offline_mode_enabled e =
     (if e = OsStatError then True
      else if e = OsMissing then False
      else case read_small_private_file e 4096 of
             None \<Rightarrow> True
           | Some None \<Rightarrow> True
           | Some (Some payload) \<Rightarrow>
               if \<not> is_json_object payload \<or> \<not> json_is_one (json_get payload ''schema_version'')
                 then True
               else (case json_get payload ''enabled'' of Some (JBool b) \<Rightarrow> b | _ \<Rightarrow> True))"

definition set_offline_mode :: "bool \<Rightarrow> bool \<Rightarrow> os_entry \<Rightarrow> os_entry \<times> unit access_result" where
  "set_offline_mode write_ok enabled e =
     (if \<not> write_ok then (e, Inl AccessOSError)
      else (written_file [(''schema_version'', JInt 1), (''enabled'', JBool enabled)], Inr ()))"

definition environment_blocks_egress :: "string option \<Rightarrow> bool" where
  "environment_blocks_egress env =
     (py_lower (py_strip (str_or_empty env)) \<in> {''1'', ''true'', ''yes'', ''on''})"

definition egress_block_reason :: "string option \<Rightarrow> os_entry \<Rightarrow> string option" where
  "egress_block_reason env e =
     (if environment_blocks_egress env then Some ''environment''
      else if offline_mode_enabled e then Some ''offline_mode''
      else None)"

definition offline_status :: "string option \<Rightarrow> os_entry \<Rightarrow> bool \<times> bool" where
  "offline_status env e = (offline_mode_enabled e, environment_blocks_egress env)"

definition offline_error :: "string \<Rightarrow> access_error" where
  "offline_error subject =
     AccessAppError (subject @ '' disabled: Kassiber is in offline mode'') ''network_egress_disabled''"

definition egress_disabled_error :: "string option \<Rightarrow> os_entry \<Rightarrow> string \<Rightarrow> access_error option" where
  "egress_disabled_error env e subject =
     (case egress_block_reason env e of
        None \<Rightarrow> None
      | Some reason \<Rightarrow>
          if reason = ''offline_mode'' then Some (offline_error subject)
          else Some (AccessAppError (subject @ '' disabled by KASSIBER_NO_EGRESS'') ''network_egress_disabled''))"

definition require_egress_enabled :: "string option \<Rightarrow> os_entry \<Rightarrow> string \<Rightarrow> unit access_result" where
  "require_egress_enabled env e subject =
     (case egress_disabled_error env e subject of Some err \<Rightarrow> Inl err | None \<Rightarrow> Inr ())"

definition is_loopback_url :: "(string \<Rightarrow> (string \<times> string option) option) \<Rightarrow> (string \<Rightarrow> bool option) \<Rightarrow> string \<Rightarrow> bool" where
  "is_loopback_url urlsplit ip_is_loopback url =
     (case urlsplit url of
        None \<Rightarrow> False
      | Some (scheme, hostname) \<Rightarrow>
          if scheme \<notin> {''http'', ''https''} then False
          else let host = py_lower (rev (dropWhile (\<lambda>c. c = CHR ''.'') (rev (str_or_empty hostname))))
               in if host = ''localhost'' then True
                  else (case ip_is_loopback host of Some b \<Rightarrow> b | None \<Rightarrow> False))"

definition require_online :: "(string \<Rightarrow> (string \<times> string option) option) \<Rightarrow> (string \<Rightarrow> bool option) \<Rightarrow> os_entry
    \<Rightarrow> string \<Rightarrow> string option \<Rightarrow> unit access_result" where
  "require_online urlsplit ip_is_loopback e subject on_device_url =
     (if \<not> offline_mode_enabled e then Inr ()
      else if (case on_device_url of Some url \<Rightarrow> is_loopback_url urlsplit ip_is_loopback url | None \<Rightarrow> False) then Inr ()
      else Inl (offline_error subject))"

section \<open>Which files open access\<close>

text \<open>A file that opens access to agents: a small regular file with an object of the known schema that
  says so.\<close>

definition opens_agents :: "os_entry \<Rightarrow> bool" where
  "opens_agents e \<longleftrightarrow> (\<exists>n kvs. e = OsRegular n (Some (JObj kvs)) \<and> n \<le> 1024
     \<and> map_of kvs ''schema_version'' = Some (JInt 1) \<and> map_of kvs ''mcp_enabled'' = Some (JBool True)
     \<and> map_of kvs ''ai_features_enabled'' \<noteq> Some (JBool False))"

lemma off_not_available [simp]: "pf_mcp_enabled PREF_OFF = False" "pf_grant PREF_OFF = ''read''"
  "pf_agent_access PREF_OFF = ''restricted''" "pf_ai_features PREF_OFF = None" "pf_access_recorded PREF_OFF = False"
  by (simp_all add: PREF_OFF_def)

lemma read_preference_cases:
  obtains (off) "read_preference e = PREF_OFF" "\<not> opens_agents e"
  | (on) n kvs where "e = OsRegular n (Some (JObj kvs))" "n \<le> 1024"
    "map_of kvs ''schema_version'' = Some (JInt 1)"
proof (cases "\<exists>n kvs. e = OsRegular n (Some (JObj kvs)) \<and> n \<le> 1024 \<and> map_of kvs ''schema_version'' = Some (JInt 1)")
  case True
  then show ?thesis using on by blast
next
  case False
  then have "read_preference e = PREF_OFF"
    by (auto simp: read_preference_def read_small_private_file_def is_json_object_def json_get_def
        split: os_entry.splits option.splits json.splits)
  then show ?thesis using False off by (auto simp: opens_agents_def)
qed

lemma member_or_in: "fallback \<in> set allowed \<Longrightarrow> member_or allowed fallback v \<in> set allowed"
  by (auto simp: member_or_def split: option.splits json.splits)

lemma read_preference_type:
  "pf_grant (read_preference e) \<in> set GRANTS \<and> pf_agent_access (read_preference e) \<in> set AGENT_ACCESS_MODES"
proof (cases rule: read_preference_cases [of e])
  case (on n kvs)
  have "''read'' \<in> set GRANTS" "''restricted'' \<in> set AGENT_ACCESS_MODES"
    by (simp_all add: GRANTS_def AGENT_ACCESS_MODES_def)
  then show ?thesis using on member_or_in
    by (simp add: read_preference_def read_small_private_file_def is_json_object_def json_get_def)
qed (simp add: GRANTS_def AGENT_ACCESS_MODES_def)

lemma available_iff: "as_mcp_available (agent_access_status e) \<longleftrightarrow> opens_agents e"
proof (cases rule: read_preference_cases [of e])
  case off
  then show ?thesis by (simp add: agent_access_status_def Let_def)
next
  case (on n kvs)
  then show ?thesis
    by (auto simp: agent_access_status_def Let_def read_preference_def read_small_private_file_def
        is_json_object_def json_get_def opens_agents_def split: option.splits json.splits)
qed

text \<open>The grants are a chain, and the narrower of two grants allows what both allow.\<close>

definition grant_rank :: "string \<Rightarrow> nat" where
  "grant_rank g = (if g = ''read'' then 0 else if g = ''operator'' then 1 else 2)"

lemma grant_index: "g \<in> set GRANTS \<Longrightarrow> list_index GRANTS g = Inr (grant_rank g)"
  by (auto simp: GRANTS_def grant_rank_def)

lemma narrower_allows:
  assumes "a \<in> set GRANTS" "b \<in> set GRANTS" "r \<in> set GRANTS"
  shows "\<exists>c. narrower_grant a b = Inr c \<and> c \<in> {a, b}
    \<and> (grant_allows c r = Inr True \<longleftrightarrow> grant_allows a r = Inr True \<and> grant_allows b r = Inr True)"
  using assms by (auto simp: narrower_grant_def grant_allows_def grant_index)
section \<open>Updates\<close>

lemma map_of_sorted: "distinct (map fst doc) \<Longrightarrow> map_of (sort_key fst doc) = map_of doc"
  by (subst map_of_inject_set) simp_all

definition written_size :: "(string \<times> json) list \<Rightarrow> int" where
  "written_size doc = int (length (json_object '', '' '': '' (map (\<lambda>(k, v). (k, dump_flat v)) (sort_key fst doc)) @ [CHR 0x0A]))"

lemma written_file_parts: "written_file doc = OsRegular (written_size doc) (Some (JObj (sort_key fst doc)))"
  by (simp add: written_file_def written_size_def Let_def)

text \<open>The documents the update can write, and that they are read back.\<close>

definition access_entries :: "bool \<Rightarrow> bool option \<Rightarrow> (string \<times> string) option \<Rightarrow> (string \<times> json) list" where
  "access_entries mcp ai choice =
     [(''schema_version'', JInt 1), (''mcp_enabled'', JBool mcp),
      (''ai_features_enabled'', (case ai of Some b \<Rightarrow> JBool b | None \<Rightarrow> JNull))]
     @ (case choice of Some (g, a) \<Rightarrow> [(''grant'', JStr g), (''agent_access'', JStr a)] | None \<Rightarrow> [])"

lemma access_entries_small:
  assumes "case choice of Some (g, a) \<Rightarrow> g \<in> set GRANTS \<and> a \<in> set AGENT_ACCESS_MODES | None \<Rightarrow> True"
  shows "written_size (access_entries mcp ai choice) \<le> 1024"
proof -
  have all: "\<forall>m \<in> set [True, False]. \<forall>i \<in> set [None, Some True, Some False].
      \<forall>c \<in> set (None # map Some (List.product GRANTS AGENT_ACCESS_MODES)).
        written_size (access_entries m i c) \<le> 1024"
    by code_simp
  have "mcp \<in> set [True, False]" "ai \<in> set [None, Some True, Some False]"
    by (cases mcp; simp) (cases ai; auto)
  moreover have "choice \<in> set (None # map Some (List.product GRANTS AGENT_ACCESS_MODES))"
    using assms by (cases choice) auto
  ultimately show ?thesis using all by blast
qed

lemma read_written:
  assumes "case choice of Some (g, a) \<Rightarrow> g \<in> set GRANTS \<and> a \<in> set AGENT_ACCESS_MODES | None \<Rightarrow> True"
  shows "read_preference (written_file (access_entries mcp ai choice)) =
    \<lparr>pf_mcp_enabled = mcp, pf_ai_features = ai,
     pf_grant = (case choice of Some (g, a) \<Rightarrow> g | None \<Rightarrow> ''read''),
     pf_agent_access = (case choice of Some (g, a) \<Rightarrow> a | None \<Rightarrow> ''restricted''),
     pf_access_recorded = (choice \<noteq> None)\<rparr>"
proof -
  let ?doc = "access_entries mcp ai choice"
  have doc: "map_of (sort_key fst ?doc) = map_of ?doc"
    by (rule map_of_sorted) (cases choice; cases "the choice"; simp add: access_entries_def)
  show ?thesis
    using access_entries_small [OF assms, of mcp ai] assms
    by (cases choice; cases ai)
      (auto simp: read_preference_def read_small_private_file_def is_json_object_def json_get_def
        written_file_parts doc access_entries_def member_or_def)
qed

text \<open>The update as one of the recorded preference.\<close>

definition updated_preference :: "bool option \<Rightarrow> bool option \<Rightarrow> string option \<Rightarrow> string option \<Rightarrow> preference \<Rightarrow> preference" where
  "updated_preference mcp ai grant access p =
     \<lparr>pf_mcp_enabled = (case mcp of Some b \<Rightarrow> b | None \<Rightarrow> pf_mcp_enabled p),
      pf_ai_features = (case ai of Some b \<Rightarrow> Some b | None \<Rightarrow> pf_ai_features p),
      pf_grant = (case grant of Some g \<Rightarrow> g | None \<Rightarrow> pf_grant p),
      pf_agent_access = (case access of Some a \<Rightarrow> a | None \<Rightarrow> pf_agent_access p),
      pf_access_recorded = (grant \<noteq> None \<or> access \<noteq> None \<or> pf_access_recorded p)\<rparr>"

lemma unrecorded_defaults:
  "\<not> pf_access_recorded (read_preference e) \<Longrightarrow>
   pf_grant (read_preference e) = ''read'' \<and> pf_agent_access (read_preference e) = ''restricted''"
  by (cases rule: read_preference_cases [of e])
    (simp_all add: read_preference_def read_small_private_file_def is_json_object_def json_get_def member_or_def)

lemma access_document_entries:
  "access_document p mcp ai grant access =
     access_entries (case mcp of Some b \<Rightarrow> b | None \<Rightarrow> pf_mcp_enabled p)
       (case ai of Some b \<Rightarrow> Some b | None \<Rightarrow> pf_ai_features p)
       (if grant \<noteq> None \<or> access \<noteq> None \<or> pf_access_recorded p
        then Some (case grant of Some g \<Rightarrow> g | None \<Rightarrow> pf_grant p, case access of Some a \<Rightarrow> a | None \<Rightarrow> pf_agent_access p)
        else None)"
  by (simp add: access_document_def access_entries_def split: option.splits)

lemma read_update:
  assumes "grant = None \<or> the grant \<in> set GRANTS" "access = None \<or> the access \<in> set AGENT_ACCESS_MODES"
  shows "read_preference (written_file (access_document (read_preference e) mcp ai grant access))
    = updated_preference mcp ai grant access (read_preference e)"
proof -
  let ?p = "read_preference e"
  let ?choice = "if grant \<noteq> None \<or> access \<noteq> None \<or> pf_access_recorded ?p
        then Some (case grant of Some g \<Rightarrow> g | None \<Rightarrow> pf_grant ?p, case access of Some a \<Rightarrow> a | None \<Rightarrow> pf_agent_access ?p)
        else None"
  have ok: "case ?choice of Some (g, a) \<Rightarrow> g \<in> set GRANTS \<and> a \<in> set AGENT_ACCESS_MODES | None \<Rightarrow> True"
    using assms read_preference_type [of e] by (auto split: option.splits)
  show ?thesis unfolding access_document_entries read_written [OF ok]
    using unrecorded_defaults [of e] by (auto simp: updated_preference_def split: option.splits)
qed

text \<open>External agents are served exactly when the preference is a regular file of at most 1024 bytes
  that holds an object of schema version 1 with \<open>mcp_enabled\<close> true and \<open>ai_features_enabled\<close> not
  false; any other file, whatever it holds, is answered with an error that names the switch. The
  status always carries one of the three grants (never admin) and one of the two access modes, and
  a narrower grant allows exactly what both grants allow.\<close>

theorem agent_access_exact:
  "require_mcp_access e =
     (if opens_agents e then Inr (agent_access_status e)
      else if as_mcp_enabled (agent_access_status e)
        then Inl (AccessAppError ''AI features are turned off in Kassiber'' ''ai_features_disabled'')
      else Inl (AccessAppError ''External agents are not enabled for Kassiber'' ''mcp_disabled''))
   \<and> as_grant (agent_access_status e) \<in> set GRANTS
   \<and> as_agent_access (agent_access_status e) \<in> set AGENT_ACCESS_MODES
   \<and> (\<forall>a \<in> set GRANTS. \<forall>r \<in> set GRANTS. \<exists>c. narrower_grant (as_grant (agent_access_status e)) a = Inr c
        \<and> (grant_allows c r = Inr True \<longleftrightarrow>
             grant_allows (as_grant (agent_access_status e)) r = Inr True \<and> grant_allows a r = Inr True))"
proof (intro conjI)
  show "require_mcp_access e =
     (if opens_agents e then Inr (agent_access_status e)
      else if as_mcp_enabled (agent_access_status e)
        then Inl (AccessAppError ''AI features are turned off in Kassiber'' ''ai_features_disabled'')
      else Inl (AccessAppError ''External agents are not enabled for Kassiber'' ''mcp_disabled''))"
    unfolding available_iff [symmetric]
    by (simp add: require_mcp_access_def agent_access_status_def Let_def)
  show grant: "as_grant (agent_access_status e) \<in> set GRANTS"
    and "as_agent_access (agent_access_status e) \<in> set AGENT_ACCESS_MODES"
    using read_preference_type [of e] by (simp_all add: agent_access_status_def Let_def)
  show "\<forall>a \<in> set GRANTS. \<forall>r \<in> set GRANTS. \<exists>c. narrower_grant (as_grant (agent_access_status e)) a = Inr c
        \<and> (grant_allows c r = Inr True \<longleftrightarrow>
             grant_allows (as_grant (agent_access_status e)) r = Inr True \<and> grant_allows a r = Inr True)"
    using narrower_allows [OF grant] by blast
qed

definition known_choice :: "string option \<Rightarrow> string option \<Rightarrow> bool" where
  "known_choice grant access \<longleftrightarrow>
     (grant = None \<or> the grant \<in> set GRANTS) \<and> (access = None \<or> the access \<in> set AGENT_ACCESS_MODES)"

lemma set_agent_access_known:
  "known_choice grant access \<Longrightarrow> set_agent_access write_ok mcp ai grant access e =
    (if write_ok then let e' = written_file (access_document (read_preference e) mcp ai grant access)
       in (e', Inr (agent_access_status e')) else (e, Inl AccessOSError))"
  by (auto simp: known_choice_def set_agent_access_def normalize_grant_def normalize_agent_access_def split: option.splits)

lemma set_agent_access_unknown:
  "\<not> known_choice grant access \<Longrightarrow>
   \<exists>msg. set_agent_access write_ok mcp ai grant access e = (e, Inl (AccessAppError msg ''validation''))"
  by (cases grant; cases access)
    (auto simp: known_choice_def set_agent_access_def normalize_grant_def normalize_agent_access_def)

text \<open>An update of the agent switch with a known grant and access mode that the operating system
  lets write is read back as exactly that update of the preference before it: the fields it names
  are set, the others are kept, and the file it leaves is small enough to be read. An unknown grant
  or mode raises the validation error, a refused write raises, and both leave the file alone.\<close>

theorem agent_update_round_trip:
  "let (e', r) = set_agent_access write_ok mcp ai grant access e
   in if known_choice grant access \<and> write_ok
      then read_preference e' = updated_preference mcp ai grant access (read_preference e)
        \<and> r = Inr (agent_access_status e')
      else e' = e \<and> (if known_choice grant access then r = Inl AccessOSError
                      else \<exists>msg. r = Inl (AccessAppError msg ''validation''))"
proof (cases "known_choice grant access")
  case True
  then show ?thesis
    using set_agent_access_known [OF True] read_update [of grant access e mcp ai]
    by (simp add: Let_def known_choice_def)
next
  case False
  then show ?thesis using set_agent_access_unknown [OF False, of write_ok mcp ai e] by auto
qed

section \<open>Offline mode\<close>

text \<open>A file that lets Kassiber go online: none, or a small regular file with an object of the known
  schema whose switch is off.\<close>

definition allows_online :: "os_entry \<Rightarrow> bool" where
  "allows_online e \<longleftrightarrow> e = OsMissing \<or> (\<exists>n kvs. e = OsRegular n (Some (JObj kvs)) \<and> n \<le> 4096
     \<and> json_is_one (map_of kvs ''schema_version'') \<and> map_of kvs ''enabled'' = Some (JBool False))"

lemma offline_iff: "offline_mode_enabled e \<longleftrightarrow> \<not> allows_online e"
  by (auto simp: offline_mode_enabled_def allows_online_def read_small_private_file_def is_json_object_def json_get_def
      split: os_entry.splits option.splits json.splits)

text \<open>C40: Outbound connections are allowed exactly when the environment does not forbid them and the
  offline preference is absent or a small, well-formed file that says off; every other file counts
  as offline. What bypasses the environment switch is still refused offline, except to a loopback
  URL. Setting the switch is read back.\<close>

theorem egress_fail_closed:
  "(require_egress_enabled env e subject = Inr () \<longleftrightarrow> \<not> environment_blocks_egress env \<and> allows_online e)
   \<and> (require_online urlsplit ip e subject url = Inr () \<longleftrightarrow>
        allows_online e \<or> (\<exists>u. url = Some u \<and> is_loopback_url urlsplit ip u))
   \<and> (require_egress_enabled env e subject = Inr () \<or>
        (\<exists>msg. require_egress_enabled env e subject = Inl (AccessAppError msg ''network_egress_disabled'')))
   \<and> offline_mode_enabled (fst (set_offline_mode True enabled e)) = enabled
   \<and> set_offline_mode False enabled e = (e, Inl AccessOSError)"
proof (intro conjI)
  show "require_egress_enabled env e subject = Inr () \<longleftrightarrow> \<not> environment_blocks_egress env \<and> allows_online e"
    by (simp add: require_egress_enabled_def egress_disabled_error_def egress_block_reason_def offline_iff)
  show "require_online urlsplit ip e subject url = Inr () \<longleftrightarrow>
        allows_online e \<or> (\<exists>u. url = Some u \<and> is_loopback_url urlsplit ip u)"
    by (auto simp: require_online_def offline_iff split: option.splits)
  show "require_egress_enabled env e subject = Inr () \<or>
        (\<exists>msg. require_egress_enabled env e subject = Inl (AccessAppError msg ''network_egress_disabled''))"
    by (simp add: require_egress_enabled_def egress_disabled_error_def egress_block_reason_def offline_error_def)
  show "offline_mode_enabled (fst (set_offline_mode True enabled e)) = enabled"
    by (cases enabled) (simp_all, code_simp+)
qed (simp add: set_offline_mode_def)

section \<open>A sample preference\<close>

lemma agent_access_exact_witness:
  "opens_agents (written_file (access_entries True None (Some (''operator'', ''restricted''))))
   \<and> (\<exists>status. require_mcp_access (written_file (access_entries True None (Some (''operator'', ''restricted''))))
        = Inr status \<and> as_grant status = ''operator'')
   \<and> (\<exists>c. narrower_grant ''operator'' ''read'' = Inr c
        \<and> (grant_allows c ''operator'' = Inr True \<longleftrightarrow>
             grant_allows ''operator'' ''operator'' = Inr True \<and> grant_allows ''read'' ''operator'' = Inr True))"
proof -
  let ?e = "written_file (access_entries True None (Some (''operator'', ''restricted'')))"
  have grant: "as_grant (agent_access_status ?e) = ''operator''" by code_simp
  have open_: "as_mcp_available (agent_access_status ?e)" by code_simp
  have "''read'' \<in> set GRANTS" "''operator'' \<in> set GRANTS" by (simp_all add: GRANTS_def)
  then show ?thesis
    using agent_access_exact [of ?e, unfolded grant] grant open_ by (auto simp: available_iff)
qed

end
