(* ===== verification/Swap_Rows.thy ===== *)
theory Swap_Rows
  imports Complex_Main Prelude "HOL-Library.Log_Nat"
begin

text \<open>
  The rows and candidates of the swap matcher (\<open>core/transfer_matching.py\<close>, with the predicates of
  \<open>transfers.py\<close> and \<open>asset_codes.py\<close> it calls): eligibility, payment-hash roles, fees, kinds and the
  building of a candidate. A row is a record of the columns the matcher reads; what the code reads
  out of raw JSON (the network domain, the on-chain scope, provider evidence, the refund reference,
  the verified claim outpoint and output amounts) and the parsed time are fields of it. Floating
  point is computed exactly, as rounding of rationals to 53 bits.
\<close>

section \<open>Floating point\<close>

definition pow2 :: "int \<Rightarrow> rat" where
  "pow2 e = (if 0 \<le> e then 2 ^ nat e else 1 / 2 ^ nat (- e))"

definition round_half_even :: "rat \<Rightarrow> int" where
  "round_half_even x =
     (let f = \<lfloor>x\<rfloor>; r = x - of_int f
      in if r < 1 / 2 then f else if r > 1 / 2 then f + 1 else if even f then f else f + 1)"

text \<open>The nearest double of a positive rational, subnormal numbers included; there is no largest one.\<close>

definition float_pos :: "rat \<Rightarrow> rat" where
  "float_pos x =
     (let (n, d) = quotient_of x;
          k = bitlen n - bitlen d;
          e = max (- 1074) (if x < pow2 k then k - 53 else k - 52)
      in of_int (round_half_even (x / pow2 e)) * pow2 e)"

definition to_float :: "rat \<Rightarrow> rat" where
  "to_float x = (if x = 0 then 0 else if x < 0 then - float_pos (- x) else float_pos x)"

section \<open>Names\<close>

definition canonical_bitcoin_asset :: "string \<Rightarrow> string option" where
  "canonical_bitcoin_asset v =
     (let code = py_upper (py_strip v)
      in if code \<in> {''BTC'', ''XBT'', ''XXBT''} then Some ''BTC''
         else if code \<in> {''LBTC'', ''L-BTC''} then Some ''LBTC'' else None)"

definition LIGHTNING_WALLET_KINDS :: "string list" where
  "LIGHTNING_WALLET_KINDS = [''cln'', ''coreln'', ''lightning'', ''lnd'', ''nwc'', ''phoenix'']"

definition CHAIN_WALLET_KINDS :: "string list" where
  "CHAIN_WALLET_KINDS = [''address'', ''descriptor'', ''samourai'', ''silent-payment'', ''wasabi'', ''xpub'']"

definition normalize_wallet_kind_alias :: "string \<Rightarrow> string" where
  "normalize_wallet_kind_alias v =
     (let n = map (\<lambda>c. if c = CHR ''_'' then CHR ''-'' else c) (py_lower (py_strip v))
      in if n = ''core-ln'' \<or> n = ''core-lightning'' then ''coreln'' else n)"

definition hex64 :: "string \<Rightarrow> string option" where
  "hex64 v = (let text = py_strip v
     in if length text \<noteq> 64 \<or> \<not> list_all is_hex_digit text then None else Some (py_lower text))"

definition canonical_txid :: "string \<Rightarrow> string option" where
  "canonical_txid v = hex64 v"

definition normalized_payment_hash :: "string option \<Rightarrow> string" where
  "normalized_payment_hash v = str_or_empty (hex64 (str_or_empty v))"

definition is_bitcoin_rail_pair :: "string \<Rightarrow> string \<Rightarrow> bool" where
  "is_bitcoin_rail_pair out_asset in_asset \<longleftrightarrow>
     {py_upper (py_strip out_asset), py_upper (py_strip in_asset)} = {''BTC'', ''LBTC''}"

section \<open>Rows\<close>

record swap_evidence =
  se_provider :: string
  se_swap_id :: string
  se_kind :: string
  se_flow :: string
  se_status :: string
  se_send_txid :: string
  se_receive_txid :: string
  se_version :: string
  se_taproot :: string
  se_cooperative :: string
  se_spend_path :: string
  se_send_amount_msat :: "int option"
  se_receive_amount_msat :: "int option"
  se_amount_conflict :: bool
  se_route_conflict :: bool
  se_identity_conflict :: bool
  se_semantic_conflict :: bool

record match_row =
  mr_id :: string
  mr_wallet_id :: string
  mr_wallet_label :: string
  mr_wallet_kind :: string
  mr_kind :: string
  mr_import_source :: string
  mr_payment_hash :: "string option"
  mr_payment_hash_source :: "string option"
  mr_external_id :: string
  mr_occurred_at :: string
  mr_direction :: string
  mr_asset :: string
  mr_amount :: "int option"
  mr_fee :: "int option"
  mr_amount_includes_fee :: bool
  mr_excluded :: bool
  mr_parsed_at :: "rat option"
  mr_domain :: "string option"
  mr_scope :: "(string \<times> string \<times> string) option"
  mr_verified_claim :: bool
  mr_evidence :: "swap_evidence option"
  mr_refund :: "string \<times> int option \<times> bool"
  mr_outputs :: "(int \<times> int option) list"

abbreviation row_amount :: "match_row \<Rightarrow> int" where
  "row_amount row \<equiv> int_or_0 (mr_amount row)"

definition UNKNOWN_OCCURRED_AT :: string where
  "UNKNOWN_OCCURRED_AT = ''1970-01-01T00:00:00Z''"

definition occurred_at_seconds :: "match_row \<Rightarrow> rat option" where
  "occurred_at_seconds row =
     (if py_strip (mr_occurred_at row) = UNKNOWN_OCCURRED_AT then None else mr_parsed_at row)"

definition observed_onchain_txid :: "match_row \<Rightarrow> string option" where
  "observed_onchain_txid row = (case mr_scope row of None \<Rightarrow> None | Some (_, _, txid) \<Rightarrow> Some txid)"

definition compatible_network_domains :: "string option \<Rightarrow> string option \<Rightarrow> bool" where
  "compatible_network_domains left right \<longleftrightarrow> left = None \<or> right = None \<or> left = right"

definition is_lightning_payment_hash_row :: "match_row \<Rightarrow> bool" where
  "is_lightning_payment_hash_row row =
     (let source = py_lower (py_strip (str_or_empty (mr_payment_hash_source row)));
          kind = py_lower (py_strip (mr_kind row));
          import_source = py_lower (py_strip (mr_import_source row))
      in if source \<in> {''chain_script'', ''chain_script_unique_outpoint''} then False
         else if source = ''lnd'' then import_source = ''lnd'' \<and> kind \<in> {''lnd_invoice'', ''lnd_pay''}
         else if source = ''core_lightning''
           then import_source = ''core-lightning'' \<and> kind \<in> {''cln_invoice'', ''cln_pay'', ''ln_invoice'', ''ln_pay''}
         else False)"

definition payment_hash_role :: "match_row \<Rightarrow> string" where
  "payment_hash_role row =
     (if is_lightning_payment_hash_row row then ''lightning_node''
      else let source = py_lower (py_strip (str_or_empty (mr_payment_hash_source row)))
      in if source = ''chain_script_unique_outpoint''
           then (if mr_verified_claim row then ''chain_htlc'' else ''chain_htlc_unscoped'')
         else if source = ''chain_script'' then ''chain_htlc_unscoped''
         else if source \<in> {''boltz'', ''boltz-regtest'', ''bullbitcoin'', ''generic_ledger'', ''importer'', ''importer_backfill''}
           then ''provider_or_import''
         else ''unknown'')"

definition payment_hash_confidence :: "match_row \<Rightarrow> match_row \<Rightarrow> string option" where
  "payment_hash_confidence out_row in_row =
     (let roles = {payment_hash_role out_row, payment_hash_role in_row}
      in if ''unknown'' \<in> roles \<or> ''chain_htlc_unscoped'' \<in> roles then None
         else if roles = {''lightning_node'', ''chain_htlc''} then Some ''exact''
         else if ''lightning_node'' \<in> roles \<and> ''provider_or_import'' \<in> roles then Some ''strong''
         else if roles = {''provider_or_import''} then Some ''strong''
         else if roles = {''chain_htlc'', ''provider_or_import''} then Some ''strong''
         else None)"

section \<open>Fees\<close>

text \<open>The double of 0.01.\<close>

definition DEFAULT_FEE_PCT_MAX :: rat where
  "DEFAULT_FEE_PCT_MAX = to_float (1 / 100)"

definition DEFAULT_FEE_SATS_MIN :: int where
  "DEFAULT_FEE_SATS_MIN = 2500"

definition fee_threshold_msat :: "int \<Rightarrow> rat \<Rightarrow> int \<Rightarrow> int" where
  "fee_threshold_msat out_amount fee_pct_max fee_sats_min =
     (let product = to_float (to_float (of_int \<bar>out_amount\<bar>) * fee_pct_max);
          pct_floor = (if product < 0 then - \<lfloor>- product\<rfloor> else \<lfloor>product\<rfloor>)
      in max pct_floor (fee_sats_min * 1000))"

definition amounts_conserve :: "match_row \<Rightarrow> match_row \<Rightarrow> bool" where
  "amounts_conserve out_row in_row =
     (let out_amount = row_amount out_row; in_amount = row_amount in_row
      in if out_amount \<le> 0 \<or> in_amount \<le> 0 \<or> in_amount > out_amount then False
         else out_amount - in_amount \<le> fee_threshold_msat out_amount DEFAULT_FEE_PCT_MAX DEFAULT_FEE_SATS_MIN)"

record swap_fee_components =
  fc_source_fee_msat :: int
  fc_source_fee_kind :: string
  fc_bridge_delta_msat :: int
  fc_bridge_delta_kind :: string
  fc_total_msat :: int

definition compute_swap_fee_components :: "int \<Rightarrow> int \<Rightarrow> int \<Rightarrow> swap_fee_components" where
  "compute_swap_fee_components out_amount in_amount out_fee =
     (let source_fee = max 0 out_fee; bridge_delta = out_amount - in_amount
      in \<lparr>fc_source_fee_msat = source_fee, fc_source_fee_kind = ''source_network_or_routing'',
          fc_bridge_delta_msat = bridge_delta, fc_bridge_delta_kind = ''unallocated_bridge_delta'',
          fc_total_msat = source_fee + bridge_delta\<rparr>)"

definition compute_swap_fee :: "int \<Rightarrow> int \<Rightarrow> int \<Rightarrow> int \<times> string" where
  "compute_swap_fee out_amount in_amount out_fee =
     (fc_total_msat (compute_swap_fee_components out_amount in_amount out_fee), ''combined'')"

definition outbound_fee_component_msat :: "match_row \<Rightarrow> int" where
  "outbound_fee_component_msat row =
     (if mr_amount_includes_fee row then 0 else max 0 (int_or_0 (mr_fee row)))"

section \<open>Candidates\<close>

definition default_kind_for :: "string \<Rightarrow> string \<Rightarrow> string \<Rightarrow> string \<Rightarrow> string" where
  "default_kind_for out_asset in_asset out_wallet_kind in_wallet_kind =
     (case (canonical_bitcoin_asset out_asset, canonical_bitcoin_asset in_asset) of
        (Some oa, Some ia) \<Rightarrow>
          (let out_kind = normalize_wallet_kind_alias out_wallet_kind;
               in_kind = normalize_wallet_kind_alias in_wallet_kind;
               out_ln = out_kind \<in> set LIGHTNING_WALLET_KINDS;
               in_ln = in_kind \<in> set LIGHTNING_WALLET_KINDS
           in if out_ln \<and> \<not> in_ln then ''reverse-submarine-swap''
              else if in_ln \<and> \<not> out_ln then ''submarine-swap''
              else if out_kind \<in> set CHAIN_WALLET_KINDS \<and> in_kind \<in> set CHAIN_WALLET_KINDS
                      \<and> oa = ''BTC'' \<and> ia = ''LBTC'' then ''peg-in''
              else if out_kind \<in> set CHAIN_WALLET_KINDS \<and> in_kind \<in> set CHAIN_WALLET_KINDS
                      \<and> oa = ''LBTC'' \<and> ia = ''BTC'' then ''peg-out''
              else ''manual'')
      | _ \<Rightarrow> ''manual'')"

definition default_ownership_policy_for :: "string \<Rightarrow> string \<Rightarrow> string" where
  "default_ownership_policy_for out_asset in_asset =
     (if is_bitcoin_rail_pair out_asset in_asset then ''carrying-value'' else ''taxable'')"

record candidate_evidence =
  ce_provider :: string
  ce_id :: string
  ce_kind :: string
  ce_status :: string
  ce_version :: string
  ce_taproot :: string
  ce_cooperative :: string
  ce_spend_path :: string
  ce_conflicts :: "string list"
  ce_send_amount_msat :: "int option"
  ce_receive_amount_msat :: "int option"

record swap_candidate =
  sc_out_id :: string
  sc_in_id :: string
  sc_out_asset :: string
  sc_in_asset :: string
  sc_out_amount_msat :: int
  sc_in_amount_msat :: int
  sc_out_wallet_id :: string
  sc_in_wallet_id :: string
  sc_out_wallet_label :: string
  sc_in_wallet_label :: string
  sc_out_wallet_kind :: string
  sc_in_wallet_kind :: string
  sc_out_occurred_at :: string
  sc_in_occurred_at :: string
  sc_confidence :: string
  sc_method :: string
  sc_swap_fee_msat :: int
  sc_swap_fee_kind :: string
  sc_default_kind :: string
  sc_default_policy :: string
  sc_conflict_set_id :: string
  sc_conflict_size :: int
  sc_evidence :: candidate_evidence

definition evidence_conflict_names :: "swap_evidence option \<Rightarrow> string list" where
  "evidence_conflict_names evidence =
     (case evidence of
        None \<Rightarrow> []
      | Some e \<Rightarrow> map fst (filter snd [(''amount'', se_amount_conflict e), (''route'', se_route_conflict e),
                     (''identity'', se_identity_conflict e), (''semantic'', se_semantic_conflict e)]))"

definition flat_evidence :: "swap_evidence option \<Rightarrow> candidate_evidence" where
  "flat_evidence evidence =
     (let text = (\<lambda>f. case evidence of None \<Rightarrow> '''' | Some e \<Rightarrow> f e);
          amount = (\<lambda>f. case evidence of None \<Rightarrow> None | Some e \<Rightarrow> f e)
      in \<lparr>ce_provider = text se_provider, ce_id = text se_swap_id, ce_kind = text se_kind,
          ce_status = text se_status, ce_version = text se_version, ce_taproot = text se_taproot,
          ce_cooperative = text se_cooperative, ce_spend_path = text se_spend_path,
          ce_conflicts = evidence_conflict_names evidence,
          ce_send_amount_msat = amount se_send_amount_msat,
          ce_receive_amount_msat = amount se_receive_amount_msat\<rparr>)"

definition build_candidate :: "match_row \<Rightarrow> match_row \<Rightarrow> string \<Rightarrow> string \<Rightarrow> string \<Rightarrow> swap_evidence option
    \<Rightarrow> swap_candidate" where
  "build_candidate out_row in_row confidence method kind evidence =
     (let (fee, fee_kind) = compute_swap_fee (row_amount out_row) (row_amount in_row) (outbound_fee_component_msat out_row);
          policy_asset = (\<lambda>a. case canonical_bitcoin_asset a of Some c \<Rightarrow> c | None \<Rightarrow> py_upper a);
          out_policy = policy_asset (mr_asset out_row); in_policy = policy_asset (mr_asset in_row)
      in \<lparr>sc_out_id = mr_id out_row, sc_in_id = mr_id in_row,
          sc_out_asset = mr_asset out_row, sc_in_asset = mr_asset in_row,
          sc_out_amount_msat = row_amount out_row, sc_in_amount_msat = row_amount in_row,
          sc_out_wallet_id = mr_wallet_id out_row, sc_in_wallet_id = mr_wallet_id in_row,
          sc_out_wallet_label = mr_wallet_label out_row, sc_in_wallet_label = mr_wallet_label in_row,
          sc_out_wallet_kind = mr_wallet_kind out_row, sc_in_wallet_kind = mr_wallet_kind in_row,
          sc_out_occurred_at = mr_occurred_at out_row, sc_in_occurred_at = mr_occurred_at in_row,
          sc_confidence = confidence, sc_method = method, sc_swap_fee_msat = fee, sc_swap_fee_kind = fee_kind,
          sc_default_kind = (if kind \<noteq> '''' then kind
             else default_kind_for (mr_asset out_row) (mr_asset in_row) (mr_wallet_kind out_row) (mr_wallet_kind in_row)),
          sc_default_policy = (if out_policy = in_policy then ''carrying-value''
             else default_ownership_policy_for out_policy in_policy),
          sc_conflict_set_id = '''', sc_conflict_size = 1, sc_evidence = flat_evidence evidence\<rparr>)"

lemma build_candidate_fields [simp]:
  "sc_out_id (build_candidate o_row i_row c m k e) = mr_id o_row"
  "sc_in_id (build_candidate o_row i_row c m k e) = mr_id i_row"
  "sc_confidence (build_candidate o_row i_row c m k e) = c"
  "sc_method (build_candidate o_row i_row c m k e) = m"
  by (simp_all add: build_candidate_def Let_def split: prod.splits)

end
