(* ===== verification/Merge_Find.thy ===== *)
theory Merge_Find
  imports Prelude
begin

text \<open>
  The union-find of the swap matcher (\<open>find\<close> and \<open>union\<close> inside
  \<open>core/transfer_matching.py\<close>, \<open>_stamp_conflict_set_ids\<close>): a dictionary of parents over strings, with
  path halving, where the smaller root of two becomes the root of both. The locale
  \<open>least_representatives\<close> states what a client may rely on; the dictionary interprets it.
\<close>

section \<open>Parents\<close>

definition uf_up :: "(string, string) dict \<Rightarrow> string \<Rightarrow> string" where
  "uf_up parent node = dict_get parent node node"

partial_function (option) uf_find ::
  "(string, string) dict \<Rightarrow> string \<Rightarrow> ((string, string) dict \<times> string) option" where
  "uf_find parent node =
     (if uf_up parent node = node then Some (parent, node)
      else let parent' = AList.update node (uf_up parent (uf_up parent node)) parent
           in uf_find parent' (uf_up parent' node))"

declare uf_find.simps [code]

definition uf_union :: "(string, string) dict \<Rightarrow> string \<Rightarrow> string \<Rightarrow> (string, string) dict option" where
  "uf_union parent a b =
     (case uf_find parent a of
        None \<Rightarrow> None
      | Some (parent1, root_a) \<Rightarrow>
          (case uf_find parent1 b of
             None \<Rightarrow> None
           | Some (parent2, root_b) \<Rightarrow>
               if root_a = root_b then Some parent2
               else if root_a < root_b then Some (AList.update root_b root_a parent2)
               else Some (AList.update root_a root_b parent2)))"

lemma uf_up_update [simp]: "uf_up (AList.update k v p) x = (if x = k then v else uf_up p x)"
  by (simp add: uf_up_def dict_get_update)

section \<open>Representatives\<close>

text \<open>A dictionary stands for a function that sends every string to the least one of its class: it
  is constant along parents, its fixed points are the roots, and parents are not larger.\<close>

definition uf_rep :: "(string, string) dict \<Rightarrow> (string \<Rightarrow> string) \<Rightarrow> bool" where
  "uf_rep p r \<longleftrightarrow> (\<forall>x. r (uf_up p x) = r x) \<and> (\<forall>x. uf_up p x = x \<longleftrightarrow> r x = x)
     \<and> (\<forall>x. r (r x) = r x) \<and> (\<forall>x. uf_up p x \<le> x) \<and> (\<forall>x. r x \<le> x)"

lemma uf_repD:
  assumes "uf_rep p r"
  shows "r (uf_up p x) = r x" "uf_up p x = x \<longleftrightarrow> r x = x" "r (r x) = r x" "uf_up p x \<le> x" "r x \<le> x"
  using assms by (simp_all add: uf_rep_def)

lemma uf_rep_start: "\<forall>(k, v) \<in> set p. v = k \<Longrightarrow> uf_rep p (\<lambda>x. x)"
proof -
  assume start: "\<forall>(k, v) \<in> set p. v = k"
  have "uf_up p x = x" for x
    using start by (auto simp: uf_up_def dict_get_def dest: map_of_SomeD split: option.splits)
  then show ?thesis by (simp add: uf_rep_def)
qed

lemma uf_rep_halve:
  assumes rep: "uf_rep p r" and ne: "uf_up p x \<noteq> x"
  shows "uf_rep (AList.update x (uf_up p (uf_up p x)) p) r" "uf_up p (uf_up p x) < x" "x \<in> fst ` set p"
proof -
  note d = uf_repD [OF rep]
  show less: "uf_up p (uf_up p x) < x"
    using d(4) [of "uf_up p x"] d(4) [of x] ne by (meson le_less_trans order_le_imp_less_or_eq)
  show "uf_rep (AList.update x (uf_up p (uf_up p x)) p) r"
    unfolding uf_rep_def using d ne less by (auto simp: order.strict_implies_order)
  show "x \<in> fst ` set p"
    using ne by (auto simp: uf_up_def dict_get_def dest: map_of_SomeD split: option.splits intro: rev_image_eqI)
qed

lemma uf_find_correct:
  assumes "uf_rep p r"
  shows "\<exists>p'. uf_find p x = Some (p', r x) \<and> uf_rep p' r \<and> fst ` set p' = fst ` set p"
  using assms
proof (induction "card {k \<in> fst ` set p. k \<le> x}" arbitrary: p x rule: less_induct)
  case less
  show ?case
  proof (cases "uf_up p x = x")
    case True
    then show ?thesis using less.prems uf_repD(2) [OF less.prems, of x] by (subst uf_find.simps) simp
  next
    case False
    note halve = uf_rep_halve [OF less.prems False]
    let ?up = "uf_up p (uf_up p x)" and ?p = "AList.update x (uf_up p (uf_up p x)) p"
    have keys: "fst ` set ?p = fst ` set p" using halve(3) by (auto simp: update_fst_image)
    have "{k \<in> fst ` set p. k \<le> ?up} \<subseteq> {k \<in> fst ` set p. k \<le> x}"
      using halve(2) by (auto intro: order.trans)
    moreover have "x \<in> {k \<in> fst ` set p. k \<le> x}" "x \<notin> {k \<in> fst ` set p. k \<le> ?up}"
      using halve(2,3) by (simp_all add: not_le)
    ultimately have "{k \<in> fst ` set ?p. k \<le> ?up} \<subset> {k \<in> fst ` set p. k \<le> x}"
      unfolding keys by blast
    then have "card {k \<in> fst ` set ?p. k \<le> ?up} < card {k \<in> fst ` set p. k \<le> x}"
      by (intro psubset_card_mono) auto
    from less.hyps [OF this halve(1)] obtain p' where
      p': "uf_find ?p ?up = Some (p', r ?up)" "uf_rep p' r" "fst ` set p' = fst ` set p"
      using keys by auto
    moreover have "r ?up = r x" using uf_repD(1) [OF less.prems] by simp
    ultimately show ?thesis using False by (subst uf_find.simps) (simp add: Let_def)
  qed
qed

text \<open>Merging the classes of two elements: both get the smaller representative.\<close>

definition merged :: "('a \<Rightarrow> 'b::linorder) \<Rightarrow> 'a \<Rightarrow> 'a \<Rightarrow> 'a \<Rightarrow> 'b" where
  "merged r a b x = (if r x = r a \<or> r x = r b then min (r a) (r b) else r x)"

lemma uf_rep_link:
  assumes rep: "uf_rep p r" and "r lo = lo" "r hi = hi" "lo < hi"
    and m: "\<And>x. m x = (if r x = lo \<or> r x = hi then lo else r x)"
  shows "uf_rep (AList.update hi lo p) m"
  unfolding uf_rep_def
proof (intro conjI allI)
  note d = uf_repD [OF rep]
  fix x
  show "m (uf_up (AList.update hi lo p) x) = m x" using d assms(2-4) by (auto simp: m)
  show "(uf_up (AList.update hi lo p) x = x) = (m x = x)" using d assms(2-4) by (auto simp: m)
  show "m (m x) = m x" using d assms(2-4) by (auto simp: m)
  show "uf_up (AList.update hi lo p) x \<le> x" using d assms(4) by auto
  have "lo \<le> x" if "r x = hi" using d(5) [of x] that assms(4) by auto
  then show "m x \<le> x" using d(5) [of x] by (auto simp: m)
qed

lemma uf_union_correct:
  assumes rep: "uf_rep p r"
  shows "\<exists>p'. uf_union p a b = Some p' \<and> uf_rep p' (merged r a b)"
proof -
  obtain p1 where p1: "uf_find p a = Some (p1, r a)" "uf_rep p1 r" using uf_find_correct [OF rep] by blast
  obtain p2 where p2: "uf_find p1 b = Some (p2, r b)" "uf_rep p2 r" using uf_find_correct [OF p1(2)] by blast
  note d = uf_repD [OF rep]
  consider "r a = r b" | "r a < r b" | "r b < r a" by fastforce
  then show ?thesis
  proof cases
    case 1
    then have "merged r a b = r" by (auto simp: merged_def fun_eq_iff)
    then show ?thesis using p1 p2 1 by (simp add: uf_union_def)
  next
    case 2
    then have "uf_rep (AList.update (r b) (r a) p2) (merged r a b)"
      by (intro uf_rep_link [OF p2(2)]) (auto simp: merged_def d min_def)
    then show ?thesis using p1 p2 2 by (auto simp: uf_union_def)
  next
    case 3
    then have "uf_rep (AList.update (r a) (r b) p2) (merged r a b)"
      by (intro uf_rep_link [OF p2(2)]) (auto simp: merged_def d min_def)
    then show ?thesis using p1 p2 3 by (auto simp: uf_union_def)
  qed
qed

section \<open>What a client relies on\<close>

text \<open>Two elements are connected by a set of pairs when a chain of pairs leads from one to the
  other.\<close>

definition joined :: "('a \<times> 'a) set \<Rightarrow> 'a \<Rightarrow> 'a \<Rightarrow> bool" where
  "joined P x y \<longleftrightarrow> (x, y) \<in> (P \<union> P\<inverse>)\<^sup>*"

lemma joined_refl [simp]: "joined P x x"
  by (simp add: joined_def)

lemma joined_trans: "joined P x y \<Longrightarrow> joined P y z \<Longrightarrow> joined P x z"
  unfolding joined_def by (rule rtrancl_trans)

lemma joined_sym: "joined P x y \<Longrightarrow> joined P y x"
proof -
  have "sym ((P \<union> P\<inverse>)\<^sup>*)" by (rule sym_rtrancl) (rule sym_Un_converse)
  then show "joined P x y \<Longrightarrow> joined P y x" unfolding joined_def by (rule symD)
qed

lemma joined_pair: "(x, y) \<in> P \<Longrightarrow> joined P x y"
  unfolding joined_def by blast

lemma joined_mono: "joined P x y \<Longrightarrow> P \<subseteq> Q \<Longrightarrow> joined Q x y"
proof -
  assume "P \<subseteq> Q"
  then have "(P \<union> P\<inverse>)\<^sup>* \<subseteq> (Q \<union> Q\<inverse>)\<^sup>*" by (intro rtrancl_mono) auto
  then show "joined P x y \<Longrightarrow> joined Q x y" unfolding joined_def by blast
qed

text \<open>A relation that contains the pairs and is an equivalence contains all connections.\<close>

lemma joined_induct:
  assumes "joined P x y" and pairs: "\<And>a b. (a, b) \<in> P \<Longrightarrow> f a = f b"
  shows "f x = f y"
  using assms(1) unfolding joined_def
proof (induction rule: rtrancl_induct)
  case (step y z)
  then show ?case using pairs by fastforce
qed simp

lemma joined_closure:
  assumes "\<And>a b. (a, b) \<in> P \<Longrightarrow> joined Q a b" "joined P x y"
  shows "joined Q x y"
  using assms(2) unfolding joined_def [of P]
proof (induction rule: rtrancl_induct)
  case (step y z)
  have "joined Q y z"
    using step.hyps(2) assms(1) [of y z] assms(1) [of z y] joined_sym [of Q z y] by auto
  then show ?case by (rule joined_trans [OF step.IH])
qed simp

lemma joined_insert:
  assumes classes: "\<And>x y. r x = r y \<longleftrightarrow> joined P x y"
  shows "merged r a b x = merged r a b y \<longleftrightarrow> joined (insert (a, b) P) x y"
proof
  let ?Q = "insert (a, b) P"
  have old: "joined ?Q u v" if "r u = r v" for u v
    using that classes joined_mono [of P u v ?Q] by blast
  have ab: "joined ?Q a b" "joined ?Q b a" by (auto intro: joined_pair joined_sym)
  assume "merged r a b x = merged r a b y"
  then have "r x = r y \<or> r x \<in> {r a, r b} \<and> r y \<in> {r a, r b}"
    by (auto simp: merged_def min_def split: if_splits)
  then show "joined ?Q x y"
  proof
    assume xy: "r x \<in> {r a, r b} \<and> r y \<in> {r a, r b}"
    have near: "joined ?Q u a" if u: "r u \<in> {r a, r b}" for u
    proof (cases "r u = r a")
      case False
      then have "joined ?Q u b" using u by (intro old) simp
      then show ?thesis using ab(2) by (rule joined_trans)
    qed (rule old)
    have "joined ?Q x a" by (rule near) (use xy in blast)
    moreover have "joined ?Q a y" by (rule joined_sym, rule near) (use xy in blast)
    ultimately show ?thesis by (rule joined_trans)
  qed (rule old)
next
  assume "joined (insert (a, b) P) x y"
  then show "merged r a b x = merged r a b y"
  proof (rule joined_induct)
    fix u v
    assume uv: "(u, v) \<in> insert (a, b) P"
    then have "r u = r v \<or> u = a \<and> v = b" using classes joined_pair [of u v P] by auto
    then show "merged r a b u = merged r a b v" by (auto simp: merged_def)
  qed
qed

text \<open>All unions of a list of pairs, and the representatives of a list, in sequence.\<close>

fun union_all :: "('s \<Rightarrow> 'a \<Rightarrow> 'a \<Rightarrow> 's option) \<Rightarrow> 's \<Rightarrow> ('a \<times> 'a) list \<Rightarrow> 's option" where
  "union_all link s [] = Some s"
| "union_all link s ((a, b) # rest) =
     (case link s a b of None \<Rightarrow> None | Some s' \<Rightarrow> union_all link s' rest)"

fun find_all :: "('s \<Rightarrow> 'a \<Rightarrow> ('s \<times> 'a) option) \<Rightarrow> 's \<Rightarrow> 'a list \<Rightarrow> ('s \<times> 'a list) option" where
  "find_all root_of s [] = Some (s, [])"
| "find_all root_of s (x # xs) =
     (case root_of s x of
        None \<Rightarrow> None
      | Some (s', root) \<Rightarrow>
          (case find_all root_of s' xs of None \<Rightarrow> None | Some (s'', roots) \<Rightarrow> Some (s'', root # roots)))"

locale least_representatives =
  fixes root_of :: "'s \<Rightarrow> 'a::linorder \<Rightarrow> ('s \<times> 'a) option"
    and link :: "'s \<Rightarrow> 'a \<Rightarrow> 'a \<Rightarrow> 's option"
    and rep :: "'s \<Rightarrow> ('a \<Rightarrow> 'a) \<Rightarrow> bool"
  assumes find_rep: "rep s r \<Longrightarrow> \<exists>s'. root_of s x = Some (s', r x) \<and> rep s' r"
    and union_rep: "rep s r \<Longrightarrow> \<exists>s'. link s a b = Some s' \<and> rep s' (merged r a b)"
    and rep_le: "rep s r \<Longrightarrow> r x \<le> x"
    and rep_idem: "rep s r \<Longrightarrow> r (r x) = r x"
begin

text \<open>From a structure where everything is its own representative, the unions of a list of pairs
  give the connections by these pairs.\<close>

lemma union_all_rep:
  assumes "rep s r" and "\<And>x y. r x = r y \<longleftrightarrow> joined P x y"
  shows "\<exists>s' r'. union_all link s pairs = Some s' \<and> rep s' r' \<and> (\<forall>x y. r' x = r' y \<longleftrightarrow> joined (P \<union> set pairs) x y)"
  using assms
proof (induction pairs arbitrary: s r P)
  case (Cons ab pairs)
  obtain a b where ab: "ab = (a, b)" by fastforce
  obtain s1 where s1: "link s a b = Some s1" "rep s1 (merged r a b)" using union_rep [OF Cons.prems(1)] by blast
  have "\<And>x y. merged r a b x = merged r a b y \<longleftrightarrow> joined (insert (a, b) P) x y"
    by (rule joined_insert) (rule Cons.prems(2))
  from Cons.IH [OF s1(2) this] show ?case using s1(1) by (simp add: ab)
qed auto

lemma find_all_rep:
  "rep s r \<Longrightarrow> \<exists>s'. find_all root_of s xs = Some (s', map r xs) \<and> rep s' r"
proof (induction xs arbitrary: s)
  case (Cons x xs)
  obtain s1 where s1: "root_of s x = Some (s1, r x)" "rep s1 r" using find_rep [OF Cons.prems] by blast
  then show ?case using Cons.IH [OF s1(2)] by auto
qed simp

text \<open>A representative is the least element of its class.\<close>

lemma rep_least:
  assumes "rep s r" and "\<And>x y. r x = r y \<longleftrightarrow> joined P x y"
  shows "joined P x (r x)" "joined P x y \<Longrightarrow> r x \<le> y"
proof -
  show "joined P x (r x)" using assms(2) rep_idem [OF assms(1)] by metis
  assume "joined P x y"
  then have "r x = r y" using assms(2) by blast
  then show "r x \<le> y" using rep_le [OF assms(1), of y] by simp
qed

end

interpretation parents: least_representatives uf_find uf_union uf_rep
proof unfold_locales
  show "uf_rep s r \<Longrightarrow> \<exists>s'. uf_find s x = Some (s', r x) \<and> uf_rep s' r" for s r x
    using uf_find_correct by blast
qed (use uf_union_correct uf_repD in blast)+

end
