(* ===== verification/Conflict_Sets.thy ===== *)
theory Conflict_Sets
  imports Swap_Rows Merge_Find
begin

text \<open>
  Conflicts between swap candidates (\<open>core/transfer_matching.py\<close>: \<open>_dedupe_candidate_edges\<close>,
  \<open>finalize_candidate_conflicts\<close>, \<open>_stamp_conflict_set_ids\<close>). One candidate is kept per pair of rows,
  heuristics that touch a leg of exact evidence drop out, and union-find over the candidate keys gives
  every survivor the least key of its cluster and the size of the cluster.
\<close>

section \<open>Deduplication\<close>

abbreviation is_exact :: "swap_candidate \<Rightarrow> bool" where
  "is_exact c \<equiv> sc_confidence c = ''exact''"

abbreviation edge_of :: "swap_candidate \<Rightarrow> string \<times> string" where
  "edge_of c \<equiv> (sc_out_id c, sc_in_id c)"

definition method_rank :: "string \<Rightarrow> nat" where
  "method_rank m =
     (if m = ''htlc_refund'' then 0 else if m = ''payment_hash'' then 1
      else if m = ''provider_swap_id'' then 2 else if m = ''ownership_graph'' then 3
      else if m = ''heuristic'' then 4 else 99)"

definition candidate_rank :: "swap_candidate \<Rightarrow> nat \<times> nat" where
  "candidate_rank c = (if is_exact c then 0 else 1, method_rank (sc_method c))"

definition keep_stronger :: "swap_candidate \<Rightarrow> (string \<times> string, swap_candidate) dict
    \<Rightarrow> (string \<times> string, swap_candidate) dict" where
  "keep_stronger c by_edge =
     (case map_of by_edge (edge_of c) of
        None \<Rightarrow> AList.update (edge_of c) c by_edge
      | Some current \<Rightarrow>
          if candidate_rank c < candidate_rank current then AList.update (edge_of c) c by_edge else by_edge)"

definition dedupe_candidate_edges :: "swap_candidate list \<Rightarrow> swap_candidate list" where
  "dedupe_candidate_edges candidates = map snd (fold keep_stronger candidates [])"

section \<open>Clusters\<close>

definition candidate_key :: "swap_candidate \<Rightarrow> string" where
  "candidate_key c = sc_out_id c @ ''->'' @ sc_in_id c"

definition consumed_legs :: "swap_candidate list \<Rightarrow> string list" where
  "consumed_legs candidates = concat (map (\<lambda>c. [sc_out_id c, sc_in_id c]) (filter is_exact candidates))"

definition surviving_candidates :: "swap_candidate list \<Rightarrow> swap_candidate list" where
  "surviving_candidates candidates =
     (let consumed = consumed_legs candidates
      in filter is_exact candidates
         @ filter (\<lambda>c. \<not> is_exact c
             \<and> \<not> (sc_method c = ''heuristic'' \<and> (sc_out_id c \<in> set consumed \<or> sc_in_id c \<in> set consumed))) candidates)"

definition add_legs :: "swap_candidate \<Rightarrow> (string, string list) dict \<Rightarrow> (string, string list) dict" where
  "add_legs c legs = dict_append (sc_in_id c) (candidate_key c) (dict_append (sc_out_id c) (candidate_key c) legs)"

definition sibling_pairs :: "string list \<Rightarrow> (string \<times> string) list" where
  "sibling_pairs siblings =
     (case siblings of [] \<Rightarrow> [] | first # others \<Rightarrow> map (\<lambda>other. (first, other)) others)"

definition initial_parents :: "swap_candidate list \<Rightarrow> (string, string) dict" where
  "initial_parents surviving =
     fold (\<lambda>c parent. if map_of parent (candidate_key c) = None
                       then AList.update (candidate_key c) (candidate_key c) parent else parent) surviving []"

definition cluster_sizes :: "string list \<Rightarrow> (string, int) dict" where
  "cluster_sizes roots = fold (\<lambda>root sizes. AList.update root (dict_get sizes root 0 + 1) sizes) roots []"

definition stamp_conflict_set_ids :: "swap_candidate list \<Rightarrow> swap_candidate list option" where
  "stamp_conflict_set_ids candidates =
     (let surviving = surviving_candidates candidates;
          keys = map candidate_key surviving;
          legs = fold add_legs surviving [];
          pairs = concat (map (sibling_pairs \<circ> snd) legs)
      in case union_all uf_union (initial_parents surviving) pairs of
           None \<Rightarrow> None
         | Some parent \<Rightarrow>
             (case find_all uf_find parent keys of
                None \<Rightarrow> None
              | Some (parent', roots) \<Rightarrow>
                  (case find_all uf_find parent' keys of
                     None \<Rightarrow> None
                   | Some (_, roots') \<Rightarrow>
                       Some (map (\<lambda>(c, root). c\<lparr>sc_conflict_set_id := root,
                                sc_conflict_size := dict_get (cluster_sizes roots) root 0\<rparr>)
                              (zip surviving roots')))))"

definition finalize_candidate_conflicts :: "swap_candidate list \<Rightarrow> swap_candidate list option" where
  "finalize_candidate_conflicts candidates = stamp_conflict_set_ids (dedupe_candidate_edges candidates)"

section \<open>What deduplication keeps\<close>

definition edges_kept :: "swap_candidate list \<Rightarrow> (string \<times> string, swap_candidate) dict \<Rightarrow> bool" where
  "edges_kept cs d \<longleftrightarrow> distinct (map fst d) \<and> (\<forall>(e, c) \<in> set d. c \<in> set cs \<and> edge_of c = e)
     \<and> (\<forall>c \<in> set cs. \<exists>k. map_of d (edge_of c) = Some k \<and> candidate_rank k \<le> candidate_rank c)"

lemma keep_stronger_kept:
  assumes "edges_kept cs d"
  shows "edges_kept (cs @ [c]) (keep_stronger c d)"
proof -
  have dist: "distinct (map fst d)" using assms by (simp add: edges_kept_def)
  show ?thesis
  proof (cases "\<exists>k. map_of d (edge_of c) = Some k \<and> candidate_rank k \<le> candidate_rank c")
    case True
    then have "keep_stronger c d = d" by (auto simp: keep_stronger_def not_less)
    then show ?thesis using assms True by (auto simp: edges_kept_def)
  next
    case False
    then have step: "keep_stronger c d = AList.update (edge_of c) c d"
      by (auto simp: keep_stronger_def not_le split: option.splits)
    have "\<exists>k. map_of (AList.update (edge_of c) c d) (edge_of c') = Some k \<and> candidate_rank k \<le> candidate_rank c'"
      if "c' \<in> set (cs @ [c])" for c'
    proof (cases "edge_of c' = edge_of c")
      case True
      then show ?thesis using that False assms
        by (auto simp: update_conv' edges_kept_def) (metis linorder_linear order.trans)
    next
      case ne: False
      then have "c' \<in> set cs" using that by auto
      then show ?thesis using assms ne by (auto simp: update_conv' edges_kept_def)
    qed
    then show ?thesis unfolding step
      using assms distinct_update [OF dist] update_member [OF dist] by (fastforce simp: edges_kept_def)
  qed
qed

lemma dedupe_kept: "edges_kept cs (fold keep_stronger cs [])"
proof (induction cs rule: rev_induct)
  case Nil
  then show ?case by (simp add: edges_kept_def)
next
  case (snoc c cs)
  then show ?case by (simp add: keep_stronger_kept)
qed

lemma dedupe_spec:
  "distinct (map edge_of (dedupe_candidate_edges cs))"
  "set (dedupe_candidate_edges cs) \<subseteq> set cs"
  "c \<in> set cs \<Longrightarrow> \<exists>k \<in> set (dedupe_candidate_edges cs). edge_of k = edge_of c \<and> candidate_rank k \<le> candidate_rank c"
proof -
  let ?d = "fold keep_stronger cs []"
  note kept = dedupe_kept [of cs, unfolded edges_kept_def]
  have "map edge_of (map snd ?d) = map fst ?d" using kept by (auto simp: comp_def)
  then show "distinct (map edge_of (dedupe_candidate_edges cs))"
    using kept by (metis dedupe_candidate_edges_def)
  show "set (dedupe_candidate_edges cs) \<subseteq> set cs" using kept by (auto simp: dedupe_candidate_edges_def)
  assume "c \<in> set cs"
  then obtain k where k: "map_of ?d (edge_of c) = Some k" "candidate_rank k \<le> candidate_rank c" using kept by blast
  have "(edge_of c, k) \<in> set ?d" using k(1) by (rule map_of_SomeD)
  then show "\<exists>k \<in> set (dedupe_candidate_edges cs). edge_of k = edge_of c \<and> candidate_rank k \<le> candidate_rank c"
    using k(2) kept by (intro bexI [of _ k]) (auto simp: dedupe_candidate_edges_def intro: rev_image_eqI)
qed

section \<open>Shared legs\<close>

definition legs_of :: "swap_candidate \<Rightarrow> string set" where
  "legs_of c = {sc_out_id c, sc_in_id c}"

definition share_leg :: "swap_candidate \<Rightarrow> swap_candidate \<Rightarrow> bool" where
  "share_leg c d \<longleftrightarrow> legs_of c \<inter> legs_of d \<noteq> {}"

text \<open>Keys of survivors that share a leg, and the keys that chains of such candidates connect.\<close>

definition leg_links :: "swap_candidate list \<Rightarrow> (string \<times> string) set" where
  "leg_links S = {(candidate_key c, candidate_key d) | c d. c \<in> set S \<and> d \<in> set S \<and> share_leg c d}"

definition in_conflict :: "swap_candidate list \<Rightarrow> swap_candidate \<Rightarrow> swap_candidate \<Rightarrow> bool" where
  "in_conflict S c d \<longleftrightarrow> joined (leg_links S) (candidate_key c) (candidate_key d)"

lemma dict_get_append_one: "dict_get (dict_append k v d) l [] = dict_get d l [] @ (if l = k then [v] else [])"
  by (auto simp: dict_get_def map_of_dict_append)

lemma legs_dict:
  "set (dict_get (fold add_legs S []) l []) = {candidate_key c | c. c \<in> set S \<and> l \<in> legs_of c}"
  by (induction S rule: rev_induct) (auto simp: add_legs_def dict_get_append_one legs_of_def)

lemma legs_dict_distinct: "distinct (map fst (fold add_legs S []))"
  by (induction S rule: rev_induct) (simp_all add: add_legs_def distinct_dict_append)

lemma legs_dict_member:
  "(l, ks) \<in> set (fold add_legs S []) \<Longrightarrow> set ks = {candidate_key c | c. c \<in> set S \<and> l \<in> legs_of c}"
  using legs_dict [of S l] legs_dict_distinct [of S] by (simp add: dict_get_def)

lemma sibling_pairs_joined:
  assumes "x \<in> set ks" "y \<in> set ks" "set (sibling_pairs ks) \<subseteq> P"
  shows "joined P x y"
proof -
  obtain f rest where ks: "ks = f # rest" using assms(1) by (cases ks) auto
  have near: "joined P f z" if "z \<in> set ks" for z
    using that assms(3) by (auto simp: ks sibling_pairs_def intro: joined_pair)
  show ?thesis by (rule joined_trans [OF joined_sym [OF near [OF assms(1)]] near [OF assms(2)]])
qed

lemma sibling_pairs_member: "(x, y) \<in> set (sibling_pairs ks) \<Longrightarrow> x \<in> set ks \<and> y \<in> set ks"
  by (auto simp: sibling_pairs_def split: list.splits)

text \<open>The unions the code makes connect exactly what shared legs connect.\<close>

lemma unions_are_links:
  "joined (set (concat (map (sibling_pairs \<circ> snd) (fold add_legs S [])))) x y \<longleftrightarrow> joined (leg_links S) x y"
  (is "joined ?P x y \<longleftrightarrow> _")
proof
  assume "joined ?P x y"
  then show "joined (leg_links S) x y"
  proof (rule joined_mono)
    show "?P \<subseteq> leg_links S"
      using legs_dict_member sibling_pairs_member by (fastforce simp: leg_links_def share_leg_def)
  qed
next
  assume "joined (leg_links S) x y"
  then show "joined ?P x y"
  proof (rule joined_closure [rotated])
    fix a b
    assume "(a, b) \<in> leg_links S"
    then obtain c d l where cd: "a = candidate_key c" "b = candidate_key d" "c \<in> set S" "d \<in> set S"
      "l \<in> legs_of c" "l \<in> legs_of d" by (auto simp: leg_links_def share_leg_def)
    then have "a \<in> set (dict_get (fold add_legs S []) l [])" "b \<in> set (dict_get (fold add_legs S []) l [])"
      by (auto simp: legs_dict)
    moreover from this(1) obtain ks where "map_of (fold add_legs S []) l = Some ks"
      by (cases "map_of (fold add_legs S []) l") (auto simp: dict_get_def)
    then have "(l, ks) \<in> set (fold add_legs S [])" "dict_get (fold add_legs S []) l [] = ks"
      by (auto simp: dict_get_def dest: map_of_SomeD)
    ultimately show "joined ?P a b" by (intro sibling_pairs_joined [of a ks b]) force+
  qed
qed

lemma initial_parents_own: "\<forall>(k, v) \<in> set (initial_parents S). v = k"
proof -
  have "\<forall>(k, v) \<in> set p. v = k \<Longrightarrow> distinct (map fst p) \<Longrightarrow>
    (\<forall>(k, v) \<in> set (fold (\<lambda>c parent. if map_of parent (candidate_key c) = None
       then AList.update (candidate_key c) (candidate_key c) parent else parent) S p). v = k)" for p
  proof (induction S arbitrary: p)
    case (Cons c S)
    have "\<forall>(k, v) \<in> set (AList.update (candidate_key c) (candidate_key c) p). v = k"
      using Cons.prems update_member [OF Cons.prems(2)] by fastforce
    then show ?case using Cons.IH Cons.prems distinct_update [OF Cons.prems(2)] by simp
  qed simp
  from this [of "[]"] show ?thesis by (simp add: initial_parents_def)
qed

lemma cluster_sizes_get: "dict_get (cluster_sizes roots) k 0 = int (length (filter (\<lambda>x. x = k) roots))"
proof -
  have "dict_get (fold (\<lambda>root sizes. AList.update root (dict_get sizes root 0 + 1) sizes) roots d) k 0
    = dict_get d k 0 + int (length (filter (\<lambda>x. x = k) roots))" for d
    by (induction roots arbitrary: d) (auto simp: dict_get_update)
  from this [of "[]"] show ?thesis by (simp add: cluster_sizes_def)
qed

section \<open>What the stamps mean\<close>

text \<open>A stamped candidate is the survivor itself with two fields set: the least key that chains of
  shared legs connect to its own, and the number of survivors so connected.\<close>

definition stamped_from :: "swap_candidate list \<Rightarrow> swap_candidate \<Rightarrow> swap_candidate \<Rightarrow> bool" where
  "stamped_from S c d \<longleftrightarrow>
     d = c\<lparr>sc_conflict_set_id := sc_conflict_set_id d, sc_conflict_size := int (length (filter (in_conflict S c) S))\<rparr>
     \<and> joined (leg_links S) (candidate_key c) (sc_conflict_set_id d)
     \<and> (\<forall>k. joined (leg_links S) (candidate_key c) k \<longrightarrow> sc_conflict_set_id d \<le> k)"

lemma joined_empty: "joined {} x y \<longleftrightarrow> x = y"
  using joined_induct [of "{}" x y id] by auto

lemma stamp_spec:
  fixes cs :: "swap_candidate list"
  defines "S \<equiv> surviving_candidates cs"
  shows "\<exists>out. stamp_conflict_set_ids cs = Some out \<and> list_all2 (stamped_from S) S out"
proof -
  let ?pairs = "concat (map (sibling_pairs \<circ> snd) (fold add_legs S []))"
  have "uf_rep (initial_parents S) (\<lambda>x. x)" by (rule uf_rep_start [OF initial_parents_own])
  from parents.union_all_rep [OF this, of "{}" ?pairs] obtain p r where
    p: "union_all uf_union (initial_parents S) ?pairs = Some p" "uf_rep p r"
      "\<And>x y. r x = r y \<longleftrightarrow> joined (leg_links S) x y"
    by (auto simp: joined_empty unions_are_links [symmetric])
  obtain p1 where p1: "find_all uf_find p (map candidate_key S) = Some (p1, map r (map candidate_key S))" "uf_rep p1 r"
    using parents.find_all_rep [OF p(2)] by blast
  obtain p2 where p2: "find_all uf_find p1 (map candidate_key S) = Some (p2, map r (map candidate_key S))"
    using parents.find_all_rep [OF p1(2)] by blast
  let ?f = "\<lambda>c. c\<lparr>sc_conflict_set_id := r (candidate_key c),
    sc_conflict_size := dict_get (cluster_sizes (map (r \<circ> candidate_key) S)) (r (candidate_key c)) 0\<rparr>"
  have "stamp_conflict_set_ids cs = Some (map ?f S)"
    unfolding stamp_conflict_set_ids_def S_def [symmetric] Let_def p(1)
    by (simp add: p1(1) p2 zip_map2 zip_same_conv_map)
  moreover have "stamped_from S c (?f c)" for c
  proof -
    have "(\<lambda>d. r (candidate_key d) = r (candidate_key c)) = in_conflict S c"
      by (simp add: fun_eq_iff in_conflict_def p(3) [symmetric] eq_commute)
    then have "dict_get (cluster_sizes (map (r \<circ> candidate_key) S)) (r (candidate_key c)) 0
        = int (length (filter (in_conflict S c) S))"
      by (simp add: cluster_sizes_get filter_map comp_def)
    then show ?thesis using parents.rep_least [OF p(2,3)] by (simp add: stamped_from_def)
  qed
  ultimately show ?thesis by (auto simp: list_all2_map2 list_all2_same)
qed

lemma stamped_keeps:
  assumes "stamped_from S c d"
  shows "edge_of d = edge_of c \<and> legs_of d = legs_of c
    \<and> sc_conflict_size d = int (length (filter (in_conflict S c) S))"
proof -
  obtain k where "d = c\<lparr>sc_conflict_set_id := k, sc_conflict_size := int (length (filter (in_conflict S c) S))\<rparr>"
    using assms unfolding stamped_from_def by blast
  then show ?thesis by (simp add: legs_of_def)
qed

lemma surviving_distinct:
  assumes "distinct (map edge_of cs)"
  shows "distinct (map edge_of (surviving_candidates cs))"
proof -
  have "distinct (surviving_candidates cs)"
    using assms by (auto simp: surviving_candidates_def Let_def distinct_map)
  moreover have "inj_on edge_of (set (surviving_candidates cs))"
    using assms by (rule_tac inj_on_subset [of _ "set cs"]) (auto simp: surviving_candidates_def Let_def distinct_map)
  ultimately show ?thesis by (simp add: distinct_map)
qed

lemma finalize_spec:
  fixes cs :: "swap_candidate list"
  defines "S \<equiv> surviving_candidates (dedupe_candidate_edges cs)"
  shows "\<exists>out. finalize_candidate_conflicts cs = Some out \<and> list_all2 (stamped_from S) S out
    \<and> distinct (map edge_of out) \<and> set S \<subseteq> set cs"
proof -
  obtain out where out: "finalize_candidate_conflicts cs = Some out" "list_all2 (stamped_from S) S out"
    using stamp_spec [of "dedupe_candidate_edges cs"] by (auto simp: finalize_candidate_conflicts_def S_def)
  have "map edge_of S = map edge_of out"
    using out(2) by (induction rule: list_all2_induct) (auto dest: stamped_keeps)
  moreover have "distinct (map edge_of S)"
    unfolding S_def by (rule surviving_distinct [OF dedupe_spec(1)])
  ultimately show ?thesis using out dedupe_spec(2) [of cs] by (auto simp: S_def surviving_candidates_def Let_def)
qed

lemma finalized_distinct: "finalize_candidate_conflicts cs = Some out \<Longrightarrow> distinct (map edge_of out)"
  using finalize_spec [of cs] by auto

text \<open>C21: For every list of candidates \<open>finalize_candidate_conflicts\<close> terminates with a result. The result
  has one candidate per pair of rows; it stamps the survivors of the exact-over-heuristic rule, in order
  and otherwise unchanged, with the least key of their cluster and the cluster's size, where two
  survivors are in a cluster exactly when a chain of survivors that share legs connects them.\<close>

theorem conflict_sets_exact:
  "\<exists>out. finalize_candidate_conflicts cs = Some out
    \<and> list_all2 (stamped_from (surviving_candidates (dedupe_candidate_edges cs))) (surviving_candidates (dedupe_candidate_edges cs)) out
    \<and> distinct (map edge_of out) \<and> set (surviving_candidates (dedupe_candidate_edges cs)) \<subseteq> set cs"
  by (rule finalize_spec)

section \<open>Candidates without rivals\<close>

lemma two_in_filter:
  assumes "i < length xs" "j < length xs" "i \<noteq> j" "P (xs ! i)" "P (xs ! j)"
  shows "1 < length (filter P xs)"
proof -
  have "card {i, j} \<le> card {k. k < length xs \<and> P (xs ! k)}" using assms by (intro card_mono) auto
  then show ?thesis using assms(3) by (simp add: length_filter_conv_card)
qed

text \<open>A stamped candidate whose cluster has size one shares no leg with any other one.\<close>

lemma solo_shares_nothing:
  assumes "list_all2 (stamped_from S) S out" "i < length out" "j < length out" "i \<noteq> j"
    and "sc_conflict_size (out ! i) \<le> 1"
  shows "\<not> share_leg (out ! i) (out ! j)"
proof
  assume share: "share_leg (out ! i) (out ! j)"
  have len: "length out = length S" using assms(1) by (simp add: list_all2_lengthD)
  note at = list_all2_nthD2 [OF assms(1), THEN stamped_keeps]
  have "in_conflict S (S ! i) (S ! j)"
    unfolding in_conflict_def
    using share at [OF assms(2)] at [OF assms(3)] assms(2,3) len
    by (intro joined_pair) (auto simp: leg_links_def share_leg_def intro!: exI conjI [OF refl])
  then have "1 < length (filter (in_conflict S (S ! i)) S)"
    using assms(2-4) len by (intro two_in_filter [of i _ j]) (auto simp: in_conflict_def)
  then show False using at [OF assms(2)] assms(5) by simp
qed

lemma share_leg_self: "share_leg c c"
  by (simp add: share_leg_def legs_of_def)

lemma solo_in_finalized:
  assumes "finalize_candidate_conflicts cs = Some out" "c \<in> set out" "d \<in> set out" "c \<noteq> d"
    and "sc_conflict_size c \<le> 1"
  shows "\<not> share_leg c d"
proof -
  obtain i j where "i < length out" "j < length out" "c = out ! i" "d = out ! j" "i \<noteq> j"
    using assms(2-4) by (metis in_set_conv_nth)
  then show ?thesis
    using assms(1,5) stamp_spec [of "dedupe_candidate_edges cs"] solo_shares_nothing
    by (force simp: finalize_candidate_conflicts_def)
qed

end
