(* ===== verification/Swap_Rules.thy ===== *)
theory Swap_Rules
  imports Conflict_Sets Auth_Backoff "HOL-Library.Sublist"
begin

text \<open>
  Auto-pair rules over swap candidates (\<open>core/swap_rules.py\<close>, with \<open>parse_bool\<close> of \<open>util.py\<close>): decoding
  and validation of stored rules, matching of a candidate against a predicate, and the partition of
  the candidates into auto-paired and remaining ones. \<open>json.loads\<close> is an argument; a decoded number is
  an integer or a float, and \<open>float()\<close> of text is modelled.
\<close>

section \<open>Numbers in predicates\<close>

definition is_dec_digit :: "char \<Rightarrow> bool" where
  "is_dec_digit c = (let n = of_char c :: nat in 48 \<le> n \<and> n \<le> 57)"

definition dec_value :: "string \<Rightarrow> nat" where
  "dec_value s = foldl (\<lambda>v c. 10 * v + (of_char c - 48)) 0 s"

text \<open>Underscores are allowed between two digits only.\<close>

definition underscores_ok :: "string \<Rightarrow> bool" where
  "underscores_ok s \<longleftrightarrow> list_all (\<lambda>i. s ! i = CHR ''_'' \<longrightarrow>
     0 < i \<and> Suc i < length s \<and> is_dec_digit (s ! (i - 1)) \<and> is_dec_digit (s ! Suc i)) [0..<length s]"

definition split_sign :: "string \<Rightarrow> bool \<times> string" where
  "split_sign s = (case s of [] \<Rightarrow> (False, [])
     | c # cs \<Rightarrow> if c = CHR ''-'' then (True, cs) else if c = CHR ''+'' then (False, cs) else (False, s))"

definition parse_exponent :: "string \<Rightarrow> int option" where
  "parse_exponent s =
     (case s of
        [] \<Rightarrow> Some 0
      | c # cs \<Rightarrow>
          if c \<noteq> CHR ''e'' then None
          else let (neg, ds) = split_sign cs
          in if ds = [] \<or> \<not> list_all is_dec_digit ds then None
             else Some (if neg then - int (dec_value ds) else int (dec_value ds)))"

definition parse_decimal :: "string \<Rightarrow> rat option" where
  "parse_decimal s =
     (let ints = takeWhile is_dec_digit s; rest = dropWhile is_dec_digit s;
          dotted = (rest \<noteq> [] \<and> hd rest = CHR ''.'');
          frac = (if dotted then takeWhile is_dec_digit (tl rest) else []);
          tail = (if dotted then dropWhile is_dec_digit (tl rest) else rest)
      in if ints @ frac = [] then None
         else case parse_exponent tail of
           None \<Rightarrow> None
         | Some e \<Rightarrow>
             (let e' = e - int (length frac); m = of_nat (dec_value (ints @ frac))
              in Some (if 0 \<le> e' then m * 10 ^ nat e' else m / 10 ^ nat (- e'))))"

definition FLOAT_LIMIT :: rat where
  "FLOAT_LIMIT = 2 ^ 1024"

definition float_of_text :: "string \<Rightarrow> py_float option" where
  "float_of_text v =
     (let (neg, body) = split_sign (py_lower (py_strip v));
          sign = (\<lambda>x. if neg then - x else x);
          infinity = (if neg then NegInf else PosInf)
      in if body = ''inf'' \<or> body = ''infinity'' then Some infinity
         else if body = ''nan'' then Some NaN
         else if \<not> underscores_ok body then None
         else case parse_decimal (filter (\<lambda>c. c \<noteq> CHR ''_'') body) of
           None \<Rightarrow> None
         | Some x \<Rightarrow> Some (if FLOAT_LIMIT \<le> to_float x then infinity else Finite (sign (to_float x))))"

text \<open>A decoded JSON value; of a list or an object only whether it has elements matters.\<close>

datatype pvalue = PNull | PBool bool | PInt int | PFloat py_float | PText string | PCompound bool

datatype raw_predicate = RawNull | RawText string | RawObject "(string, pvalue) dict" | RawOther

text \<open>\<open>float(value)\<close>; the two exceptions its callers catch alike are one value here.\<close>

definition float_of :: "pvalue \<Rightarrow> py_float result" where
  "float_of v =
     (case v of
        PInt n \<Rightarrow> if FLOAT_LIMIT \<le> \<bar>to_float (of_int n)\<bar> then Inl OverflowError else Inr (Finite (to_float (of_int n)))
      | PBool b \<Rightarrow> Inr (Finite (if b then 1 else 0))
      | PFloat x \<Rightarrow> Inr x
      | PText s \<Rightarrow> (case float_of_text s of None \<Rightarrow> Inl (ValueError ''could not convert string to float'') | Some x \<Rightarrow> Inr x)
      | _ \<Rightarrow> Inl (ValueError ''float() argument must be a string or a real number''))"

definition finite_nonneg :: "py_float \<Rightarrow> bool" where
  "finite_nonneg x = (case x of Finite r \<Rightarrow> 0 \<le> r | _ \<Rightarrow> False)"

section \<open>Predicates\<close>

definition STRING_PREDICATE_FIELDS :: "string list" where
  "STRING_PREDICATE_FIELDS = [''out_wallet_id'', ''in_wallet_id'', ''out_wallet_kind'', ''in_wallet_kind'', ''out_asset'', ''in_asset'']"

definition PREDICATE_FIELDS :: "string list" where
  "PREDICATE_FIELDS = STRING_PREDICATE_FIELDS @ [''max_fee_pct'', ''min_confidence'']"

definition DEFAULT_MIN_CONFIDENCE :: string where
  "DEFAULT_MIN_CONFIDENCE = ''strong''"

text \<open>\<open>predicate.get(field)\<close>, and \<open>value in (None, "")\<close>.\<close>

definition pget :: "(string, pvalue) dict \<Rightarrow> string \<Rightarrow> pvalue" where
  "pget d k = dict_get d k PNull"

definition is_unset :: "pvalue \<Rightarrow> bool" where
  "is_unset v = (case v of PNull \<Rightarrow> True | PText s \<Rightarrow> s = '''' | _ \<Rightarrow> False)"

fun validate_strings :: "string list \<Rightarrow> (string, pvalue) dict \<Rightarrow> (string, pvalue) dict result" where
  "validate_strings [] predicate = Inr []"
| "validate_strings (field # others) predicate =
     (let v = pget predicate field
      in if is_unset v then validate_strings others predicate
         else case v of
           PText _ \<Rightarrow> bind_res (validate_strings others predicate) (\<lambda>rest. Inr ((field, v) # rest))
         | _ \<Rightarrow> Inl (ValueError (''predicate field '' @ quoted field @ '' must be a string'')))"

definition validate_max_fee :: "pvalue \<Rightarrow> (string, pvalue) dict result" where
  "validate_max_fee v =
     (if is_unset v then Inr []
      else case v of
        PBool _ \<Rightarrow> Inl (ValueError (''predicate field '' @ quoted ''max_fee_pct'' @ '' must be a number''))
      | _ \<Rightarrow>
        (case float_of v of
           Inl OverflowError \<Rightarrow> Inl OverflowError
         | Inl _ \<Rightarrow> Inl (ValueError (''predicate field '' @ quoted ''max_fee_pct'' @ '' must be a number''))
         | Inr x \<Rightarrow>
             if \<not> finite_nonneg x then Inl (ValueError (''predicate field '' @ quoted ''max_fee_pct'' @ '' must be a finite non-negative number''))
             else Inr [(''max_fee_pct'', PFloat x)]))"

definition validate_min_confidence :: "pvalue \<Rightarrow> (string, pvalue) dict result" where
  "validate_min_confidence v =
     (if is_unset v then Inr []
      else case v of
        PText s \<Rightarrow> if s \<noteq> ''strong'' \<and> s \<noteq> ''exact''
                     then Inl (ValueError (''predicate field '' @ quoted ''min_confidence'' @ '' must be one of: exact, strong''))
                   else Inr [(''min_confidence'', v)]
      | _ \<Rightarrow> Inl (ValueError (''predicate field '' @ quoted ''min_confidence'' @ '' must be a string'')))"

definition validate_rule_predicate :: "raw_predicate \<Rightarrow> (string, pvalue) dict result" where
  "validate_rule_predicate raw =
     (case raw of
        RawObject predicate \<Rightarrow>
          (let unknown_fields = sort (filter (\<lambda>k. k \<notin> set PREDICATE_FIELDS) (map fst predicate))
           in if unknown_fields \<noteq> []
                then Inl (ValueError (''predicate has unsupported field(s): '' @ join_with '', '' unknown_fields))
              else bind_res (validate_strings STRING_PREDICATE_FIELDS predicate) (\<lambda>strings.
                   bind_res (validate_max_fee (pget predicate ''max_fee_pct'')) (\<lambda>fee.
                   bind_res (validate_min_confidence (pget predicate ''min_confidence'')) (\<lambda>confidence.
                     Inr (strings @ fee @ confidence)))))
      | _ \<Rightarrow> Inl (ValueError ''predicate must be an object''))"

definition decode_rule_predicate :: "(string \<Rightarrow> raw_predicate option) \<Rightarrow> raw_predicate \<Rightarrow> (string, pvalue) dict result" where
  "decode_rule_predicate json_loads raw =
     (case raw of
        RawNull \<Rightarrow> Inr []
      | RawText s \<Rightarrow>
          if s = '''' then Inr []
          else (case json_loads s of
                  None \<Rightarrow> Inl (ValueError ''predicate JSON is invalid'')
                | Some predicate \<Rightarrow> validate_rule_predicate predicate)
      | _ \<Rightarrow> validate_rule_predicate raw)"

definition confidence_meets :: "string \<Rightarrow> string \<Rightarrow> bool" where
  "confidence_meets actual required =
     (if actual = required then True else required = ''strong'' \<and> actual = ''exact'')"

definition candidate_field :: "swap_candidate \<Rightarrow> string \<Rightarrow> pvalue" where
  "candidate_field c field =
     (if field = ''out_wallet_id'' then PText (sc_out_wallet_id c)
      else if field = ''in_wallet_id'' then PText (sc_in_wallet_id c)
      else if field = ''out_wallet_kind'' then PText (sc_out_wallet_kind c)
      else if field = ''in_wallet_kind'' then PText (sc_in_wallet_kind c)
      else if field = ''out_asset'' then PText (sc_out_asset c)
      else if field = ''in_asset'' then PText (sc_in_asset c) else PNull)"

text \<open>\<open>a / b\<close> of integers with a positive divisor: the nearest double of the quotient.\<close>

definition true_div :: "int \<Rightarrow> int \<Rightarrow> rat result" where
  "true_div a b = (let q = to_float (of_int a / of_int b) in if FLOAT_LIMIT \<le> \<bar>q\<bar> then Inl OverflowError else Inr q)"

definition fee_within :: "swap_candidate \<Rightarrow> pvalue \<Rightarrow> bool result" where
  "fee_within c expected =
     (case float_of expected of
        Inl OverflowError \<Rightarrow> Inl OverflowError
      | Inl _ \<Rightarrow> Inr False
      | Inr x \<Rightarrow>
          (case x of
             Finite limit \<Rightarrow>
               if limit < 0 \<or> sc_out_amount_msat c \<le> 0 then Inr False
               else bind_res (true_div \<bar>sc_swap_fee_msat c\<bar> (sc_out_amount_msat c)) (\<lambda>actual. Inr (\<not> actual > limit))
           | _ \<Rightarrow> Inr False))"

text \<open>The text of a value that is not a string is no confidence level.\<close>

definition field_matches :: "swap_candidate \<Rightarrow> string \<Rightarrow> pvalue \<Rightarrow> bool result" where
  "field_matches c field expected =
     (if is_unset expected then Inr True
      else if field = ''max_fee_pct'' then fee_within c expected
      else if field = ''min_confidence''
        then Inr (case expected of PText s \<Rightarrow> confidence_meets (sc_confidence c) s | _ \<Rightarrow> False)
      else Inr (candidate_field c field = expected))"

fun fields_match :: "swap_candidate \<Rightarrow> (string, pvalue) dict \<Rightarrow> string list \<Rightarrow> bool result" where
  "fields_match c validated [] = Inr True"
| "fields_match c validated (field # others) =
     bind_res (field_matches c field (pget validated field))
       (\<lambda>ok. if ok then fields_match c validated others else Inr False)"

definition predicate_matches :: "swap_candidate \<Rightarrow> (string, pvalue) dict \<Rightarrow> bool result" where
  "predicate_matches c predicate =
     (case validate_rule_predicate (RawObject predicate) of
        Inl (ValueError _) \<Rightarrow> Inr False
      | Inl e \<Rightarrow> Inl e
      | Inr validated \<Rightarrow> fields_match c validated PREDICATE_FIELDS)"

section \<open>Rules\<close>

record swap_matching_rule =
  ru_id :: string
  ru_profile_id :: string
  ru_name :: "string option"
  ru_predicate :: "(string, pvalue) dict"
  ru_kind :: string
  ru_policy :: string
  ru_enabled :: bool
  ru_invalid_reason :: "string option"

record rule_match =
  rm_rule_id :: string
  rm_rule_name :: "string option"
  rm_candidate :: swap_candidate

text \<open>A row of \<open>swap_matching_rules\<close>; \<open>st_enabled\<close> is the text of the column.\<close>

record stored_rule =
  st_id :: "string option"
  st_profile_id :: "string option"
  st_name :: "string option"
  st_predicate_json :: raw_predicate
  st_kind :: "string option"
  st_policy :: "string option"
  st_enabled :: "string option"

definition TRANSFER_PAIR_KINDS :: "string list" where
  "TRANSFER_PAIR_KINDS = [''manual'', ''coinjoin'', ''whirlpool'', ''chain-swap'', ''peg-in'', ''peg-out'',
     ''reverse-submarine-swap'', ''submarine-swap'', ''swap-refund'']"

definition TRANSFER_PAIR_POLICIES :: "string list" where
  "TRANSFER_PAIR_POLICIES = [''carrying-value'', ''taxable'']"

definition parse_bool :: "string option \<Rightarrow> bool \<Rightarrow> bool result" where
  "parse_bool v dflt =
     (case v of
        None \<Rightarrow> Inr dflt
      | Some s \<Rightarrow>
          (let text = py_lower (py_strip s)
           in if text \<in> {''1'', ''true'', ''yes'', ''on''} then Inr True
              else if text \<in> {''0'', ''false'', ''no'', ''off''} then Inr False
              else Inl (AppError ''app_error'' (''Invalid boolean value: '' @ s))))"

text \<open>A stored name: the default when it is missing or empty, reported and replaced when it is not
  an allowed one.\<close>

definition supported_or :: "string \<Rightarrow> string \<Rightarrow> string list \<Rightarrow> string option \<Rightarrow> string \<times> string list" where
  "supported_or label dflt allowed stored =
     (let v = str_or_empty (py_or stored (Some dflt))
      in if v \<notin> set allowed then (dflt, [''unsupported '' @ label @ '' '' @ quoted v]) else (v, []))"

definition load_rule :: "(string \<Rightarrow> raw_predicate option) \<Rightarrow> stored_rule \<Rightarrow> swap_matching_rule result" where
  "load_rule json_loads record =
     bind_res (case decode_rule_predicate json_loads (st_predicate_json record) of
                 Inl (ValueError message) \<Rightarrow> Inr ([], [message])
               | Inl e \<Rightarrow> Inl e
               | Inr predicate \<Rightarrow> Inr (predicate, []))
       (\<lambda>(predicate, bad_predicate).
          let (kind, bad_kind) = supported_or ''kind'' ''manual'' TRANSFER_PAIR_KINDS (st_kind record);
              (policy, bad_policy) = supported_or ''policy'' ''carrying-value'' TRANSFER_PAIR_POLICIES (st_policy record);
              invalid_messages = bad_predicate @ bad_kind @ bad_policy
          in bind_res (parse_bool (st_enabled record) True) (\<lambda>enabled.
               Inr \<lparr>ru_id = str_or_empty (st_id record), ru_profile_id = str_or_empty (st_profile_id record),
                    ru_name = st_name record, ru_predicate = predicate, ru_kind = kind, ru_policy = policy,
                    ru_enabled = (if invalid_messages \<noteq> [] then False else enabled),
                    ru_invalid_reason = (if join_with ''; '' invalid_messages = '''' then None
                                         else Some (join_with ''; '' invalid_messages))\<rparr>))"

definition rule_specificity :: "swap_matching_rule \<Rightarrow> int" where
  "rule_specificity rule = int (length (filter (\<lambda>field. \<not> is_unset (pget (ru_predicate rule) field)) PREDICATE_FIELDS))"

text \<open>The truth value of a decoded JSON scalar, and \<open>x or y\<close> followed by \<open>str\<close>.\<close>

definition rule_min_confidence :: "swap_matching_rule \<Rightarrow> string option" where
  "rule_min_confidence rule =
     (case pget (ru_predicate rule) ''min_confidence'' of
        PNull \<Rightarrow> Some DEFAULT_MIN_CONFIDENCE
      | PText s \<Rightarrow> Some (if s = '''' then DEFAULT_MIN_CONFIDENCE else s)
      | PBool b \<Rightarrow> if b then None else Some DEFAULT_MIN_CONFIDENCE
      | PInt n \<Rightarrow> if n = 0 then Some DEFAULT_MIN_CONFIDENCE else None
      | PFloat x \<Rightarrow> if x = Finite 0 then Some DEFAULT_MIN_CONFIDENCE else None
      | PCompound nonempty \<Rightarrow> if nonempty then None else Some DEFAULT_MIN_CONFIDENCE)"

definition rule_applies :: "swap_candidate \<Rightarrow> swap_matching_rule \<Rightarrow> bool result" where
  "rule_applies c rule =
     (case rule_min_confidence rule of
        None \<Rightarrow> Inr False
      | Some required \<Rightarrow>
          if \<not> confidence_meets (sc_confidence c) required then Inr False
          else predicate_matches c (ru_predicate rule))"

fun find_rule :: "swap_candidate \<Rightarrow> swap_matching_rule list \<Rightarrow> swap_matching_rule option result" where
  "find_rule c [] = Inr None"
| "find_rule c (rule # rules) =
     bind_res (rule_applies c rule) (\<lambda>ok. if ok then Inr (Some rule) else find_rule c rules)"

definition rule_order :: "swap_matching_rule \<Rightarrow> int \<times> string" where
  "rule_order rule = (- rule_specificity rule, ru_id rule)"

fun partition_candidates :: "swap_matching_rule list \<Rightarrow> swap_candidate list
    \<Rightarrow> (rule_match list \<times> swap_candidate list) result" where
  "partition_candidates enabled [] = Inr ([], [])"
| "partition_candidates enabled (c # cs) =
     bind_res (if sc_conflict_size c > 1 then Inr None else find_rule c enabled) (\<lambda>found.
     bind_res (partition_candidates enabled cs) (\<lambda>(auto_paired, remaining).
       Inr (case found of
              None \<Rightarrow> (auto_paired, c # remaining)
            | Some rule \<Rightarrow> (\<lparr>rm_rule_id = ru_id rule, rm_rule_name = ru_name rule, rm_candidate = c\<rparr> # auto_paired, remaining))))"

definition apply_rules :: "swap_candidate list \<Rightarrow> swap_matching_rule list
    \<Rightarrow> (rule_match list \<times> swap_candidate list) result" where
  "apply_rules candidates rules =
     partition_candidates (sort_key rule_order (filter ru_enabled rules)) candidates"

section \<open>Validation\<close>

text \<open>A predicate as validation leaves it.\<close>

definition valid_field :: "string \<Rightarrow> pvalue \<Rightarrow> bool" where
  "valid_field field v =
     (if field \<in> set STRING_PREDICATE_FIELDS then (\<exists>s. v = PText s \<and> s \<noteq> '''')
      else if field = ''max_fee_pct'' then (\<exists>r. v = PFloat (Finite r) \<and> 0 \<le> r)
      else field = ''min_confidence'' \<and> (v = PText ''strong'' \<or> v = PText ''exact''))"

definition valid_predicate :: "(string, pvalue) dict \<Rightarrow> bool" where
  "valid_predicate p \<longleftrightarrow> map fst p = filter (\<lambda>f. f \<in> set (map fst p)) PREDICATE_FIELDS
     \<and> (\<forall>(k, v) \<in> set p. valid_field k v)"

lemma distinct_fields: "distinct PREDICATE_FIELDS" "distinct STRING_PREDICATE_FIELDS"
  by (simp_all add: PREDICATE_FIELDS_def STRING_PREDICATE_FIELDS_def)

lemma validate_strings_shape:
  assumes "validate_strings fs p = Inr d" "distinct fs" "set fs \<subseteq> set STRING_PREDICATE_FIELDS"
  shows "map fst d = filter (\<lambda>f. \<not> is_unset (pget p f)) fs \<and> (\<forall>(k, v) \<in> set d. valid_field k v \<and> v = pget p k)"
  using assms
proof (induction fs arbitrary: d)
  case (Cons f fs)
  show ?case
  proof (cases "is_unset (pget p f)")
    case True
    then show ?thesis using Cons by (simp add: Let_def)
  next
    case False
    then obtain s rest where s: "pget p f = PText s" "s \<noteq> ''''" "validate_strings fs p = Inr rest" "d = (f, PText s) # rest"
      using Cons.prems(1) by (auto simp: Let_def is_unset_def result_simps split: pvalue.splits)
    then show ?thesis using Cons.IH [OF s(3)] Cons.prems by (simp add: False [simplified s(1)] valid_field_def)
  qed
qed simp

lemma validate_strings_id:
  assumes "\<And>f. f \<in> set fs \<Longrightarrow> is_unset (pget p f) \<or> (\<exists>s. pget p f = PText s)"
  shows "validate_strings fs p = Inr (map (\<lambda>f. (f, pget p f)) (filter (\<lambda>f. \<not> is_unset (pget p f)) fs))"
  using assms
proof (induction fs)
  case (Cons f fs)
  then have "validate_strings fs p = Inr (map (\<lambda>f. (f, pget p f)) (filter (\<lambda>f. \<not> is_unset (pget p f)) fs))" by simp
  then show ?case using Cons.prems [of f] by (auto simp: Let_def)
qed simp

lemma validate_max_fee_shape:
  "validate_max_fee v = Inr d \<Longrightarrow> d = [] \<and> is_unset v \<or> (\<exists>r. d = [(''max_fee_pct'', PFloat (Finite r))] \<and> 0 \<le> r \<and> \<not> is_unset v)"
  by (auto simp: validate_max_fee_def finite_nonneg_def split: if_splits pvalue.splits sum.splits py_error.splits py_float.splits)

lemma validate_min_confidence_shape:
  "validate_min_confidence v = Inr d \<Longrightarrow> d = [] \<and> is_unset v
     \<or> d = [(''min_confidence'', v)] \<and> (v = PText ''strong'' \<or> v = PText ''exact'')"
  by (auto simp: validate_min_confidence_def split: if_splits pvalue.splits)

lemma pget_not_key: "f \<notin> set (map fst p) \<Longrightarrow> pget p f = PNull"
  by (auto simp: pget_def dict_get_def map_of_eq_None_iff [THEN iffD2])

lemma valid_field_set: "valid_field k v \<Longrightarrow> \<not> is_unset v"
  by (auto simp: valid_field_def is_unset_def split: if_splits)

lemma valid_predicate_get:
  assumes "valid_predicate p"
  shows "\<not> is_unset (pget p f) \<longleftrightarrow> f \<in> set (map fst p)" "f \<in> set (map fst p) \<Longrightarrow> valid_field f (pget p f)"
    "p = map (\<lambda>f. (f, pget p f)) (filter (\<lambda>f. \<not> is_unset (pget p f)) PREDICATE_FIELDS)"
    "f \<in> set (map fst p) \<Longrightarrow> (f, pget p f) \<in> set p"
proof -
  have keys: "map fst p = filter (\<lambda>f. f \<in> set (map fst p)) PREDICATE_FIELDS"
    and ok: "\<And>k v. (k, v) \<in> set p \<Longrightarrow> valid_field k v"
    using assms unfolding valid_predicate_def by blast+
  have "distinct (map fst p)" by (subst keys) (simp add: distinct_fields)
  then have get: "pget p k = v" if "(k, v) \<in> set p" for k v using that by (simp add: pget_def dict_get_def)
  show "f \<in> set (map fst p) \<Longrightarrow> (f, pget p f) \<in> set p" using get by force
  show valid: "f \<in> set (map fst p) \<Longrightarrow> valid_field f (pget p f)" for f using get ok by force
  show set_iff: "\<not> is_unset (pget p f) \<longleftrightarrow> f \<in> set (map fst p)" for f
    using valid [of f] valid_field_set pget_not_key [of f p] by (cases "f \<in> set (map fst p)") (auto simp: is_unset_def)
  have "p = map (\<lambda>f. (f, pget p f)) (map fst p)" using get by (auto simp: comp_def intro!: map_idI [symmetric])
  also have "map fst p = filter (\<lambda>f. \<not> is_unset (pget p f)) PREDICATE_FIELDS"
    by (subst keys) (auto simp: set_iff intro!: filter_cong)
  finally show "p = map (\<lambda>f. (f, pget p f)) (filter (\<lambda>f. \<not> is_unset (pget p f)) PREDICATE_FIELDS)" .
qed

lemma validate_valid:
  assumes "valid_predicate p"
  shows "validate_rule_predicate (RawObject p) = Inr p"
proof -
  note get = valid_predicate_get [OF assms]
  have known: "filter (\<lambda>k. k \<notin> set PREDICATE_FIELDS) (map fst p) = []"
    using assms by (subst (asm) valid_predicate_def) (auto simp: filter_empty_conv)
  have strings: "validate_strings STRING_PREDICATE_FIELDS p
      = Inr (map (\<lambda>f. (f, pget p f)) (filter (\<lambda>f. \<not> is_unset (pget p f)) STRING_PREDICATE_FIELDS))"
  proof (rule validate_strings_id)
    fix f
    assume "f \<in> set STRING_PREDICATE_FIELDS"
    then show "is_unset (pget p f) \<or> (\<exists>s. pget p f = PText s)" using get(1,2) [of f] by (auto simp: valid_field_def)
  qed
  have fee: "validate_max_fee (pget p ''max_fee_pct'')
      = Inr (if is_unset (pget p ''max_fee_pct'') then [] else [(''max_fee_pct'', pget p ''max_fee_pct'')])"
  proof (cases "is_unset (pget p ''max_fee_pct'')")
    case False
    then have "valid_field ''max_fee_pct'' (pget p ''max_fee_pct'')" using get(1,2) by blast
    then obtain r where "pget p ''max_fee_pct'' = PFloat (Finite r)" "0 \<le> r"
      by (auto simp: valid_field_def STRING_PREDICATE_FIELDS_def)
    then show ?thesis by (simp add: validate_max_fee_def float_of_def finite_nonneg_def is_unset_def)
  qed (simp add: validate_max_fee_def)
  have confidence: "validate_min_confidence (pget p ''min_confidence'')
      = Inr (if is_unset (pget p ''min_confidence'') then [] else [(''min_confidence'', pget p ''min_confidence'')])"
  proof (cases "is_unset (pget p ''min_confidence'')")
    case False
    then have "valid_field ''min_confidence'' (pget p ''min_confidence'')" using get(1,2) by blast
    then show ?thesis by (auto simp: valid_field_def STRING_PREDICATE_FIELDS_def validate_min_confidence_def is_unset_def)
  qed (simp add: validate_min_confidence_def)
  have "validate_rule_predicate (RawObject p)
      = Inr (map (\<lambda>f. (f, pget p f)) (filter (\<lambda>f. \<not> is_unset (pget p f)) PREDICATE_FIELDS))"
    by (simp add: validate_rule_predicate_def Let_def known strings fee confidence) (simp add: PREDICATE_FIELDS_def)
  then show ?thesis using get(3) by simp
qed

lemma valid_predicateI:
  assumes "map fst p = filter P PREDICATE_FIELDS" "\<And>k v. (k, v) \<in> set p \<Longrightarrow> valid_field k v"
  shows "valid_predicate p"
  using assms by (auto simp: valid_predicate_def intro!: filter_cong)

lemma validated_is_valid:
  assumes "validate_rule_predicate raw = Inr v"
  shows "valid_predicate v"
proof -
  obtain p strings fee confidence where raw: "raw = RawObject p"
    and strings: "validate_strings STRING_PREDICATE_FIELDS p = Inr strings"
    and fee: "validate_max_fee (pget p ''max_fee_pct'') = Inr fee"
    and confidence: "validate_min_confidence (pget p ''min_confidence'') = Inr confidence"
    and v: "v = strings @ fee @ confidence"
    using assms by (auto simp: validate_rule_predicate_def Let_def result_simps split: raw_predicate.splits if_splits)
  note parts = validate_strings_shape [OF strings distinct_fields(2) subset_refl]
    validate_max_fee_shape [OF fee] validate_min_confidence_shape [OF confidence]
  show ?thesis
  proof (rule valid_predicateI [where P = "\<lambda>f. \<not> is_unset (pget p f)"])
    have "map fst fee = (if is_unset (pget p ''max_fee_pct'') then [] else [''max_fee_pct''])" using parts(2) by auto
    moreover have "map fst confidence = (if is_unset (pget p ''min_confidence'') then [] else [''min_confidence''])"
      using parts(3) by (auto simp: is_unset_def)
    ultimately show "map fst v = filter (\<lambda>f. \<not> is_unset (pget p f)) PREDICATE_FIELDS"
      using parts(1) by (simp add: v PREDICATE_FIELDS_def)
    have "valid_field k x" if "(k, x) \<in> set fee" for k x
      using that parts(2) by (auto simp: valid_field_def STRING_PREDICATE_FIELDS_def)
    moreover have "valid_field k x" if "(k, x) \<in> set confidence" for k x
      using that parts(3) by (auto simp: valid_field_def STRING_PREDICATE_FIELDS_def)
    moreover have "valid_field k x" if "(k, x) \<in> set strings" for k x
      using that conjunct2 [OF parts(1)] by (auto dest: bspec)
    ultimately show "valid_field k x" if "(k, x) \<in> set v" for k x using that unfolding v set_append by blast
  qed
qed

text \<open>Validation is idempotent: what it accepts it returns unchanged a second time.\<close>

lemma validate_idempotent:
  "validate_rule_predicate raw = Inr v \<Longrightarrow> validate_rule_predicate (RawObject v) = Inr v"
  by (rule validate_valid [OF validated_is_valid])

section \<open>Fee ratios\<close>

lemma round_half_even_near: "x - 1 < of_int (round_half_even x)" "of_int (round_half_even x) \<le> x + 1"
  by (auto simp: round_half_even_def Let_def) linarith+

lemma pow2_pos [simp]: "0 < pow2 e"
  by (simp add: pow2_def)

lemma float_pos_le:
  assumes "quotient_of x = (n, d)" "0 < x"
  shows "0 \<le> float_pos x" "float_pos x \<le> x + 2 * of_int n"
proof -
  define k where "k = bitlen n - bitlen d"
  define e where "e = max (- 1074) (if x < pow2 k then k - 53 else k - 52)"
  have nd: "0 < n" "0 < d" using assms quotient_of_denom_pos [OF assms(1)] quotient_of_div [OF assms(1)]
    by (auto simp: zero_less_divide_iff)
  then have "e \<le> bitlen n" using bitlen_nonneg [of d] bitlen_nonneg [of n] by (auto simp: e_def k_def)
  have fl: "float_pos x = of_int (round_half_even (x / pow2 e)) * pow2 e"
    by (simp add: float_pos_def assms(1) e_def k_def Let_def)
  have "0 < x / pow2 e" using assms(2) by simp
  then have "-1 < (of_int (round_half_even (x / pow2 e)) :: rat)"
    using round_half_even_near(1) [of "x / pow2 e"] by linarith
  then have "0 \<le> round_half_even (x / pow2 e)" by linarith
  then show "0 \<le> float_pos x" by (simp add: fl less_imp_le)
  have "pow2 e \<le> 2 ^ nat (bitlen n)"
  proof (cases "0 \<le> e")
    case True
    then have "nat e \<le> nat (bitlen n)" using \<open>e \<le> bitlen n\<close> by simp
    then show ?thesis using True by (simp add: pow2_def power_increasing)
  next
    case False
    then have "pow2 e \<le> 1" by (simp add: pow2_def)
    also have "1 \<le> (2 :: rat) ^ nat (bitlen n)" by simp
    finally show ?thesis .
  qed
  also have "\<dots> \<le> 2 * of_int n"
  proof -
    have "2 ^ nat (bitlen n - 1) \<le> n" using bitlen_bounds [OF nd(1)] by blast
    moreover have "1 \<le> bitlen n" using nd(1) by (auto simp: bitlen_alt_def)
    then have "nat (bitlen n) = Suc (nat (bitlen n - 1))" by simp
    ultimately have "2 ^ nat (bitlen n) \<le> 2 * n" by simp
    then have "of_int (2 ^ nat (bitlen n)) \<le> (of_int (2 * n) :: rat)" by (simp only: of_int_le_iff)
    then show ?thesis by simp
  qed
  finally have e_le: "pow2 e \<le> 2 * of_int n" .
  have "float_pos x \<le> (x / pow2 e + 1) * pow2 e"
    unfolding fl using round_half_even_near(2) by (intro mult_right_mono) (auto simp: less_imp_le)
  also have "\<dots> = x + pow2 e" using less_imp_neq [OF pow2_pos [of e]] by (simp add: field_simps)
  finally show "float_pos x \<le> x + 2 * of_int n" using e_le by simp
qed

lemma true_div_small:
  assumes "0 \<le> a" "a < 2 ^ 1000" "0 < b"
  shows "true_div a b = Inr (to_float (of_int a / of_int b))"
proof (cases "a = 0")
  case True
  then show ?thesis by (simp add: true_div_def to_float_def FLOAT_LIMIT_def)
next
  case False
  let ?x = "of_int a / of_int b :: rat"
  obtain n d where q: "quotient_of ?x = (n, d)" by fastforce
  have pos: "0 < ?x" using assms False by simp
  have "?x = of_int n / of_int d" "0 < d" "coprime n d"
    using quotient_of_div [OF q] quotient_of_denom_pos [OF q] quotient_of_coprime [OF q] by auto
  then have "of_int (a * d) = (of_int (n * b) :: rat)" using assms(3) by (simp add: field_simps)
  then have "a * d = n * b" by (simp only: of_int_eq_iff)
  then have "n dvd a" using \<open>coprime n d\<close> by (metis coprime_dvd_mult_left_iff dvd_triv_left)
  then have "n \<le> a" using assms False by (simp add: zdvd_imp_le)
  moreover have "?x \<le> of_int a" using assms by (simp add: divide_le_eq mult_le_cancel_left1)
  moreover from \<open>n \<le> a\<close> have "(of_int n :: rat) \<le> of_int a" by simp
  ultimately have "float_pos ?x \<le> 3 * of_int a" using float_pos_le(2) [OF q pos] by linarith
  also have "\<dots> < 2 ^ 1024"
  proof -
    have "3 * a < 2 ^ 1024" using assms(2) by simp
    then have "of_int (3 * a) < (of_int (2 ^ 1024) :: rat)" by (simp only: of_int_less_iff)
    then show ?thesis by simp
  qed
  finally show ?thesis using pos float_pos_le(1) [OF q pos] by (simp add: true_div_def to_float_def FLOAT_LIMIT_def Let_def)
qed

section \<open>What a rule selects\<close>

text \<open>What one field of a validated predicate asks of a candidate.\<close>

definition meets_field :: "swap_candidate \<Rightarrow> string \<Rightarrow> pvalue \<Rightarrow> bool" where
  "meets_field c field expected =
     (case expected of
        PFloat (Finite limit) \<Rightarrow> 0 < sc_out_amount_msat c
          \<and> to_float (of_int \<bar>sc_swap_fee_msat c\<bar> / of_int (sc_out_amount_msat c)) \<le> limit
      | PText s \<Rightarrow> if field = ''min_confidence'' then s = sc_confidence c \<or> s = ''strong'' \<and> sc_confidence c = ''exact''
                   else candidate_field c field = PText s
      | _ \<Rightarrow> False)"

definition small_fee :: "swap_candidate \<Rightarrow> bool" where
  "small_fee c \<longleftrightarrow> \<bar>sc_swap_fee_msat c\<bar> < 2 ^ 1000"

lemma valid_field_cases:
  assumes "valid_field f v"
  obtains (name) s where "f \<in> set STRING_PREDICATE_FIELDS" "v = PText s"
    | (fee) r where "f = ''max_fee_pct''" "v = PFloat (Finite r)" "0 \<le> r"
    | (level) s where "f = ''min_confidence''" "v = PText s"
proof (cases "f \<in> set STRING_PREDICATE_FIELDS")
  case True
  then show thesis using assms name unfolding valid_field_def by force
next
  case strings: False
  show thesis
  proof (cases "f = ''max_fee_pct''")
    case True
    then have "\<exists>r. v = PFloat (Finite r) \<and> 0 \<le> r" using assms strings unfolding valid_field_def by presburger
    then show thesis using fee True by blast
  next
    case False
    then have "f = ''min_confidence'' \<and> (v = PText ''strong'' \<or> v = PText ''exact'')"
      using assms strings unfolding valid_field_def by presburger
    then show thesis using level by blast
  qed
qed

lemma field_matches_spec:
  assumes "valid_field f v" "small_fee c"
  shows "field_matches c f v = Inr (meets_field c f v)"
  using assms(1)
proof (cases rule: valid_field_cases)
  case (name s)
  then have "f \<noteq> ''max_fee_pct''" "f \<noteq> ''min_confidence''" by (auto simp: STRING_PREDICATE_FIELDS_def)
  with name valid_field_set [OF assms(1)] show ?thesis by (simp add: field_matches_def meets_field_def)
next
  case (fee r)
  then show ?thesis using assms(2) true_div_small [of "\<bar>sc_swap_fee_msat c\<bar>" "sc_out_amount_msat c"]
    by (simp add: field_matches_def meets_field_def fee_within_def float_of_def small_fee_def is_unset_def not_less)
next
  case (level s)
  then show ?thesis using valid_field_set [OF assms(1)]
    by (auto simp: field_matches_def meets_field_def confidence_meets_def)
qed

lemma fields_match_spec:
  assumes "\<And>f. f \<in> set fs \<Longrightarrow> field_matches c f (pget p f) = Inr (ok f)"
  shows "fields_match c p fs = Inr (\<forall>f \<in> set fs. ok f)"
  using assms by (induction fs) auto

lemma predicate_matches_spec:
  assumes "valid_predicate p" "small_fee c"
  shows "predicate_matches c p = Inr (\<forall>(f, v) \<in> set p. meets_field c f v)"
proof -
  note get = valid_predicate_get [OF assms(1)]
  have "fields_match c p PREDICATE_FIELDS
      = Inr (\<forall>f \<in> set PREDICATE_FIELDS. is_unset (pget p f) \<or> meets_field c f (pget p f))"
  proof (rule fields_match_spec)
    fix f
    show "field_matches c f (pget p f) = Inr (is_unset (pget p f) \<or> meets_field c f (pget p f))"
    proof (cases "is_unset (pget p f)")
      case True
      then show ?thesis by (simp add: field_matches_def)
    next
      case False
      then have "valid_field f (pget p f)" using get(1,2) by blast
      then show ?thesis using field_matches_spec [OF _ assms(2)] False by simp
    qed
  qed
  moreover have "(\<forall>f \<in> set PREDICATE_FIELDS. is_unset (pget p f) \<or> meets_field c f (pget p f))
      \<longleftrightarrow> (\<forall>(f, v) \<in> set p. meets_field c f v)"
    by (subst (3) get(3)) auto
  ultimately show ?thesis by (simp add: predicate_matches_def validate_valid [OF assms(1)])
qed

text \<open>What a rule asks of a candidate: every field of its predicate, and the default confidence.\<close>

definition rule_selects :: "swap_matching_rule \<Rightarrow> swap_candidate \<Rightarrow> bool" where
  "rule_selects rule c \<longleftrightarrow> (\<forall>(f, v) \<in> set (ru_predicate rule). meets_field c f v)
     \<and> (''min_confidence'' \<notin> fst ` set (ru_predicate rule) \<longrightarrow> sc_confidence c = ''strong'' \<or> sc_confidence c = ''exact'')"

lemma rule_applies_spec:
  assumes "valid_predicate (ru_predicate rule)" "small_fee c"
  shows "rule_applies c rule = Inr (rule_selects rule c)"
proof (cases "''min_confidence'' \<in> fst ` set (ru_predicate rule)")
  case True
  let ?v = "pget (ru_predicate rule) ''min_confidence''"
  have "valid_field ''min_confidence'' ?v" using valid_predicate_get(2) [OF assms(1)] True by simp
  then obtain s where s: "?v = PText s" "s = ''strong'' \<or> s = ''exact''"
    by (auto simp: valid_field_def STRING_PREDICATE_FIELDS_def)
  have "(''min_confidence'', PText s) \<in> set (ru_predicate rule)"
    using valid_predicate_get(4) [OF assms(1)] True s(1) by (metis list.set_map)
  moreover have level: "meets_field c ''min_confidence'' (PText s) \<longleftrightarrow> confidence_meets (sc_confidence c) s"
    by (auto simp: meets_field_def confidence_meets_def)
  ultimately have "rule_selects rule c \<Longrightarrow> confidence_meets (sc_confidence c) s" by (auto simp: rule_selects_def)
  moreover have "s \<noteq> ''''" using s(2) by auto
  then have "rule_min_confidence rule = Some s" using s(1) by (simp add: rule_min_confidence_def)
  moreover have "rule_selects rule c \<longleftrightarrow> (\<forall>(f, v) \<in> set (ru_predicate rule). meets_field c f v)"
    using True by (simp add: rule_selects_def)
  ultimately show ?thesis using predicate_matches_spec [OF assms] by (auto simp: rule_applies_def)
next
  case False
  then show ?thesis
    using pget_not_key [of "''min_confidence''" "ru_predicate rule"] predicate_matches_spec [OF assms]
    by (auto simp: rule_applies_def rule_min_confidence_def rule_selects_def confidence_meets_def DEFAULT_MIN_CONFIDENCE_def)
qed

section \<open>The partition\<close>

text \<open>The rule a candidate is paired by: none inside a larger conflict set, else the first that
  selects it.\<close>

definition rule_for :: "swap_matching_rule list \<Rightarrow> swap_candidate \<Rightarrow> swap_matching_rule option" where
  "rule_for enabled c = (if sc_conflict_size c > 1 then None else List.find (\<lambda>r. rule_selects r c) enabled)"

lemma find_rule_spec:
  assumes "\<And>r. r \<in> set rules \<Longrightarrow> valid_predicate (ru_predicate r)" "small_fee c"
  shows "find_rule c rules = Inr (List.find (\<lambda>r. rule_selects r c) rules)"
  using assms by (induction rules) (auto simp: rule_applies_spec)

lemma partition_spec:
  assumes "\<And>r. r \<in> set enabled \<Longrightarrow> valid_predicate (ru_predicate r)" "\<And>c. c \<in> set cs \<Longrightarrow> small_fee c"
  shows "\<exists>found. partition_candidates enabled cs = Inr (found, filter (\<lambda>c. rule_for enabled c = None) cs)
    \<and> list_all2 (\<lambda>c m. \<exists>r. rule_for enabled c = Some r \<and> m = \<lparr>rm_rule_id = ru_id r, rm_rule_name = ru_name r, rm_candidate = c\<rparr>)
        (filter (\<lambda>c. rule_for enabled c \<noteq> None) cs) found"
  using assms(2)
proof (induction cs)
  case (Cons c cs)
  have "(if sc_conflict_size c > 1 then Inr None else find_rule c enabled) = Inr (rule_for enabled c)"
    using find_rule_spec [of enabled c] assms(1) Cons.prems by (simp add: rule_for_def)
  then show ?case using Cons by (cases "rule_for enabled c") auto
qed simp

lemma find_first_least:
  assumes "List.find P (sort_key f xs) = Some x" "y \<in> set xs" "P y"
  shows "x \<in> set xs \<and> P x \<and> f x \<le> f y"
proof -
  obtain i where i: "i < length xs" "P (sort_key f xs ! i)" "x = sort_key f xs ! i"
    "\<forall>j < i. \<not> P (sort_key f xs ! j)" using assms(1) by (auto simp: find_Some_iff)
  obtain j where j: "j < length xs" "y = sort_key f xs ! j"
    using assms(2) by (metis in_set_conv_nth length_sort set_sort)
  have "i \<le> j" using i(4) j assms(3) by (meson not_le)
  moreover have "sorted (map f (sort_key f xs))" by simp
  ultimately have "f x \<le> f y" using i j sorted_nth_mono [of "map f (sort_key f xs)" i j] by simp
  then show ?thesis using i nth_mem [of i "sort_key f xs"] by simp
qed

lemma rule_for_sorted:
  defines "E rules \<equiv> sort_key rule_order (filter ru_enabled rules)"
  shows "rule_for (E rules) c = None \<longleftrightarrow> \<not> (sc_conflict_size c \<le> 1 \<and> (\<exists>r \<in> set rules. ru_enabled r \<and> rule_selects r c))"
    "rule_for (E rules) c = Some r \<Longrightarrow> r \<in> set rules \<and> ru_enabled r \<and> rule_selects r c
       \<and> (\<forall>r' \<in> set rules. ru_enabled r' \<and> rule_selects r' c \<longrightarrow> rule_order r \<le> rule_order r')"
proof -
  show "rule_for (E rules) c = None \<longleftrightarrow> \<not> (sc_conflict_size c \<le> 1 \<and> (\<exists>r \<in> set rules. ru_enabled r \<and> rule_selects r c))"
    by (auto simp: rule_for_def E_def find_None_iff)
  assume "rule_for (E rules) c = Some r"
  then have found: "List.find (\<lambda>r. rule_selects r c) (E rules) = Some r" by (simp add: rule_for_def split: if_splits)
  then have "r \<in> set (filter ru_enabled rules)" "rule_selects r c"
    by (auto simp: E_def find_Some_iff) (metis length_sort nth_mem set_sort mem_Collect_eq set_filter)+
  then show "r \<in> set rules \<and> ru_enabled r \<and> rule_selects r c
       \<and> (\<forall>r' \<in> set rules. ru_enabled r' \<and> rule_selects r' c \<longrightarrow> rule_order r \<le> rule_order r')"
    using find_first_least [OF found [unfolded E_def]] by simp
qed

text \<open>A candidate that some enabled rule may pair.\<close>

definition pairable :: "swap_matching_rule list \<Rightarrow> swap_candidate \<Rightarrow> bool" where
  "pairable rules c \<longleftrightarrow> sc_conflict_size c \<le> 1 \<and> (\<exists>r \<in> set rules. ru_enabled r \<and> rule_selects r c)"

text \<open>With validated rules and fees below \<open>2^1000\<close> msat, \<open>apply_rules\<close> returns, and its two lists
  partition the candidates in order: a candidate is auto-paired exactly when it is alone in its
  conflict set and some enabled rule selects it. The rule it is paired by is an enabled one that
  selects it, and no other such rule is more specific, or as specific with a smaller id.\<close>

theorem apply_rules_selects:
  assumes "\<forall>r \<in> set rules. valid_predicate (ru_predicate r)" "\<forall>c \<in> set cs. small_fee c"
  shows "\<exists>found. apply_rules cs rules = Inr (found, filter (\<lambda>c. \<not> pairable rules c) cs)
    \<and> map rm_candidate found = filter (pairable rules) cs
    \<and> (\<forall>m \<in> set found. \<exists>r \<in> set rules. ru_enabled r \<and> rule_selects r (rm_candidate m)
        \<and> rm_rule_id m = ru_id r \<and> rm_rule_name m = ru_name r
        \<and> (\<forall>r' \<in> set rules. ru_enabled r' \<and> rule_selects r' (rm_candidate m) \<longrightarrow> rule_order r \<le> rule_order r'))"
proof -
  let ?E = "sort_key rule_order (filter ru_enabled rules)"
  have none: "(\<lambda>c. rule_for ?E c = None) = (\<lambda>c. \<not> pairable rules c)"
    and some: "(\<lambda>c. rule_for ?E c \<noteq> None) = pairable rules"
    by (simp_all add: fun_eq_iff pairable_def rule_for_sorted(1))
  obtain found where found: "apply_rules cs rules = Inr (found, filter (\<lambda>c. \<not> pairable rules c) cs)"
    and all2: "list_all2 (\<lambda>c m. \<exists>r. rule_for ?E c = Some r \<and> m = \<lparr>rm_rule_id = ru_id r, rm_rule_name = ru_name r, rm_candidate = c\<rparr>)
        (filter (pairable rules) cs) found"
    using partition_spec [of ?E cs] assms unfolding apply_rules_def none some by auto
  have "map rm_candidate found = filter (pairable rules) cs"
    using all2 by (induction rule: list_all2_induct) auto
  moreover have "\<exists>r \<in> set rules. ru_enabled r \<and> rule_selects r (rm_candidate m)
        \<and> rm_rule_id m = ru_id r \<and> rm_rule_name m = ru_name r
        \<and> (\<forall>r' \<in> set rules. ru_enabled r' \<and> rule_selects r' (rm_candidate m) \<longrightarrow> rule_order r \<le> rule_order r')"
    if m: "m \<in> set found" for m
  proof -
    obtain c r where "rule_for ?E c = Some r" "m = \<lparr>rm_rule_id = ru_id r, rm_rule_name = ru_name r, rm_candidate = c\<rparr>"
      using list_all2_right_member [OF all2 m] by blast
    then show ?thesis using rule_for_sorted(2) [of rules c r] by (intro bexI [of _ r]) auto
  qed
  ultimately show ?thesis using found by blast
qed

section \<open>Safety of auto-pairing\<close>

lemma partition_candidates_subseq:
  "partition_candidates enabled cs = Inr (found, rest) \<Longrightarrow>
     subseq (map rm_candidate found) cs \<and> (\<forall>m \<in> set found. sc_conflict_size (rm_candidate m) \<le> 1)"
proof (induction cs arbitrary: found rest)
  case (Cons c cs)
  then obtain pick found' rest' where
    pick: "(if sc_conflict_size c > 1 then Inr None else find_rule c enabled) = Inr pick"
    "partition_candidates enabled cs = Inr (found', rest')"
    "found = (case pick of None \<Rightarrow> found' | Some r \<Rightarrow> \<lparr>rm_rule_id = ru_id r, rm_rule_name = ru_name r, rm_candidate = c\<rparr> # found')"
    by (auto simp: result_simps split: option.splits)
  then show ?case using Cons.IH [OF pick(2)] by (cases pick) (auto split: if_splits)
qed simp

text \<open>C22: Auto-pairing never pairs a transaction twice. Whatever part of the finalized candidates a
  caller filters out for the rules, and whatever the rules are, no two auto-paired candidates share a
  leg, and an auto-paired candidate shares no leg with any other finalized candidate, the filtered ones
  included.\<close>

theorem auto_pairs_disjoint:
  assumes "finalize_candidate_conflicts cs = Some out" "subseq shown out"
    and "apply_rules shown rules = Inr (found, rest)"
  shows "sorted_wrt (\<lambda>c d. \<not> share_leg c d) (map rm_candidate found)
    \<and> (\<forall>m \<in> set found. \<forall>d \<in> set out. d \<noteq> rm_candidate m \<longrightarrow> \<not> share_leg (rm_candidate m) d)"
proof -
  have sub: "subseq (map rm_candidate found) out"
    and solo: "\<forall>m \<in> set found. sc_conflict_size (rm_candidate m) \<le> 1"
    using partition_candidates_subseq [of _ shown found rest] assms(2,3)
    by (auto simp: apply_rules_def intro: subseq_order.trans)
  have member: "c \<in> set out" if "c \<in> set (map rm_candidate found)" for c using sub that
    by (metis in_set_nthsD subseq_conv_nths)
  have alone: "\<not> share_leg (rm_candidate m) d" if "m \<in> set found" "d \<in> set out" "d \<noteq> rm_candidate m" for m d
    using solo_in_finalized [OF assms(1) member] that solo by auto
  have "distinct (map edge_of out)"
    using finalized_distinct [OF assms(1)] .
  then have "distinct (map rm_candidate found)" using sub
    by (metis distinct_map distinct_nthsI subseq_conv_nths)
  then have "sorted_wrt (\<lambda>c d. c \<noteq> d) (map rm_candidate found)" by (simp add: distinct_conv_nth sorted_wrt_iff_nth_less)
  then show ?thesis using alone member by (auto elim!: sorted_wrt_mono_rel [rotated])
qed

section \<open>Stored rules\<close>

lemma valid_empty: "valid_predicate []"
  by (simp add: valid_predicate_def)

lemma decoded_is_valid: "decode_rule_predicate json_loads raw = Inr p \<Longrightarrow> valid_predicate p"
  by (auto simp: decode_rule_predicate_def valid_empty dest: validated_is_valid
      split: raw_predicate.splits option.splits if_splits)

lemma validate_errors:
  "validate_rule_predicate raw = Inl e \<Longrightarrow> (\<exists>m. e = ValueError m) \<or> e = OverflowError"
proof -
  have strings: "validate_strings fs p = Inl e \<Longrightarrow> \<exists>m. e = ValueError m" for fs p
    by (induction fs) (auto simp: Let_def result_simps split: if_splits pvalue.splits)
  have "validate_max_fee v = Inl e \<Longrightarrow> (\<exists>m. e = ValueError m) \<or> e = OverflowError" for v
    by (auto simp: validate_max_fee_def split: if_splits pvalue.splits sum.splits py_error.splits)
  moreover have "validate_min_confidence v = Inl e \<Longrightarrow> \<exists>m. e = ValueError m" for v
    by (auto simp: validate_min_confidence_def split: if_splits pvalue.splits)
  ultimately show "validate_rule_predicate raw = Inl e \<Longrightarrow> (\<exists>m. e = ValueError m) \<or> e = OverflowError"
    using strings by (auto simp: validate_rule_predicate_def Let_def result_simps split: raw_predicate.splits if_splits)
qed

lemma decode_errors:
  "decode_rule_predicate json_loads raw = Inl e \<Longrightarrow> (\<exists>m. e = ValueError m) \<or> e = OverflowError"
  by (auto simp: decode_rule_predicate_def split: raw_predicate.splits option.splits if_splits dest: validate_errors)

lemma supported_or_allowed:
  "supported_or label dflt allowed stored = (v, bad) \<Longrightarrow> dflt \<in> set allowed \<Longrightarrow>
     v \<in> set allowed \<and> (bad = [] \<longleftrightarrow> str_or_empty (py_or stored (Some dflt)) \<in> set allowed)
     \<and> (bad = [] \<longrightarrow> v = str_or_empty (py_or stored (Some dflt)))"
  by (auto simp: supported_or_def Let_def split: if_splits)

text \<open>The stored values a rule is accepted with.\<close>

definition well_stored :: "(string \<Rightarrow> raw_predicate option) \<Rightarrow> stored_rule \<Rightarrow> bool" where
  "well_stored json_loads record \<longleftrightarrow> (\<exists>p. decode_rule_predicate json_loads (st_predicate_json record) = Inr p)
     \<and> str_or_empty (py_or (st_kind record) (Some ''manual'')) \<in> set TRANSFER_PAIR_KINDS
     \<and> str_or_empty (py_or (st_policy record) (Some ''carrying-value'')) \<in> set TRANSFER_PAIR_POLICIES"

lemma load_rule_fields:
  assumes "load_rule json_loads record = Inr r"
  shows "valid_predicate (ru_predicate r)" "ru_kind r \<in> set TRANSFER_PAIR_KINDS" "ru_policy r \<in> set TRANSFER_PAIR_POLICIES"
    "ru_enabled r \<longleftrightarrow> well_stored json_loads record \<and> parse_bool (st_enabled record) True = Inr True"
proof -
  obtain p bad_p where dec: "(case decode_rule_predicate json_loads (st_predicate_json record) of
        Inl (ValueError message) \<Rightarrow> Inr ([], [message]) | Inl e \<Rightarrow> Inl e | Inr predicate \<Rightarrow> Inr (predicate, [])) = Inr (p, bad_p)"
    using assms by (auto simp: load_rule_def result_simps)
  obtain kind bad_k where k: "supported_or ''kind'' ''manual'' TRANSFER_PAIR_KINDS (st_kind record) = (kind, bad_k)" by fastforce
  obtain policy bad_y where y: "supported_or ''policy'' ''carrying-value'' TRANSFER_PAIR_POLICIES (st_policy record) = (policy, bad_y)" by fastforce
  obtain enabled where en: "parse_bool (st_enabled record) True = Inr enabled"
    and r: "ru_predicate r = p" "ru_kind r = kind" "ru_policy r = policy"
      "ru_enabled r = (if bad_p @ bad_k @ bad_y \<noteq> [] then False else enabled)"
    using assms by (auto simp: load_rule_def dec k y result_simps Let_def)
  have kinds: "''manual'' \<in> set TRANSFER_PAIR_KINDS" "''carrying-value'' \<in> set TRANSFER_PAIR_POLICIES"
    by (simp_all add: TRANSFER_PAIR_KINDS_def TRANSFER_PAIR_POLICIES_def)
  note k' = supported_or_allowed [OF k kinds(1)] and y' = supported_or_allowed [OF y kinds(2)]
  have p': "valid_predicate p" "bad_p = [] \<longleftrightarrow> (\<exists>q. decode_rule_predicate json_loads (st_predicate_json record) = Inr q)"
    using dec decoded_is_valid [of json_loads "st_predicate_json record"]
    by (auto simp: valid_predicate_def split: sum.splits py_error.splits)
  show "valid_predicate (ru_predicate r)" "ru_kind r \<in> set TRANSFER_PAIR_KINDS" "ru_policy r \<in> set TRANSFER_PAIR_POLICIES"
    using p' k' y' r by auto
  show "ru_enabled r \<longleftrightarrow> well_stored json_loads record \<and> parse_bool (st_enabled record) True = Inr True"
    using p'(2) k' y' en by (auto simp: r well_stored_def)
qed

text \<open>C23: Stored rules fail closed. A rule that loads has a validated predicate and a supported kind
  and policy, and it is enabled exactly when all three were stored that way and the enabled flag is
  absent or true. Loading raises in two cases only: the flag is no boolean text, or the fee cap of the
  predicate is an integer too large for a float.\<close>

theorem load_rule_fails_closed:
  "case load_rule json_loads record of
     Inr r \<Rightarrow> valid_predicate (ru_predicate r) \<and> ru_kind r \<in> set TRANSFER_PAIR_KINDS \<and> ru_policy r \<in> set TRANSFER_PAIR_POLICIES
       \<and> (ru_enabled r \<longleftrightarrow> well_stored json_loads record \<and> parse_bool (st_enabled record) True = Inr True)
   | Inl e \<Rightarrow> parse_bool (st_enabled record) True = Inl e
       \<or> e = OverflowError \<and> decode_rule_predicate json_loads (st_predicate_json record) = Inl OverflowError"
proof (cases "load_rule json_loads record")
  case (Inr r)
  then show ?thesis using load_rule_fields [OF Inr] by simp
next
  case (Inl e)
  then consider "parse_bool (st_enabled record) True = Inl e"
    | "decode_rule_predicate json_loads (st_predicate_json record) = Inl e" "\<And>m. e \<noteq> ValueError m"
    by (auto simp: load_rule_def Let_def result_simps split: sum.splits py_error.splits prod.splits)
  then show ?thesis by cases (use Inl decode_errors in \<open>fastforce+\<close>)
qed

lemma to_float_int_ge:
  assumes "2 \<le> n"
  shows "of_int n / 2 \<le> to_float (of_int n)"
proof -
  define k where "k = bitlen n - 1"
  define e where "e = max (- 1074) (if of_int n < pow2 k then k - 53 else k - 52)"
  let ?x = "of_int n :: rat"
  have fl: "float_pos ?x = of_int (round_half_even (?x / pow2 e)) * pow2 e"
    by (simp add: float_pos_def e_def k_def Let_def quotient_of_int bitlen_def floorlog_def)
  have "1 \<le> bitlen n" "2 ^ nat k \<le> n" using assms bitlen_bounds [of n] by (auto simp: k_def bitlen_alt_def)
  then have kn: "0 \<le> k" "(2 :: rat) ^ nat k \<le> ?x" using of_int_le_iff [where 'a = rat, of "2 ^ nat k" n] by (auto simp: k_def)
  have "pow2 e \<le> ?x / 2"
  proof (cases "0 \<le> e")
    case True
    then have "Suc (nat e) \<le> nat k" by (auto simp: e_def split: if_splits)
    then have "(2 :: rat) ^ Suc (nat e) \<le> 2 ^ nat k" by (rule power_increasing) simp
    from order.trans [OF this kn(2)] True have "2 * pow2 e \<le> ?x" by (simp only: pow2_def if_True power_Suc)
    then show ?thesis by linarith
  next
    case False
    then have "pow2 e \<le> 1" by (simp add: pow2_def)
    also have "1 \<le> ?x / 2" using assms of_int_le_iff [where 'a = rat, of 2 n] by simp
    finally show ?thesis .
  qed
  moreover have "(?x / pow2 e - 1) * pow2 e \<le> float_pos ?x"
    unfolding fl using round_half_even_near(1) by (intro mult_right_mono) (auto simp: less_imp_le)
  then have "?x - pow2 e \<le> float_pos ?x" using pow2_pos [of e] by (simp add: left_diff_distrib)
  ultimately show ?thesis using assms by (simp add: to_float_def)
qed

text \<open>The second case happens: a stored fee cap of ten to the power of four hundred.\<close>

lemma large_fee_cap_raises:
  "load_rule json_loads \<lparr>st_id = None, st_profile_id = None, st_name = None,
     st_predicate_json = RawObject [(''max_fee_pct'', PInt (10 ^ 400))], st_kind = None, st_policy = None, st_enabled = None\<rparr>
   = Inl OverflowError"
proof -
  have "FLOAT_LIMIT \<le> \<bar>to_float (of_int (10 ^ 400))\<bar>" using to_float_int_ge [of "10 ^ 400"] by (simp add: FLOAT_LIMIT_def)
  then have "validate_max_fee (PInt (10 ^ 400)) = Inl OverflowError"
    by (simp add: validate_max_fee_def is_unset_def float_of_def)
  moreover have "validate_strings STRING_PREDICATE_FIELDS [(''max_fee_pct'', v)] = Inr []" for v
    by (simp add: STRING_PREDICATE_FIELDS_def pget_def dict_get_def is_unset_def)
  ultimately show ?thesis
    by (simp add: load_rule_def decode_rule_predicate_def validate_rule_predicate_def PREDICATE_FIELDS_def pget_def dict_get_def)
qed

section \<open>Example\<close>

definition example_candidate :: "string \<Rightarrow> string \<Rightarrow> swap_candidate" where
  "example_candidate o_id i_id =
     \<lparr>sc_out_id = o_id, sc_in_id = i_id, sc_out_asset = ''BTC'', sc_in_asset = ''LBTC'',
      sc_out_amount_msat = 100000, sc_in_amount_msat = 99000, sc_out_wallet_id = ''w1'', sc_in_wallet_id = ''w2'',
      sc_out_wallet_label = ''Phoenix'', sc_in_wallet_label = ''Liquid'', sc_out_wallet_kind = ''phoenix'',
      sc_in_wallet_kind = ''descriptor'', sc_out_occurred_at = '''', sc_in_occurred_at = '''', sc_confidence = ''exact'',
      sc_method = ''payment_hash'', sc_swap_fee_msat = 1000, sc_swap_fee_kind = ''combined'',
      sc_default_kind = ''reverse-submarine-swap'', sc_default_policy = ''carrying-value'', sc_conflict_set_id = '''',
      sc_conflict_size = 1, sc_evidence = flat_evidence None\<rparr>"

definition example_rule :: swap_matching_rule where
  "example_rule = \<lparr>ru_id = ''r1'', ru_profile_id = ''p'', ru_name = None,
     ru_predicate = [(''out_wallet_kind'', PText ''phoenix''), (''min_confidence'', PText ''exact'')],
     ru_kind = ''reverse-submarine-swap'', ru_policy = ''carrying-value'', ru_enabled = True, ru_invalid_reason = None\<rparr>"

lemma example_rule_valid: "valid_predicate (ru_predicate example_rule)"
proof (rule valid_predicateI [where P = "\<lambda>f. f = ''out_wallet_kind'' \<or> f = ''min_confidence''"])
  show "map fst (ru_predicate example_rule) = filter (\<lambda>f. f = ''out_wallet_kind'' \<or> f = ''min_confidence'') PREDICATE_FIELDS"
    by (simp add: example_rule_def PREDICATE_FIELDS_def STRING_PREDICATE_FIELDS_def)
qed (auto simp: example_rule_def valid_field_def STRING_PREDICATE_FIELDS_def)

lemma example_rule_selects: "pairable [example_rule] (example_candidate ''o1'' ''i1'')"
  by (simp add: pairable_def rule_selects_def example_rule_def example_candidate_def meets_field_def candidate_field_def)

theorem apply_rules_selects_witness:
  "\<exists>found. apply_rules [example_candidate ''o1'' ''i1''] [example_rule] = Inr (found, [])
    \<and> map rm_candidate found = [example_candidate ''o1'' ''i1'']"
proof -
  have "\<forall>r \<in> set [example_rule]. valid_predicate (ru_predicate r)" using example_rule_valid by simp
  moreover have "\<forall>c \<in> set [example_candidate ''o1'' ''i1'']. small_fee c"
    by (simp add: small_fee_def example_candidate_def)
  ultimately show ?thesis
    using apply_rules_selects [of "[example_rule]" "[example_candidate ''o1'' ''i1'']"] example_rule_selects by auto
qed

definition example_stamped :: "string \<Rightarrow> string \<Rightarrow> swap_candidate" where
  "example_stamped o_id i_id = (example_candidate o_id i_id)\<lparr>sc_conflict_set_id := o_id @ ''->'' @ i_id\<rparr>"

lemma example_finalized:
  "finalize_candidate_conflicts [example_candidate ''o1'' ''i1'', example_candidate ''o2'' ''i2'']
    = Some [example_stamped ''o1'' ''i1'', example_stamped ''o2'' ''i2'']"
  by code_simp

lemma example_applied:
  "apply_rules [example_stamped ''o1'' ''i1'', example_stamped ''o2'' ''i2''] [example_rule]
    = Inr ([\<lparr>rm_rule_id = ''r1'', rm_rule_name = None, rm_candidate = example_stamped ''o1'' ''i1''\<rparr>,
            \<lparr>rm_rule_id = ''r1'', rm_rule_name = None, rm_candidate = example_stamped ''o2'' ''i2''\<rparr>], [])"
  by code_simp

theorem auto_pairs_disjoint_witness:
  "\<not> share_leg (example_stamped ''o1'' ''i1'') (example_stamped ''o2'' ''i2'')"
  using auto_pairs_disjoint [OF example_finalized subseq_order.order_refl example_applied] by simp

end
