(* ===== verification/Swap_Heuristic.thy ===== *)
theory Swap_Heuristic
  imports Swap_Rows
begin

text \<open>
  The time and amount heuristic of the swap matcher (\<open>_match_heuristic\<close> of
  \<open>core/transfer_matching.py\<close>): inbound rows are sorted by time once and every outbound row scans the
  slice between two binary searches (\<open>bisect_left\<close>, \<open>bisect_right\<close>). Shown: the slice loses and adds no
  pair, so that the result is that of testing all pairs.
\<close>

section \<open>Binary search\<close>

text \<open>The loop both searches share: the test says whether to go on to the right of the middle.\<close>

function bisect_loop :: "('a \<Rightarrow> bool) \<Rightarrow> 'a list \<Rightarrow> nat \<Rightarrow> nat \<Rightarrow> nat" where
  "bisect_loop right a lo hi =
     (if lo < hi
      then let mid = (lo + hi) div 2
           in if right (a ! mid) then bisect_loop right a (mid + 1) hi else bisect_loop right a lo mid
      else lo)"
  by pat_completeness auto
termination by (relation "measure (\<lambda>(_, _, lo, hi). hi - lo)") auto

declare bisect_loop.simps [simp del]

definition bisect_left :: "'a::linorder list \<Rightarrow> 'a \<Rightarrow> nat" where
  "bisect_left a x = bisect_loop (\<lambda>t. t < x) a 0 (length a)"

definition bisect_right :: "'a::linorder list \<Rightarrow> 'a \<Rightarrow> nat" where
  "bisect_right a x = bisect_loop (\<lambda>t. \<not> x < t) a 0 (length a)"

section \<open>The matcher\<close>

definition DEFAULT_TIME_WINDOW_SECONDS :: int where
  "DEFAULT_TIME_WINDOW_SECONDS = 24 * 60 * 60"

definition in_entries :: "match_row list \<Rightarrow> (rat \<times> match_row) list" where
  "in_entries in_rows =
     sort_key fst (concat (map (\<lambda>row. case occurred_at_seconds row of
        None \<Rightarrow> []
      | Some t \<Rightarrow> if row_amount row \<le> 0 then [] else [(t, row)]) in_rows))"

definition same_route_asset :: "string \<Rightarrow> string \<Rightarrow> bool" where
  "same_route_asset out_asset in_asset =
     (case (canonical_bitcoin_asset out_asset, canonical_bitcoin_asset in_asset) of
        (Some oa, Some ia) \<Rightarrow> oa = ia
      | _ \<Rightarrow> py_upper out_asset = py_upper in_asset)"

definition keeps_pair :: "int \<Rightarrow> match_row \<Rightarrow> match_row \<Rightarrow> bool" where
  "keeps_pair threshold out_row in_row =
     (let delta = row_amount out_row - row_amount in_row;
          same_asset = same_route_asset (mr_asset out_row) (mr_asset in_row);
          out_txid = observed_onchain_txid out_row; in_txid = observed_onchain_txid in_row
      in if \<not> compatible_network_domains (mr_domain out_row) (mr_domain in_row) then False
         else if mr_wallet_id out_row = mr_wallet_id in_row then False
         else if delta < 0 \<or> delta > threshold then False
         else if same_asset \<and> out_txid \<noteq> None \<and> in_txid \<noteq> None \<and> out_txid \<noteq> in_txid then False
         else if \<not> same_asset
              \<and> default_kind_for (mr_asset out_row) (mr_asset in_row) (mr_wallet_kind out_row) (mr_wallet_kind in_row) = ''manual''
           then False
         else True)"

text \<open>The bounds of the window are floating-point differences and sums.\<close>

definition window_start :: "rat \<Rightarrow> int \<Rightarrow> rat" where
  "window_start t window = to_float (t - to_float (of_int window))"

definition window_end :: "rat \<Rightarrow> int \<Rightarrow> rat" where
  "window_end t window = to_float (t + to_float (of_int window))"

definition match_heuristic :: "match_row list \<Rightarrow> match_row list \<Rightarrow> int \<Rightarrow> rat \<Rightarrow> int \<Rightarrow> (match_row \<times> match_row) list" where
  "match_heuristic out_rows in_rows window fee_pct_max fee_sats_min =
     (let entries = in_entries in_rows; in_times = map fst entries
      in concat (map (\<lambda>out_row. case occurred_at_seconds out_row of
           None \<Rightarrow> []
         | Some t \<Rightarrow>
             if row_amount out_row \<le> 0 then []
             else let threshold = fee_threshold_msat (row_amount out_row) fee_pct_max fee_sats_min;
                      lo = bisect_left in_times (window_start t window);
                      hi = bisect_right in_times (window_end t window)
                  in map (\<lambda>e. (out_row, snd e))
                       (filter (\<lambda>e. keeps_pair threshold out_row (snd e)) (take (hi - lo) (drop lo entries)))) out_rows))"

section \<open>The searches find the boundary\<close>

text \<open>The end of the prefix on which a property holds.\<close>

definition boundary :: "('a \<Rightarrow> bool) \<Rightarrow> 'a list \<Rightarrow> nat \<Rightarrow> bool" where
  "boundary P a b \<longleftrightarrow> b \<le> length a \<and> (\<forall>i < b. P (a ! i)) \<and> (\<forall>i. b \<le> i \<and> i < length a \<longrightarrow> \<not> P (a ! i))"

lemma bisect_loop_boundary:
  assumes prefix: "\<And>i j. i \<le> j \<Longrightarrow> j < length a \<Longrightarrow> P (a ! j) \<Longrightarrow> P (a ! i)"
    and "lo \<le> hi" "hi \<le> length a" "\<forall>i < lo. P (a ! i)" "\<forall>i. hi \<le> i \<and> i < length a \<longrightarrow> \<not> P (a ! i)"
  shows "boundary P a (bisect_loop P a lo hi)"
  using assms(2-)
proof (induction "hi - lo" arbitrary: lo hi rule: less_induct)
  case less
  let ?mid = "(lo + hi) div 2"
  show ?case
  proof (cases "lo < hi")
    case False
    then show ?thesis using less.prems by (subst bisect_loop.simps) (auto simp: boundary_def)
  next
    case True
    then have mid: "lo \<le> ?mid" "?mid < hi" by auto
    show ?thesis
    proof (cases "P (a ! ?mid)")
      case yes: True
      then have "\<forall>i < ?mid + 1. P (a ! i)" using prefix [of _ ?mid] mid less.prems by simp
      then have "boundary P a (bisect_loop P a (?mid + 1) hi)" using less.prems mid by (intro less.hyps) auto
      then show ?thesis using True yes by (subst bisect_loop.simps) (simp add: Let_def)
    next
      case no: False
      then have "\<forall>i. ?mid \<le> i \<and> i < length a \<longrightarrow> \<not> P (a ! i)" using prefix by blast
      then have "boundary P a (bisect_loop P a lo ?mid)" using less.prems mid by (intro less.hyps) auto
      then show ?thesis using True no by (subst bisect_loop.simps) (simp add: Let_def)
    qed
  qed
qed

lemma bisect_boundary:
  assumes "sorted a"
  shows "boundary (\<lambda>t. t < x) a (bisect_left a x)" "boundary (\<lambda>t. t \<le> x) a (bisect_right a x)"
proof -
  have mono: "a ! i \<le> a ! j" if "i \<le> j" "j < length a" for i j using assms that by (simp add: sorted_nth_mono)
  show "boundary (\<lambda>t. t < x) a (bisect_left a x)"
    unfolding bisect_left_def using mono by (intro bisect_loop_boundary) (auto intro: order.strict_trans1)
  have "boundary (\<lambda>t. \<not> x < t) a (bisect_right a x)"
    unfolding bisect_right_def using mono by (intro bisect_loop_boundary) (auto simp: not_less intro: order.trans)
  then show "boundary (\<lambda>t. t \<le> x) a (bisect_right a x)" by (simp add: not_less)
qed

lemma boundary_parts:
  assumes "boundary P a b"
  shows "e \<in> set (take b a) \<Longrightarrow> P e" "e \<in> set (drop b a) \<Longrightarrow> \<not> P e"
proof -
  have len: "b \<le> length a" using assms by (simp add: boundary_def)
  show "P e" if "e \<in> set (take b a)"
  proof -
    obtain i where "i < b" "e = a ! i" using \<open>e \<in> set (take b a)\<close> len by (auto simp: in_set_conv_nth)
    then show ?thesis using assms by (simp add: boundary_def)
  qed
  show "\<not> P e" if "e \<in> set (drop b a)"
  proof -
    obtain i where "i < length a - b" "e = a ! (b + i)" using \<open>e \<in> set (drop b a)\<close> len by (auto simp: in_set_conv_nth)
    then show ?thesis using assms by (simp add: boundary_def)
  qed
qed

lemma slice_is_filter:
  fixes f :: "'a \<Rightarrow> 'b::linorder"
  assumes "boundary (\<lambda>e. f e < x) es lo" "boundary (\<lambda>e. f e \<le> y) es hi"
  shows "take (hi - lo) (drop lo es) = filter (\<lambda>e. x \<le> f e \<and> f e \<le> y) es" (is "_ = filter ?P es")
proof -
  note lo = boundary_parts [OF assms(1)] and hi = boundary_parts [OF assms(2)]
  have "filter ?P (take lo es) = []" using lo(1) by (auto simp: filter_empty_conv dest: leD)
  then have "filter ?P es = filter ?P (drop lo es)" by (metis append_Nil append_take_drop_id filter_append)
  also have "\<dots> = filter (\<lambda>e. f e \<le> y) (drop lo es)" using lo(2) by (intro filter_cong) (auto simp: not_less)
  also have "\<dots> = filter (\<lambda>e. f e \<le> y) (take (hi - lo) (drop lo es)) @ filter (\<lambda>e. f e \<le> y) (drop (hi - lo) (drop lo es))"
    by (metis append_take_drop_id filter_append)
  also have "filter (\<lambda>e. f e \<le> y) (drop (hi - lo) (drop lo es)) = []"
  proof -
    have "set (drop (hi - lo + lo) es) \<subseteq> set (drop hi es)" by (rule set_drop_subset_set_drop) simp
    then show ?thesis using hi(2) by (auto simp: filter_empty_conv drop_drop)
  qed
  also have "filter (\<lambda>e. f e \<le> y) (take (hi - lo) (drop lo es)) = take (hi - lo) (drop lo es)"
  proof -
    have "set (take (hi - lo) (drop lo es)) \<subseteq> set (take hi es)"
      by (cases "lo \<le> hi") (auto simp: take_drop dest: in_set_dropD)
    then show ?thesis using hi(1) by (auto simp: filter_id_conv)
  qed
  finally show ?thesis by simp
qed

section \<open>Equivalence with the test of all pairs\<close>

text \<open>What the heuristic asks of a pair, without any search.\<close>

definition heuristic_ok :: "int \<Rightarrow> rat \<Rightarrow> int \<Rightarrow> match_row \<Rightarrow> match_row \<Rightarrow> bool" where
  "heuristic_ok window fee_pct_max fee_sats_min out_row in_row =
     (case (occurred_at_seconds out_row, occurred_at_seconds in_row) of
        (Some t, Some u) \<Rightarrow> 0 < row_amount out_row \<and> 0 < row_amount in_row
          \<and> window_start t window \<le> u \<and> u \<le> window_end t window
          \<and> keeps_pair (fee_threshold_msat (row_amount out_row) fee_pct_max fee_sats_min) out_row in_row
      | _ \<Rightarrow> False)"

lemma scan_is_filter:
  assumes "sorted (map fst es)"
  shows "take (bisect_right (map fst es) y - bisect_left (map fst es) x) (drop (bisect_left (map fst es) x) es)
    = filter (\<lambda>e. x \<le> fst e \<and> fst e \<le> y) es"
proof (rule slice_is_filter)
  have lift: "boundary P (map fst es) b \<Longrightarrow> boundary (\<lambda>e. P (fst e)) es b" for P b
    by (auto simp: boundary_def)
  show "boundary (\<lambda>e. fst e < x) es (bisect_left (map fst es) x)"
    "boundary (\<lambda>e. fst e \<le> y) es (bisect_right (map fst es) y)"
    using bisect_boundary [OF assms] by (auto dest: lift)
qed

lemma entries_mset:
  "mset (map snd (filter P (in_entries ins)))
    = mset (filter (\<lambda>i. case occurred_at_seconds i of None \<Rightarrow> False | Some t \<Rightarrow> 0 < row_amount i \<and> P (t, i)) ins)"
  unfolding in_entries_def by (simp flip: mset_filter) (induction ins; auto split: option.splits)

lemma heuristic_mset:
  "mset (match_heuristic outs ins window pct sats)
    = mset (filter (\<lambda>(o_row, i_row). heuristic_ok window pct sats o_row i_row) (List.product outs ins))"
proof (induction outs)
  case Nil
  then show ?case by (simp add: match_heuristic_def Let_def)
next
  case (Cons out_row outs)
  show ?case
  proof (cases "occurred_at_seconds out_row = None \<or> row_amount out_row \<le> 0")
    case True
    then have "match_heuristic (out_row # outs) ins window pct sats = match_heuristic outs ins window pct sats"
      by (auto simp: match_heuristic_def Let_def split: option.splits)
    moreover have "\<not> heuristic_ok window pct sats out_row i_row" for i_row
      using True by (auto simp: heuristic_ok_def split: option.splits)
    ultimately show ?thesis using Cons by (simp add: filter_map comp_def)
  next
    case False
    then obtain t where t: "occurred_at_seconds out_row = Some t" "0 < row_amount out_row" by auto
    let ?ok = "\<lambda>e. (window_start t window \<le> fst e \<and> fst e \<le> window_end t window)
      \<and> keeps_pair (fee_threshold_msat (row_amount out_row) pct sats) out_row (snd e)"
    have sorted: "sorted (map fst (in_entries ins))" by (simp add: in_entries_def)
    have "match_heuristic (out_row # outs) ins window pct sats
        = map (Pair out_row) (map snd (filter ?ok (in_entries ins))) @ match_heuristic outs ins window pct sats"
      using t by (simp add: match_heuristic_def Let_def scan_is_filter [OF sorted] conj_commute)
    moreover have ok: "filter (heuristic_ok window pct sats out_row) ins
        = filter (\<lambda>i. case occurred_at_seconds i of None \<Rightarrow> False | Some u \<Rightarrow> 0 < row_amount i \<and> ?ok (u, i)) ins"
      using t by (intro filter_cong) (auto simp: heuristic_ok_def split: option.splits)
    have "mset (map (Pair out_row) (map snd (filter ?ok (in_entries ins))))
        = mset (map (Pair out_row) (filter (heuristic_ok window pct sats out_row) ins))"
      unfolding ok by (simp only: mset_map entries_mset [unfolded mset_map])
    moreover have "filter (\<lambda>(o_row, i_row). heuristic_ok window pct sats o_row i_row) (List.product (out_row # outs) ins)
        = map (Pair out_row) (filter (heuristic_ok window pct sats out_row) ins)
          @ filter (\<lambda>(o_row, i_row). heuristic_ok window pct sats o_row i_row) (List.product outs ins)"
      by (simp add: filter_map comp_def)
    ultimately show ?thesis using Cons by (simp only: mset_append)
  qed
qed

text \<open>C24: The heuristic with its sorted times and two binary searches returns exactly the pairs, each as
  often, that the test of every outbound row against every inbound row accepts: both times known, both
  amounts positive, the inbound time inside the window with both bounds included, compatible networks,
  different wallets, a fee within the threshold, no contradicting transaction ids on one asset, and a
  recognised route between two assets.\<close>

theorem heuristic_scan_exact:
  "mset (match_heuristic outs ins window pct sats)
    = mset (filter (\<lambda>(o_row, i_row). heuristic_ok window pct sats o_row i_row) (List.product outs ins))"
  by (rule heuristic_mset)

end
