(* ===== verification/Swap_Suggest.thy ===== *)
theory Swap_Suggest
  imports Swap_Heuristic Conflict_Sets
begin

text \<open>
  The suggestion of swap candidates (\<open>suggest_swap_candidates\<close> of \<open>core/transfer_matching.py\<close>): the rows
  that are eligible, the three evidence matchers (payment hash, provider swap id, refund link) over the
  whole population, the heuristic over the rest, and the final conflict sets and order. Which of two
  different amounts a Python set yields first is an argument, as is the time at which dismissals are
  judged.
\<close>

section \<open>Eligible rows\<close>

record pair_record =
  pr_out_id :: "string option"
  pr_in_id :: "string option"
  pr_deleted_at :: "string option"

text \<open>\<open>ds_expires_seconds\<close> is what the expiry text parses to.\<close>

record dismissal =
  ds_out_id :: "string option"
  ds_in_id :: "string option"
  ds_expires_at :: "string option"
  ds_expires_seconds :: "rat option"

definition active_paired_ids :: "pair_record list \<Rightarrow> string list" where
  "active_paired_ids records =
     filter (\<lambda>i. i \<noteq> '''') (concat (map (\<lambda>r. if str_or_empty (pr_deleted_at r) \<noteq> '''' then []
        else [str_or_empty (pr_out_id r), str_or_empty (pr_in_id r)]) records))"

definition dismissal_expired :: "rat \<Rightarrow> dismissal \<Rightarrow> bool" where
  "dismissal_expired now d \<longleftrightarrow> str_or_empty (ds_expires_at d) \<noteq> ''''
     \<and> (case ds_expires_seconds d of None \<Rightarrow> False | Some t \<Rightarrow> t \<le> now)"

definition active_dismissals :: "dismissal list \<Rightarrow> rat \<Rightarrow> (string \<times> string) list" where
  "active_dismissals dismissals now =
     filter (\<lambda>(o_id, i_id). o_id \<noteq> '''' \<and> i_id \<noteq> '''')
       (map (\<lambda>d. (str_or_empty (ds_out_id d), str_or_empty (ds_in_id d)))
         (filter (\<lambda>d. \<not> dismissal_expired now d) dismissals))"

definition dismissal_is_active :: "dismissal \<Rightarrow> rat \<Rightarrow> bool" where
  "dismissal_is_active d now \<longleftrightarrow> active_dismissals [d] now \<noteq> []"

definition select_eligible_rows :: "match_row list \<Rightarrow> string list \<Rightarrow> match_row list" where
  "select_eligible_rows rows paired_ids =
     filter (\<lambda>row. \<not> mr_excluded row \<and> mr_id row \<notin> set paired_ids
        \<and> (mr_direction row = ''outbound'' \<or> mr_direction row = ''inbound'')) rows"

record exclusion_counts =
  xc_by_active_pair :: nat
  xc_already_journaled :: nat
  xc_by_dismissal :: nat

definition candidate_exclusion_counts ::
    "match_row list \<Rightarrow> pair_record list \<Rightarrow> dismissal list \<Rightarrow> string list \<Rightarrow> rat \<Rightarrow> exclusion_counts" where
  "candidate_exclusion_counts rows pair_records dismissals booked now =
     (let paired = set (active_paired_ids pair_records);
          booked_ids = set booked;
          leg_ids = set (map mr_id (select_eligible_rows rows []));
          open_ids = leg_ids - paired - booked_ids;
          dismissed = set (active_dismissals dismissals now)
      in \<lparr>xc_by_active_pair = card (leg_ids \<inter> paired),
          xc_already_journaled = card ((leg_ids - paired) \<inter> booked_ids),
          xc_by_dismissal = card (Set.filter (\<lambda>(o_id, i_id). o_id \<in> open_ids \<and> i_id \<in> open_ids) dismissed)\<rparr>)"

section \<open>Payment hashes\<close>

type_synonym hash_sides = "match_row list \<times> match_row list"
type_synonym hash_groups = "(string, (string option, hash_sides) dict) dict"

text \<open>One row joins the outbound or the inbound list of its hash and network domain.\<close>

definition add_hash_row :: "bool \<Rightarrow> match_row \<Rightarrow> hash_groups \<Rightarrow> hash_groups" where
  "add_hash_row outbound row grouped =
     (let payment_hash = normalized_payment_hash (mr_payment_hash row)
      in if payment_hash = '''' \<or> mr_excluded row then grouped
         else let domains = dict_get grouped payment_hash [];
                  (outs, ins) = dict_get domains (mr_domain row) ([], []);
                  sides = (if outbound then (outs @ [row], ins) else (outs, ins @ [row]))
              in AList.update payment_hash (AList.update (mr_domain row) sides domains) grouped)"

definition hash_grouped :: "match_row list \<Rightarrow> match_row list \<Rightarrow> hash_groups" where
  "hash_grouped out_rows in_rows = fold (add_hash_row False) in_rows (fold (add_hash_row True) out_rows [])"

definition domain_population :: "(string option, hash_sides) dict \<Rightarrow> string option \<Rightarrow> hash_sides" where
  "domain_population domains domain =
     (let unknown = dict_get domains None ([], []);
          (outs, ins) = dict_get domains domain ([], [])
      in if domain \<noteq> None then (outs @ fst unknown, ins @ snd unknown) else (outs, ins))"

definition hash_populations_of :: "(string option, hash_sides) dict \<Rightarrow> hash_sides list" where
  "hash_populations_of domains =
     (let known = filter (\<lambda>d. d \<noteq> None) (map fst domains)
      in filter (\<lambda>(outs, ins). outs \<noteq> [] \<and> ins \<noteq> [])
           (map (domain_population domains) (if known = [] then [None] else known)))"

definition payment_hash_populations :: "match_row list \<Rightarrow> match_row list \<Rightarrow> hash_sides list" where
  "payment_hash_populations out_rows in_rows =
     concat (map (hash_populations_of \<circ> snd) (hash_grouped out_rows in_rows))"

definition hash_pair :: "hash_sides \<Rightarrow> (match_row \<times> match_row \<times> bool) list" where
  "hash_pair sides =
     (case sides of
        ([out_row], [in_row]) \<Rightarrow>
          if mr_wallet_id out_row = mr_wallet_id in_row then []
          else (case payment_hash_confidence out_row in_row of
            None \<Rightarrow> []
          | Some confidence \<Rightarrow>
              if \<not> compatible_network_domains (mr_domain out_row) (mr_domain in_row) then []
              else if confidence = ''exact'' \<and> (mr_domain out_row = None \<or> mr_domain in_row = None) then []
              else if \<not> amounts_conserve out_row in_row then []
              else [(out_row, in_row, confidence = ''exact'')])
      | _ \<Rightarrow> [])"

definition match_by_payment_hash :: "match_row list \<Rightarrow> match_row list \<Rightarrow> (match_row \<times> match_row \<times> bool) list" where
  "match_by_payment_hash out_rows in_rows = concat (map hash_pair (payment_hash_populations out_rows in_rows))"

section \<open>Provider swap ids\<close>

definition normalize_flow_text :: "string \<Rightarrow> string" where
  "normalize_flow_text v = map (\<lambda>c. if c = CHR ''_'' \<or> c = CHR '' '' then CHR ''-'' else c) (py_lower (py_strip v))"

definition prefer_provider_kind :: "string \<Rightarrow> string \<Rightarrow> string" where
  "prefer_provider_kind a b =
     (if a = ''swap-refund'' \<or> b = ''swap-refund'' then ''swap-refund'' else if a \<noteq> '''' then a else b)"

text \<open>Two amounts, either of which may be missing: the one the set yields first, and whether they differ.\<close>

definition merge_amounts :: "(int \<Rightarrow> int \<Rightarrow> int) \<Rightarrow> int option \<Rightarrow> int option \<Rightarrow> int option \<times> bool" where
  "merge_amounts set_first a b =
     (case (a, b) of
        (Some x, Some y) \<Rightarrow> if x = y then (a, False) else (Some (set_first x y), True)
      | (None, _) \<Rightarrow> (b, False)
      | (_, None) \<Rightarrow> (a, False))"

definition texts_differ :: "string \<Rightarrow> string \<Rightarrow> bool" where
  "texts_differ a b \<longleftrightarrow> py_strip a \<noteq> '''' \<and> py_strip b \<noteq> '''' \<and> py_lower (py_strip a) \<noteq> py_lower (py_strip b)"

definition first_text :: "string \<Rightarrow> string \<Rightarrow> string" where
  "first_text a b = (if a \<noteq> '''' then a else b)"

definition flows_differ :: "string \<Rightarrow> string \<Rightarrow> bool" where
  "flows_differ a b \<longleftrightarrow> a \<noteq> '''' \<and> b \<noteq> '''' \<and> normalize_flow_text a \<noteq> normalize_flow_text b"

definition merge_provider_evidence :: "(int \<Rightarrow> int \<Rightarrow> int) \<Rightarrow> swap_evidence \<Rightarrow> swap_evidence \<Rightarrow> swap_evidence" where
  "merge_provider_evidence set_first a b =
     (let (send, send_conflict) = merge_amounts set_first (se_send_amount_msat a) (se_send_amount_msat b);
          (receive, receive_conflict) = merge_amounts set_first (se_receive_amount_msat a) (se_receive_amount_msat b)
      in \<lparr>se_provider = se_provider a, se_swap_id = se_swap_id a,
          se_kind = prefer_provider_kind (se_kind a) (se_kind b),
          se_flow = first_text (se_flow a) (se_flow b), se_status = first_text (se_status a) (se_status b),
          se_send_txid = first_text (se_send_txid a) (se_send_txid b),
          se_receive_txid = first_text (se_receive_txid a) (se_receive_txid b),
          se_version = first_text (se_version a) (se_version b), se_taproot = first_text (se_taproot a) (se_taproot b),
          se_cooperative = first_text (se_cooperative a) (se_cooperative b),
          se_spend_path = first_text (se_spend_path a) (se_spend_path b),
          se_send_amount_msat = send, se_receive_amount_msat = receive,
          se_amount_conflict = (se_amount_conflict a \<or> se_amount_conflict b \<or> send_conflict \<or> receive_conflict),
          se_route_conflict = (se_route_conflict a \<or> se_route_conflict b
             \<or> texts_differ (se_send_txid a) (se_send_txid b) \<or> texts_differ (se_receive_txid a) (se_receive_txid b)),
          se_identity_conflict = (se_identity_conflict a \<or> se_identity_conflict b
             \<or> se_provider a \<noteq> se_provider b \<or> py_lower (se_swap_id a) \<noteq> py_lower (se_swap_id b)),
          se_semantic_conflict = (se_semantic_conflict a \<or> se_semantic_conflict b
             \<or> flows_differ (se_flow a) (se_flow b) \<or> flows_differ (se_status a) (se_status b))\<rparr>)"

definition provider_route_matches_row :: "string \<Rightarrow> match_row \<Rightarrow> bool" where
  "provider_route_matches_row expected row =
     (let external_id = py_strip (mr_external_id row)
      in if external_id = '''' then True else if expected = '''' then True
         else py_lower external_id = py_lower (py_strip expected))"

definition provider_whole_row_coverage :: "swap_evidence \<Rightarrow> match_row \<Rightarrow> match_row \<Rightarrow> bool" where
  "provider_whole_row_coverage evidence out_row in_row =
     (case (canonical_txid (se_send_txid evidence), canonical_txid (se_receive_txid evidence)) of
        (Some send_txid, Some receive_txid) \<Rightarrow>
          (case (mr_scope out_row, mr_scope in_row) of
             (Some (_, _, out_txid), Some (_, _, in_txid)) \<Rightarrow>
               if out_txid \<noteq> send_txid \<or> in_txid \<noteq> receive_txid then False
               else if mr_domain out_row = None \<or> mr_domain in_row = None \<or> mr_domain out_row \<noteq> mr_domain in_row then False
               else if se_amount_conflict evidence \<or> se_route_conflict evidence
                       \<or> se_identity_conflict evidence \<or> se_semantic_conflict evidence then False
               else if se_send_amount_msat evidence \<noteq> Some (row_amount out_row) then False
               else if se_receive_amount_msat evidence \<noteq> Some (row_amount in_row) then False
               else amounts_conserve out_row in_row
           | _ \<Rightarrow> False)
      | _ \<Rightarrow> False)"

definition with_evidence :: "match_row list \<Rightarrow> (match_row \<times> swap_evidence) list" where
  "with_evidence rows = concat (map (\<lambda>row. case mr_evidence row of None \<Rightarrow> [] | Some e \<Rightarrow> [(row, e)]) rows)"

definition provider_key :: "match_row \<times> swap_evidence \<Rightarrow> string \<times> string" where
  "provider_key re = (se_provider (snd re), se_swap_id (snd re))"

definition domain_count :: "(match_row \<times> swap_evidence) list \<Rightarrow> string option \<Rightarrow> nat" where
  "domain_count res d = length (filter (\<lambda>re. mr_domain (fst re) = d) res)"

text \<open>The rows of one side that compete for a row of the given domain.\<close>

definition compatible_count :: "(match_row \<times> swap_evidence) list \<Rightarrow> string option \<Rightarrow> nat" where
  "compatible_count res d = (if d = None then length res else domain_count res d + domain_count res None)"

definition provider_pair :: "(int \<Rightarrow> int \<Rightarrow> int) \<Rightarrow> (match_row \<times> swap_evidence) list \<Rightarrow> (match_row \<times> swap_evidence) list
    \<Rightarrow> match_row \<times> swap_evidence \<Rightarrow> match_row \<times> swap_evidence
    \<Rightarrow> (match_row \<times> match_row \<times> swap_evidence \<times> bool) list" where
  "provider_pair set_first outs ins oe ie =
     (let out_row = fst oe; in_row = fst ie
      in if \<not> compatible_network_domains (mr_domain out_row) (mr_domain in_row) then []
         else let unique_key = compatible_count outs (mr_domain in_row) = 1 \<and> compatible_count ins (mr_domain out_row) = 1;
                  evidence = merge_provider_evidence set_first (snd oe) (snd ie)
         in if \<not> provider_route_matches_row (se_send_txid evidence) out_row then []
            else if \<not> provider_route_matches_row (se_receive_txid evidence) in_row then []
            else [(out_row, in_row, evidence, unique_key \<and> provider_whole_row_coverage evidence out_row in_row)])"

definition match_by_provider_swap_id :: "(int \<Rightarrow> int \<Rightarrow> int) \<Rightarrow> match_row list \<Rightarrow> match_row list
    \<Rightarrow> (match_row \<times> match_row \<times> swap_evidence \<times> bool) list" where
  "match_by_provider_swap_id set_first out_rows in_rows =
     (let in_by_key = group_by provider_key (with_evidence in_rows)
      in concat (map (\<lambda>(key, outs). let ins = dict_get in_by_key key []
           in concat (map (\<lambda>oe. concat (map (provider_pair set_first outs ins oe) ins)) outs))
           (group_by provider_key (with_evidence out_rows))))"

section \<open>Refund links\<close>

definition funding_output_amount_msat :: "match_row \<Rightarrow> int \<Rightarrow> int option" where
  "funding_output_amount_msat row vout =
     (case map_of (mr_outputs row) vout of
        Some (Some sats) \<Rightarrow> if 0 \<le> sats then Some (sats * 1000) else None
      | _ \<Rightarrow> None)"

text \<open>The funding output is proven to be the whole row: both rows are scoped to one chain and network,
  and the outbound one to the funding transaction.\<close>

definition refund_outpoint_proven :: "match_row \<Rightarrow> match_row \<Rightarrow> string \<Rightarrow> bool \<Rightarrow> bool" where
  "refund_outpoint_proven out_row in_row funding_txid proven \<longleftrightarrow> proven
     \<and> (case (canonical_txid funding_txid, mr_scope out_row, mr_scope in_row) of
          (Some txid, Some (c, n, out_txid), Some (c', n', _)) \<Rightarrow> out_txid = txid \<and> (c', n') = (c, n)
        | _ \<Rightarrow> False)"

text \<open>The strength of the link, none when the row holds more than the funding output.\<close>

definition refund_version :: "match_row \<Rightarrow> match_row \<Rightarrow> string \<times> int option \<times> bool \<Rightarrow> string option" where
  "refund_version out_row in_row reference =
     (case reference of
        (_, None, _) \<Rightarrow> Some ''txid_legacy''
      | (funding_txid, Some vout, proven) \<Rightarrow>
          (case funding_output_amount_msat out_row vout of
             None \<Rightarrow> Some ''outpoint_unverified''
           | Some amount \<Rightarrow>
               if amount \<noteq> row_amount out_row then None
               else if refund_outpoint_proven out_row in_row funding_txid proven then Some ''outpoint_exact''
               else Some ''outpoint_unverified''))"

definition refund_evidence :: "string \<Rightarrow> int option \<Rightarrow> string \<Rightarrow> swap_evidence" where
  "refund_evidence funding_txid funding_vout version =
     \<lparr>se_provider = ''chain_htlc'',
      se_swap_id = (case funding_vout of None \<Rightarrow> funding_txid | Some vout \<Rightarrow> funding_txid @ '':'' @ int_str vout),
      se_kind = ''swap-refund'', se_flow = ''refund'', se_status = ''refunded'', se_send_txid = '''', se_receive_txid = '''',
      se_version = version, se_taproot = '''', se_cooperative = '''', se_spend_path = ''timeout'',
      se_send_amount_msat = None, se_receive_amount_msat = None, se_amount_conflict = False, se_route_conflict = False,
      se_identity_conflict = False, se_semantic_conflict = False\<rparr>"

definition refund_pair :: "match_row list \<Rightarrow> match_row \<Rightarrow> (match_row \<times> match_row \<times> swap_evidence) list" where
  "refund_pair out_rows in_row =
     (let (funding_txid, funding_vout, proven) = mr_refund in_row;
          out_by_external_id = group_by (\<lambda>row. py_lower (mr_external_id row)) (filter (\<lambda>row. mr_external_id row \<noteq> '''') out_rows)
      in if funding_txid = '''' then []
         else case filter (\<lambda>row. compatible_network_domains (mr_domain row) (mr_domain in_row))
                     (dict_get out_by_external_id (py_lower funding_txid) []) of
           [out_row] \<Rightarrow>
             if py_upper (mr_asset out_row) \<noteq> py_upper (mr_asset in_row) then []
             else if \<not> amounts_conserve out_row in_row then []
             else (case refund_version out_row in_row (funding_txid, funding_vout, proven) of
                     None \<Rightarrow> []
                   | Some version \<Rightarrow> [(out_row, in_row, refund_evidence funding_txid funding_vout version)])
         | _ \<Rightarrow> [])"

definition match_by_refund_link :: "match_row list \<Rightarrow> match_row list \<Rightarrow> (match_row \<times> match_row \<times> swap_evidence) list" where
  "match_by_refund_link out_rows in_rows = concat (map (refund_pair out_rows) in_rows)"

section \<open>Suggestions\<close>

record suggest_options =
  so_time_window_seconds :: int
  so_fee_pct_max :: rat
  so_fee_sats_min :: int
  so_include_heuristics :: bool

definition rows_of_direction :: "string \<Rightarrow> string list \<Rightarrow> match_row list \<Rightarrow> match_row list" where
  "rows_of_direction direction booked rows = filter (\<lambda>row. mr_direction row = direction \<and> mr_id row \<notin> set booked) rows"

text \<open>An evidence pair stays when both rows are eligible and the pair is not dismissed.\<close>

definition open_pair :: "string list \<Rightarrow> (string \<times> string) list \<Rightarrow> match_row \<times> match_row \<times> 'a \<Rightarrow> bool" where
  "open_pair eligible dismissed p =
     (case p of (out_row, in_row, _) \<Rightarrow> mr_id out_row \<in> set eligible \<and> mr_id in_row \<in> set eligible
        \<and> (mr_id out_row, mr_id in_row) \<notin> set dismissed)"

definition confidence_of :: "bool \<Rightarrow> string" where
  "confidence_of whole_row_exact = (if whole_row_exact then ''exact'' else ''strong'')"

definition suggestion_key :: "swap_candidate \<Rightarrow> nat \<times> int \<times> string \<times> string \<times> string" where
  "suggestion_key c = (if is_exact c then 0 else 1, \<bar>sc_swap_fee_msat c\<bar>, sc_out_occurred_at c, sc_out_id c, sc_in_id c)"

definition evidence_candidates :: "(match_row \<times> match_row \<times> bool) list
    \<Rightarrow> (match_row \<times> match_row \<times> swap_evidence \<times> bool) list \<Rightarrow> (match_row \<times> match_row \<times> swap_evidence) list
    \<Rightarrow> swap_candidate list" where
  "evidence_candidates hash_pairs provider_pairs refund_pairs =
     map (\<lambda>(out_row, in_row, exact). build_candidate out_row in_row (confidence_of exact) ''payment_hash'' '''' None) hash_pairs
     @ map (\<lambda>(out_row, in_row, evidence, exact).
         build_candidate out_row in_row (confidence_of exact) ''provider_swap_id'' (se_kind evidence) (Some evidence)) provider_pairs
     @ map (\<lambda>(out_row, in_row, evidence).
         build_candidate out_row in_row (confidence_of (se_version evidence = ''outpoint_exact'')) ''htlc_refund''
           ''swap-refund'' (Some evidence)) refund_pairs"

definition raw_candidates :: "(int \<Rightarrow> int \<Rightarrow> int) \<Rightarrow> suggest_options \<Rightarrow> rat \<Rightarrow> match_row list \<Rightarrow> pair_record list
    \<Rightarrow> dismissal list \<Rightarrow> string list \<Rightarrow> swap_candidate list" where
  "raw_candidates set_first opts now rows pair_records dismissals booked =
     (let paired_ids = active_paired_ids pair_records;
          dismissed = active_dismissals dismissals now;
          population = select_eligible_rows rows [];
          eligible = select_eligible_rows rows paired_ids;
          out_rows = rows_of_direction ''outbound'' booked eligible;
          in_rows = rows_of_direction ''inbound'' booked eligible;
          population_out = rows_of_direction ''outbound'' booked population;
          population_in = rows_of_direction ''inbound'' booked population;
          eligible_ids = map mr_id eligible;
          hash_pairs = filter (open_pair eligible_ids dismissed) (match_by_payment_hash population_out population_in);
          provider_pairs = filter (open_pair eligible_ids dismissed) (match_by_provider_swap_id set_first population_out population_in);
          refund_pairs = filter (open_pair eligible_ids dismissed) (match_by_refund_link population_out population_in);
          evidence = evidence_candidates hash_pairs provider_pairs refund_pairs;
          exact_out = map sc_out_id (filter is_exact evidence);
          exact_in = map sc_in_id (filter is_exact evidence);
          heuristic_pairs = (if so_include_heuristics opts
             then match_heuristic (filter (\<lambda>row. mr_id row \<notin> set exact_out) out_rows)
                    (filter (\<lambda>row. mr_id row \<notin> set exact_in) in_rows)
                    (so_time_window_seconds opts) (so_fee_pct_max opts) (so_fee_sats_min opts)
             else [])
      in evidence
         @ map (\<lambda>(out_row, in_row). build_candidate out_row in_row ''strong'' ''heuristic'' '''' None)
             (filter (\<lambda>(out_row, in_row). (mr_id out_row, mr_id in_row) \<notin> set dismissed) heuristic_pairs))"

definition suggest_swap_candidates :: "(int \<Rightarrow> int \<Rightarrow> int) \<Rightarrow> suggest_options \<Rightarrow> rat \<Rightarrow> match_row list \<Rightarrow> pair_record list
    \<Rightarrow> dismissal list \<Rightarrow> string list \<Rightarrow> swap_candidate list option" where
  "suggest_swap_candidates set_first opts now rows pair_records dismissals booked =
     (case finalize_candidate_conflicts (raw_candidates set_first opts now rows pair_records dismissals booked) of
        None \<Rightarrow> None
      | Some candidates \<Rightarrow> Some (sort_key suggestion_key candidates))"

section \<open>Populations of a payment hash\<close>

definition in_hash_group :: "string \<Rightarrow> string option \<Rightarrow> match_row \<Rightarrow> bool" where
  "in_hash_group h d row \<longleftrightarrow> normalized_payment_hash (mr_payment_hash row) = h \<and> \<not> mr_excluded row \<and> mr_domain row = d"

abbreviation hash_sides_of :: "hash_groups \<Rightarrow> string \<Rightarrow> string option \<Rightarrow> hash_sides" where
  "hash_sides_of G h d \<equiv> dict_get (dict_get G h []) d ([], [])"

lemma add_hash_row_sides:
  "h \<noteq> '''' \<Longrightarrow> hash_sides_of (add_hash_row outbound row G) h d =
     (if in_hash_group h d row
      then (if outbound then (fst (hash_sides_of G h d) @ [row], snd (hash_sides_of G h d))
            else (fst (hash_sides_of G h d), snd (hash_sides_of G h d) @ [row]))
      else hash_sides_of G h d)"
  by (auto simp: add_hash_row_def in_hash_group_def Let_def dict_get_update split: prod.splits)

lemma fold_hash_rows_sides:
  assumes "h \<noteq> ''''"
  shows "hash_sides_of (fold (add_hash_row outbound) rows G) h d =
     (if outbound then (fst (hash_sides_of G h d) @ filter (in_hash_group h d) rows, snd (hash_sides_of G h d))
      else (fst (hash_sides_of G h d), snd (hash_sides_of G h d) @ filter (in_hash_group h d) rows))"
  by (induction rows arbitrary: G) (simp_all add: add_hash_row_sides [OF assms])


text \<open>The rows that carry a hash in a domain, followed by those with no known domain.\<close>

definition hash_rivals :: "string \<Rightarrow> string option \<Rightarrow> match_row list \<Rightarrow> match_row list" where
  "hash_rivals h d rows = filter (in_hash_group h d) rows @ (if d = None then [] else filter (in_hash_group h None) rows)"



text \<open>Rows that no known network keeps from competing for a hash.\<close>

definition hash_rival :: "string \<Rightarrow> string \<Rightarrow> match_row \<Rightarrow> bool" where
  "hash_rival h d row \<longleftrightarrow> normalized_payment_hash (mr_payment_hash row) = h \<and> \<not> mr_excluded row
     \<and> compatible_network_domains (mr_domain row) (Some d)"


section \<open>What exact evidence is\<close>

text \<open>A payment hash that one outbound and one inbound row carry on a known network, one of them from
  a Lightning node and the other from a verified claim on chain.\<close>

definition exact_by_hash :: "match_row list \<Rightarrow> match_row list \<Rightarrow> match_row \<Rightarrow> match_row \<Rightarrow> bool" where
  "exact_by_hash outs ins o_row i_row \<longleftrightarrow>
     (\<exists>h d. h \<noteq> '''' \<and> mr_domain o_row = Some d \<and> mr_domain i_row = Some d
        \<and> filter (hash_rival h d) outs = [o_row] \<and> filter (hash_rival h d) ins = [i_row]
        \<and> {payment_hash_role o_row, payment_hash_role i_row} = {''lightning_node'', ''chain_htlc''}
        \<and> mr_wallet_id o_row \<noteq> mr_wallet_id i_row \<and> amounts_conserve o_row i_row)"

lemma payment_hash_confidence_exact:
  "payment_hash_confidence o_row i_row = Some ''exact'' \<longleftrightarrow>
     {payment_hash_role o_row, payment_hash_role i_row} = {''lightning_node'', ''chain_htlc''}"
proof -
  have "''unknown'' \<notin> {''lightning_node'', ''chain_htlc''}" "''chain_htlc_unscoped'' \<notin> {''lightning_node'', ''chain_htlc''}" by simp_all
  moreover define R where "R = {payment_hash_role o_row, payment_hash_role i_row}"
  ultimately show ?thesis
    unfolding payment_hash_confidence_def Let_def R_def [symmetric]
    by (cases "R = {''lightning_node'', ''chain_htlc''}") simp_all
qed












section \<open>Soundness of the suggestions\<close>

text \<open>A row that takes part in suggestions.\<close>

definition open_leg :: "match_row list \<Rightarrow> pair_record list \<Rightarrow> string list \<Rightarrow> string \<Rightarrow> match_row \<Rightarrow> bool" where
  "open_leg rows pair_records booked direction row \<longleftrightarrow> row \<in> set rows \<and> \<not> mr_excluded row \<and> mr_direction row = direction
     \<and> mr_id row \<notin> set booked \<and> mr_id row \<notin> set (active_paired_ids pair_records)"

text \<open>The rows against which uniqueness of evidence is judged: paired ones are among them.\<close>

definition population_of :: "match_row list \<Rightarrow> string list \<Rightarrow> string \<Rightarrow> match_row list" where
  "population_of rows booked direction = rows_of_direction direction booked (select_eligible_rows rows [])"






lemma confidence_of_exact [simp]: "confidence_of b = ''exact'' \<longleftrightarrow> b"
  by (simp add: confidence_of_def)







section \<open>Exact evidence is not lost\<close>

lemma hash_rivals_of_unique:
  assumes "filter (hash_rival h d) rows = [x]" "mr_domain x = Some d"
  shows "hash_rivals h (Some d) rows = [x]"
proof -
  have only: "y = x" if "y \<in> set rows" "hash_rival h d y" for y
  proof -
    have "y \<in> set (filter (hash_rival h d) rows)" using that by simp
    then show ?thesis unfolding assms(1) by simp
  qed
  have "\<not> in_hash_group h None y" if "y \<in> set rows" for y
  proof
    assume g: "in_hash_group h None y"
    then have "hash_rival h d y" by (simp add: in_hash_group_def hash_rival_def compatible_network_domains_def)
    then show False using only [OF that] g assms(2) by (simp add: in_hash_group_def)
  qed
  then have none: "filter (in_hash_group h None) rows = []" by (simp add: filter_empty_conv)
  have "hash_rival h d y \<longleftrightarrow> in_hash_group h (Some d) y" if "y \<in> set rows" for y
    using only [OF that] assms(2) by (auto simp: hash_rival_def in_hash_group_def compatible_network_domains_def)
  then have "filter (in_hash_group h (Some d)) rows = [x]" using assms(1) filter_cong [OF refl, of rows "hash_rival h d"] by metis
  with none show ?thesis by (simp add: hash_rivals_def)
qed

lemma payment_hash_populations_complete:
  assumes "h \<noteq> ''''" "filter (in_hash_group h (Some d)) outs \<noteq> []" "hash_rivals h (Some d) ins \<noteq> []"
  shows "(hash_rivals h (Some d) outs, hash_rivals h (Some d) ins) \<in> set (payment_hash_populations outs ins)"
proof -
  let ?G = "hash_grouped outs ins" and ?D = "dict_get (hash_grouped outs ins) h []"
  have sides: "dict_get ?D d' ([], []) = (filter (in_hash_group h d') outs, filter (in_hash_group h d') ins)" for d'
    unfolding hash_grouped_def by (simp add: fold_hash_rows_sides [OF assms(1)])
  have key: "Some d \<in> fst ` set ?D"
  proof (rule ccontr)
    assume "Some d \<notin> fst ` set ?D"
    then have "map_of ?D (Some d) = None" by (simp add: map_of_eq_None_iff)
    then have "dict_get ?D (Some d) ([], []) = ([], [])" by (simp add: dict_get_def)
    then show False using assms(2) by (simp add: sides)
  qed
  then have "(h, ?D) \<in> set ?G"
    by (cases "map_of ?G h") (auto simp: dict_get_def dest: map_of_SomeD)
  moreover have "domain_population ?D (Some d) = (hash_rivals h (Some d) outs, hash_rivals h (Some d) ins)"
    by (simp add: domain_population_def Let_def sides hash_rivals_def)
  moreover have "Some d \<in> set (filter (\<lambda>d. d \<noteq> None) (map fst ?D))" using key by simp
  moreover from this have "filter (\<lambda>d. d \<noteq> None) (map fst ?D) \<noteq> []" by (metis empty_iff empty_set)
  ultimately have "(hash_rivals h (Some d) outs, hash_rivals h (Some d) ins) \<in> set (hash_populations_of ?D)"
    using assms(2,3) by (force simp: hash_populations_of_def Let_def hash_rivals_def)
  then show ?thesis using \<open>(h, ?D) \<in> set ?G\<close> by (force simp: payment_hash_populations_def)
qed

lemma exact_by_hash_matched:
  assumes "exact_by_hash outs ins o_row i_row"
  shows "(o_row, i_row, True) \<in> set (match_by_payment_hash outs ins)"
proof -
  obtain h d where hd: "h \<noteq> ''''" "mr_domain o_row = Some d" "mr_domain i_row = Some d"
      "filter (hash_rival h d) outs = [o_row]" "filter (hash_rival h d) ins = [i_row]"
    and rest: "{payment_hash_role o_row, payment_hash_role i_row} = {''lightning_node'', ''chain_htlc''}"
      "mr_wallet_id o_row \<noteq> mr_wallet_id i_row" "amounts_conserve o_row i_row"
    using assms by (auto simp: exact_by_hash_def)
  note one = hash_rivals_of_unique [OF hd(4,2)] hash_rivals_of_unique [OF hd(5,3)]
  have "o_row \<in> set (hash_rivals h (Some d) outs)" using one(1) by simp
  then have "filter (in_hash_group h (Some d)) outs \<noteq> []"
    using hd(2) by (auto simp: hash_rivals_def in_hash_group_def filter_empty_conv)
  then have "([o_row], [i_row]) \<in> set (payment_hash_populations outs ins)"
    using payment_hash_populations_complete [OF hd(1), of d outs ins] one by simp
  moreover have "(o_row, i_row, True) \<in> set (hash_pair ([o_row], [i_row]))"
    using hd(2,3) rest payment_hash_confidence_exact [of o_row i_row]
    by (simp add: hash_pair_def compatible_network_domains_def)
  ultimately show ?thesis by (force simp: match_by_payment_hash_def)
qed

lemma evidence_hash_member:
  "(o_row, i_row, ex) \<in> set hash_pairs \<Longrightarrow>
     build_candidate o_row i_row (confidence_of ex) ''payment_hash'' '''' None \<in> set (evidence_candidates hash_pairs provider_pairs refund_pairs)"
  unfolding evidence_candidates_def set_append set_map by (intro UnI1 rev_image_eqI) auto

lemma exact_survives:
  assumes "c \<in> set cs" "is_exact c" "finalize_candidate_conflicts cs = Some out"
  shows "\<exists>d \<in> set out. edge_of d = edge_of c \<and> is_exact d"
proof -
  obtain k where k: "k \<in> set (dedupe_candidate_edges cs)" "edge_of k = edge_of c" "candidate_rank k \<le> candidate_rank c"
    using dedupe_spec(3) [OF assms(1)] by blast
  have "is_exact k" using k(3) assms(2) by (auto simp: candidate_rank_def split: if_splits)
  then have mem: "k \<in> set (surviving_candidates (dedupe_candidate_edges cs))"
    using k(1) by (simp add: surviving_candidates_def Let_def)
  have all2: "list_all2 (stamped_from (surviving_candidates (dedupe_candidate_edges cs))) (surviving_candidates (dedupe_candidate_edges cs)) out"
    using finalize_spec [of cs] assms(3) by auto
  obtain d where d: "d \<in> set out" "stamped_from (surviving_candidates (dedupe_candidate_edges cs)) k d"
    using list_all2_left_member [OF all2 mem] by (elim bexE)
  from d(2) obtain i n where "d = k\<lparr>sc_conflict_set_id := i, sc_conflict_size := n\<rparr>" unfolding stamped_from_def by blast
  then have "edge_of d = edge_of k" "sc_confidence d = sc_confidence k" by simp_all
  then show ?thesis using d(1) k(2) \<open>is_exact k\<close> by (intro bexI [OF _ d(1)] conjI) simp_all
qed

text \<open>Two open rows whose pair is not dismissed and which a unique payment hash links exactly are
  always suggested, as an exact pair.\<close>

theorem exact_hash_suggested:
  assumes "open_leg rows pair_records booked ''outbound'' o_row" "open_leg rows pair_records booked ''inbound'' i_row"
    and "(mr_id o_row, mr_id i_row) \<notin> set (active_dismissals dismissals now)"
    and "exact_by_hash (population_of rows booked ''outbound'') (population_of rows booked ''inbound'') o_row i_row"
  shows "\<exists>out c. suggest_swap_candidates set_first opts now rows pair_records dismissals booked = Some out
    \<and> c \<in> set out \<and> edge_of c = (mr_id o_row, mr_id i_row) \<and> is_exact c"
proof -
  let ?raw = "raw_candidates set_first opts now rows pair_records dismissals booked"
  let ?c = "build_candidate o_row i_row (confidence_of True) ''payment_hash'' '''' None"
  have ids: "mr_id o_row \<in> set (map mr_id (select_eligible_rows rows (active_paired_ids pair_records)))"
    "mr_id i_row \<in> set (map mr_id (select_eligible_rows rows (active_paired_ids pair_records)))"
    using assms(1,2) by (auto simp: open_leg_def select_eligible_rows_def)
  then have "(o_row, i_row, True) \<in> set (filter (open_pair (map mr_id (select_eligible_rows rows (active_paired_ids pair_records)))
      (active_dismissals dismissals now)) (match_by_payment_hash (population_of rows booked ''outbound'') (population_of rows booked ''inbound'')))"
    using exact_by_hash_matched [OF assms(4)] assms(3) by (simp add: open_pair_def)
  then have "?c \<in> set ?raw"
    unfolding raw_candidates_def Let_def population_of_def [symmetric] set_append by (intro UnI1 evidence_hash_member)
  moreover have "is_exact ?c" by simp
  moreover obtain stamped where "finalize_candidate_conflicts ?raw = Some stamped" using finalize_spec by blast
  ultimately show ?thesis using exact_survives [of ?c ?raw stamped] by (auto simp: suggest_swap_candidates_def)
qed

section \<open>Example\<close>

definition example_row :: "string \<Rightarrow> string \<Rightarrow> string \<Rightarrow> string \<Rightarrow> int \<Rightarrow> match_row" where
  "example_row i wallet direction source amount =
     \<lparr>mr_id = i, mr_wallet_id = wallet, mr_wallet_label = wallet, mr_wallet_kind = ''lnd'', mr_kind = ''lnd_pay'',
      mr_import_source = ''lnd'', mr_payment_hash = Some (replicate 64 CHR ''a''), mr_payment_hash_source = Some source,
      mr_external_id = '''', mr_occurred_at = ''2026-01-01T00:00:00Z'', mr_direction = direction, mr_asset = ''BTC'',
      mr_amount = Some amount, mr_fee = None, mr_amount_includes_fee = False, mr_excluded = False,
      mr_parsed_at = Some 1767225600, mr_domain = Some ''main'', mr_scope = None, mr_verified_claim = True,
      mr_evidence = None, mr_refund = ('''', None, False), mr_outputs = []\<rparr>"

definition example_out :: match_row where
  "example_out = example_row ''o1'' ''w1'' ''outbound'' ''lnd'' 100000"

definition example_in :: match_row where
  "example_in = example_row ''i1'' ''w2'' ''inbound'' ''chain_script_unique_outpoint'' 99000"

definition example_options :: suggest_options where
  "example_options = \<lparr>so_time_window_seconds = DEFAULT_TIME_WINDOW_SECONDS, so_fee_pct_max = DEFAULT_FEE_PCT_MAX,
     so_fee_sats_min = DEFAULT_FEE_SATS_MIN, so_include_heuristics = True\<rparr>"

lemma example_rows:
  "population_of [example_out, example_in] [] ''outbound'' = [example_out]"
  "population_of [example_out, example_in] [] ''inbound'' = [example_in]"
  "payment_hash_role example_out = ''lightning_node''" "payment_hash_role example_in = ''chain_htlc''"
  "normalized_payment_hash (mr_payment_hash example_out) = replicate 64 CHR ''a''"
  "normalized_payment_hash (mr_payment_hash example_in) = replicate 64 CHR ''a''"
  "amounts_conserve example_out example_in"
  by code_simp+

lemma example_exact: "exact_by_hash [example_out] [example_in] example_out example_in"
  unfolding exact_by_hash_def
  by (rule exI [of _ "replicate 64 CHR ''a''"], rule exI [of _ "''main''"])
    (simp add: hash_rival_def example_rows compatible_network_domains_def, simp add: example_out_def example_in_def example_row_def)

theorem exact_hash_suggested_witness:
  "\<exists>out c. suggest_swap_candidates max example_options 0 [example_out, example_in] [] [] [] = Some out
    \<and> c \<in> set out \<and> edge_of c = (''o1'', ''i1'') \<and> is_exact c"
proof -
  have "open_leg [example_out, example_in] [] [] ''outbound'' example_out" "open_leg [example_out, example_in] [] [] ''inbound'' example_in"
    by (simp_all add: open_leg_def example_out_def example_in_def example_row_def active_paired_ids_def)
  from exact_hash_suggested [OF this, of "[]" 0 max example_options] show ?thesis
    using example_exact by (simp add: example_rows active_dismissals_def) (simp add: example_out_def example_in_def example_row_def)
qed

end
