(* ===== verification/Loan_Marks.thy ===== *)
theory Loan_Marks
  imports Prelude
begin

text \<open>
  Loan marks (\<open>core/loans.py\<close>): rows of the table \<open>loan_legs\<close> that give a transaction a loan role. The
  two tables the code reads are lists of records in insertion order; a statement is a filter, an
  update of the rows it selects, or an insertion that the primary key may refuse. Fresh identifiers
  and the time are arguments. Shown: every history of operations keeps one active mark per
  transaction, what each operation does to the role map the tax engine reads, and which locks are
  reported as open.
\<close>

section \<open>Tables\<close>

record loan_leg =
  ll_id :: string
  ll_workspace_id :: string
  ll_profile_id :: string
  ll_transaction_id :: string
  ll_loan_id :: "string option"
  ll_role :: string
  ll_note :: "string option"
  ll_deleted_at :: "string option"
  ll_created_at :: string

record loan_tx =
  lt_id :: string
  lt_profile_id :: string
  lt_direction :: string
  lt_asset :: string
  lt_occurred_at :: "string option"

datatype loan_error = LoanAppError string string | IntegrityError

definition COLLATERAL_ROLES :: "string list" where
  "COLLATERAL_ROLES = [''collateral_lock'', ''collateral_release'', ''loan_principal_received'', ''loan_principal_repaid'']"

definition ROLE_DIRECTIONS :: "(string, string) dict" where
  "ROLE_DIRECTIONS = [(''collateral_lock'', ''outbound''), (''collateral_release'', ''inbound''),
     (''loan_principal_received'', ''inbound''), (''loan_principal_repaid'', ''outbound''),
     (''channel_open'', ''outbound''), (''channel_close'', ''inbound'')]"

definition is_active :: "string \<Rightarrow> loan_leg \<Rightarrow> bool" where
  "is_active profile leg \<longleftrightarrow> ll_profile_id leg = profile \<and> ll_deleted_at leg = None"

definition active_mark :: "string \<Rightarrow> string \<Rightarrow> loan_leg \<Rightarrow> bool" where
  "active_mark profile tx leg \<longleftrightarrow> is_active profile leg \<and> ll_transaction_id leg = tx"

section \<open>Operations\<close>

definition require_role :: "string \<Rightarrow> loan_error option" where
  "require_role role =
     (if role \<notin> set COLLATERAL_ROLES then Some (LoanAppError ''validation''
        (''Invalid loan role '' @ quoted role @ ''. Allowed: '' @ join_with '', '' COLLATERAL_ROLES)) else None)"

definition require_role_direction :: "string \<Rightarrow> string \<Rightarrow> loan_error option" where
  "require_role_direction role direction =
     (let expected = dict_get ROLE_DIRECTIONS role ''''
      in if direction \<noteq> expected then Some (LoanAppError ''validation''
           (''Loan role '' @ quoted role @ '' requires an '' @ expected @ '' transaction'')) else None)"

text \<open>\<open>UPDATE loan_legs SET deleted_at = now\<close> for the rows that are selected.\<close>

definition retire :: "(loan_leg \<Rightarrow> bool) \<Rightarrow> string \<Rightarrow> loan_leg list \<Rightarrow> loan_leg list" where
  "retire selected now legs = map (\<lambda>leg. if selected leg then leg\<lparr>ll_deleted_at := Some now\<rparr> else leg) legs"

definition effective_loan_id :: "string option \<Rightarrow> loan_leg option \<Rightarrow> string option" where
  "effective_loan_id loan_id existing =
     (if py_strip (str_or_empty loan_id) \<noteq> '''' then Some (py_strip (str_or_empty loan_id))
      else case existing of
        None \<Rightarrow> None
      | Some leg \<Rightarrow> if str_or_empty (ll_loan_id leg) \<noteq> '''' then ll_loan_id leg else None)"

definition mark_collateral :: "loan_tx list \<Rightarrow> string \<Rightarrow> string \<Rightarrow> string \<Rightarrow> string \<Rightarrow> string option \<Rightarrow> string option
    \<Rightarrow> string \<Rightarrow> string \<Rightarrow> string \<Rightarrow> loan_leg list \<Rightarrow> loan_leg list \<times> (loan_error + loan_leg)" where
  "mark_collateral txs workspace profile tx role note loan_id uuid now created legs =
     (case require_role role of
        Some e \<Rightarrow> (legs, Inl e)
      | None \<Rightarrow>
     (case List.find (\<lambda>t. lt_id t = tx \<and> lt_profile_id t = profile) txs of
        None \<Rightarrow> (legs, Inl (LoanAppError ''not_found'' (''Transaction '' @ quoted tx @ '' not found in this profile'')))
      | Some t \<Rightarrow>
     (case require_role_direction role (lt_direction t) of
        Some e \<Rightarrow> (legs, Inl e)
      | None \<Rightarrow>
          (let existing = List.find (active_mark profile tx) legs;
               retired = retire (active_mark profile tx) now legs;
               leg = \<lparr>ll_id = uuid, ll_workspace_id = workspace, ll_profile_id = profile, ll_transaction_id = tx,
                      ll_loan_id = effective_loan_id loan_id existing, ll_role = role, ll_note = note,
                      ll_deleted_at = None, ll_created_at = created\<rparr>
           in if uuid \<in> ll_id ` set legs then (retired, Inl IntegrityError)
              else (retired @ [leg], Inr leg)))))"

definition unmark_collateral :: "string \<Rightarrow> string \<Rightarrow> string \<Rightarrow> loan_leg list \<Rightarrow> loan_leg list \<times> (loan_error + string)" where
  "unmark_collateral profile tx now legs =
     (case List.find (active_mark profile tx) legs of
        None \<Rightarrow> (legs, Inl (LoanAppError ''not_found'' (''No loan mark on transaction '' @ quoted tx)))
      | Some leg \<Rightarrow> (retire (\<lambda>l. ll_id l = ll_id leg) now legs, Inr tx))"

text \<open>\<open>list(dict.fromkeys(xs))\<close>: the first occurrences in order.\<close>

definition unique_in_order :: "string list \<Rightarrow> string list" where
  "unique_in_order xs = rev (remdups (rev xs))"

definition link_loan_marks :: "string \<Rightarrow> string list \<Rightarrow> string option \<Rightarrow> string \<Rightarrow> loan_leg list
    \<Rightarrow> loan_leg list \<times> (loan_error + string \<times> string list)" where
  "link_loan_marks profile transaction_ids loan_id uuid legs =
     (let unique_ids = unique_in_order transaction_ids;
          rows = filter (\<lambda>leg. is_active profile leg \<and> ll_transaction_id leg \<in> set unique_ids) legs;
          by_tx = map_of (rev (map (\<lambda>leg. (ll_transaction_id leg, leg)) rows));
          missing = filter (\<lambda>tx. by_tx tx = None) unique_ids;
          known = filter (\<lambda>l. l \<noteq> '''') (map (\<lambda>tx. case by_tx tx of None \<Rightarrow> '''' | Some leg \<Rightarrow> str_or_empty (ll_loan_id leg)) unique_ids);
          chosen = (if py_strip (str_or_empty loan_id) \<noteq> '''' then py_strip (str_or_empty loan_id)
                    else case known of [] \<Rightarrow> uuid | l # _ \<Rightarrow> l)
      in if length unique_ids < 2
           then (legs, Inl (LoanAppError ''validation'' ''At least two marked loan transactions are required to link a loan''))
         else if missing \<noteq> []
           then (legs, Inl (LoanAppError ''not_found'' ''All linked loan transactions must already have a loan mark''))
         else (map (\<lambda>leg. if is_active profile leg \<and> ll_transaction_id leg \<in> set unique_ids
                           then leg\<lparr>ll_loan_id := Some chosen\<rparr> else leg) legs,
               Inr (chosen, unique_ids)))"

definition load_collateral_role_map :: "string \<Rightarrow> loan_leg list \<Rightarrow> string \<Rightarrow> string option" where
  "load_collateral_role_map profile legs =
     map_of (rev (map (\<lambda>leg. (ll_transaction_id leg, ll_role leg)) (filter (is_active profile) legs)))"

section \<open>Open locks\<close>

record loan_mark =
  lm_leg :: loan_leg
  lm_tx :: loan_tx

text \<open>The join, newest first; rows with equal keys stay in the order of the table.\<close>

definition list_collateral_marks :: "loan_tx list \<Rightarrow> string \<Rightarrow> loan_leg list \<Rightarrow> loan_mark list" where
  "list_collateral_marks txs profile legs =
     rev (sort_key (\<lambda>m. (str_or_empty (lt_occurred_at (lm_tx m)), ll_created_at (lm_leg m)))
       (rev (concat (map (\<lambda>leg. map (\<lambda>t. \<lparr>lm_leg = leg, lm_tx = t\<rparr>) (filter (\<lambda>t. lt_id t = ll_transaction_id leg) txs))
         (filter (is_active profile) legs)))))"

abbreviation mark_role :: "loan_mark \<Rightarrow> string" where "mark_role m \<equiv> ll_role (lm_leg m)"
abbreviation mark_asset :: "loan_mark \<Rightarrow> string" where "mark_asset m \<equiv> lt_asset (lm_tx m)"

definition count_releases :: "loan_mark list \<Rightarrow> (string, int) dict" where
  "count_releases marks =
     fold (\<lambda>m d. if mark_role m = ''collateral_release'' then AList.update (mark_asset m) (dict_get d (mark_asset m) 0 + 1) d else d)
       marks []"

fun open_locks_loop :: "loan_mark list \<Rightarrow> (string, int) dict \<Rightarrow> loan_mark list" where
  "open_locks_loop [] releases = []"
| "open_locks_loop (m # ms) releases =
     (if mark_role m \<noteq> ''collateral_lock'' then open_locks_loop ms releases
      else if dict_get releases (mark_asset m) 0 > 0
        then open_locks_loop ms (AList.update (mark_asset m) (dict_get releases (mark_asset m) 0 - 1) releases)
      else m # open_locks_loop ms releases)"

definition oldest_first :: "loan_mark list \<Rightarrow> loan_mark list" where
  "oldest_first marks = sort_key (\<lambda>m. (str_or_empty (lt_occurred_at (lm_tx m)), ll_created_at (lm_leg m))) marks"

definition open_collateral_locks :: "loan_tx list \<Rightarrow> string \<Rightarrow> loan_leg list \<Rightarrow> loan_mark list" where
  "open_collateral_locks txs profile legs =
     (let marks = list_collateral_marks txs profile legs in open_locks_loop (oldest_first marks) (count_releases marks))"

section \<open>Histories\<close>

inductive loan_step :: "loan_tx list \<Rightarrow> loan_leg list \<Rightarrow> loan_leg list \<Rightarrow> bool" for txs where
  mark: "mark_collateral txs workspace profile tx role note loan_id uuid now created legs = (legs', r) \<Longrightarrow> loan_step txs legs legs'"
| unmark: "unmark_collateral profile tx now legs = (legs', r) \<Longrightarrow> loan_step txs legs legs'"
| link: "link_loan_marks profile transaction_ids loan_id uuid legs = (legs', r) \<Longrightarrow> loan_step txs legs legs'"

inductive loan_reachable :: "loan_tx list \<Rightarrow> loan_leg list \<Rightarrow> bool" for txs where
  start: "loan_reachable txs []"
| step: "loan_reachable txs legs \<Longrightarrow> loan_step txs legs legs' \<Longrightarrow> loan_reachable txs legs'"

text \<open>A mark fits a transaction of its profile: an allowed role in the direction it requires.\<close>

definition fits_transaction :: "loan_tx list \<Rightarrow> loan_leg \<Rightarrow> bool" where
  "fits_transaction txs leg \<longleftrightarrow> ll_role leg \<in> set COLLATERAL_ROLES
     \<and> (\<exists>t \<in> set txs. lt_id t = ll_transaction_id leg \<and> lt_profile_id t = ll_profile_id leg
          \<and> lt_direction t = dict_get ROLE_DIRECTIONS (ll_role leg) '''')"

definition well_marked :: "loan_tx list \<Rightarrow> loan_leg list \<Rightarrow> bool" where
  "well_marked txs legs \<longleftrightarrow> distinct (map ll_id legs) \<and> list_all (fits_transaction txs) legs
     \<and> (\<forall>profile tx. length (filter (active_mark profile tx) legs) \<le> 1)"

section \<open>What the statements do\<close>

lemma retire_ids [simp]: "map ll_id (retire selected now legs) = map ll_id legs"
  by (simp add: retire_def comp_def if_distrib cong: if_cong)

lemma retire_fits: "list_all (fits_transaction txs) legs \<Longrightarrow> list_all (fits_transaction txs) (retire selected now legs)"
  by (auto simp: list_all_iff retire_def fits_transaction_def)

lemma retire_active:
  "filter (active_mark profile tx) (retire selected now legs) = filter (\<lambda>l. active_mark profile tx l \<and> \<not> selected l) legs"
  by (induction legs) (auto simp: retire_def active_mark_def is_active_def)

lemma active_mark_unique: "active_mark p t l \<Longrightarrow> active_mark p' t' l \<Longrightarrow> p' = p \<and> t' = t"
  by (simp add: active_mark_def is_active_def)

lemma retire_marks:
  "filter (active_mark p t) (retire (active_mark profile tx) now legs)
    = (if p = profile \<and> t = tx then [] else filter (active_mark p t) legs)"
proof (cases "p = profile \<and> t = tx")
  case False
  then have "active_mark p t l \<and> \<not> active_mark profile tx l \<longleftrightarrow> active_mark p t l" for l
    using active_mark_unique by blast
  then show ?thesis unfolding retire_active using False by presburger
qed (simp add: retire_active)

text \<open>The role map reads the last active mark of a transaction.\<close>

lemma role_map_last:
  "load_collateral_role_map profile legs tx =
     (case rev (filter (active_mark profile tx) legs) of [] \<Rightarrow> None | leg # _ \<Rightarrow> Some (ll_role leg))"
proof (induction legs rule: rev_induct)
  case (snoc leg legs)
  then show ?case by (cases "active_mark profile tx leg") (auto simp: load_collateral_role_map_def active_mark_def)
qed (simp add: load_collateral_role_map_def)

lemma role_map_cong:
  "(\<And>tx. filter (active_mark profile tx) legs' = filter (active_mark profile tx) legs) \<Longrightarrow>
     load_collateral_role_map profile legs' = load_collateral_role_map profile legs"
  by (simp add: fun_eq_iff role_map_last)

lemma mark_collateral_cases:
  assumes "mark_collateral txs workspace profile tx role note loan_id uuid now created legs = (legs', r)"
  obtains (refused) code msg where "legs' = legs" "r = Inl (LoanAppError code msg)"
    | (collision) "legs' = retire (active_mark profile tx) now legs" "r = Inl IntegrityError" "uuid \<in> ll_id ` set legs"
    | (marked) leg where "legs' = retire (active_mark profile tx) now legs @ [leg]" "r = Inr leg" "ll_id leg = uuid"
        "uuid \<notin> ll_id ` set legs" "active_mark profile tx leg" "ll_role leg = role" "fits_transaction txs leg"
proof -
  have fits: "fits_transaction txs leg"
    if "List.find (\<lambda>t. lt_id t = tx \<and> lt_profile_id t = profile) txs = Some t" "require_role role = None"
      "require_role_direction role (lt_direction t) = None" "ll_role leg = role" "ll_transaction_id leg = tx" "ll_profile_id leg = profile"
    for leg t
  proof -
    have "t \<in> set txs" "lt_id t = tx" "lt_profile_id t = profile" using that(1) by (auto simp: find_Some_iff)
    then show ?thesis using that(2-)
      by (auto simp: fits_transaction_def require_role_def require_role_direction_def Let_def split: if_splits)
  qed
  show thesis
    using assms refused collision marked fits
    unfolding mark_collateral_def
    by (auto simp: Let_def active_mark_def is_active_def require_role_def require_role_direction_def
        split: option.splits if_splits)
qed

lemma well_marked_retire:
  assumes "well_marked txs legs"
  shows "well_marked txs (retire selected now legs)"
proof -
  have "length (filter (\<lambda>l. active_mark p t l \<and> \<not> selected l) legs) \<le> length (filter (active_mark p t) legs)" for p t
    by (induction legs) auto
  then have "length (filter (active_mark p t) (retire selected now legs)) \<le> 1" for p t
    unfolding retire_active using assms unfolding well_marked_def by (meson order.trans)
  then show ?thesis using assms retire_fits [of txs legs] unfolding well_marked_def by simp
qed

lemma unmark_collateral_cases:
  assumes "unmark_collateral profile tx now legs = (legs', r)"
  obtains (refused) code msg where "legs' = legs" "r = Inl (LoanAppError code msg)" "filter (active_mark profile tx) legs = []"
    | (unmarked) leg where "legs' = retire (\<lambda>l. ll_id l = ll_id leg) now legs" "r = Inr tx" "leg \<in> set legs" "active_mark profile tx leg"
proof (cases "List.find (active_mark profile tx) legs")
  case None
  then have "filter (active_mark profile tx) legs = []" by (auto simp: find_None_iff filter_empty_conv)
  then show thesis using assms refused None by (auto simp: unmark_collateral_def)
next
  case (Some leg)
  then have "leg \<in> set legs" "active_mark profile tx leg" by (auto simp: find_Some_iff)
  then show thesis using assms unmarked Some by (auto simp: unmark_collateral_def)
qed

lemma unmark_marks:
  assumes "well_marked txs legs" "leg \<in> set legs" "active_mark profile tx leg"
  shows "filter (active_mark p t) (retire (\<lambda>l. ll_id l = ll_id leg) now legs)
    = (if p = profile \<and> t = tx then [] else filter (active_mark p t) legs)"
proof -
  have one: "l = leg" if "l \<in> set legs" "ll_id l = ll_id leg" for l
    using assms(1,2) that unfolding well_marked_def by (metis distinct_map inj_onD)
  show ?thesis
  proof (cases "p = profile \<and> t = tx")
    case True
    have "leg \<in> set (filter (active_mark profile tx) legs)" using assms(2,3) by simp
    moreover have "length (filter (active_mark profile tx) legs) \<le> 1" using assms(1) unfolding well_marked_def by blast
    ultimately have single: "filter (active_mark profile tx) legs = [leg]"
      by (cases "filter (active_mark profile tx) legs") auto
    have "l = leg" if "l \<in> set legs" "active_mark profile tx l" for l
    proof -
      have "l \<in> set (filter (active_mark profile tx) legs)" using that by simp
      then show ?thesis unfolding single by simp
    qed
    then have "filter (\<lambda>l. active_mark profile tx l \<and> \<not> ll_id l = ll_id leg) legs = []"
      by (auto simp: filter_empty_conv)
    then show ?thesis using True by (simp add: retire_active)
  next
    case False
    then have "\<not> active_mark p t leg" using assms(3) active_mark_unique by blast
    then have "filter (\<lambda>l. active_mark p t l \<and> \<not> ll_id l = ll_id leg) legs = filter (active_mark p t) legs"
      using one by (intro filter_cong) auto
    then show ?thesis unfolding retire_active using False by presburger
  qed
qed

text \<open>Linking changes loan ids only.\<close>

definition relabel :: "(loan_leg \<Rightarrow> bool) \<Rightarrow> string \<Rightarrow> loan_leg list \<Rightarrow> loan_leg list" where
  "relabel selected chosen legs = map (\<lambda>leg. if selected leg then leg\<lparr>ll_loan_id := Some chosen\<rparr> else leg) legs"

lemma relabel_active:
  "filter (active_mark p t) (relabel selected chosen legs) = relabel selected chosen (filter (active_mark p t) legs)"
  by (induction legs) (auto simp: relabel_def active_mark_def is_active_def)

lemma relabel_role_map: "load_collateral_role_map profile (relabel selected chosen legs) = load_collateral_role_map profile legs"
proof -
  have "map ll_role (relabel selected chosen xs) = map ll_role xs" for xs by (simp add: relabel_def)
  then have "(case rev (relabel selected chosen xs) of [] \<Rightarrow> None | leg # _ \<Rightarrow> Some (ll_role leg))
      = (case rev xs of [] \<Rightarrow> None | leg # _ \<Rightarrow> Some (ll_role leg))" for xs
    by (cases xs rule: rev_cases) (auto simp: relabel_def)
  then show ?thesis by (simp add: fun_eq_iff role_map_last relabel_active)
qed

lemma link_loan_marks_cases:
  assumes "link_loan_marks profile transaction_ids loan_id uuid legs = (legs', r)"
  obtains (refused) code msg where "legs' = legs" "r = Inl (LoanAppError code msg)"
    | (linked) chosen where "legs' = relabel (\<lambda>leg. is_active profile leg \<and> ll_transaction_id leg \<in> set transaction_ids) chosen legs"
        "r = Inr (chosen, unique_in_order transaction_ids)"
proof -
  have "set (unique_in_order transaction_ids) = set transaction_ids" by (simp add: unique_in_order_def)
  then show thesis using assms refused linked unfolding link_loan_marks_def Let_def relabel_def by (auto split: if_splits)
qed

lemma well_marked_step:
  assumes "loan_step txs legs legs'" "well_marked txs legs"
  shows "well_marked txs legs'"
  using assms(1)
proof cases
  case (mark workspace profile tx role memo loan_id uuid now created r)
  from mark show ?thesis
  proof (cases rule: mark_collateral_cases)
    case (marked leg)
    have "length (filter (active_mark p t) legs') \<le> 1" for p t
    proof (cases "p = profile \<and> t = tx")
      case False
      then have "\<not> active_mark p t leg" using marked(5) active_mark_unique by blast
      then show ?thesis using False assms(2) by (auto simp: marked(1) retire_marks well_marked_def)
    qed (simp add: marked(1) retire_marks)
    then show ?thesis using well_marked_retire [OF assms(2), of "active_mark profile tx" now] marked
      unfolding well_marked_def by auto
  qed (use assms(2) well_marked_retire in auto)
next
  case (unmark profile tx now r)
  then show ?thesis by (cases rule: unmark_collateral_cases) (use assms(2) well_marked_retire in auto)
next
  case (link profile transaction_ids loan_id uuid r)
  then show ?thesis
  proof (cases rule: link_loan_marks_cases)
    case (linked chosen)
    then show ?thesis using assms(2) unfolding well_marked_def linked(1) relabel_active
      by (auto simp: relabel_def list_all_iff fits_transaction_def comp_def if_distrib cong: if_cong)
  qed (use assms(2) in simp)
qed

lemma reachable_well_marked: "loan_reachable txs legs \<Longrightarrow> well_marked txs legs"
proof (induction rule: loan_reachable.induct)
  case start
  then show ?case by (simp add: well_marked_def)
qed (blast intro: well_marked_step)

text \<open>C15: After every history of marking, unmarking and linking, whatever the arguments, refused calls
  included: a transaction has at most one active mark, marks have different ids, and every mark, retired
  ones too, has an allowed role that fits the direction of a transaction of its profile.\<close>

theorem loan_marks_invariant:
  assumes "loan_reachable txs legs"
  shows "distinct (map ll_id legs) \<and> list_all (fits_transaction txs) legs
    \<and> (\<forall>profile tx. length (filter (active_mark profile tx) legs) \<le> 1)"
  using reachable_well_marked [OF assms] by (simp add: well_marked_def)

text \<open>What each operation does to the role map that the tax engine reads. A mark sets the role of
  its transaction and nothing else; an unmark that succeeds removes it and nothing else; linking
  changes no role; and a call that is refused with an error message changes no row at all.\<close>

theorem role_map_updates:
  assumes "loan_reachable txs legs"
  shows "(mark_collateral txs workspace profile tx role memo loan_id uuid now created legs = (marked, Inr leg) \<longrightarrow>
       load_collateral_role_map p marked = (if p = profile then (load_collateral_role_map p legs)(tx \<mapsto> role) else load_collateral_role_map p legs))
   \<and> (unmark_collateral profile tx now legs = (unmarked, Inr tx) \<longrightarrow>
       load_collateral_role_map p unmarked = (if p = profile then (load_collateral_role_map p legs)(tx := None) else load_collateral_role_map p legs))
   \<and> load_collateral_role_map p (fst (link_loan_marks profile ids loan_id uuid legs)) = load_collateral_role_map p legs
   \<and> (mark_collateral txs workspace profile tx role memo loan_id uuid now created legs = (refused, Inl (LoanAppError code msg)) \<longrightarrow> refused = legs)"
proof (intro conjI impI)
  note inv = reachable_well_marked [OF assms]
  show "load_collateral_role_map p marked = (if p = profile then (load_collateral_role_map p legs)(tx \<mapsto> role) else load_collateral_role_map p legs)"
    if "mark_collateral txs workspace profile tx role memo loan_id uuid now created legs = (marked, Inr leg)"
    using that
  proof (cases rule: mark_collateral_cases)
    case (marked l)
    have "active_mark p t l \<longleftrightarrow> p = profile \<and> t = tx" for t using marked(5) active_mark_unique by blast
    then show ?thesis using marked(6) by (auto simp: fun_eq_iff role_map_last marked(1) retire_marks)
  qed simp_all
  show "load_collateral_role_map p unmarked = (if p = profile then (load_collateral_role_map p legs)(tx := None) else load_collateral_role_map p legs)"
    if "unmark_collateral profile tx now legs = (unmarked, Inr tx)"
    using that
  proof (cases rule: unmark_collateral_cases)
    case (unmarked l)
    then show ?thesis using unmark_marks [OF inv unmarked(3,4)] by (auto simp: fun_eq_iff role_map_last)
  qed simp
  show "load_collateral_role_map p (fst (link_loan_marks profile ids loan_id uuid legs)) = load_collateral_role_map p legs"
  proof (cases "link_loan_marks profile ids loan_id uuid legs")
    case (Pair legs' r)
    then have "load_collateral_role_map p legs' = load_collateral_role_map p legs"
      by (cases rule: link_loan_marks_cases) (simp_all add: relabel_role_map)
    then show ?thesis by (simp add: Pair)
  qed
  show "refused = legs" if "mark_collateral txs workspace profile tx role memo loan_id uuid now created legs = (refused, Inl (LoanAppError code msg))"
    using that by (cases rule: mark_collateral_cases) simp_all
qed

section \<open>Which locks are open\<close>

lemma count_releases_get:
  "dict_get (count_releases marks) a 0 = int (length (filter (\<lambda>m. mark_role m = ''collateral_release'' \<and> mark_asset m = a) marks))"
proof -
  have "dict_get (fold (\<lambda>m d. if mark_role m = ''collateral_release'' then AList.update (mark_asset m) (dict_get d (mark_asset m) 0 + 1) d else d) marks d) a 0
    = dict_get d a 0 + int (length (filter (\<lambda>m. mark_role m = ''collateral_release'' \<and> mark_asset m = a) marks))" for d
    by (induction marks arbitrary: d) (auto simp: dict_get_update)
  from this [of "[]"] show ?thesis by (simp add: count_releases_def)
qed

lemma open_locks_loop_exact:
  assumes "0 \<le> dict_get releases a 0"
  shows "filter (\<lambda>m. mark_asset m = a) (open_locks_loop ms releases)
    = drop (nat (dict_get releases a 0)) (filter (\<lambda>m. mark_role m = ''collateral_lock'' \<and> mark_asset m = a) ms)"
  using assms
proof (induction ms arbitrary: releases)
  case (Cons m ms)
  consider (other) "mark_role m \<noteq> ''collateral_lock''" | (covered) "mark_role m = ''collateral_lock''" "dict_get releases (mark_asset m) 0 > 0"
    | (opened) "mark_role m = ''collateral_lock''" "dict_get releases (mark_asset m) 0 \<le> 0" by linarith
  then show ?case
  proof cases
    case covered
    let ?r = "AList.update (mark_asset m) (dict_get releases (mark_asset m) 0 - 1) releases"
    have "0 \<le> dict_get ?r a 0" using Cons.prems covered(2) by (auto simp: dict_get_update)
    from Cons.IH [OF this] covered show ?thesis
      by (auto simp: dict_get_update drop_Cons' nat_diff_distrib)
  qed (use Cons in \<open>auto simp: drop_Cons'\<close>)
qed simp

text \<open>C16: Per asset, the locks that are reported as open are all locks but the oldest ones, as many of
  them as the asset has releases.\<close>

theorem open_locks_exact:
  "filter (\<lambda>m. mark_asset m = a) (open_collateral_locks txs profile legs)
    = drop (length (filter (\<lambda>m. mark_role m = ''collateral_release'' \<and> mark_asset m = a) (list_collateral_marks txs profile legs)))
        (filter (\<lambda>m. mark_role m = ''collateral_lock'' \<and> mark_asset m = a) (oldest_first (list_collateral_marks txs profile legs)))"
  by (simp add: open_collateral_locks_def Let_def open_locks_loop_exact count_releases_get)

section \<open>Example\<close>

definition sample_loan_txs :: "loan_tx list" where
  "sample_loan_txs = [\<lparr>lt_id = ''t1'', lt_profile_id = ''p'', lt_direction = ''outbound'', lt_asset = ''BTC'', lt_occurred_at = Some ''2026''\<rparr>]"

definition sample_leg :: "string \<Rightarrow> string \<Rightarrow> string option \<Rightarrow> loan_leg" where
  "sample_leg i role deleted = \<lparr>ll_id = i, ll_workspace_id = ''w'', ll_profile_id = ''p'', ll_transaction_id = ''t1'',
     ll_loan_id = None, ll_role = role, ll_note = None, ll_deleted_at = deleted, ll_created_at = ''now''\<rparr>"

lemma sample_marked:
  "mark_collateral sample_loan_txs ''w'' ''p'' ''t1'' ''collateral_lock'' None None ''a'' ''now'' ''now'' []
    = ([sample_leg ''a'' ''collateral_lock'' None], Inr (sample_leg ''a'' ''collateral_lock'' None))"
  "mark_collateral sample_loan_txs ''w'' ''p'' ''t1'' ''loan_principal_repaid'' None None ''b'' ''now'' ''now'' [sample_leg ''a'' ''collateral_lock'' None]
    = ([sample_leg ''a'' ''collateral_lock'' (Some ''now''), sample_leg ''b'' ''loan_principal_repaid'' None], Inr (sample_leg ''b'' ''loan_principal_repaid'' None))"
  by code_simp+

lemma sample_reachable: "loan_reachable sample_loan_txs [sample_leg ''a'' ''collateral_lock'' None]"
  by (rule loan_reachable.step [OF loan_reachable.start loan_step.mark [OF sample_marked(1)]])

theorem loan_marks_invariant_witness:
  "length (filter (active_mark ''p'' ''t1'') [sample_leg ''a'' ''collateral_lock'' (Some ''now''), sample_leg ''b'' ''loan_principal_repaid'' None]) \<le> 1"
  using loan_marks_invariant [OF loan_reachable.step [OF sample_reachable loan_step.mark [OF sample_marked(2)]]] by blast

lemma role_map_updates_witness:
  "load_collateral_role_map ''p'' [sample_leg ''a'' ''collateral_lock'' (Some ''now''), sample_leg ''b'' ''loan_principal_repaid'' None]
    = (load_collateral_role_map ''p'' [sample_leg ''a'' ''collateral_lock'' None])(''t1'' \<mapsto> ''loan_principal_repaid'')"
  using role_map_updates [OF sample_reachable, THEN conjunct1, rule_format, OF sample_marked(2), of "''p''"] by simp

end
