(* ===== verification/Coverage.thy ===== *)
theory Coverage
  imports Prelude
begin

text \<open>
  Source-of-funds coverage (\<open>core/source_funds_coverage.py\<close>): every inbound row of a profile falls into
  a bucket, and the amounts are added up per wallet and asset, per asset and in total. The rows are
  those of the query, in its order; whether a transaction has links and the report that is built for it
  are arguments (\<open>None\<close> for an exception that the code catches). Amounts in BTC, which repeat the msat
  amounts as floats, are left out. Shown: the buckets partition the rows in every breakdown.
\<close>

section \<open>Classification\<close>

definition COVERAGE_BUCKETS :: "string list" where
  "COVERAGE_BUCKETS = [''fully_traced'', ''attested'', ''unattributed'', ''in_review'', ''untraced'', ''not_classified'']"

definition ATTESTATION_SOURCE_TYPES :: "string list" where
  "ATTESTATION_SOURCE_TYPES = [''missing_history'', ''opening_balance_attestation'']"

definition UNKNOWN_ORIGIN_SOURCE_TYPES :: "string list" where
  "UNKNOWN_ORIGIN_SOURCE_TYPES = [''unknown'']"

record funds_report =
  fr_exportable :: bool
  fr_source_types :: "string option list"

definition is_type_of :: "string list \<Rightarrow> string option \<Rightarrow> bool" where
  "is_type_of types t = (case t of None \<Rightarrow> False | Some s \<Rightarrow> s \<in> set types)"

definition classify_via_report :: "funds_report \<Rightarrow> string" where
  "classify_via_report report =
     (if \<not> fr_exportable report then ''in_review''
      else let mix = fr_source_types report;
               has_real = list_ex (\<lambda>t. \<not> is_type_of ATTESTATION_SOURCE_TYPES t \<and> \<not> is_type_of UNKNOWN_ORIGIN_SOURCE_TYPES t) mix;
               has_attestation = list_ex (is_type_of ATTESTATION_SOURCE_TYPES) mix;
               has_unattributed = list_ex (is_type_of UNKNOWN_ORIGIN_SOURCE_TYPES) mix
      in if has_unattributed then ''unattributed''
         else if has_real \<and> \<not> has_attestation then ''fully_traced''
         else if has_attestation then ''attested''
         else ''in_review'')"

definition classify_transaction :: "(string \<Rightarrow> bool) \<Rightarrow> (string \<Rightarrow> funds_report option) \<Rightarrow> string \<Rightarrow> string" where
  "classify_transaction has_any_link build_report tx =
     (if \<not> has_any_link tx then ''untraced''
      else case build_report tx of None \<Rightarrow> ''in_review'' | Some report \<Rightarrow> classify_via_report report)"

section \<open>Adding up\<close>

record inbound_row =
  ir_id :: string
  ir_wallet_id :: string
  ir_asset :: string
  ir_amount :: int
  ir_wallet_label :: string

type_synonym breakdown = "(string, int \<times> int) dict"

definition empty_breakdown :: breakdown where
  "empty_breakdown = map (\<lambda>b. (b, (0, 0))) COVERAGE_BUCKETS"

text \<open>\<open>d[bucket]["amount_msat"] += amount\<close> and \<open>d[bucket]["tx_count"] += 1\<close>\<close>

definition add_to_bucket :: "string \<Rightarrow> int \<Rightarrow> breakdown \<Rightarrow> breakdown" where
  "add_to_bucket bucket amount d =
     (let (a, n) = dict_get d bucket (0, 0) in AList.update bucket (a + amount, n + 1) d)"

text \<open>The same under a key of a \<open>defaultdict\<close>.\<close>

definition add_under :: "'k \<Rightarrow> string \<Rightarrow> int \<Rightarrow> ('k, breakdown) dict \<Rightarrow> ('k, breakdown) dict" where
  "add_under k bucket amount d = AList.update k (add_to_bucket bucket amount (dict_get d k empty_breakdown)) d"

definition add_total :: "'k \<Rightarrow> int \<Rightarrow> ('k, int) dict \<Rightarrow> ('k, int) dict" where
  "add_total k amount d = AList.update k (dict_get d k 0 + amount) d"

type_synonym wallet_key = "string \<times> string \<times> string"

definition wallet_key :: "inbound_row \<Rightarrow> wallet_key" where
  "wallet_key row = (ir_wallet_id row, ir_wallet_label row, ir_asset row)"

record coverage_state =
  cs_by_wallet :: "(wallet_key, breakdown) dict"
  cs_by_asset :: "(string, breakdown) dict"
  cs_totals :: breakdown
  cs_wallet_total :: "(wallet_key, int) dict"
  cs_asset_total :: "(string, int) dict"
  cs_tx_count :: int
  cs_truncated :: bool
  cs_not_classified_count :: int
  cs_not_classified_msat :: int

definition coverage_start :: coverage_state where
  "coverage_start = \<lparr>cs_by_wallet = [], cs_by_asset = [], cs_totals = empty_breakdown, cs_wallet_total = [], cs_asset_total = [],
     cs_tx_count = 0, cs_truncated = False, cs_not_classified_count = 0, cs_not_classified_msat = 0\<rparr>"

definition count_row :: "string \<Rightarrow> inbound_row \<Rightarrow> coverage_state \<Rightarrow> coverage_state" where
  "count_row bucket row s =
     s\<lparr>cs_by_wallet := add_under (wallet_key row) bucket (ir_amount row) (cs_by_wallet s),
       cs_by_asset := add_under (ir_asset row) bucket (ir_amount row) (cs_by_asset s),
       cs_totals := add_to_bucket bucket (ir_amount row) (cs_totals s),
       cs_wallet_total := add_total (wallet_key row) (ir_amount row) (cs_wallet_total s),
       cs_asset_total := add_total (ir_asset row) (ir_amount row) (cs_asset_total s),
       cs_tx_count := cs_tx_count s + 1\<rparr>"

definition coverage_step :: "(string \<Rightarrow> string) \<Rightarrow> int \<Rightarrow> nat \<times> inbound_row \<Rightarrow> coverage_state \<Rightarrow> coverage_state" where
  "coverage_step classify max_transactions ir s =
     (case ir of (index, row) \<Rightarrow>
        if int index \<ge> max_transactions
        then count_row ''not_classified'' row
          (s\<lparr>cs_truncated := True, cs_not_classified_count := cs_not_classified_count s + 1,
             cs_not_classified_msat := cs_not_classified_msat s + ir_amount row\<rparr>)
        else count_row (classify (ir_id row)) row s)"

record coverage =
  cv_by_wallet :: "(wallet_key \<times> breakdown \<times> int) list"
  cv_by_asset :: "(string \<times> breakdown \<times> int) list"
  cv_totals :: breakdown
  cv_tx_count :: int
  cv_totals_msat :: int
  cv_truncated :: bool
  cv_inbound_total_count :: int
  cv_inbound_total_msat :: int
  cv_not_classified_count :: int
  cv_not_classified_msat :: int

definition compute_coverage :: "(string \<Rightarrow> bool) \<Rightarrow> (string \<Rightarrow> funds_report option) \<Rightarrow> int \<Rightarrow> inbound_row list \<Rightarrow> coverage" where
  "compute_coverage has_any_link build_report max_transactions rows =
     (let s = fold (coverage_step (classify_transaction has_any_link build_report) max_transactions) (enumerate 0 rows) coverage_start
      in \<lparr>cv_by_wallet = map (\<lambda>(k, d). (k, d, dict_get (cs_wallet_total s) k 0))
             (sort_key (\<lambda>((wallet_id, label, asset), _). (label, asset, wallet_id)) (cs_by_wallet s)),
          cv_by_asset = map (\<lambda>(k, d). (k, d, dict_get (cs_asset_total s) k 0)) (sort_key fst (cs_by_asset s)),
          cv_totals = cs_totals s, cv_tx_count = cs_tx_count s,
          cv_totals_msat = (\<Sum>(_, a, _) \<leftarrow> cs_totals s. a),
          cv_truncated = cs_truncated s, cv_inbound_total_count = int (length rows),
          cv_inbound_total_msat = (\<Sum>row \<leftarrow> rows. ir_amount row),
          cv_not_classified_count = cs_not_classified_count s, cv_not_classified_msat = cs_not_classified_msat s\<rparr>)"

text \<open>The first lines of \<open>coverage_summary_text\<close>.\<close>

definition coverage_summary_head :: "coverage \<Rightarrow> string list" where
  "coverage_summary_head c =
     (if cv_truncated c
      then [''Coverage truncated: classified '' @ int_str (cv_tx_count c) @ '' of '' @ int_str (cv_inbound_total_count c)
              @ '' inbound tx; '' @ int_str (cv_not_classified_count c) @ '' not classified.'']
      else [])
     @ [''Inbound transactions: '' @ int_str (cv_tx_count c)]"

section \<open>The buckets partition the rows\<close>

text \<open>The bucket of the row at an index, and what a selection of bucketed rows adds up to.\<close>

definition bucketed :: "(string \<Rightarrow> string) \<Rightarrow> int \<Rightarrow> inbound_row list \<Rightarrow> (inbound_row \<times> string) list" where
  "bucketed classify max_transactions rows =
     map (\<lambda>(i, row). (row, if int i \<ge> max_transactions then ''not_classified'' else classify (ir_id row))) (enumerate 0 rows)"

definition tally :: "(inbound_row \<times> string \<Rightarrow> bool) \<Rightarrow> (inbound_row \<times> string) list \<Rightarrow> int \<times> int" where
  "tally P brs = ((\<Sum>(row, _) \<leftarrow> filter P brs. ir_amount row), int (length (filter P brs)))"

lemma tally_snoc: "tally P (brs @ [rb]) = (if P rb then (fst (tally P brs) + ir_amount (fst rb), snd (tally P brs) + 1) else tally P brs)"
  by (cases rb) (simp add: tally_def)

lemma get_add_to_bucket:
  "dict_get (add_to_bucket bucket amount d) b (0, 0)
    = (if b = bucket then (fst (dict_get d b (0, 0)) + amount, snd (dict_get d b (0, 0)) + 1) else dict_get d b (0, 0))"
  by (auto simp: add_to_bucket_def dict_get_update Let_def split: prod.splits)

lemma get_empty_breakdown: "dict_get empty_breakdown b (0, 0) = (0, 0)"
  by (simp add: empty_breakdown_def COVERAGE_BUCKETS_def dict_get_def)

text \<open>What the state holds after a list of bucketed rows.\<close>

definition tallied :: "('k \<Rightarrow> inbound_row \<Rightarrow> bool) \<Rightarrow> ('k, breakdown) dict \<Rightarrow> ('k, int) dict \<Rightarrow> (inbound_row \<times> string) list \<Rightarrow> bool" where
  "tallied has_key d sums brs \<longleftrightarrow> distinct (map fst d)
     \<and> (\<forall>k. (k \<in> fst ` set d) = (\<exists>(row, b) \<in> set brs. has_key k row))
     \<and> (\<forall>k b. dict_get (dict_get d k empty_breakdown) b (0, 0) = tally (\<lambda>(row, b'). has_key k row \<and> b' = b) brs)
     \<and> (\<forall>k. dict_get sums k 0 = fst (tally (\<lambda>(row, _). has_key k row) brs))"

lemma tallied_start: "tallied has_key [] [] []"
  by (simp add: tallied_def tally_def get_empty_breakdown)

lemma tallied_snoc:
  assumes "tallied (\<lambda>k row. key row = k) d sums brs"
  shows "tallied (\<lambda>k row. key row = k) (add_under (key row) b (ir_amount row) d) (add_total (key row) (ir_amount row) sums) (brs @ [(row, b)])"
  using assms unfolding tallied_def
  by (auto simp: add_under_def add_total_def distinct_update update_fst_image dict_get_update get_add_to_bucket tally_snoc)

definition counted :: "coverage_state \<Rightarrow> (inbound_row \<times> string) list \<Rightarrow> bool" where
  "counted s brs \<longleftrightarrow> tallied (\<lambda>k row. wallet_key row = k) (cs_by_wallet s) (cs_wallet_total s) brs
     \<and> tallied (\<lambda>k row. ir_asset row = k) (cs_by_asset s) (cs_asset_total s) brs
     \<and> (\<forall>b. dict_get (cs_totals s) b (0, 0) = tally (\<lambda>(_, b'). b' = b) brs)
     \<and> distinct (map fst (cs_totals s)) \<and> (\<Sum>(_, v) \<leftarrow> cs_totals s. fst v) = (\<Sum>(row, _) \<leftarrow> brs. ir_amount row)
     \<and> cs_tx_count s = int (length brs)"

lemma counted_start: "counted coverage_start []"
proof -
  have "distinct (map fst empty_breakdown)" "(\<Sum>(_, v) \<leftarrow> empty_breakdown. fst v) = 0"
    by (simp_all add: empty_breakdown_def COVERAGE_BUCKETS_def)
  then show ?thesis by (simp add: counted_def coverage_start_def tallied_start get_empty_breakdown tally_def)
qed

lemma add_to_bucket_sum:
  assumes "distinct (map fst d)"
  shows "distinct (map fst (add_to_bucket b amount d)) \<and> (\<Sum>(_, v) \<leftarrow> add_to_bucket b amount d. fst v) = (\<Sum>(_, v) \<leftarrow> d. fst v) + amount"
  using assms by (auto simp: add_to_bucket_def Let_def distinct_update sum_dict_update [where f = fst and dflt = "(0, 0)"] split: prod.splits)

lemma counted_row:
  assumes "counted s brs"
  shows "counted (count_row b row s) (brs @ [(row, b)])"
proof -
  have "\<forall>b'. dict_get (add_to_bucket b (ir_amount row) (cs_totals s)) b' (0, 0) = tally (\<lambda>(_, c). c = b') (brs @ [(row, b)])"
    using assms by (auto simp: counted_def get_add_to_bucket tally_snoc)
  moreover have "distinct (map fst (cs_totals s))" using assms by (simp add: counted_def)
  ultimately show ?thesis
    using assms tallied_snoc [of wallet_key "cs_by_wallet s" "cs_wallet_total s" brs row b]
      tallied_snoc [of ir_asset "cs_by_asset s" "cs_asset_total s" brs row b] add_to_bucket_sum [of "cs_totals s" b "ir_amount row"]
    by (simp add: counted_def count_row_def)
qed

lemma counted_flags:
  "counted (s\<lparr>cs_truncated := t, cs_not_classified_count := n, cs_not_classified_msat := a\<rparr>) brs = counted s brs"
  by (simp add: counted_def)

lemma count_row_flags [simp]:
  "cs_truncated (count_row b row s) = cs_truncated s" "cs_not_classified_count (count_row b row s) = cs_not_classified_count s"
  by (simp_all add: count_row_def)

lemma coverage_step_counted:
  assumes "counted s brs" "cs_not_classified_count s = max 0 (int n - max 0 m)" "cs_truncated s \<longleftrightarrow> 0 < cs_not_classified_count s"
  shows "counted (coverage_step classify m (n, row) s) (brs @ [(row, if int n \<ge> m then ''not_classified'' else classify (ir_id row))])"
    "cs_not_classified_count (coverage_step classify m (n, row) s) = max 0 (int (Suc n) - max 0 m)"
    "cs_truncated (coverage_step classify m (n, row) s) \<longleftrightarrow> 0 < cs_not_classified_count (coverage_step classify m (n, row) s)"
proof -
  show "counted (coverage_step classify m (n, row) s) (brs @ [(row, if int n \<ge> m then ''not_classified'' else classify (ir_id row))])"
    using assms(1) by (simp add: coverage_step_def counted_row counted_flags)
  show "cs_not_classified_count (coverage_step classify m (n, row) s) = max 0 (int (Suc n) - max 0 m)"
    using assms(2) by (auto simp: coverage_step_def)
  show "cs_truncated (coverage_step classify m (n, row) s) \<longleftrightarrow> 0 < cs_not_classified_count (coverage_step classify m (n, row) s)"
    using assms(2,3) by (auto simp: coverage_step_def)
qed

lemma coverage_fold:
  fixes rows :: "inbound_row list" and classify :: "string \<Rightarrow> string" and m :: int
  defines "s \<equiv> fold (coverage_step classify m) (enumerate 0 rows) coverage_start"
  shows "counted s (bucketed classify m rows) \<and> cs_not_classified_count s = max 0 (int (length rows) - max 0 m)
    \<and> (cs_truncated s \<longleftrightarrow> 0 < cs_not_classified_count s)"
  unfolding s_def
proof (induction rows rule: rev_induct)
  case Nil
  then show ?case by (simp add: bucketed_def counted_start) (simp add: coverage_start_def)
next
  case (snoc row rows)
  let ?s = "fold (coverage_step classify m) (enumerate 0 rows) coverage_start"
  have "fold (coverage_step classify m) (enumerate 0 (rows @ [row])) coverage_start = coverage_step classify m (length rows, row) ?s"
    by (simp add: enumerate_append_eq)
  moreover have "bucketed classify m (rows @ [row])
      = bucketed classify m rows @ [(row, if int (length rows) \<ge> m then ''not_classified'' else classify (ir_id row))]"
    by (simp add: bucketed_def enumerate_append_eq)
  ultimately show ?case using coverage_step_counted [of ?s "bucketed classify m rows" "length rows" m classify row] snoc by simp
qed

lemma bucketed_rows: "map fst (bucketed classify m rows) = rows"
  by (simp add: bucketed_def comp_def case_prod_beta)

text \<open>A breakdown by a key lists the keys of the rows once, with the tallies of their buckets.\<close>

definition exact_breakdown :: "(inbound_row \<Rightarrow> 'k) \<Rightarrow> (inbound_row \<times> string) list \<Rightarrow> ('k \<times> breakdown \<times> int) list \<Rightarrow> bool" where
  "exact_breakdown key brs entries \<longleftrightarrow> distinct (map fst entries) \<and> fst ` set entries = key ` fst ` set brs
     \<and> (\<forall>(k, d, t) \<in> set entries. t = fst (tally (\<lambda>(row, _). key row = k) brs)
          \<and> (\<forall>b. dict_get d b (0, 0) = tally (\<lambda>(row, b'). key row = k \<and> b' = b) brs))"

lemma tallied_breakdown:
  assumes "tallied (\<lambda>k row. key row = k) d sums brs"
  shows "exact_breakdown key brs (map (\<lambda>(k, v). (k, v, dict_get sums k 0)) (sort_key f d))" (is "exact_breakdown _ _ ?entries")
  unfolding exact_breakdown_def
proof (intro conjI ballI)
  have dist: "distinct (map fst d)" using assms by (simp add: tallied_def)
  have keys: "map fst ?entries = map fst (sort_key f d)" by (simp add: comp_def case_prod_beta)
  then show "distinct (map fst ?entries)" using dist by (simp del: map_map)
  have "fst ` set ?entries = fst ` set d" using arg_cong [OF keys, of set] by (simp del: map_map)
  also have "\<dots> = key ` fst ` set brs"
  proof -
    have "k \<in> fst ` set d \<longleftrightarrow> (\<exists>(row, b) \<in> set brs. key row = k)" for k using assms unfolding tallied_def by blast
    then show ?thesis unfolding set_eq_iff by (simp add: image_iff case_prod_beta Bex_def eq_commute)
  qed
  finally show "fst ` set ?entries = key ` fst ` set brs" .
  fix entry
  assume "entry \<in> set ?entries"
  then obtain k v where kv: "(k, v) \<in> set d" "entry = (k, v, dict_get sums k 0)" by auto
  then have "dict_get d k empty_breakdown = v" using dist by (simp add: dict_get_def)
  then show "case entry of (k, d, t) \<Rightarrow> t = fst (tally (\<lambda>(row, _). key row = k) brs)
      \<and> (\<forall>b. dict_get d b (0, 0) = tally (\<lambda>(row, b'). key row = k \<and> b' = b) brs)"
    using assms by (auto simp: kv(2) tallied_def)
qed

text \<open>C18: The buckets partition the inbound rows in every breakdown. Each row is in one bucket, the
  one its report gives it, or \<open>not_classified\<close> from the cap on. Per wallet and asset, per asset and in
  total, the amount and the count of a bucket are those of its rows, and the totals are those of all
  rows. The count of the totals includes the rows that are not classified.\<close>

theorem coverage_partitions:
  "let c = compute_coverage has_any_link build_report m rows;
       brs = bucketed (classify_transaction has_any_link build_report) m rows
   in map fst brs = rows \<and> exact_breakdown wallet_key brs (cv_by_wallet c) \<and> exact_breakdown ir_asset brs (cv_by_asset c)
      \<and> (\<forall>b. dict_get (cv_totals c) b (0, 0) = tally (\<lambda>(_, b'). b' = b) brs)
      \<and> cv_totals_msat c = cv_inbound_total_msat c \<and> cv_tx_count c = cv_inbound_total_count c
      \<and> cv_not_classified_count c = max 0 (cv_inbound_total_count c - max 0 m)
      \<and> (cv_truncated c \<longleftrightarrow> 0 < cv_not_classified_count c)"
proof -
  let ?classify = "classify_transaction has_any_link build_report"
  let ?s = "fold (coverage_step ?classify m) (enumerate 0 rows) coverage_start"
  let ?brs = "bucketed ?classify m rows"
  let ?c = "compute_coverage has_any_link build_report m rows"
  have all: "counted ?s ?brs" "cs_not_classified_count ?s = max 0 (int (length rows) - max 0 m)" "cs_truncated ?s \<longleftrightarrow> 0 < cs_not_classified_count ?s"
    using coverage_fold [of ?classify m rows] by simp_all
  have "(\<Sum>(row, _) \<leftarrow> ?brs. ir_amount row) = (\<Sum>row \<leftarrow> map fst ?brs. ir_amount row)"
    by (rule arg_cong [where f = sum_list]) (auto simp: comp_def)
  then have "(\<Sum>(_, v) \<leftarrow> cs_totals ?s. fst v) = (\<Sum>row \<leftarrow> rows. ir_amount row)"
    using all(1) unfolding counted_def bucketed_rows by simp
  moreover have "(\<Sum>(_, a, _) \<leftarrow> cs_totals ?s. a) = (\<Sum>(_, v) \<leftarrow> cs_totals ?s. fst v)"
    by (rule arg_cong [where f = sum_list]) auto
  ultimately have sums: "cv_totals_msat ?c = cv_inbound_total_msat ?c" by (simp add: compute_coverage_def Let_def)
  have "length ?brs = length rows" by (simp add: bucketed_def)
  then have counts: "cv_tx_count ?c = cv_inbound_total_count ?c" using all(1) by (simp add: compute_coverage_def Let_def counted_def)
  have "exact_breakdown wallet_key ?brs (cv_by_wallet ?c)" "exact_breakdown ir_asset ?brs (cv_by_asset ?c)"
    using all(1) by (simp_all add: compute_coverage_def Let_def counted_def tallied_breakdown)
  moreover have "\<forall>b. dict_get (cv_totals ?c) b (0, 0) = tally (\<lambda>(_, b'). b' = b) ?brs"
    using all(1) by (simp add: compute_coverage_def Let_def counted_def)
  ultimately show ?thesis using all(2,3) sums counts bucketed_rows by (simp add: compute_coverage_def Let_def)
qed

end
