(* ===== verification/Bolt11.thy ===== *)
theory Bolt11
  imports Address_Scripts
begin

text \<open>
  Payment hashes of Lightning invoices (\<open>core/lightning/bolt11.py\<close>): the Bech32 envelope, the network
  of the prefix, the timestamp and the tagged fields. Characters are code points below 256, as
  everywhere; the short form for display, which needs a code point above them, is left out. Shown:
  what a writer of invoices prints is read back, in either letter case and as a URI.
\<close>

unbundle bit_operations_syntax

section \<open>The envelope\<close>

definition bolt_polymod :: "int list \<Rightarrow> int" where
  "bolt_polymod values =
     fold (\<lambda>value checksum.
       let top = drop_bit 25 checksum
       in fold (\<lambda>(bit, generator) c. if (drop_bit bit top) AND 1 \<noteq> 0 then c XOR generator else c)
            (List.enumerate 0 generators) ((push_bit 5 (checksum AND 0x1FFFFFF)) XOR value)) values 1"

definition hrp_expand :: "string \<Rightarrow> int list" where
  "hrp_expand hrp = map (\<lambda>c. drop_bit 5 (of_char c)) hrp @ [0] @ map (\<lambda>c. of_char c AND 31) hrp"

fun words_loop :: "int list \<Rightarrow> int \<Rightarrow> nat \<Rightarrow> int list \<Rightarrow> int list" where
  "words_loop [] acc bits out = out"
| "words_loop (word # words) acc bits out =
     (let acc' = push_bit 5 acc OR word
      in case drain 8 acc' (bits + 5) out of (bits', out') \<Rightarrow> words_loop words acc' bits' out')"

definition words_to_bytes :: "int list \<Rightarrow> byte list" where
  "words_to_bytes words = map word_of_int (words_loop words 0 0 [])"

section \<open>The network\<close>

definition NETWORKS :: "(string \<times> string) list" where
  "NETWORKS = [(''bcrt'', ''regtest''), (''bc'', ''main''), (''tbs'', ''signet''), (''tb'', ''test''), (''sb'', ''simnet'')]"

text \<open>\<open>str.isdigit\<close>; the superscripts are digits to Python.\<close>

definition py_isdigit_char :: "char \<Rightarrow> bool" where
  "py_isdigit_char c = (let n = of_char c :: nat in (48 \<le> n \<and> n \<le> 57) \<or> n \<in> {178, 179, 185})"

definition py_isdigit :: "string \<Rightarrow> bool" where
  "py_isdigit s \<longleftrightarrow> s \<noteq> [] \<and> list_all py_isdigit_char s"

fun find_network :: "(string \<times> string) list \<Rightarrow> string \<Rightarrow> string option" where
  "find_network [] currency = None"
| "find_network ((prefix, name) # rest) currency =
     (if starts_with currency prefix
      then let amount = drop (length prefix) currency;
               digits = (if amount \<noteq> [] \<and> last amount \<in> set ''munp'' then butlast amount else amount)
           in if digits = [] \<or> py_isdigit digits then Some name else None
      else find_network rest currency)"

definition network :: "string \<Rightarrow> string option" where
  "network hrp = find_network NETWORKS (drop 2 hrp)"

section \<open>Decoding\<close>

text \<open>The loop over the tagged fields: \<open>None\<close> for a field that runs past the end, otherwise the payment
  hash, if any was seen.\<close>

function read_fields :: "int list \<Rightarrow> nat \<Rightarrow> byte list option \<Rightarrow> byte list option option" where
  "read_fields words index payment_hash =
     (if index + 3 \<le> length words
      then let tag = words ! index;
               len = nat (words ! (index + 1) * 32 + words ! (index + 2));
               field = take len (drop (index + 3) words);
               index' = index + 3 + len
           in if length words < index' then None
              else read_fields words index'
                     (if tag = 1 \<and> len = 52 then Some (take 32 (words_to_bytes field)) else payment_hash)
      else Some payment_hash)"
  by pat_completeness auto
termination by (relation "measure (\<lambda>(words, index, _). length words - index)") auto

declare read_fields.simps [simp del]

record bolt11_summary =
  bs_payment_hash :: string
  bs_network :: string
  bs_timestamp :: int

text \<open>\<open>str(invoice or "").strip()\<close> without the scheme of a URI.\<close>

definition invoice_text :: "string \<Rightarrow> string" where
  "invoice_text invoice =
     (let text = py_strip invoice
      in if py_lower (take 10 text) = ''lightning:'' then drop 10 text else text)"

definition read_words :: "string \<Rightarrow> int list \<Rightarrow> bolt11_summary option" where
  "read_words name words =
     (let timestamp = fold (\<lambda>word t. t * 32 + word) (take 7 words) 0
      in case read_fields words 7 None of
           Some (Some payment_hash) \<Rightarrow>
             Some \<lparr>bs_payment_hash = bytes_hex payment_hash, bs_network = name, bs_timestamp = timestamp\<rparr>
         | _ \<Rightarrow> None)"

definition decode_payment_hash :: "string \<Rightarrow> bolt11_summary option" where
  "decode_payment_hash invoice =
     (let text = invoice_text invoice
      in if text \<noteq> py_lower text \<and> text \<noteq> py_upper text then None
         else let text = py_lower text
         in case rfind_one text of
              None \<Rightarrow> None
            | Some separator \<Rightarrow>
                let hrp = take separator text; data = drop (separator + 1) text
                in if separator < 3 \<or> \<not> starts_with hrp ''ln'' then None
                   else case network hrp of
                     None \<Rightarrow> None
                   | Some name \<Rightarrow>
                       (case those (map (char_index BECH32_CHARSET) data) of
                          None \<Rightarrow> None
                        | Some values \<Rightarrow>
                            if length values < 7 + 104 + 6 then None
                            else if bolt_polymod (hrp_expand hrp @ values) \<noteq> 1 then None
                            else read_words name (take (length values - (6 + 104)) values)))"

section \<open>A writer of invoices\<close>

text \<open>The grammar of BOLT 11: a timestamp of seven words, tagged fields with their lengths, a signature
  and a checksum.\<close>

fun digits32 :: "nat \<Rightarrow> int \<Rightarrow> int list" where
  "digits32 0 t = []"
| "digits32 (Suc n) t = digits32 n (t div 32) @ [t mod 32]"

definition field_words :: "int \<times> int list \<Rightarrow> int list" where
  "field_words f = (case f of (tag, ws) \<Rightarrow> [tag, int (length ws div 32), int (length ws mod 32)] @ ws)"

definition field_ok :: "int \<times> int list \<Rightarrow> bool" where
  "field_ok f \<longleftrightarrow> 0 \<le> fst f \<and> fst f < 32 \<and> length (snd f) < 1024 \<and> groups_ok 5 (snd f)"

definition hash_words :: "byte list \<Rightarrow> int list" where
  "hash_words h = (case convertbits (map uint h) 8 5 True of Inr ws \<Rightarrow> ws | Inl _ \<Rightarrow> [])"

definition is_hash_field :: "int \<times> int list \<Rightarrow> bool" where
  "is_hash_field f \<longleftrightarrow> fst f = 1 \<and> length (snd f) = 52"

definition invoice_words :: "int \<Rightarrow> (int \<times> int list) list \<Rightarrow> int list \<Rightarrow> int list" where
  "invoice_words t tagged trailer = digits32 7 t @ concat (map field_words tagged) @ trailer"

definition print_invoice :: "string \<Rightarrow> int list \<Rightarrow> string" where
  "print_invoice hrp words = hrp @ ''1'' @ map charset_char words"

section \<open>Words and bytes\<close>

lemma polymod_same: "bolt_polymod = bech32_polymod"
  by (rule ext) (simp add: bolt_polymod_def bech32_polymod_def polymod_step_def [abs_def])

lemma hrp_expand_same: "hrp_expand = bech32_hrp_expand"
  by (rule ext) (simp add: hrp_expand_def bech32_hrp_expand_def)

lemma words_loop_groups:
  assumes "groups_ok 5 ws" "bits < 8" "groups_ok 8 out"
  shows "\<exists>bits' rest. bits' < 8 \<and> groups_ok 8 (words_loop ws acc bits out)
    \<and> 8 * length (words_loop ws acc bits out) + bits' = 8 * length out + bits + 5 * length ws \<and> 0 \<le> rest \<and> rest < 2 ^ bits'
    \<and> group_value 8 (words_loop ws acc bits out) * 2 ^ bits' + rest
      = (group_value 8 out * 2 ^ bits + acc mod 2 ^ bits) * 2 ^ (5 * length ws) + group_value 5 ws"
  using assms
proof (induction ws arbitrary: acc bits out)
  case Nil
  then show ?case by (intro exI [of _ bits] exI [of _ "acc mod 2 ^ bits"]) simp
next
  case (Cons w ws)
  have w: "0 \<le> w" "w < 2 ^ 5" using Cons.prems(1) by (simp_all add: groups_ok_def)
  let ?acc = "push_bit 5 acc OR w"
  obtain b o' where d: "drain 8 ?acc (bits + 5) out = (b, o')" by fastforce
  note dg = drain_groups [OF d _ Cons.prems(3), simplified]
  have acc: "?acc mod 2 ^ (bits + 5) = acc mod 2 ^ bits * 2 ^ 5 + w"
    using split_low_bits [of "acc * 2 ^ 5 + w" 5 bits] w by (simp add: or_low_bits [OF w] add.commute [of 5])
  have total: "group_value 8 o' * 2 ^ b + ?acc mod 2 ^ b = (group_value 8 out * 2 ^ bits + acc mod 2 ^ bits) * 2 ^ 5 + w"
    using dg acc by (simp add: algebra_simps power_add)
  have "group_value 5 (w # ws) = w * 2 ^ (5 * length ws) + group_value 5 ws"
    using group_value_append [of 5 "[w]" ws] by (simp add: group_value_def)
  moreover obtain bits' rest where "bits' < 8" "groups_ok 8 (words_loop ws ?acc b o')"
    "8 * length (words_loop ws ?acc b o') + bits' = 8 * length o' + b + 5 * length ws" "0 \<le> rest" "rest < 2 ^ bits'"
    "group_value 8 (words_loop ws ?acc b o') * 2 ^ bits' + rest
      = ((group_value 8 out * 2 ^ bits + acc mod 2 ^ bits) * 2 ^ 5 + w) * 2 ^ (5 * length ws) + group_value 5 ws"
    using Cons.IH [of b o' ?acc] Cons.prems(1) dg total by (auto simp: groups_ok_def)
  ultimately show ?case using dg
    by (intro exI [of _ bits'] exI [of _ rest]) (simp add: d Let_def algebra_simps power_add)
qed

text \<open>The bytes of the words of a hash are the hash.\<close>

lemma hash_words_ok:
  "length h = 32 \<Longrightarrow> length (hash_words h) = 52 \<and> groups_ok 5 (hash_words h) \<and> words_to_bytes (hash_words h) = h"
proof -
  assume len: "length h = 32"
  have ok: "groups_ok 8 (map uint h)" using uint_bounded [where 'a = 8] by (auto simp: groups_ok_def)
  obtain ys p where ys: "convertbits (map uint h) 8 5 True = Inr ys" "p < 5" "5 * length ys = 8 * length h + p"
    "group_value 5 ys = group_value 8 (map uint h) * 2 ^ p" "groups_ok 5 ys"
    using convertbits_pad [OF ok, of 5] by auto
  have l: "length ys = 52" "p = 4" using ys(2,3) len by presburger+
  let ?out = "words_loop ys 0 0 []"
  obtain b r where b: "b < 8" "groups_ok 8 ?out" "8 * length ?out + b = 5 * 52" "0 \<le> r" "r < 2 ^ b"
    "group_value 8 ?out * 2 ^ b + r = group_value 5 ys"
    using words_loop_groups [OF ys(5), of 0 "[]" 0] l by (auto simp: groups_ok_def)
  have b4: "b = 4" "length ?out = 32" using b(1,3) by presburger+
  have "group_value 8 ?out * 16 + r = group_value 8 (map uint h) * 16" using b(6) ys(4) l(2) b4(1) by simp
  then have "group_value 8 ?out = group_value 8 (map uint h)" using b(4,5) b4(1) by (simp add: algebra_simps)
  then have "?out = map uint h" using b(2) ok b4(2) len by (intro group_value_inject) simp_all
  then show ?thesis using ys(1,5) l(1) by (simp add: hash_words_def words_to_bytes_def comp_def)
qed

section \<open>Reading what was written\<close>

lemma digits32_value: "group_value 5 (digits32 n t) = t mod 32 ^ n"
proof (induction n arbitrary: t)
  case (Suc n)
  have "t mod (32 * 32 ^ n) = 32 * (t div 32 mod 32 ^ n) + t mod 32" by (rule zmod_zmult2_eq) simp
  then show ?case using Suc by simp
qed simp

lemma digits32_ok: "length (digits32 n t) = n \<and> groups_ok 5 (digits32 n t)"
  by (induction n arbitrary: t) (auto simp: groups_ok_def)

lemma fold_timestamp: "fold (\<lambda>word t. t * 32 + word) ws 0 = group_value 5 ws"
  by (simp add: group_value_def foldl_conv_fold)

definition last_hash :: "(int \<times> int list) list \<Rightarrow> byte list option \<Rightarrow> byte list option" where
  "last_hash tagged = fold (\<lambda>f h. if is_hash_field f then Some (take 32 (words_to_bytes (snd f))) else h) tagged"

lemma read_fields_step:
  assumes "words ! index = tag" "nat (words ! (index + 1) * 32 + words ! (index + 2)) = len"
    and "take len (drop (index + 3) words) = field" "index + 3 + len \<le> length words"
  shows "read_fields words index h = read_fields words (index + 3 + len)
    (if tag = 1 \<and> len = 52 then Some (take 32 (words_to_bytes field)) else h)"
  using assms by (subst read_fields.simps) (auto simp: Let_def)

lemma read_fields_printed:
  "read_fields (pre @ concat (map field_words tagged)) (length pre) h = Some (last_hash tagged h)"
proof (induction tagged arbitrary: pre h)
  case Nil
  then show ?case by (simp add: read_fields.simps last_hash_def)
next
  case (Cons f tagged)
  obtain tag ws where f: "f = (tag, ws)" by (cases f)
  let ?head = "[tag, int (length ws div 32), int (length ws mod 32)]"
  let ?words = "pre @ concat (map field_words (f # tagged))"
  let ?h = "if is_hash_field f then Some (take 32 (words_to_bytes ws)) else h"
  have words: "?words = pre @ ?head @ ws @ concat (map field_words tagged)" by (simp add: f field_words_def)
  have len: "nat (?words ! (length pre + 1) * 32 + ?words ! (length pre + 2)) = length ws"
  proof -
    have "?words ! (length pre + 1) = int (length ws div 32)" "?words ! (length pre + 2) = int (length ws mod 32)"
      by (simp_all only: words) (simp_all add: nth_append)
    moreover have "int (length ws div 32) * 32 + int (length ws mod 32) = int (length ws)"
      by (metis div_mult_mod_eq of_nat_add of_nat_mult of_nat_numeral)
    ultimately show ?thesis by simp
  qed
  have "read_fields ?words (length pre) h = read_fields ?words (length pre + 3 + length ws) ?h"
  proof -
    have "?words ! length pre = tag" "take (length ws) (drop (length pre + 3) ?words) = ws"
      by (simp_all only: words) (simp_all add: nth_append)
    moreover have "length pre + 3 + length ws \<le> length ?words" by (simp only: words) simp
    ultimately show ?thesis using len read_fields_step [of ?words "length pre" tag "length ws" ws h]
      by (simp only: is_hash_field_def f fst_conv snd_conv)
  qed
  also have "\<dots> = Some (last_hash tagged ?h)"
  proof -
    have "length pre + 3 + length ws = length (pre @ ?head @ ws)" by simp
    moreover have "?words = (pre @ ?head @ ws) @ concat (map field_words tagged)" by (simp only: words append_assoc)
    ultimately show ?thesis by (simp only: Cons.IH)
  qed
  also have "\<dots> = Some (last_hash (f # tagged) h)" by (simp add: last_hash_def f)
  finally show ?case .
qed

lemma last_hash_kept: "list_all (\<lambda>f. \<not> is_hash_field f) after \<Longrightarrow> last_hash after h = h"
  by (induction after) (simp_all add: last_hash_def)

lemma last_hash_found:
  assumes "length h = 32" "list_all (\<lambda>f. \<not> is_hash_field f) after"
  shows "last_hash (before @ (1, hash_words h) # after) None = Some h"
  using hash_words_ok [OF assms(1)] last_hash_kept [OF assms(2), of "Some h"] assms(1)
  by (simp add: last_hash_def is_hash_field_def)

lemma those_charset: "groups_ok 5 ds \<Longrightarrow> those (map (char_index BECH32_CHARSET) (map charset_char ds)) = Some ds"
  by (induction ds) (simp_all add: char_index_charset groups_ok_def)

text \<open>Characters that survive a change of case and no stripping removes.\<close>

definition plain_char :: "char \<Rightarrow> bool" where
  "plain_char c \<longleftrightarrow> \<not> py_isspace c \<and> py_lower_char c = c \<and> (\<exists>d. py_upper_char c = [d] \<and> py_lower_char d = c \<and> py_upper_char d = [d] \<and> \<not> py_isspace d)"

lemma upper_plain:
  assumes "list_all plain_char s"
  shows "py_lower s = s" "py_lower (py_upper s) = s" "py_upper (py_upper s) = py_upper s" "length (py_upper s) = length s"
    "list_all (\<lambda>c. \<not> py_isspace c) s" "list_all (\<lambda>c. \<not> py_isspace c) (py_upper s)"
  using assms by (induction s) (auto simp: plain_char_def py_lower_def py_upper_def)

lemma strip_around:
  assumes "list_all (\<lambda>c. \<not> py_isspace c) s" "s \<noteq> []" "list_all py_isspace a" "list_all py_isspace b"
  shows "py_strip (a @ s @ b) = s"
proof -
  have l: "py_lstrip (x @ y) = y" if "list_all py_isspace x" "y \<noteq> []" "\<not> py_isspace (hd y)" for x y
    using that by (cases y) (auto simp: py_lstrip_def list_all_iff dropWhile_append3)
  have "\<not> py_isspace (hd s)" "\<not> py_isspace (last s)" using assms(1,2) by (auto simp: list_all_iff)
  then show ?thesis using assms l [of a "s @ b"] l [of "rev b" "rev s"] by (simp add: py_strip_def hd_rev list_all_iff)
qed

lemma plain_code:
  fixes c :: char
  defines "n \<equiv> of_char c :: nat"
  assumes "(97 \<le> n \<and> n \<le> 122) \<or> (48 \<le> n \<and> n \<le> 57) \<or> n \<in> {178, 179, 185}"
  shows "plain_char c"
proof (cases "97 \<le> n \<and> n \<le> 122")
  case True
  let ?d = "char_of (n - 32) :: char"
  have "n - 32 < 256" using True by linarith
  then have d: "(of_char ?d :: nat) = n - 32" unfolding of_char_of by (rule mod_less)
  have "char_of n = c" by (simp add: n_def)
  then have "py_lower_char ?d = c" using True by (auto simp: py_lower_char_def d Let_def)
  moreover have "py_upper_char c = [?d]" "\<not> py_isspace c" "py_lower_char c = c"
    using True by (auto simp: py_upper_char_def py_isspace_def py_lower_char_def n_def Let_def)
  moreover have "py_upper_char ?d = [?d]" "\<not> py_isspace ?d"
    using True by (auto simp: py_upper_char_def py_isspace_def d Let_def)
  ultimately show ?thesis by (auto simp: plain_char_def)
next
  case False
  then have "(48 \<le> n \<and> n \<le> 57) \<or> n \<in> {178, 179, 185}" using assms(2) by blast
  then have "py_upper_char c = [c]" "\<not> py_isspace c" "py_lower_char c = c"
    by (auto simp: py_upper_char_def py_isspace_def py_lower_char_def n_def Let_def)
  then show ?thesis by (simp add: plain_char_def)
qed

lemma charset_plain: "list_all plain_char BECH32_CHARSET"
  by (simp add: BECH32_CHARSET_def plain_code)

lemma digit_plain: "py_isdigit_char c \<Longrightarrow> plain_char c"
  by (rule plain_code) (auto simp: py_isdigit_char_def Let_def)

lemma list_all_butlast:
  assumes "list_all P (if a \<noteq> [] \<and> last a \<in> M then butlast a else a)" "\<And>c. c \<in> M \<Longrightarrow> P c"
  shows "list_all P a"
proof (cases "a \<noteq> [] \<and> last a \<in> M")
  case True
  then obtain b c where "a = b @ [c]" by (cases a rule: rev_exhaust) auto
  then show ?thesis using True assms by simp
next
  case False
  then show ?thesis using assms(1) by (simp only: if_False)
qed

lemma network_plain:
  assumes "starts_with hrp ''ln''" "network hrp = Some name"
  shows "list_all plain_char hrp \<and> 3 \<le> length hrp"
proof -
  obtain currency where hrp: "hrp = ''ln'' @ currency"
    using assms(1) by (metis append_take_drop_id starts_with_def)
  have letters: "list_all plain_char p \<and> p \<noteq> []" if "p \<in> set (''ln'' # map fst NETWORKS)" for p
    using that by (auto simp: NETWORKS_def plain_code)
  have munp: "plain_char c" if "c \<in> set ''munp''" for c using that by (auto simp: plain_code)
  have "list_all plain_char c \<and> c \<noteq> []"
    if "find_network nets c = Some name" "\<forall>(p, _) \<in> set nets. list_all plain_char p \<and> p \<noteq> []" for nets c
    using that
  proof (induction nets c rule: find_network.induct)
    case (2 p n rest c)
    show ?case
    proof (cases "starts_with c p")
      case True
      let ?amount = "drop (length p) c"
      let ?digits = "if ?amount \<noteq> [] \<and> last ?amount \<in> set ''munp'' then butlast ?amount else ?amount"
      have c: "c = p @ ?amount" using True by (metis append_take_drop_id starts_with_def)
      have "list_all plain_char ?digits"
        using 2(2) True by (auto simp: Let_def py_isdigit_def list_all_iff intro: digit_plain split: if_splits)
      then have "list_all plain_char ?amount" by (rule list_all_butlast) (use munp in blast)
      then have "list_all plain_char (p @ ?amount) \<and> p @ ?amount \<noteq> []" using 2(3) by simp
      then show ?thesis unfolding c [symmetric] .
    next
      case False
      then show ?thesis using 2 by simp
    qed
  qed simp
  from this [of NETWORKS currency] assms(2) have "list_all plain_char currency \<and> currency \<noteq> []"
    using letters by (simp add: network_def hrp case_prod_beta)
  moreover have "list_all plain_char ''ln''" by (simp add: plain_code)
  ultimately show ?thesis by (cases currency) (simp_all add: hrp)
qed

lemma print_plain:
  assumes "list_all plain_char hrp" "groups_ok 5 words"
  shows "list_all plain_char (print_invoice hrp words)" "CHR ''1'' \<notin> set (map charset_char words)"
proof -
  have "charset_char w \<in> set BECH32_CHARSET" if "w \<in> set words" for w using that assms(2) by (auto simp: groups_ok_def intro: charset_char_member)
  then show "list_all plain_char (print_invoice hrp words)" "CHR ''1'' \<notin> set (map charset_char words)"
    using assms(1) charset_plain charset_facts(3) by (auto simp: print_invoice_def list_all_iff plain_code)
qed

text \<open>A text that stands for an invoice: blanks around it, perhaps the scheme of a URI, one letter case.\<close>

definition presents :: "string \<Rightarrow> string \<Rightarrow> bool" where
  "presents text invoice \<longleftrightarrow> (\<exists>a scheme b. list_all py_isspace a \<and> list_all py_isspace b
     \<and> (scheme = [] \<or> py_lower scheme = ''lightning:'')
     \<and> (text = a @ scheme @ invoice @ b \<or> text = a @ scheme @ py_upper invoice @ b))"

lemma lower_no_space:
  assumes "py_lower s = ''lightning:''"
  shows "list_all (\<lambda>c. \<not> py_isspace c) s"
proof -
  have "py_lower_char c = c" if "py_isspace c" for c using that by (auto simp: py_isspace_def py_lower_char_def Let_def)
  moreover have "list_all (\<lambda>c. \<not> py_isspace c) (py_lower s)" by (simp add: assms py_isspace_def)
  ultimately show ?thesis by (auto simp: py_lower_def list_all_iff)
qed

lemma invoice_text_presented:
  assumes "presents text invoice" "list_all plain_char invoice" "starts_with invoice ''ln''"
  shows "invoice_text text = invoice \<or> invoice_text text = py_upper invoice"
proof -
  obtain a scheme b s where p: "list_all py_isspace a" "list_all py_isspace b" "scheme = [] \<or> py_lower scheme = ''lightning:''"
    "s = invoice \<or> s = py_upper invoice" "text = a @ scheme @ s @ b"
    using assms(1) unfolding presents_def by blast
  have s: "s \<noteq> []" "list_all (\<lambda>c. \<not> py_isspace c) s" "py_lower s = invoice"
    using p(4) upper_plain [OF assms(2)] assms(3) by (auto simp: starts_with_def)
  then have "list_all (\<lambda>c. \<not> py_isspace c) (scheme @ s)" using p(3) lower_no_space by auto
  from strip_around [OF this _ p(1,2)] s(1) have st: "py_strip text = scheme @ s" by (simp add: p(5))
  show ?thesis
  proof (cases "scheme = []")
    case True
    have "py_lower (take 10 s) = take 10 invoice" by (simp add: py_lower_def take_map flip: s(3))
    moreover have "take 10 invoice \<noteq> ''lightning:''"
    proof
      assume "take 10 invoice = ''lightning:''"
      then have "take 2 (take 10 invoice) = take 2 ''lightning:''" by (rule arg_cong)
      then show False using assms(3) by (simp add: starts_with_def numeral_2_eq_2)
    qed
    ultimately show ?thesis using p(4) by (simp add: invoice_text_def st True)
  next
    case False
    then have l: "py_lower scheme = ''lightning:''" using p(3) by blast
    have "length scheme = length (py_lower scheme)" by (simp add: py_lower_def)
    then have "length scheme = 10" by (simp add: l)
    then show ?thesis using p(4) l by (simp add: invoice_text_def st)
  qed
qed

lemma read_words_printed:
  assumes "0 \<le> t" "t < 2 ^ 35" "length h = 32" "list_all (\<lambda>f. \<not> is_hash_field f) after"
  shows "read_words name (digits32 7 t @ concat (map field_words (before @ (1, hash_words h) # after)))
    = Some \<lparr>bs_payment_hash = bytes_hex h, bs_network = name, bs_timestamp = t\<rparr>"
proof -
  let ?tagged = "before @ (1, hash_words h) # after"
  have len: "length (digits32 7 t) = 7" using digits32_ok by blast
  have "read_fields (digits32 7 t @ concat (map field_words ?tagged)) 7 None = Some (Some h)"
    using read_fields_printed [of "digits32 7 t" ?tagged None] last_hash_found [OF assms(3,4), of before] by (simp only: len)
  moreover have "fold (\<lambda>word t. t * 32 + word) (digits32 7 t) 0 = t"
    using digits32_value [of 7 t] assms(1,2) by (simp add: fold_timestamp)
  ultimately show ?thesis by (simp add: read_words_def len Let_def del: concat_append map_append)
qed

lemma decode_presented:
  assumes "starts_with hrp ''ln''" "network hrp = Some name" "groups_ok 5 (body @ trailer)" "length trailer = 110" "7 \<le> length body"
    and "bolt_polymod (hrp_expand hrp @ body @ trailer) = 1" "presents text (print_invoice hrp (body @ trailer))"
  shows "decode_payment_hash text = read_words name body"
proof -
  let ?ws = "body @ trailer"
  let ?invoice = "print_invoice hrp ?ws"
  have hrp: "list_all plain_char hrp" "3 \<le> length hrp" using network_plain [OF assms(1,2)] by simp_all
  note plain = print_plain [OF hrp(1) assms(3)]
  have "starts_with ?invoice ''ln''"
    using assms(1) hrp(2) by (simp add: starts_with_def print_invoice_def)
  then have cased: "invoice_text text = ?invoice \<or> invoice_text text = py_upper ?invoice"
    by (rule invoice_text_presented [OF assms(7) plain(1)])
  then have low: "py_lower (invoice_text text) = ?invoice"
    "\<not> (invoice_text text \<noteq> py_lower (invoice_text text) \<and> invoice_text text \<noteq> py_upper (invoice_text text))"
    using upper_plain [OF plain(1)] by auto
  have sep: "rfind_one ?invoice = Some (length hrp)"
    using rfind_one_last [OF plain(2), of hrp] by (simp only: print_invoice_def)
  have parts: "take (length hrp) ?invoice = hrp" "drop (length hrp + 1) ?invoice = map charset_char ?ws"
    by (simp_all add: print_invoice_def)
  note data = those_charset [OF assms(3)]
  show ?thesis
    unfolding decode_payment_hash_def Let_def
    using low(2) hrp(2) assms(1,2,4-6) data by (simp only: low(1) sep parts option.case if_False simp_thms) simp
qed

lemma printed_words_ok:
  assumes "list_all field_ok tagged"
  shows "groups_ok 5 (concat (map field_words tagged))"
  using assms by (induction tagged) (auto simp: field_ok_def field_words_def groups_ok_def)

text \<open>C19: An invoice that BOLT 11 describes is read back: the payment hash of its last such field, the
  network of its prefix and its timestamp, whatever other fields it has, in lower or upper case, with
  or without the scheme of a URI and blanks around it. Only the checksum has to be right; the
  signature is not looked at.\<close>

theorem invoice_round_trip:
  assumes "starts_with hrp ''ln''" "network hrp = Some name" "0 \<le> t" "t < 2 ^ 35" "length h = 32"
    and "list_all field_ok (before @ after)" "list_all (\<lambda>f. \<not> is_hash_field f) after"
    and "length trailer = 110" "groups_ok 5 trailer"
    and "words = invoice_words t (before @ (1, hash_words h) # after) trailer"
    and "bolt_polymod (hrp_expand hrp @ words) = 1" "presents text (print_invoice hrp words)"
  shows "decode_payment_hash text = Some \<lparr>bs_payment_hash = bytes_hex h, bs_network = name, bs_timestamp = t\<rparr>"
proof -
  let ?tagged = "before @ (1, hash_words h) # after"
  let ?body = "digits32 7 t @ concat (map field_words ?tagged)"
  have "field_ok (1, hash_words h)" using hash_words_ok [OF assms(5)] by (simp add: field_ok_def)
  then have "groups_ok 5 (concat (map field_words ?tagged))" using assms(6) by (intro printed_words_ok) simp
  then have "groups_ok 5 (?body @ trailer)" using digits32_ok [of 7 t] assms(9) unfolding groups_ok_def by auto
  moreover have words: "words = ?body @ trailer" by (simp add: assms(10) invoice_words_def)
  moreover have "7 \<le> length ?body" using digits32_ok [of 7 t] by simp
  ultimately have "decode_payment_hash text = read_words name ?body"
    using assms(11,12) decode_presented [OF assms(1,2) _ assms(8), of ?body "text"] by (simp only: words append_assoc)
  then show ?thesis using read_words_printed [OF assms(3-5,7), of name before] by (simp only:)
qed

text \<open>The first invoice of the examples of BOLT 11.\<close>

definition example_description :: "int list" where
  "example_description = [10, 1, 22, 6, 10, 24, 11, 19, 12, 20, 16, 6, 6, 27, 27, 14, 14, 13, 20, 22, 8, 25, 11, 18, 4, 1, 25, 23, 10, 28, 3, 16, 13, 29, 25, 7, 8, 26, 11, 14,
    12, 28, 16, 7, 8, 26, 3, 9, 14, 12, 16, 7, 0, 28, 19, 15, 13, 9, 18, 22, 6, 29, 0]"

definition example_trailer :: "int list" where
  "example_trailer = [7, 3, 22, 6, 17, 4, 9, 20, 11, 24, 16, 4, 2, 17, 13, 30, 17, 8, 29, 9, 19, 23, 17, 24, 29, 6, 5, 3, 19, 21, 21, 5, 13, 5, 1, 20, 28, 6, 2, 5,
    25, 2, 23, 23, 4, 1, 13, 15, 25, 31, 6, 7, 30, 16, 18, 31, 25, 20, 10, 6, 7, 26, 9, 28, 6, 10, 4, 1, 29, 11, 8, 13, 13, 24, 26, 22, 26, 17, 19, 30,
    25, 3, 0, 2, 10, 20, 31, 25, 21, 10, 24, 21, 28, 21, 25, 24, 22, 4, 15, 17, 4, 31, 24, 0, 24, 29, 30, 7, 21, 14]"

definition example_hash :: "byte list" where
  "example_hash = [0, 1, 2, 3, 4, 5, 6, 7, 8, 9, 0, 1, 2, 3, 4, 5, 6, 7, 8, 9, 0, 1, 2, 3, 4, 5, 6, 7, 8, 9, 1, 2]"

definition example_invoice :: string where
  "example_invoice = ''lnbc1pvjluezpp5qqqsyqcyq5rqwzqfqqqsyqcyq5rqwzqfqqqsyqcyq5rqwzqfqypqdpl2pkx2ctnv5sxxmmwwd5kgetjypeh2u''
   @ ''rsdae8g6twvus8g6rfwvs8qun0dfjkxaq8rkx3yf5tcsyz3d73gafnh3cax9rn449d9p5uxz9ezhhypd0elx87sjle52x86fux2y''
   @ ''patgddc6k63n7erqz25le42c4u4ecky03ylcqca784w''"

lemma example_checks:
  "print_invoice ''lnbc'' (invoice_words 1496314658 [(1, hash_words example_hash), (13, example_description)] example_trailer) = example_invoice"
  "bolt_polymod (hrp_expand ''lnbc'' @ invoice_words 1496314658 [(1, hash_words example_hash), (13, example_description)] example_trailer) = 1"
  "network ''lnbc'' = Some ''main''" "starts_with ''lnbc'' ''ln''"
  "length example_hash = 32" "field_ok (13, example_description)" "length example_trailer = 110" "groups_ok 5 example_trailer"
  by code_simp+

theorem invoice_round_trip_witness:
  "decode_payment_hash (''LIGHTNING:'' @ py_upper example_invoice)
     = Some \<lparr>bs_payment_hash = ''0001020304050607080900010203040506070809000102030405060708090102'', bs_network = ''main'', bs_timestamp = 1496314658\<rparr>"
proof -
  have "py_lower ''LIGHTNING:'' = ''lightning:''" by code_simp
  then have "presents (''LIGHTNING:'' @ py_upper example_invoice) example_invoice"
    unfolding presents_def
    by (intro exI [of _ "''LIGHTNING:''"] exI [of _ "[]"]) simp
  moreover have "bytes_hex example_hash = ''0001020304050607080900010203040506070809000102030405060708090102''" by code_simp
  moreover have "\<not> is_hash_field (13, example_description)" by (simp add: is_hash_field_def)
  ultimately show ?thesis
    using invoice_round_trip [of "''lnbc''" "''main''" 1496314658 example_hash "[]" "[(13, example_description)]" example_trailer _
        "''LIGHTNING:'' @ py_upper example_invoice", OF example_checks(4,3) _ _ example_checks(5) _ _ example_checks(7,8) refl]
      example_checks by simp
qed

end
