(* ===== verification/Austrian_Regimes.thy ===== *)
theory Austrian_Regimes
  imports Transfer_Flow Pairing
begin

text \<open>
  Austrian holding regimes (\<open>core/austrian.py\<close>): which disposals draw on coins acquired before March
  2021 (Altverm\"ogen) and which on later ones, by the inventory of each wallet. Transfers between own
  wallets move inventory; reviewed groups of transfers are split with the allocators of
  \<open>core/pair_allocation.py\<close>. A timestamp is the instant its text denotes, in microseconds of the Unix
  epoch. The two optional collections the code fills for its callers are always filled here.
\<close>

section \<open>Regimes and inventory\<close>

datatype regime = Alt | Neu

definition AT_NEU_CUTOFF :: int where
  "AT_NEU_CUTOFF = 1614553200 * 10 ^ 6"

definition AT_DEFAULT_POOL :: string where
  "AT_DEFAULT_POOL = ''default''"

record at_leg =
  al_id :: string
  al_wallet :: "string option"
  al_amount :: "int option"
  al_fee :: "int option"
  al_when :: int

record at_row = at_leg +
  al_direction :: "string option"

definition infer_regime_from_timestamp :: "int \<Rightarrow> regime" where
  "infer_regime_from_timestamp when = (if when < AT_NEU_CUTOFF then Alt else Neu)"

definition availability_key :: "string option \<Rightarrow> string" where
  "availability_key wallet_id = (case wallet_id of None \<Rightarrow> AT_DEFAULT_POOL | Some w \<Rightarrow> if w = '''' then AT_DEFAULT_POOL else w)"

record inventory =
  alt_available :: "(string, int) dict"
  neu_available :: "(string, int) dict"

definition regime_bucket :: "regime \<Rightarrow> inventory \<Rightarrow> (string, int) dict" where
  "regime_bucket r stock = (case r of Alt \<Rightarrow> alt_available stock | Neu \<Rightarrow> neu_available stock)"

definition set_bucket :: "regime \<Rightarrow> (string, int) dict \<Rightarrow> inventory \<Rightarrow> inventory" where
  "set_bucket r d stock = (case r of Alt \<Rightarrow> stock\<lparr>alt_available := d\<rparr> | Neu \<Rightarrow> stock\<lparr>neu_available := d\<rparr>)"

definition deplete_available :: "(string, int) dict \<Rightarrow> string \<Rightarrow> int \<Rightarrow> (string, int) dict \<times> int" where
  "deplete_available d key amount =
     (if amount \<le> 0 then (d, 0)
      else let available = dict_get d key 0; taken = min available amount
           in (AList.update key (max 0 (available - taken)) d, taken))"

text \<open>\<open>bucket[key] += amount\<close>\<close>

definition add_available :: "string \<Rightarrow> int \<Rightarrow> (string, int) dict \<Rightarrow> (string, int) dict" where
  "add_available key amount d = AList.update key (dict_get d key 0 + amount) d"

section \<open>Moves\<close>

record move_flows =
  mf_out :: "regime \<Rightarrow> int"
  mf_in :: "regime \<Rightarrow> int"

text \<open>The three loops over the regimes: what the source gives, the fee out of it, what arrives.\<close>

fun take_moved :: "regime list \<Rightarrow> string \<Rightarrow> int \<Rightarrow> inventory \<Rightarrow> (regime \<Rightarrow> int) \<Rightarrow> inventory \<times> (regime \<Rightarrow> int)" where
  "take_moved [] from_key remaining stock moved = (stock, moved)"
| "take_moved (r # rs) from_key remaining stock moved =
     (case deplete_available (regime_bucket r stock) from_key remaining of (d, taken) \<Rightarrow>
        let stock' = set_bucket r d stock; moved' = moved(r := moved r + taken); remaining' = remaining - taken
        in if remaining' \<le> 0 then (stock', moved') else take_moved rs from_key remaining' stock' moved')"

fun take_fee :: "regime list \<Rightarrow> int \<Rightarrow> (regime \<Rightarrow> int) \<Rightarrow> (regime \<Rightarrow> int) \<Rightarrow> (regime \<Rightarrow> int) \<times> (regime \<Rightarrow> int)" where
  "take_fee [] remaining moved fees = (moved, fees)"
| "take_fee (r # rs) remaining moved fees =
     (let fee_slice = min (moved r) remaining
      in if fee_slice \<le> 0 then take_fee rs remaining moved fees
         else let moved' = moved(r := moved r - fee_slice); fees' = fees(r := fees r + fee_slice); remaining' = remaining - fee_slice
              in if remaining' \<le> 0 then (moved', fees') else take_fee rs remaining' moved' fees')"

fun carry_moved :: "regime list \<Rightarrow> string \<Rightarrow> int \<Rightarrow> (regime \<Rightarrow> int) \<Rightarrow> inventory \<Rightarrow> (regime \<Rightarrow> int) \<Rightarrow> inventory \<times> (regime \<Rightarrow> int)" where
  "carry_moved [] to_key remaining moved stock carried = (stock, carried)"
| "carry_moved (r # rs) to_key remaining moved stock carried =
     (let c = min (moved r) remaining
      in if c \<le> 0 then carry_moved rs to_key remaining moved stock carried
         else let stock' = set_bucket r (add_available to_key c (regime_bucket r stock)) stock;
                  carried' = carried(r := carried r + c); remaining' = remaining - c
              in if remaining' \<le> 0 then (stock', carried') else carry_moved rs to_key remaining' moved stock' carried')"

definition move_transfer_availability :: "inventory \<Rightarrow> at_leg \<Rightarrow> at_leg \<Rightarrow> inventory \<times> regime \<times> move_flows" where
  "move_transfer_availability stock out_row in_row =
     (let from_key = availability_key (al_wallet out_row);
          to_key = availability_key (al_wallet in_row);
          sent = int_or_0 (al_amount out_row) + int_or_0 (al_fee out_row);
          received = int_or_0 (al_amount in_row);
          inferred = infer_regime_from_timestamp (al_when out_row)
      in if sent \<le> 0 \<or> received \<le> 0 then (stock, inferred, \<lparr>mf_out = (\<lambda>_. 0), mf_in = (\<lambda>_. 0)\<rparr>)
         else let preferred = (if inferred = Neu \<and> dict_get (alt_available stock) from_key 0 > 0
                                  \<and> dict_get (neu_available stock) from_key 0 \<le> 0 then Alt else inferred);
                  order = (if preferred = Neu then [Neu, Alt] else [Alt, Neu]);
                  (stock1, taken) = take_moved order from_key sent stock (\<lambda>_. 0);
                  (moved, fees) = take_fee order (max 0 (sent - received)) taken (\<lambda>_. 0);
                  (stock2, carried) = carry_moved order to_key received moved stock1 (\<lambda>_. 0);
                  flows = \<lparr>mf_out = (\<lambda>r. fees r + carried r), mf_in = carried\<rparr>;
                  fee_regime = (case find (\<lambda>r. fees r > 0) order of
                                  Some r \<Rightarrow> r
                                | None \<Rightarrow> (case find (\<lambda>r. moved r > 0) order of Some r \<Rightarrow> r | None \<Rightarrow> preferred))
              in (stock2, fee_regime, flows))"

section \<open>Actions of reviewed transfers\<close>

record at_pair = transfer_pair +
  ap_out_wallet :: "string option"
  ap_out_when :: int
  ap_in_wallet :: "string option"
  ap_in_when :: int

type_synonym transfer_action = "at_leg \<times> at_leg \<times> string"

text \<open>The copies of the legs of a pair with amounts of their own.\<close>

definition out_leg :: "at_pair \<Rightarrow> int \<Rightarrow> int \<Rightarrow> at_leg" where
  "out_leg p amount fee = \<lparr>al_id = row_id (pair_out p), al_wallet = ap_out_wallet p, al_amount = Some amount, al_fee = Some fee,
     al_when = ap_out_when p\<rparr>"

definition in_leg :: "at_pair \<Rightarrow> int option \<Rightarrow> at_leg" where
  "in_leg p amount = \<lparr>al_id = row_id (pair_in p), al_wallet = ap_in_wallet p, al_amount = amount, al_fee = row_fee (pair_in p),
     al_when = ap_in_when p\<rparr>"

definition intra_pair_components :: "at_pair list \<Rightarrow> at_pair list list" where
  "intra_pair_components pairs = connected_pair_components (\<lambda>p. Some (pair_edge p)) is_component_member pairs"

text \<open>\<open>{id(row): row for pair in pairs}\<close>: the first place, the last value.\<close>

definition rows_by_id :: "(at_pair \<Rightarrow> pair_row) \<Rightarrow> at_pair list \<Rightarrow> (string, pair_row) dict" where
  "rows_by_id leg pairs = fold (\<lambda>p. AList.update (row_id (leg p)) (leg p)) pairs []"

definition group_row_ids :: "at_pair list \<Rightarrow> string list" where
  "group_row_ids component =
     (let ordered = ordered_pair_component component
      in map fst (rows_by_id pair_out ordered) @ map fst (rows_by_id pair_in ordered))"

definition single_source_actions ::
  "bool \<Rightarrow> at_pair list \<Rightarrow> (string, int) dict \<Rightarrow> int \<Rightarrow> (string \<times> transfer_action) list" where
  "single_source_actions trigger_by_out ordered adjusted fee_msat =
     (let received = (\<lambda>p. dict_get adjusted (row_id (pair_in p)) 0);
          fee_allocations = allocate_fee_msat fee_msat (map received ordered)
      in map (\<lambda>(p, fee). (if trigger_by_out then row_id (pair_out p) else row_id (pair_in p),
                           out_leg p (received p) fee, in_leg p (row_amount (pair_in p)), row_id (pair_out p)))
           (zip ordered fee_allocations))"

definition source_actions ::
  "bool \<Rightarrow> (string \<times> string, at_pair) dict \<Rightarrow> (string \<times> string \<times> int) list \<Rightarrow> (string, int) dict \<Rightarrow> string
     \<Rightarrow> (string \<times> transfer_action) list result" where
  "source_actions trigger_by_out pair_by_edge allocated source_fees out_id =
     (let flows = map snd (filter (\<lambda>(k, _, _). k = out_id) allocated);
          fee_parts = allocate_fee_msat (dict_get source_fees out_id 0) (map snd flows)
      in map_res (\<lambda>((in_id, principal), fee).
           case map_of pair_by_edge (out_id, in_id) of
             None \<Rightarrow> Inl (KeyError in_id)
           | Some p \<Rightarrow> Inr (if trigger_by_out then out_id else in_id, out_leg p principal fee, in_leg p (Some principal), out_id))
         (zip flows fee_parts))"

definition multi_source_actions ::
  "bool \<Rightarrow> at_pair list \<Rightarrow> (string, int \<times> int \<times> bool) dict \<Rightarrow> (string, int) dict \<Rightarrow> (string \<times> transfer_action) list result option" where
  "multi_source_actions trigger_by_out ordered evidence adjusted =
     (let sent = map (\<lambda>(k, s, _, _). (k, s)) evidence;
          explicit = map (\<lambda>(k, _, f, _). (k, Some f)) evidence;
          implicit = map fst (filter (\<lambda>(_, _, _, b). b) evidence);
          pair_by_edge = first_pair_by_edge ordered
      in case allocate_transfer_component_flow_msat sent explicit adjusted (map fst pair_by_edge) implicit of
           None \<Rightarrow> None
         | Some None \<Rightarrow> Some (Inr [])
         | Some (Some (allocated, source_fees)) \<Rightarrow>
             let principal = fold (\<lambda>(k, _, a) d. AList.update k (dict_get d k 0 + a) d) allocated (map (\<lambda>(k, _). (k, 0)) evidence)
             in if \<exists>(k, a) \<in> set principal. dict_get sent k 0 > 0 \<and> a \<le> 0 then Some (Inr [])
                else Some (bind_res (map_res (source_actions trigger_by_out pair_by_edge allocated source_fees) (map fst evidence))
                       (\<lambda>actions. Inr (concat actions))))"

definition component_actions :: "string list \<Rightarrow> at_pair list \<Rightarrow> (string \<times> transfer_action) list result option" where
  "component_actions row_ids component =
     (let ordered = ordered_pair_component component;
          outs = rows_by_id pair_out ordered;
          ins = rows_by_id pair_in ordered;
          trigger_by_out = list_all (\<lambda>(k, _). k \<in> set row_ids) outs;
          evidence = map (\<lambda>(k, row). (k, outbound_transfer_evidence_msat row)) outs;
          total_sent = (\<Sum>(_, s, _) \<leftarrow> evidence. s);
          adjusted = zip (map fst ins) (clamped_component_receipts_msat total_sent (map (\<lambda>(_, row). int_or_0 (row_amount row)) ins));
          total_received = (\<Sum>(_, a) \<leftarrow> adjusted. a)
      in if total_sent < total_received then Some (Inr [])
         else if length outs = 1
         then Some (Inr (single_source_actions trigger_by_out ordered adjusted (total_sent - total_received)))
         else multi_source_actions trigger_by_out ordered evidence adjusted)"

fun actions_loop ::
  "string list \<Rightarrow> at_pair list list \<Rightarrow> (string, transfer_action list) dict \<Rightarrow> string list
     \<Rightarrow> ((string, transfer_action list) dict \<times> string list) result option" where
  "actions_loop row_ids [] d ids = Some (Inr (d, ids))"
| "actions_loop row_ids (c # cs) d ids =
     (case component_actions row_ids c of
        None \<Rightarrow> None
      | Some (Inl e) \<Rightarrow> Some (Inl e)
      | Some (Inr actions) \<Rightarrow> actions_loop row_ids cs (fold (\<lambda>(t, a). dict_append t a) actions d) (ids @ group_row_ids c))"

definition transfer_actions_for_intra_pairs ::
  "at_pair list \<Rightarrow> string list \<Rightarrow> ((string, transfer_action list) dict \<times> string list) result option" where
  "transfer_actions_for_intra_pairs pairs row_ids = actions_loop row_ids (intra_pair_components pairs) [] []"

section \<open>Inference\<close>

record regime_state =
  rs_inventory :: inventory
  rs_regimes :: "(string, regime) dict"
  rs_elections :: "string list"
  rs_flows :: "(string \<times> string, move_flows) dict"

definition regime_start :: regime_state where
  "regime_start = \<lparr>rs_inventory = \<lparr>alt_available = [], neu_available = []\<rparr>, rs_regimes = [], rs_elections = [], rs_flows = []\<rparr>"

definition apply_transfer :: "transfer_action \<Rightarrow> regime_state \<Rightarrow> regime_state" where
  "apply_transfer action s =
     (case action of (out_row, in_row, regime_row_id) \<Rightarrow>
        case move_transfer_availability (rs_inventory s) out_row in_row of (stock, fee_regime, flows) \<Rightarrow>
          s\<lparr>rs_inventory := stock, rs_regimes := keep_first regime_row_id fee_regime (rs_regimes s),
            rs_flows := AList.update (al_id out_row, al_id in_row) flows (rs_flows s)\<rparr>)"

definition book_inbound :: "at_row \<Rightarrow> regime_state \<Rightarrow> regime_state" where
  "book_inbound row s =
     (let r = infer_regime_from_timestamp (al_when row); stock = rs_inventory s
      in s\<lparr>rs_inventory := set_bucket r (add_available (availability_key (al_wallet row)) (int_or_0 (al_amount row)) (regime_bucket r stock)) stock\<rparr>)"

definition book_outbound :: "at_row \<Rightarrow> regime_state \<Rightarrow> regime_state" where
  "book_outbound row s =
     (let key = availability_key (al_wallet row); stock = rs_inventory s;
          inferred = infer_regime_from_timestamp (al_when row);
          both = (inferred = Neu \<and> dict_get (alt_available stock) key 0 > 0);
          only_alt = dict_get (neu_available stock) key 0 \<le> 0;
          r = (if both \<and> only_alt then Alt else inferred);
          elections = (if both \<and> \<not> only_alt then rs_elections s @ [al_id row] else rs_elections s);
          needed = int_or_0 (al_amount row) + int_or_0 (al_fee row)
      in s\<lparr>rs_inventory := (if needed \<le> 0 then stock else set_bucket r (fst (deplete_available (regime_bucket r stock) key needed)) stock),
           rs_regimes := AList.update (al_id row) r (rs_regimes s), rs_elections := elections\<rparr>)"

definition regime_step :: "(string, transfer_action list) dict \<Rightarrow> string list \<Rightarrow> at_row \<Rightarrow> regime_state \<Rightarrow> regime_state" where
  "regime_step actions transfer_row_ids row s =
     (let transfer_actions = dict_get actions (al_id row) [];
          direction = py_lower (py_strip (str_or_empty (al_direction row)))
      in if transfer_actions \<noteq> [] then fold apply_transfer transfer_actions s
         else if al_id row \<in> set transfer_row_ids then s
         else if direction = ''inbound'' then book_inbound row s
         else if direction = ''outbound'' then book_outbound row s
         else s)"

definition infer_outbound_regimes :: "at_row list \<Rightarrow> at_pair list \<Rightarrow> regime_state result option" where
  "infer_outbound_regimes rows pairs =
     map_option (\<lambda>r. bind_res r (\<lambda>(actions, transfer_row_ids).
         Inr (fold (regime_step actions transfer_row_ids) rows regime_start)))
       (transfer_actions_for_intra_pairs pairs (map al_id rows))"

section \<open>Inventory\<close>

definition holding :: "regime \<Rightarrow> inventory \<Rightarrow> string \<Rightarrow> int" where
  "holding r stock key = dict_get (regime_bucket r stock) key 0"

definition total_held :: "regime \<Rightarrow> inventory \<Rightarrow> int" where
  "total_held r stock = (\<Sum>(_, v) \<leftarrow> regime_bucket r stock. v)"

definition stock_ok :: "inventory \<Rightarrow> bool" where
  "stock_ok stock \<longleftrightarrow> (\<forall>r. distinct (map fst (regime_bucket r stock)) \<and> (\<forall>key. 0 \<le> holding r stock key))"

lemma regime_bucket_set_bucket [simp]: "regime_bucket r (set_bucket r' d stock) = (if r = r' then d else regime_bucket r stock)"
  by (simp add: regime_bucket_def set_bucket_def split: regime.split)

lemma bucket_fields: "alt_available stock = regime_bucket Alt stock" "neu_available stock = regime_bucket Neu stock"
  by (simp_all add: regime_bucket_def)

text \<open>Replacing the entry of one wallet in one regime.\<close>

lemma put_entry:
  fixes stock :: inventory and r :: regime and key :: string and v :: int
  assumes "stock_ok stock" "0 \<le> v"
  defines "stock' \<equiv> set_bucket r (AList.update key v (regime_bucket r stock)) stock"
  shows "stock_ok stock'" "holding r' stock' k = (if r' = r \<and> k = key then v else holding r' stock k)"
    and "total_held r' stock' = total_held r' stock + (if r' = r then v - holding r stock key else 0)"
proof -
  show h: "holding r' stock' k = (if r' = r \<and> k = key then v else holding r' stock k)" for r' k
    by (simp add: stock'_def holding_def dict_get_update)
  show "stock_ok stock'" using assms(1,2) by (auto simp: stock_ok_def h) (simp add: stock'_def distinct_update)
  have "distinct (map fst (regime_bucket r stock))" using assms(1) by (simp add: stock_ok_def)
  then show "total_held r' stock' = total_held r' stock + (if r' = r then v - holding r stock key else 0)"
    using sum_dict_update [of "regime_bucket r stock" "\<lambda>x. x" 0 key v] by (simp add: stock'_def total_held_def holding_def)
qed

lemma deplete_spec:
  assumes "stock_ok stock" "deplete_available (regime_bucket r stock) key amount = (d, taken)" "0 < amount"
  shows "taken = min (holding r stock key) amount" "0 \<le> taken" "stock_ok (set_bucket r d stock)"
    and "holding r' (set_bucket r d stock) k = holding r' stock k - (if r' = r \<and> k = key then taken else 0)"
    and "total_held r' (set_bucket r d stock) = total_held r' stock - (if r' = r then taken else 0)"
proof -
  have nn: "0 \<le> holding r stock key" using assms(1) by (simp add: stock_ok_def)
  show t: "taken = min (holding r stock key) amount" using assms(2,3) by (auto simp: deplete_available_def holding_def Let_def)
  then show "0 \<le> taken" using nn assms(3) by simp
  have d: "d = AList.update key (holding r stock key - taken) (regime_bucket r stock)" "0 \<le> holding r stock key - taken"
    using assms(2,3) nn t by (auto simp: deplete_available_def holding_def Let_def)
  note p = put_entry [OF assms(1) d(2), where r = r and key = key, folded d(1)]
  show "stock_ok (set_bucket r d stock)" by (rule p(1))
  show "holding r' (set_bucket r d stock) k = holding r' stock k - (if r' = r \<and> k = key then taken else 0)" by (simp add: p(2))
  show "total_held r' (set_bucket r d stock) = total_held r' stock - (if r' = r then taken else 0)" by (simp add: p(3))
qed

lemma add_spec:
  fixes stock :: inventory and r :: regime and key :: string and amount :: int
  assumes "stock_ok stock" "0 \<le> amount"
  defines "stock' \<equiv> set_bucket r (add_available key amount (regime_bucket r stock)) stock"
  shows "stock_ok stock'" "holding r' stock' k = holding r' stock k + (if r' = r \<and> k = key then amount else 0)"
    and "total_held r' stock' = total_held r' stock + (if r' = r then amount else 0)"
proof -
  have "0 \<le> holding r stock key + amount" using assms(1,2) by (simp add: stock_ok_def)
  note p = put_entry [OF assms(1) this, where r = r and key = key]
  have s: "stock' = set_bucket r (AList.update key (holding r stock key + amount) (regime_bucket r stock)) stock"
    by (simp add: stock'_def add_available_def holding_def)
  show "stock_ok stock'" "holding r' stock' k = holding r' stock k + (if r' = r \<and> k = key then amount else 0)"
    "total_held r' stock' = total_held r' stock + (if r' = r then amount else 0)"
    by (simp_all add: s p)
qed

section \<open>Moves conserve every regime\<close>

lemma take_moved_spec:
  assumes "stock_ok stock" "distinct rs" "0 < remaining" "take_moved rs key remaining stock m = (stock', m')"
  shows "stock_ok stock' \<and> (\<forall>r. m r \<le> m' r \<and> total_held r stock' = total_held r stock - (m' r - m r)
      \<and> (\<forall>k. holding r stock' k = holding r stock k - (if k = key then m' r - m r else 0)))
    \<and> (\<forall>r. r \<notin> set rs \<longrightarrow> m' r = m r)
    \<and> (\<Sum>r \<in> set rs. m' r - m r) = min remaining (\<Sum>r \<in> set rs. holding r stock key)"
  using assms
proof (induction rs arbitrary: remaining stock m)
  case (Cons r rs)
  obtain d t where d: "deplete_available (regime_bucket r stock) key remaining = (d, t)" by fastforce
  note s = deplete_spec [OF Cons.prems(1) d Cons.prems(3)]
  let ?stock = "set_bucket r d stock" and ?m = "m(r := m r + t)"
  have r: "r \<notin> set rs" using Cons.prems(2) by simp
  have nn: "0 \<le> (\<Sum>r \<in> set rs. holding r stock key)" using Cons.prems(1) by (intro sum_nonneg) (simp add: stock_ok_def)
  have same: "(\<Sum>r \<in> set rs. holding r ?stock key) = (\<Sum>r \<in> set rs. holding r stock key)"
    using r by (intro sum.cong) (auto simp: s(4))
  show ?case
  proof (cases "remaining - t \<le> 0")
    case True
    then have "stock' = ?stock" "m' = ?m" using Cons.prems(4) d by simp_all
    moreover have "(\<Sum>r' \<in> set rs. ?m r' - m r') = 0" using r by (intro sum.neutral) auto
    ultimately show ?thesis using s True r nn by (auto simp: min_def)
  next
    case False
    then have "take_moved rs key (remaining - t) ?stock ?m = (stock', m')" using Cons.prems(4) d by simp
    from Cons.IH [OF s(3) _ _ this] have ok: "stock_ok stock'"
      and ih: "?m r' \<le> m' r'" "total_held r' stock' = total_held r' ?stock - (m' r' - ?m r')"
        "holding r' stock' k = holding r' ?stock k - (if k = key then m' r' - ?m r' else 0)"
      and kept: "r' \<notin> set rs \<Longrightarrow> m' r' = ?m r'"
      and sum: "(\<Sum>r' \<in> set rs. m' r' - ?m r') = min (remaining - t) (\<Sum>r' \<in> set rs. holding r' ?stock key)" for r' k
      using False Cons.prems(2) by simp_all
    have "m' r = m r + t" using kept [OF r] by simp
    moreover have "(\<Sum>r' \<in> set rs. m' r' - ?m r') = (\<Sum>r' \<in> set rs. m' r' - m r')" using r by (intro sum.cong) auto
    moreover have "t = holding r stock key" using s(1) False by (simp add: min_def split: if_splits)
    ultimately have "(\<Sum>r' \<in> set (r # rs). m' r' - m r') = min remaining (\<Sum>r' \<in> set (r # rs). holding r' stock key)"
      using sum r by (simp add: same)
    moreover have "m r' \<le> m' r' \<and> total_held r' stock' = total_held r' stock - (m' r' - m r')
        \<and> (\<forall>k. holding r' stock' k = holding r' stock k - (if k = key then m' r' - m r' else 0))" for r'
      using ih [of r'] s(2,4,5) by (cases "r' = r") auto
    moreover have "\<forall>r'. r' \<notin> set (r # rs) \<longrightarrow> m' r' = m r'" using kept by simp
    ultimately show ?thesis using ok by blast
  qed
qed simp

lemma take_fee_spec:
  assumes "\<forall>r. 0 \<le> m r" "distinct rs" "0 \<le> remaining" "take_fee rs remaining m f = (m', f')"
  shows "(\<forall>r. 0 \<le> m' r \<and> m' r + f' r = m r + f r \<and> f r \<le> f' r) \<and> (\<forall>r. r \<notin> set rs \<longrightarrow> f' r = f r)
    \<and> (\<Sum>r \<in> set rs. f' r - f r) = min remaining (\<Sum>r \<in> set rs. m r)"
  using assms
proof (induction rs arbitrary: remaining m f)
  case (Cons r rs)
  define slice where "slice = min (m r) remaining"
  let ?m = "m(r := m r - slice)" and ?f = "f(r := f r + slice)"
  have r: "r \<notin> set rs" using Cons.prems(2) by simp
  have sl: "0 \<le> slice" "slice \<le> m r" "slice \<le> remaining" "slice = m r \<or> slice = remaining"
    using Cons.prems(1,3) by (auto simp: slice_def min_def)
  have mnn: "\<forall>r. 0 \<le> ?m r" "0 \<le> remaining - slice" using sl Cons.prems(1) by auto
  have nn: "0 \<le> (\<Sum>r \<in> set rs. m r)" using Cons.prems(1) by (intro sum_nonneg) simp
  have same: "(\<Sum>r' \<in> set rs. ?m r') = (\<Sum>r' \<in> set rs. m r')" "(\<Sum>r' \<in> set rs. g r' - ?f r') = (\<Sum>r' \<in> set rs. g r' - f r')" for g
    using r by (auto intro!: sum.cong)
  have step: "take_fee (r # rs) remaining m f
      = (if 0 < slice \<and> remaining - slice \<le> 0 then (?m, ?f) else take_fee rs (remaining - slice) ?m ?f)"
    using sl(1) by (cases "slice = 0") (simp_all add: slice_def [symmetric] Let_def)
  show ?case
  proof (cases "0 < slice \<and> remaining - slice \<le> 0")
    case True
    then have eq: "m' = ?m" "f' = ?f" using Cons.prems(4) step by simp_all
    have "(\<Sum>r' \<in> set rs. f' r' - f r') = 0" using r by (intro sum.neutral) (auto simp: eq)
    then have "(\<Sum>r' \<in> set (r # rs). f' r' - f r') = min remaining (\<Sum>r' \<in> set (r # rs). m r')"
      using True r nn sl by (simp add: eq(2))
    then show ?thesis using sl mnn by (auto simp: eq)
  next
    case False
    have "take_fee rs (remaining - slice) ?m ?f = (m', f')" using Cons.prems(4) unfolding step if_not_P [OF False] .
    from Cons.IH [OF mnn(1) _ mnn(2) this] have ih: "0 \<le> m' r'" "m' r' + f' r' = ?m r' + ?f r'" "?f r' \<le> f' r'"
      and kept: "r' \<notin> set rs \<Longrightarrow> f' r' = ?f r'"
      and sum: "(\<Sum>r' \<in> set rs. f' r' - ?f r') = min (remaining - slice) (\<Sum>r' \<in> set rs. ?m r')" for r'
      using Cons.prems(2) by simp_all
    have "f' r = f r + slice" using kept [OF r] by simp
    then have "(\<Sum>r' \<in> set (r # rs). f' r' - f r') = slice + min (remaining - slice) (\<Sum>r' \<in> set rs. m r')"
      using sum r same by simp
    also have "\<dots> = min remaining (\<Sum>r' \<in> set (r # rs). m r')" using r nn sl False by auto
    finally have "(\<Sum>r' \<in> set (r # rs). f' r' - f r') = min remaining (\<Sum>r' \<in> set (r # rs). m r')" .
    moreover have "0 \<le> m' r' \<and> m' r' + f' r' = m r' + f r' \<and> f r' \<le> f' r'" for r'
      using ih [of r'] sl(1) by (cases "r' = r") auto
    moreover have "\<forall>r'. r' \<notin> set (r # rs) \<longrightarrow> f' r' = f r'" using kept by simp
    ultimately show ?thesis by blast
  qed
qed simp

lemma carry_moved_spec:
  assumes "stock_ok stock" "\<forall>r. 0 \<le> m r" "distinct rs" "(\<Sum>r \<in> set rs. m r) \<le> remaining"
    and "carry_moved rs key remaining m stock c = (stock', c')"
  shows "stock_ok stock' \<and> (\<forall>r. c' r = c r + (if r \<in> set rs then m r else 0)
      \<and> total_held r stock' = total_held r stock + (if r \<in> set rs then m r else 0)
      \<and> (\<forall>k. holding r stock' k = holding r stock k + (if r \<in> set rs \<and> k = key then m r else 0)))"
  using assms
proof (induction rs arbitrary: remaining stock c)
  case (Cons r rs)
  have r: "r \<notin> set rs" "m r + (\<Sum>r \<in> set rs. m r) \<le> remaining" using Cons.prems(3,4) by simp_all
  have nn: "0 \<le> (\<Sum>r \<in> set rs. m r)" "0 \<le> m r" using Cons.prems(2) by (simp_all add: sum_nonneg)
  have slice: "min (m r) remaining = m r" using r nn by simp
  show ?case
  proof (cases "m r = 0")
    case True
    then have "carry_moved rs key remaining m stock c = (stock', c')" using Cons.prems(5) slice by (simp add: Let_def)
    from Cons.IH [OF Cons.prems(1,2) _ _ this] show ?thesis using Cons.prems(3) r True by auto
  next
    case False
    then have pos: "0 < m r" using nn(2) by simp
    let ?stock = "set_bucket r (add_available key (m r) (regime_bucket r stock)) stock" and ?c = "c(r := c r + m r)"
    note a = add_spec [OF Cons.prems(1) nn(2), where r = r and key = key]
    show ?thesis
    proof (cases "remaining - m r \<le> 0")
      case True
      then have "(\<Sum>r \<in> set rs. m r) = 0" using r(2) nn(1) by linarith
      then have "\<forall>r' \<in> set rs. m r' = 0" using Cons.prems(2) by (simp add: sum_nonneg_eq_0_iff)
      moreover have "stock' = ?stock" "c' = ?c" using Cons.prems(5) slice pos True by (simp_all add: Let_def)
      ultimately show ?thesis using a r(1) by auto
    next
      case False
      then have "carry_moved rs key (remaining - m r) m ?stock ?c = (stock', c')" using Cons.prems(5) slice pos by (simp add: Let_def)
      from Cons.IH [OF a(1) Cons.prems(2) _ _ this] show ?thesis using Cons.prems(3) r a by auto
    qed
  qed
qed simp

text \<open>What a move does to an inventory: per regime, \<open>out\<close> leaves the source and \<open>in\<close> reaches the
  destination. Together the source gives what was sent, or all it has, and of that the fee is lost.\<close>

definition conserving_move :: "at_leg \<Rightarrow> at_leg \<Rightarrow> inventory \<Rightarrow> inventory \<Rightarrow> move_flows \<Rightarrow> bool" where
  "conserving_move out_row in_row stock stock' flows \<longleftrightarrow>
     (let sent = int_or_0 (al_amount out_row) + int_or_0 (al_fee out_row);
          received = int_or_0 (al_amount in_row);
          source = availability_key (al_wallet out_row);
          given = (if sent \<le> 0 \<or> received \<le> 0 then 0 else min sent (holding Alt stock source + holding Neu stock source))
      in (\<forall>r. 0 \<le> mf_in flows r \<and> mf_in flows r \<le> mf_out flows r
            \<and> total_held r stock' = total_held r stock - mf_out flows r + mf_in flows r
            \<and> (\<forall>key. holding r stock' key = holding r stock key - (if key = source then mf_out flows r else 0)
                 + (if key = availability_key (al_wallet in_row) then mf_in flows r else 0)))
         \<and> mf_out flows Alt + mf_out flows Neu = given
         \<and> (mf_out flows Alt - mf_in flows Alt) + (mf_out flows Neu - mf_in flows Neu) = min given (max 0 (sent - received)))"

lemma regime_sum:
  assumes "order = [Neu, Alt] \<or> order = [Alt, Neu]"
  shows "distinct order" "r \<in> set order" "(\<Sum>r \<in> set order. g r) = g Alt + (g Neu :: int)"
  using assms by (cases r; auto)+

lemma move_steps:
  fixes out_row in_row :: at_leg and stock :: inventory
  defines "from_key \<equiv> availability_key (al_wallet out_row)" and "to_key \<equiv> availability_key (al_wallet in_row)"
    and "sent \<equiv> int_or_0 (al_amount out_row) + int_or_0 (al_fee out_row)" and "received \<equiv> int_or_0 (al_amount in_row)"
  assumes "move_transfer_availability stock out_row in_row = (stock', fee_regime, flows)" "\<not> (sent \<le> 0 \<or> received \<le> 0)"
  obtains order stock1 taken moved fees carried where "order = [Neu, Alt] \<or> order = [Alt, Neu]"
    "take_moved order from_key sent stock (\<lambda>_. 0) = (stock1, taken)"
    "take_fee order (max 0 (sent - received)) taken (\<lambda>_. 0) = (moved, fees)"
    "carry_moved order to_key received moved stock1 (\<lambda>_. 0) = (stock', carried)"
    "flows = \<lparr>mf_out = (\<lambda>r. fees r + carried r), mf_in = carried\<rparr>"
    "\<exists>r. find (\<lambda>r. fees r > 0) order = Some r \<Longrightarrow> find (\<lambda>r. fees r > 0) order = Some fee_regime"
proof -
  define preferred where "preferred = (if infer_regime_from_timestamp (al_when out_row) = Neu \<and> dict_get (alt_available stock) from_key 0 > 0
    \<and> dict_get (neu_available stock) from_key 0 \<le> 0 then Alt else infer_regime_from_timestamp (al_when out_row))"
  define order where "order = (if preferred = Neu then [Neu, Alt] else [Alt, Neu])"
  obtain stock1 taken where t: "take_moved order from_key sent stock (\<lambda>_. 0) = (stock1, taken)" by fastforce
  obtain moved fees where f: "take_fee order (max 0 (sent - received)) taken (\<lambda>_. 0) = (moved, fees)" by fastforce
  obtain stock2 carried where c: "carry_moved order to_key received moved stock1 (\<lambda>_. 0) = (stock2, carried)" by fastforce
  have "stock2 = stock'" and flows: "flows = \<lparr>mf_out = (\<lambda>r. fees r + carried r), mf_in = carried\<rparr>"
    and fee: "\<exists>r. find (\<lambda>r. fees r > 0) order = Some r \<Longrightarrow> find (\<lambda>r. fees r > 0) order = Some fee_regime"
    using assms(5) unfolding move_transfer_availability_def Let_def assms(1-4) [symmetric] if_not_P [OF assms(6)]
      preferred_def [symmetric] order_def [symmetric]
    by (auto simp: t f c)
  with c have "carry_moved order to_key received moved stock1 (\<lambda>_. 0) = (stock', carried)" by simp
  moreover have "order = [Neu, Alt] \<or> order = [Alt, Neu]" by (simp add: order_def)
  ultimately show thesis using that [OF _ t f _ flows fee] by blast
qed

lemma move_conserves:
  assumes "stock_ok stock" "move_transfer_availability stock out_row in_row = (stock', fee_regime, flows)"
  shows "stock_ok stock' \<and> conserving_move out_row in_row stock stock' flows"
proof -
  define sent where "sent = int_or_0 (al_amount out_row) + int_or_0 (al_fee out_row)"
  define received where "received = int_or_0 (al_amount in_row)"
  let ?from = "availability_key (al_wallet out_row)" and ?to = "availability_key (al_wallet in_row)"
  note names = sent_def [symmetric] received_def [symmetric]
  show ?thesis
  proof (cases "sent \<le> 0 \<or> received \<le> 0")
    case True
    then have "stock' = stock" "flows = \<lparr>mf_out = (\<lambda>_. 0), mf_in = (\<lambda>_. 0)\<rparr>"
      using assms(2) by (auto simp: move_transfer_availability_def Let_def names)
    then show ?thesis using True assms(1) by (auto simp: conserving_move_def Let_def names)
  next
    case False
    obtain order stock1 taken moved fees carried where order: "order = [Neu, Alt] \<or> order = [Alt, Neu]"
      and t: "take_moved order ?from sent stock (\<lambda>_. 0) = (stock1, taken)"
      and f: "take_fee order (max 0 (sent - received)) taken (\<lambda>_. 0) = (moved, fees)"
      and c: "carry_moved order ?to received moved stock1 (\<lambda>_. 0) = (stock', carried)"
      and flows: "flows = \<lparr>mf_out = (\<lambda>r. fees r + carried r), mf_in = carried\<rparr>"
      by (rule move_steps [OF assms(2), unfolded names, OF False]) (rule that; assumption)
    note o = regime_sum [OF order]
    have "0 < sent" using False by simp
    from take_moved_spec [OF assms(1) o(1) this t] have T: "stock_ok stock1" "0 \<le> taken r"
      "total_held r stock1 = total_held r stock - taken r"
      "holding r stock1 k = holding r stock k - (if k = ?from then taken r else 0)"
      "taken Alt + taken Neu = min sent (holding Alt stock ?from + holding Neu stock ?from)" for r k
      by (simp_all add: o(3))
    from take_fee_spec [OF _ o(1) _ f] have F: "0 \<le> moved r" "moved r + fees r = taken r" "0 \<le> fees r"
      "fees Alt + fees Neu = min (max 0 (sent - received)) (taken Alt + taken Neu)" for r
      using T(2) by (simp_all add: o(3))
    have "taken Alt + taken Neu \<le> sent" "0 < received" using T(5) False by simp_all
    then have "moved Alt + moved Neu \<le> received"
      using F(2) [of Alt] F(2) [of Neu] F(4) by (simp add: min_def max_def split: if_splits)
    from carry_moved_spec [OF T(1) _ o(1) _ c] this have C: "stock_ok stock'" "carried r = moved r"
      "total_held r stock' = total_held r stock1 + moved r"
      "holding r stock' k = holding r stock1 k + (if k = ?to then moved r else 0)" for r k
      using F(1) o(2,3) by simp_all
    have "conserving_move out_row in_row stock stock' flows"
      unfolding conserving_move_def Let_def names if_not_P [OF False]
    proof (intro conjI allI)
      fix r key
      show "0 \<le> mf_in flows r" "mf_in flows r \<le> mf_out flows r" using F(1,3) by (simp_all add: flows C(2))
      show "total_held r stock' = total_held r stock - mf_out flows r + mf_in flows r" using F(2) [of r] by (simp add: flows C(2,3) T(3))
      show "holding r stock' key = holding r stock key - (if key = ?from then mf_out flows r else 0) + (if key = ?to then mf_in flows r else 0)"
        using F(2) [of r] by (simp add: flows C(2,4) T(4))
    next
      show "mf_out flows Alt + mf_out flows Neu = min sent (holding Alt stock ?from + holding Neu stock ?from)"
        using F(2) [of Alt] F(2) [of Neu] T(5) by (simp add: flows C(2))
      show "mf_out flows Alt - mf_in flows Alt + (mf_out flows Neu - mf_in flows Neu)
          = min (min sent (holding Alt stock ?from + holding Neu stock ?from)) (max 0 (sent - received))"
        using F(4) T(5) by (simp add: flows C(2) min.commute)
    qed
    then show ?thesis using C(1) by blast
  qed
qed

section \<open>Actions exist\<close>

text \<open>The actions of a group are triggered by its rows and tag its rows.\<close>

definition actions_within :: "string set \<Rightarrow> (string \<times> transfer_action) list \<Rightarrow> bool" where
  "actions_within ids actions \<longleftrightarrow> (\<forall>(trigger, _, _, regime_row_id) \<in> set actions. trigger \<in> ids \<and> regime_row_id \<in> ids)"

lemma rows_by_id_keys:
  "distinct (map fst (rows_by_id leg ps)) \<and> fst ` set (rows_by_id leg ps) = (\<lambda>p. row_id (leg p)) ` set ps"
  unfolding rows_by_id_def
  by (induction ps rule: rev_induct) (auto simp: distinct_update update_fst_image)

definition leg_ids :: "at_pair list \<Rightarrow> string set" where
  "leg_ids ps = (\<Union>p \<in> set ps. {row_id (pair_out p), row_id (pair_in p)})"

lemma group_row_ids_set: "set (group_row_ids c) = leg_ids c"
  using rows_by_id_keys by (auto simp: group_row_ids_def ordered_pair_component_def leg_ids_def Let_def)

lemma single_source_within: "actions_within (leg_ids c) (single_source_actions b (ordered_pair_component c) adjusted fee)"
  by (auto simp: actions_within_def single_source_actions_def Let_def ordered_pair_component_def leg_ids_def dest!: set_zip_leftD)

lemma allocated_edge:
  assumes "transfer_result_ok sent fees destinations edges (flows, total_fees)" "(k, i, a) \<in> set flows"
  shows "(k, i) \<in> set edges"
proof -
  have pos: "0 \<le> a'" if "(k', i', a') \<in> set flows" for k' i' a' using assms(1) that by (fastforce simp: transfer_result_ok_def)
  have "0 < a" using assms by (fastforce simp: transfer_result_ok_def)
  moreover have "a \<le> flow_of flows (k, i)"
    using assms(2) pos
  proof (induction flows)
    case (Cons f flows)
    obtain k' i' a' where f: "f = (k', i', a')" by (cases f)
    have "0 \<le> a'" using Cons.prems(2) [of k' i' a'] by (simp add: f)
    moreover have pos: "0 \<le> x" if "(k', i', x) \<in> set flows" for k' i' x using Cons.prems(2) [of k' i' x] that by simp
    then have "0 \<le> flow_of flows (k, i)" unfolding flow_of_def by (intro sum_list_nonneg) (auto split: if_splits)
    moreover have "a \<le> flow_of flows (k, i)" if "(k, i, a) \<in> set flows" using that pos by (rule Cons.IH)
    ultimately show ?case using Cons.prems(1) f by (auto simp: flow_of_def)
  qed simp
  moreover have "flow_of flows (k, i) \<noteq> 0 \<Longrightarrow> (k, i) \<in> set edges"
    using assms(1) transfer_splitD(4) unfolding transfer_result_ok_def by blast
  ultimately show ?thesis by simp
qed

lemma source_actions_total:
  assumes "\<And>k i a. (k, i, a) \<in> set allocated \<Longrightarrow> (k, i) \<in> pair_edge ` set ps" "out_id \<in> leg_ids ps"
  shows "\<exists>actions. source_actions b (first_pair_by_edge ps) allocated fees out_id = Inr actions \<and> actions_within (leg_ids ps) actions"
proof -
  have keys: "fst ` set (first_pair_by_edge ps) = pair_edge ` set ps"
    using first_pair_by_edge_firsts [of "\<lambda>_. 0 :: int" ps] by (simp add: edge_firsts_def map_replicate_const)
  let ?flows = "map snd (filter (\<lambda>(k, _, _). k = out_id) allocated)"
  let ?f = "\<lambda>((in_id, principal), fee). case map_of (first_pair_by_edge ps) (out_id, in_id) of
      None \<Rightarrow> Inl (KeyError in_id)
    | Some p \<Rightarrow> Inr (if b then out_id else in_id, out_leg p principal fee, in_leg p (Some principal), out_id)"
  have "\<exists>y. ?f x = Inr y \<and> (case y of (t, _, _, r) \<Rightarrow> t \<in> leg_ids ps \<and> r \<in> leg_ids ps)"
    if x: "x \<in> set (zip ?flows (allocate_fee_msat (dict_get fees out_id 0) (map snd ?flows)))" for x
  proof -
    obtain i a fee where xe: "x = ((i, a), fee)" by (metis surj_pair)
    then have "(i, a) \<in> set ?flows" using x set_zip_leftD by metis
    then have "(out_id, i, a) \<in> set allocated" by auto
    then have e: "(out_id, i) \<in> pair_edge ` set ps" by (rule assms(1))
    then obtain p where "map_of (first_pair_by_edge ps) (out_id, i) = Some p" unfolding keys [symmetric]
      by (metis (no_types, lifting) map_of_eq_None_iff not_None_eq)
    moreover have "i \<in> leg_ids ps" using e by (auto simp: leg_ids_def pair_edge_def)
    ultimately show ?thesis using assms(2) by (simp add: xe)
  qed
  then have "\<exists>ys. map_res ?f (zip ?flows (allocate_fee_msat (dict_get fees out_id 0) (map snd ?flows))) = Inr ys
      \<and> list_all2 (\<lambda>_ y. case y of (t, _, _, r) \<Rightarrow> t \<in> leg_ids ps \<and> r \<in> leg_ids ps)
          (zip ?flows (allocate_fee_msat (dict_get fees out_id 0) (map snd ?flows))) ys"
    by (rule map_res_choice)
  then show ?thesis unfolding source_actions_def Let_def actions_within_def by (blast dest: list_all2_right_member)
qed

lemma multi_source_total:
  assumes "distinct (map fst evidence)" "fst ` set evidence \<subseteq> leg_ids ps" "distinct (map fst adjusted)"
  shows "\<exists>actions. multi_source_actions b ps evidence adjusted = Some (Inr actions) \<and> actions_within (leg_ids ps) actions"
proof -
  let ?sent = "map (\<lambda>(k, s, _, _). (k, s)) evidence" and ?explicit = "map (\<lambda>(k, _, f, _). (k, Some f)) evidence"
  let ?edges = "map fst (first_pair_by_edge ps)" and ?implicit = "map fst (filter (\<lambda>(_, _, _, b). b) evidence)"
  have "map fst ?sent = map fst evidence" by auto
  then have "distinct (map fst ?sent)" using assms(1) by (simp only:)
  from edmonds_karp.transfer_flow_exact [OF this assms(3), of ?explicit ?edges ?implicit]
  obtain res where res: "allocate_transfer_component_flow_msat ?sent ?explicit adjusted ?edges ?implicit = Some res"
    "case res of None \<Rightarrow> True | Some r \<Rightarrow> transfer_result_ok ?sent ?explicit adjusted ?edges r"
    unfolding allocate_transfer_component_flow_msat_def by (auto split: option.splits)
  show ?thesis
  proof (cases res)
    case None
    then show ?thesis using res(1) by (simp add: multi_source_actions_def Let_def actions_within_def)
  next
    case (Some r)
    obtain allocated fees where r: "r = (allocated, fees)" by (cases r)
    have ok: "transfer_result_ok ?sent ?explicit adjusted ?edges (allocated, fees)" using res(2) by (simp add: Some r)
    have edge: "(k, i) \<in> pair_edge ` set ps" if "(k, i, a) \<in> set allocated" for k i a
    proof -
      have "fst ` set (first_pair_by_edge ps) = pair_edge ` set ps"
        using first_pair_by_edge_firsts [of "\<lambda>_. 0 :: int" ps] by (simp add: edge_firsts_def map_replicate_const)
      then show ?thesis using allocated_edge [OF ok that] by simp
    qed
    have "\<exists>ys. map_res (source_actions b (first_pair_by_edge ps) allocated fees) (map fst evidence) = Inr ys
        \<and> list_all2 (\<lambda>_ ys. actions_within (leg_ids ps) ys) (map fst evidence) ys"
      using assms(2) by (intro map_res_choice source_actions_total [OF edge]) auto
    then obtain ys where ys: "map_res (source_actions b (first_pair_by_edge ps) allocated fees) (map fst evidence) = Inr ys"
      "list_all2 (\<lambda>_ ys. actions_within (leg_ids ps) ys) (map fst evidence) ys" by blast
    have within: "actions_within (leg_ids ps) (concat ys)"
      using list_all2_right_member [OF ys(2)] unfolding actions_within_def by fastforce
    show ?thesis unfolding multi_source_actions_def Let_def res(1)
      using within by (auto simp: Some r ys(1) actions_within_def split: if_splits)
  qed
qed

lemma component_actions_total:
  "\<exists>actions. component_actions row_ids c = Some (Inr actions) \<and> actions_within (leg_ids c) actions"
proof -
  let ?ordered = "ordered_pair_component c"
  have legs: "leg_ids ?ordered = leg_ids c" by (simp add: leg_ids_def ordered_pair_component_def)
  let ?outs = "rows_by_id pair_out ?ordered" and ?ins = "rows_by_id pair_in ?ordered"
  let ?evidence = "map (\<lambda>(k, row). (k, outbound_transfer_evidence_msat row)) ?outs"
  have keys: "map fst ?evidence = map fst ?outs" by auto
  have ev: "distinct (map fst ?evidence)" using rows_by_id_keys [of pair_out ?ordered] by (simp only: keys)
  have "set (map fst ?evidence) = (\<lambda>p. row_id (pair_out p)) ` set ?ordered"
    using rows_by_id_keys [of pair_out ?ordered] by (simp only: keys set_map)
  then have "fst ` set ?evidence \<subseteq> leg_ids ?ordered" unfolding set_map leg_ids_def by blast
  note ev = ev this
  have "distinct (map fst (zip (map fst ?ins) amounts))" for amounts :: "int list"
    using rows_by_id_keys [of pair_in ?ordered] by (simp add: map_fst_zip_take distinct_take)
  from multi_source_total [OF ev this] show ?thesis
    using single_source_within [of c] unfolding component_actions_def Let_def legs
    by (auto simp: actions_within_def)
qed

definition actions_ok :: "string set \<Rightarrow> (string, transfer_action list) dict \<Rightarrow> bool" where
  "actions_ok ids d \<longleftrightarrow> (\<forall>t. \<forall>(_, _, regime_row_id) \<in> set (dict_get d t []). t \<in> ids \<and> regime_row_id \<in> ids)"

lemma actions_mono:
  "ids \<subseteq> ids' \<Longrightarrow> actions_ok ids d \<Longrightarrow> actions_ok ids' d" "ids \<subseteq> ids' \<Longrightarrow> actions_within ids actions \<Longrightarrow> actions_within ids' actions"
  unfolding actions_ok_def actions_within_def by fast+

lemma no_actions:
  assumes "actions_ok ids d" "t \<notin> ids"
  shows "dict_get d t [] = []"
proof (cases "dict_get d t []")
  case (Cons a as)
  then show ?thesis using assms unfolding actions_ok_def by (cases a) fastforce
qed simp

lemma actions_ok_append:
  assumes "actions_ok ids d" "actions_within ids actions"
  shows "actions_ok ids (fold (\<lambda>(t, a). dict_append t a) actions d)"
  using assms
proof (induction actions arbitrary: d)
  case (Cons x actions)
  obtain t out_row in_row r where x: "x = (t, out_row, in_row, r)" by (metis surj_pair)
  have "t \<in> ids" "r \<in> ids" and rest: "actions_within ids actions" using Cons.prems(2) by (auto simp: x actions_within_def)
  then have "actions_ok ids (dict_append t (out_row, in_row, r) d)"
    using Cons.prems(1) unfolding actions_ok_def dict_get_append by (auto split: if_splits)
  from Cons.IH [OF this rest] show ?case by (simp add: x)
qed simp

lemma actions_loop_total:
  assumes "actions_ok (set ids) d"
  shows "\<exists>d' ids'. actions_loop row_ids cs d ids = Some (Inr (d', ids')) \<and> actions_ok (set ids') d' \<and> set ids' = set ids \<union> leg_ids (concat cs)"
  using assms
proof (induction cs arbitrary: d ids)
  case Nil
  then show ?case by (simp add: leg_ids_def)
next
  case (Cons c cs)
  obtain actions where a: "component_actions row_ids c = Some (Inr actions)" "actions_within (leg_ids c) actions"
    using component_actions_total by blast
  have "actions_ok (set (ids @ group_row_ids c)) (fold (\<lambda>(t, a). dict_append t a) actions d)"
    using actions_mono(1) [OF _ Cons.prems] actions_mono(2) [OF _ a(2)] by (intro actions_ok_append) (simp_all add: group_row_ids_set)
  from Cons.IH [OF this] show ?case by (auto simp: a(1) group_row_ids_set leg_ids_def)
qed

lemma transfer_actions_total:
  "\<exists>actions ids. transfer_actions_for_intra_pairs pairs row_ids = Some (Inr (actions, ids)) \<and> actions_ok (set ids) actions
     \<and> set ids = leg_ids pairs"
proof -
  have "mset (concat (intra_pair_components pairs)) = mset pairs"
    using components_are_connected [of "\<lambda>p. Some (pair_edge p)" is_component_member pairs] unfolding intra_pair_components_def by auto
  then have "set (concat (intra_pair_components pairs)) = set pairs" by (rule mset_eq_setD)
  then have "leg_ids (concat (intra_pair_components pairs)) = leg_ids pairs" by (simp only: leg_ids_def)
  moreover have "actions_ok (set []) []" by (simp add: actions_ok_def)
  ultimately show ?thesis using actions_loop_total [of "[]" "[]" row_ids "intra_pair_components pairs"]
    unfolding transfer_actions_for_intra_pairs_def by auto
qed

section \<open>Disposals follow the inventory\<close>

definition row_direction :: "at_row \<Rightarrow> string" where
  "row_direction row = py_lower (py_strip (str_or_empty (al_direction row)))"

definition chosen_regime :: "inventory \<Rightarrow> at_row \<Rightarrow> regime" where
  "chosen_regime stock row =
     (let key = availability_key (al_wallet row)
      in if al_when row < AT_NEU_CUTOFF \<or> (0 < holding Alt stock key \<and> holding Neu stock key \<le> 0) then Alt else Neu)"

definition is_election :: "inventory \<Rightarrow> at_row \<Rightarrow> bool" where
  "is_election stock row \<longleftrightarrow>
     (let key = availability_key (al_wallet row) in AT_NEU_CUTOFF \<le> al_when row \<and> 0 < holding Alt stock key \<and> 0 < holding Neu stock key)"

text \<open>The part of a row that enters the inventory of a regime.\<close>

definition acquired :: "string set \<Rightarrow> regime \<Rightarrow> at_row \<Rightarrow> int" where
  "acquired legs r row =
     (if al_id row \<notin> legs \<and> row_direction row = ''inbound'' \<and> (al_when row < AT_NEU_CUTOFF) = (r = Alt)
      then int_or_0 (al_amount row) else 0)"

definition stock_bound :: "(regime \<Rightarrow> int) \<Rightarrow> regime_state \<Rightarrow> bool" where
  "stock_bound b s \<longleftrightarrow> stock_ok (rs_inventory s) \<and> (\<forall>r. total_held r (rs_inventory s) \<le> b r)"

lemma apply_transfer_bound:
  assumes "stock_bound b s"
  shows "stock_bound b (apply_transfer action s)"
proof -
  obtain out_row in_row rid where a: "action = (out_row, in_row, rid)" by (cases action)
  obtain stock' fee_regime flows where m: "move_transfer_availability (rs_inventory s) out_row in_row = (stock', fee_regime, flows)"
    by (metis surj_pair)
  have "stock_ok stock'" "total_held r stock' = total_held r (rs_inventory s) - mf_out flows r + mf_in flows r" "mf_in flows r \<le> mf_out flows r" for r
    using move_conserves [OF _ m] assms unfolding stock_bound_def conserving_move_def Let_def by auto
  then have "stock_ok stock'" "total_held r stock' \<le> b r" for r using assms unfolding stock_bound_def by (simp, smt (verit))
  then show ?thesis by (simp add: stock_bound_def apply_transfer_def a m)
qed

lemma transfers_bound: "stock_bound b s \<Longrightarrow> stock_bound b (fold apply_transfer actions s)"
  by (induction actions arbitrary: s) (simp_all add: apply_transfer_bound)

lemma book_inbound_bound:
  assumes "stock_bound b s" "0 \<le> int_or_0 (al_amount row)" "al_id row \<notin> legs" "row_direction row = ''inbound''"
  shows "stock_bound (\<lambda>r. b r + acquired legs r row) (book_inbound row s)"
proof -
  let ?r = "infer_regime_from_timestamp (al_when row)"
  have "stock_ok (rs_inventory s)" using assms(1) by (simp add: stock_bound_def)
  note a = add_spec [OF this assms(2), where r = ?r and key = "availability_key (al_wallet row)"]
  have "acquired legs r row = (if r = ?r then int_or_0 (al_amount row) else 0)" for r
    using assms(3,4) by (cases r) (auto simp: acquired_def infer_regime_from_timestamp_def)
  then show ?thesis using assms(1) a by (simp add: stock_bound_def book_inbound_def Let_def)
qed

lemma book_outbound_bound:
  assumes "stock_bound b s"
  shows "stock_bound b (book_outbound row s)"
proof -
  have ok: "stock_ok (rs_inventory s)" "total_held r (rs_inventory s) \<le> b r" for r using assms by (simp_all add: stock_bound_def)
  have *: "stock_ok (set_bucket r (fst (deplete_available (regime_bucket r (rs_inventory s)) key needed)) (rs_inventory s))
      \<and> total_held r' (set_bucket r (fst (deplete_available (regime_bucket r (rs_inventory s)) key needed)) (rs_inventory s)) \<le> b r'"
    if "0 < needed" for r r' key needed
  proof -
    obtain d t where d: "deplete_available (regime_bucket r (rs_inventory s)) key needed = (d, t)" by fastforce
    note sp = deplete_spec [OF ok(1) d that]
    have "total_held r' (set_bucket r d (rs_inventory s)) \<le> total_held r' (rs_inventory s)" using sp(2) by (simp add: sp(5))
    then show ?thesis using sp(3) ok(2) [of r'] by (simp add: d)
  qed
  show ?thesis using ok * by (simp add: stock_bound_def book_outbound_def Let_def)
qed

lemma regime_step_bound:
  assumes "stock_bound b s" "actions_ok (set ids) actions" "al_id row \<notin> set ids \<Longrightarrow> row_direction row = ''inbound'' \<Longrightarrow> 0 \<le> int_or_0 (al_amount row)"
  shows "stock_bound (\<lambda>r. b r + acquired (set ids) r row) (regime_step actions ids row s)"
proof (cases "al_id row \<in> set ids")
  case True
  then show ?thesis using assms(1) by (simp add: regime_step_def Let_def transfers_bound acquired_def)
next
  case False
  note none = no_actions [OF assms(2) False]
  show ?thesis using False assms book_inbound_bound [OF assms(1) _ False]
    by (auto simp: regime_step_def none Let_def row_direction_def [symmetric] book_outbound_bound acquired_def)
qed

lemma regime_fold_bound:
  assumes "actions_ok (set ids) actions" "stock_bound b s"
    and "\<And>row. row \<in> set rows \<Longrightarrow> al_id row \<notin> set ids \<Longrightarrow> row_direction row = ''inbound'' \<Longrightarrow> 0 \<le> int_or_0 (al_amount row)"
  shows "stock_bound (\<lambda>r. b r + (\<Sum>row \<leftarrow> rows. acquired (set ids) r row)) (fold (regime_step actions ids) rows s)"
  using assms(2,3)
proof (induction rows arbitrary: b s)
  case (Cons row rows)
  have "stock_bound (\<lambda>r. b r + acquired (set ids) r row) (regime_step actions ids row s)"
    using Cons.prems by (intro regime_step_bound [OF _ assms(1)]) auto
  from Cons.IH [OF this] show ?case using Cons.prems(2) by (simp add: add.assoc)
qed simp

text \<open>C12: The inference always returns, and the inventory it keeps is an inventory: no wallet holds a
  negative amount of a regime, and all wallets together never hold more of a regime than was acquired in
  it by rows that are not legs of a reviewed transfer. Transfers, however they are grouped and split,
  turn no coin of one regime into one of the other.\<close>

theorem regime_inventory:
  assumes "\<forall>row \<in> set rows. al_id row \<notin> leg_ids pairs \<and> row_direction row = ''inbound'' \<longrightarrow> 0 \<le> int_or_0 (al_amount row)"
  shows "\<exists>s. infer_outbound_regimes rows pairs = Some (Inr s) \<and> stock_ok (rs_inventory s)
    \<and> (\<forall>r. total_held r (rs_inventory s) \<le> (\<Sum>row \<leftarrow> rows. acquired (leg_ids pairs) r row))"
proof -
  obtain actions ids where a: "transfer_actions_for_intra_pairs pairs (map al_id rows) = Some (Inr (actions, ids))"
    "actions_ok (set ids) actions" "set ids = leg_ids pairs" using transfer_actions_total by blast
  have "stock_bound (\<lambda>_. 0) regime_start"
    by (simp add: stock_bound_def regime_start_def stock_ok_def holding_def total_held_def regime_bucket_def split: regime.split)
  from regime_fold_bound [OF a(2) this, of rows] assms
  have "stock_bound (\<lambda>r. 0 + (\<Sum>row \<leftarrow> rows. acquired (set ids) r row)) (fold (regime_step actions ids) rows regime_start)"
    by (simp add: a(3))
  then show ?thesis by (simp add: infer_outbound_regimes_def a stock_bound_def)
qed

lemma transfers_regimes:
  assumes "\<forall>(_, _, rid) \<in> set actions. rid \<noteq> k"
  shows "map_of (rs_regimes (fold apply_transfer actions s)) k = map_of (rs_regimes s) k
    \<and> rs_elections (fold apply_transfer actions s) = rs_elections s"
  using assms
proof (induction actions arbitrary: s)
  case (Cons a actions)
  obtain out_row in_row rid where a: "a = (out_row, in_row, rid)" by (cases a)
  have "map_of (rs_regimes (apply_transfer a s)) k = map_of (rs_regimes s) k \<and> rs_elections (apply_transfer a s) = rs_elections s"
    using Cons.prems by (auto simp: apply_transfer_def a keep_first_def map_add_def split: prod.split option.split)
  then show ?case using Cons by simp
qed simp

lemma regime_step_other:
  assumes "actions_ok (set ids) actions" "k \<notin> set ids" "k \<noteq> al_id row"
  shows "map_of (rs_regimes (regime_step actions ids row s)) k = map_of (rs_regimes s) k
    \<and> (k \<in> set (rs_elections (regime_step actions ids row s)) \<longleftrightarrow> k \<in> set (rs_elections s))"
proof -
  have "\<forall>(_, _, rid) \<in> set (dict_get actions (al_id row) []). rid \<noteq> k" using assms(1,2) unfolding actions_ok_def by fastforce
  from transfers_regimes [OF this, of s] show ?thesis using assms(3)
    by (auto simp: regime_step_def Let_def book_inbound_def book_outbound_def update_conv')
qed

lemma regime_fold_other:
  assumes "actions_ok (set ids) actions" "k \<notin> set ids" "k \<notin> al_id ` set rows"
  shows "map_of (rs_regimes (fold (regime_step actions ids) rows s)) k = map_of (rs_regimes s) k
    \<and> (k \<in> set (rs_elections (fold (regime_step actions ids) rows s)) \<longleftrightarrow> k \<in> set (rs_elections s))"
  using assms(3)
proof (induction rows arbitrary: s)
  case (Cons row rows)
  then show ?case using regime_step_other [OF assms(1,2), of row s] by simp
qed simp

lemma book_outbound_row:
  "rs_regimes (book_outbound row s) = AList.update (al_id row) (chosen_regime (rs_inventory s) row) (rs_regimes s)"
  "rs_elections (book_outbound row s) = rs_elections s @ (if is_election (rs_inventory s) row then [al_id row] else [])"
  by (auto simp: book_outbound_def chosen_regime_def is_election_def infer_regime_from_timestamp_def bucket_fields holding_def Let_def)

text \<open>C13: Every disposal that is not a leg of a reviewed transfer is tagged by what its wallet holds when
  its turn comes: as an old holding if it happened before the cutoff or only old coins are left, as a new
  one otherwise. It is recorded as an exercised election exactly when both were there to choose from.\<close>

theorem disposal_regimes:
  assumes "rows = before @ row # after" "distinct (map al_id rows)" "row_direction row = ''outbound''" "al_id row \<notin> leg_ids pairs"
  shows "\<exists>actions ids. transfer_actions_for_intra_pairs pairs (map al_id rows) = Some (Inr (actions, ids))
    \<and> (let stock = rs_inventory (fold (regime_step actions ids) before regime_start);
           s = fold (regime_step actions ids) rows regime_start
       in infer_outbound_regimes rows pairs = Some (Inr s)
          \<and> map_of (rs_regimes s) (al_id row) = Some (chosen_regime stock row)
          \<and> (al_id row \<in> set (rs_elections s) \<longleftrightarrow> is_election stock row))"
proof -
  obtain actions ids where a: "transfer_actions_for_intra_pairs pairs (map al_id rows) = Some (Inr (actions, ids))"
    "actions_ok (set ids) actions" "set ids = leg_ids pairs" using transfer_actions_total by blast
  let ?s0 = "fold (regime_step actions ids) before regime_start"
  have ids: "al_id row \<notin> set ids" using assms(4) a(3) by simp
  have apart: "al_id row \<notin> al_id ` set before" "al_id row \<notin> al_id ` set after" using assms(1,2) by auto
  have "regime_step actions ids row ?s0 = book_outbound row ?s0"
    using assms(3) ids no_actions [OF a(2) ids] by (simp add: regime_step_def row_direction_def Let_def)
  then have split: "fold (regime_step actions ids) rows regime_start = fold (regime_step actions ids) after (book_outbound row ?s0)"
    by (simp add: assms(1))
  have start: "al_id row \<notin> set (rs_elections ?s0)"
    using regime_fold_other [OF a(2) ids apart(1), of regime_start] by (simp add: regime_start_def)
  note rest = regime_fold_other [OF a(2) ids apart(2), of "book_outbound row ?s0"]
  have "map_of (rs_regimes (fold (regime_step actions ids) rows regime_start)) (al_id row) = Some (chosen_regime (rs_inventory ?s0) row)"
    using rest by (simp add: split book_outbound_row update_conv')
  moreover have "al_id row \<in> set (rs_elections (fold (regime_step actions ids) rows regime_start)) \<longleftrightarrow> is_election (rs_inventory ?s0) row"
    using rest start by (simp add: split book_outbound_row)
  moreover have "infer_outbound_regimes rows pairs = Some (Inr (fold (regime_step actions ids) rows regime_start))"
    by (simp add: infer_outbound_regimes_def a(1))
  ultimately show ?thesis using a(1) by (auto simp: Let_def)
qed

lemma fee_regime_pays:
  assumes "move_transfer_availability stock out_row in_row = (stock', fee_regime, flows)"
    and "mf_in flows Alt + mf_in flows Neu < mf_out flows Alt + mf_out flows Neu"
  shows "mf_in flows fee_regime < mf_out flows fee_regime"
proof (cases "int_or_0 (al_amount out_row) + int_or_0 (al_fee out_row) \<le> 0 \<or> int_or_0 (al_amount in_row) \<le> 0")
  case True
  then show ?thesis using assms by (auto simp: move_transfer_availability_def Let_def)
next
  case False
  obtain order :: "regime list" and fees carried where o: "order = [Neu, Alt] \<or> order = [Alt, Neu]"
    "flows = \<lparr>mf_out = (\<lambda>r. fees r + carried r), mf_in = carried\<rparr>"
    "\<exists>r. find (\<lambda>r. fees r > 0) order = Some r \<Longrightarrow> find (\<lambda>r. fees r > 0) order = Some fee_regime"
    using move_steps [OF assms(1) False] by metis
  have "0 < fees Alt \<or> 0 < fees Neu" using assms(2) by (auto simp: o(2))
  then have "\<exists>r. find (\<lambda>r. fees r > 0) order = Some r" using o(1) by (cases "find (\<lambda>r. fees r > 0) order") (auto simp: find_None_iff)
  from o(3) [OF this] show ?thesis by (auto simp: o(2) find_Some_iff)
qed

text \<open>C14: A transfer between own wallets conserves every regime: what leaves the source in a regime
  arrives at the destination in it, except for the fee; the source gives what was sent, or all it has;
  and when a fee is lost, the regime it is reported under did lose some of it.\<close>

theorem transfer_move_conserves:
  assumes "stock_ok stock" "move_transfer_availability stock out_row in_row = (stock', fee_regime, flows)"
  shows "stock_ok stock' \<and> conserving_move out_row in_row stock stock' flows
    \<and> (mf_in flows Alt + mf_in flows Neu < mf_out flows Alt + mf_out flows Neu \<longrightarrow> mf_in flows fee_regime < mf_out flows fee_regime)"
  using move_conserves [OF assms] fee_regime_pays [OF assms(2)] by blast

text \<open>A wallet with ten old and five new coins sends nine, of which one is the fee; then both wallets sell.\<close>

definition example_stock :: inventory where
  "example_stock = \<lparr>alt_available = [(''A'', 10)], neu_available = [(''A'', 5)]\<rparr>"

definition example_leg :: "string \<Rightarrow> string \<Rightarrow> int \<Rightarrow> int \<Rightarrow> at_leg" where
  "example_leg i w a f = \<lparr>al_id = i, al_wallet = Some w, al_amount = Some a, al_fee = Some f, al_when = AT_NEU_CUTOFF + 1\<rparr>"

theorem transfer_move_conserves_witness:
  "let out_row = example_leg ''t1'' ''A'' 8 1; in_row = example_leg ''t2'' ''B'' 8 0;
       (stock', fee_regime, flows) = move_transfer_availability example_stock out_row in_row
   in stock_ok stock' \<and> conserving_move out_row in_row example_stock stock' flows \<and> fee_regime = Neu
      \<and> mf_out flows Neu = 5 \<and> mf_in flows Neu = 4 \<and> mf_out flows Alt = 4 \<and> mf_in flows Alt = 4"
proof -
  let ?out = "example_leg ''t1'' ''A'' 8 1" and ?in = "example_leg ''t2'' ''B'' 8 0"
  obtain stock' fee_regime flows where m: "move_transfer_availability example_stock ?out ?in = (stock', fee_regime, flows)"
    by (metis surj_pair)
  have "stock_ok example_stock"
    by (simp add: stock_ok_def holding_def example_stock_def regime_bucket_def dict_get_def split: regime.split)
  note ok = transfer_move_conserves [OF this m]
  have "(case move_transfer_availability example_stock ?out ?in of (_, r, flows) \<Rightarrow>
      (r, mf_out flows Neu, mf_in flows Neu, mf_out flows Alt, mf_in flows Alt)) = (Neu, 5, 4, 4, 4)" by code_simp
  then show ?thesis using ok by (simp add: m Let_def)
qed

definition example_entry :: "string \<Rightarrow> string \<Rightarrow> string \<Rightarrow> int \<Rightarrow> int \<Rightarrow> at_row" where
  "example_entry i w d a t = \<lparr>al_id = i, al_wallet = Some w, al_amount = Some a, al_fee = Some 0, al_when = t, al_direction = Some d\<rparr>"

definition example_before :: "at_row list" where
  "example_before = [example_entry ''old'' ''A'' ''inbound'' 10 0, example_entry ''new'' ''A'' ''inbound'' 5 (AT_NEU_CUTOFF + 1),
     example_entry ''t1'' ''A'' ''outbound'' 8 (AT_NEU_CUTOFF + 2), example_entry ''t2'' ''B'' ''inbound'' 8 (AT_NEU_CUTOFF + 3),
     example_entry ''sale_b'' ''B'' ''outbound'' 2 (AT_NEU_CUTOFF + 4)]"

definition example_sale :: at_row where
  "example_sale = example_entry ''sale_a'' ''A'' ''outbound'' 2 (AT_NEU_CUTOFF + 5)"

definition example_pairs :: "at_pair list" where
  "example_pairs = [\<lparr>pair_id = Some ''p'', pair_own_id = None, pair_group = None,
     pair_out = \<lparr>row_id = ''t1'', row_occurred_at = None, row_amount = Some 8, row_fee = Some 1, row_amount_includes_fee = False\<rparr>,
     pair_in = \<lparr>row_id = ''t2'', row_occurred_at = None, row_amount = Some 8, row_fee = None, row_amount_includes_fee = False\<rparr>,
     ap_out_wallet = Some ''A'', ap_out_when = AT_NEU_CUTOFF + 2, ap_in_wallet = Some ''B'', ap_in_when = AT_NEU_CUTOFF + 3\<rparr>]"

lemma example_legs: "leg_ids example_pairs = {''t1'', ''t2''}"
  by (simp add: leg_ids_def example_pairs_def insert_commute)

theorem regime_inventory_witness:
  "\<exists>s. infer_outbound_regimes (example_before @ [example_sale]) example_pairs = Some (Inr s) \<and> stock_ok (rs_inventory s)
     \<and> total_held Alt (rs_inventory s) \<le> 10 \<and> total_held Neu (rs_inventory s) \<le> 5"
proof -
  let ?rows = "example_before @ [example_sale]"
  have nn: "\<forall>row \<in> set ?rows. 0 \<le> int_or_0 (al_amount row)"
    by (simp add: example_before_def example_sale_def example_entry_def)
  have "(\<Sum>row \<leftarrow> ?rows. acquired {''t1'', ''t2''} Alt row) = 10" "(\<Sum>row \<leftarrow> ?rows. acquired {''t1'', ''t2''} Neu row) = 5"
    by code_simp+
  then show ?thesis using regime_inventory [of ?rows example_pairs] nn unfolding example_legs by (metis (no_types, lifting))
qed

theorem disposal_regimes_witness:
  "\<exists>s. infer_outbound_regimes (example_before @ example_sale # []) example_pairs = Some (Inr s)
     \<and> map_of (rs_regimes s) ''sale_a'' = Some Alt \<and> ''sale_a'' \<notin> set (rs_elections s)"
proof -
  let ?rows = "example_before @ example_sale # []"
  let ?prefix = "\<lambda>(actions, ids). let stock = rs_inventory (fold (regime_step actions ids) example_before regime_start)
     in (chosen_regime stock example_sale, is_election stock example_sale)"
  have run: "map_option (map_sum id ?prefix) (transfer_actions_for_intra_pairs example_pairs (map al_id ?rows)) = Some (Inr (Alt, False))"
    by code_simp
  have facts: "distinct (map al_id ?rows)" "row_direction example_sale = ''outbound''" "al_id example_sale = ''sale_a''"
    by code_simp+
  then have "al_id example_sale \<notin> leg_ids example_pairs" by (simp add: example_legs)
  from disposal_regimes [OF refl facts(1,2) this] run facts(3) show ?thesis by (auto simp: Let_def)
qed

end
