(* ===== verification/Indicative_Tax.thy ===== *)
theory Indicative_Tax
  imports Prelude
begin

text \<open>
  The indicative Austrian tax of a year (\<open>core/tax_estimate.py\<close>) and the form fields it reads
  (\<open>core/austrian.py\<close>). Decimals have 28 digits: a product is rounded to them, half to even, and
  \<open>quantize\<close> raises \<open>InvalidOperation\<close> (here \<^const>\<open>None\<close>) when its result would need more. A
  timestamp is an instant in microseconds of the Unix epoch; the notes are named, not spelled out.
  Shown: the figure is the rate on the net base to the nearest cent, and when it is withheld.
\<close>

section \<open>Form fields\<close>

definition AT_CATEGORY_TO_KENNZAHL :: "(string, int option) dict" where
  "AT_CATEGORY_TO_KENNZAHL = [(''income_general'', Some 172), (''income_capital_yield'', Some 172), (''neu_gain'', Some 174),
     (''neu_loss'', Some 176), (''neu_swap'', None), (''alt_spekulation'', Some 801), (''alt_taxfree'', None)]"

definition CRYPTO_KENNZAHLEN_FROM :: int where
  "CRYPTO_KENNZAHLEN_FROM = 1646089200 * 10 ^ 6"

definition E1KV_FIRST_TAX_YEAR :: int where
  "E1KV_FIRST_TAX_YEAR = 2022"

definition E1KV_KENNZAHLEN :: "int list" where
  "E1KV_KENNZAHLEN = [172, 174, 176]"

definition e1kv_applies :: "int \<Rightarrow> bool" where
  "e1kv_applies tax_year \<longleftrightarrow> E1KV_FIRST_TAX_YEAR \<le> tax_year"

definition kennzahl_for_disposal_category :: "string option \<Rightarrow> int option" where
  "kennzahl_for_disposal_category category =
     (case category of None \<Rightarrow> None | Some c \<Rightarrow> dict_get AT_CATEGORY_TO_KENNZAHL c None)"

definition stated_kennzahl :: "int option \<Rightarrow> int \<Rightarrow> int option" where
  "stated_kennzahl stored occurred_at =
     (case stored of None \<Rightarrow> None
      | Some kennzahl \<Rightarrow> if kennzahl \<in> set E1KV_KENNZAHLEN \<and> occurred_at < CRYPTO_KENNZAHLEN_FROM then None else Some kennzahl)"

definition kennzahl_for_event :: "string option \<Rightarrow> int \<Rightarrow> int option" where
  "kennzahl_for_event category occurred_at =
     (let kennzahl = kennzahl_for_disposal_category category
      in case kennzahl of None \<Rightarrow> None
         | Some k \<Rightarrow> if k \<in> set E1KV_KENNZAHLEN \<and> occurred_at < CRYPTO_KENNZAHLEN_FROM then None else kennzahl)"

section \<open>The rate on a base\<close>

text \<open>Non-negative decimals as a coefficient and an exponent.\<close>

definition decimal_half_even :: "int \<Rightarrow> int \<Rightarrow> int" where
  "decimal_half_even c unit =
     (let q = c div unit; r = c mod unit in if unit < 2 * r \<or> (2 * r = unit \<and> odd q) then q + 1 else q)"

definition to_precision :: "int \<times> int \<Rightarrow> int \<times> int" where
  "to_precision d =
     (case d of (c, e) \<Rightarrow>
        if c < 10 ^ 28 then (c, e)
        else let k = length (int_str c) - 28; c' = decimal_half_even c (10 ^ k)
             in if c' < 10 ^ 28 then (c', e + int k) else (10 ^ 27, e + int k + 1))"

definition quantize_half_up :: "int \<times> int \<Rightarrow> int option" where
  "quantize_half_up d =
     (case d of (c, e) \<Rightarrow>
        let q = (if e \<ge> 0 then c * 10 ^ nat e else (2 * c + 10 ^ nat (- e)) div (2 * 10 ^ nat (- e)))
        in if q < 10 ^ 28 then Some q else None)"

text \<open>\<open>(Decimal(n) * Decimal("0.275")).quantize(Decimal("1"), ROUND_HALF_UP)\<close>\<close>

definition special_rate_tax :: "int \<Rightarrow> int option" where
  "special_rate_tax n = quantize_half_up (to_precision (n * 275, - 3))"

section \<open>The figure\<close>

record kennzahl_row =
  kr_kennzahl :: "int option"
  kr_amount_eur_cents :: "int option"

datatype tax_note = Caveats | Not_Applicable_Note | Old_Rules_Note | Progressive_Note

record indicative_tax =
  it_tax_year :: int
  it_status :: string
  it_withheld_by :: "string list"
  it_rate :: "string option"
  it_gains :: "int option"
  it_losses :: "int option"
  it_base :: "int option"
  it_estimate :: "int option"
  it_progressive :: "(string, int) dict"
  it_notes :: "tax_note list"

definition OLD_RULES_BLOCKER :: string where
  "OLD_RULES_BLOCKER = ''crypto_rows_before_2022_03''"

text \<open>A row whose field is missing or no number is skipped.\<close>

definition amounts_by_code :: "kennzahl_row list \<Rightarrow> (int, int) dict" where
  "amounts_by_code rows =
     fold (\<lambda>row d. case kr_kennzahl row of None \<Rightarrow> d
                   | Some code \<Rightarrow> AList.update code (dict_get d code 0 + int_or_0 (kr_amount_eur_cents row)) d) rows []"

definition cents :: "(int, int) dict \<Rightarrow> int list \<Rightarrow> int" where
  "cents rows codes = (\<Sum>code \<leftarrow> codes. dict_get rows code 0)"

definition austrian_indicative_tax :: "int \<Rightarrow> kennzahl_row list \<Rightarrow> string list \<Rightarrow> int \<Rightarrow> indicative_tax option" where
  "austrian_indicative_tax tax_year kennzahl_rows blocker_ids rows_before =
     (let by_code = amounts_by_code kennzahl_rows;
          gains = cents by_code [172, 174];
          losses = cents by_code [176];
          base = gains - losses;
          applies = e1kv_applies tax_year;
          all_ids = blocker_ids @ (if applies \<and> rows_before \<noteq> 0 then [OLD_RULES_BLOCKER] else []);
          blockers = sort (remdups (filter (\<lambda>item. item \<noteq> '''') all_ids));
          progressive = map (\<lambda>code. (int_str code, dict_get by_code code 0)) (filter (\<lambda>code. dict_get by_code code 0 \<noteq> 0) [801]);
          result = \<lparr>it_tax_year = tax_year,
            it_status = (if \<not> applies then ''not_applicable'' else if blockers \<noteq> [] then ''withheld'' else ''indicative''),
            it_withheld_by = blockers, it_rate = (if applies then Some ''0.275'' else None),
            it_gains = (if applies then Some gains else None), it_losses = (if applies then Some losses else None),
            it_base = (if applies then Some base else None), it_estimate = None, it_progressive = progressive,
            it_notes = (if applies then [Caveats] else [Not_Applicable_Note])
              @ (if OLD_RULES_BLOCKER \<in> set blockers then [Old_Rules_Note] else []) @ (if progressive \<noteq> [] then [Progressive_Note] else [])\<rparr>
      in if applies \<and> blockers = []
         then map_option (\<lambda>tax. result\<lparr>it_estimate := Some tax\<rparr>) (special_rate_tax (max base 0))
         else Some result)"

section \<open>What the figure is\<close>

definition kennzahl_total :: "kennzahl_row list \<Rightarrow> int \<Rightarrow> int" where
  "kennzahl_total rows code = (\<Sum>row \<leftarrow> rows. if kr_kennzahl row = Some code then int_or_0 (kr_amount_eur_cents row) else 0)"

lemma amounts_by_code_total: "dict_get (amounts_by_code rows) code 0 = kennzahl_total rows code"
  unfolding amounts_by_code_def
  by (induction rows rule: rev_induct) (auto simp: kennzahl_total_def dict_get_update split: option.splits)

lemma special_rate_exact:
  assumes "0 \<le> n" "n * 275 < 10 ^ 28"
  shows "\<exists>tax. special_rate_tax n = Some tax \<and> 0 \<le> tax \<and> 1000 * tax - 500 \<le> 275 * n \<and> 275 * n < 1000 * tax + 500"
proof -
  let ?tax = "(2 * (n * 275) + 1000) div 2000"
  have "?tax < 10 ^ 28" using assms by simp
  then have "special_rate_tax n = Some ?tax" using assms by (simp add: special_rate_tax_def to_precision_def quantize_half_up_def Let_def)
  moreover have "1000 * ?tax - 500 \<le> 275 * n" "275 * n < 1000 * ?tax + 500" by linarith+
  moreover have "0 \<le> ?tax" using assms(1) by simp
  ultimately show ?thesis by blast
qed

text \<open>C17: A figure is given exactly when the year has the crypto fields, nothing blocks the report and no
  row is older than the fields; it is 27.5 percent of the gains of fields 172 and 174 less the losses of
  field 176, to the nearest cent with halves up, and zero for a net loss. Field 801 never enters it.
  Otherwise the status says why, and a year without the fields quotes no rate and no base.\<close>

theorem indicative_tax_exact:
  assumes "net = kennzahl_total rows 172 + kennzahl_total rows 174 - kennzahl_total rows 176" "net * 275 < 10 ^ 28"
    and "given \<longleftrightarrow> 2022 \<le> tax_year \<and> set blocker_ids \<subseteq> {''''} \<and> rows_before = 0"
  shows "\<exists>t. austrian_indicative_tax tax_year rows blocker_ids rows_before = Some t
    \<and> (case it_estimate t of None \<Rightarrow> \<not> given
       | Some tax \<Rightarrow> given \<and> 0 \<le> tax \<and> 1000 * tax - 500 \<le> 275 * max net 0 \<and> 275 * max net 0 < 1000 * tax + 500)
    \<and> it_status t = (if tax_year < 2022 then ''not_applicable'' else if given then ''indicative'' else ''withheld'')
    \<and> it_base t = (if tax_year < 2022 then None else Some net) \<and> (it_rate t = None \<longleftrightarrow> tax_year < 2022)
    \<and> dict_get (it_progressive t) ''801'' 0 = kennzahl_total rows 801"
proof -
  have "0 \<le> max net 0" "max net 0 * 275 < 10 ^ 28" using assms(2) by (auto simp: max_def)
  from special_rate_exact [OF this] obtain tax where tax: "special_rate_tax (max net 0) = Some tax"
    "0 \<le> tax" "1000 * tax - 500 \<le> 275 * max net 0" "275 * max net 0 < 1000 * tax + 500" by blast
  let ?ids = "blocker_ids @ (if 2022 \<le> tax_year \<and> rows_before \<noteq> 0 then [OLD_RULES_BLOCKER] else [])"
  define blockers where "blockers = sort (remdups (filter (\<lambda>item. item \<noteq> '''') ?ids))"
  have applies: "e1kv_applies tax_year \<longleftrightarrow> 2022 \<le> tax_year" by (simp add: e1kv_applies_def E1KV_FIRST_TAX_YEAR_def)
  have "blockers = [] \<longleftrightarrow> set blockers = {}" by (rule set_empty [symmetric])
  also have "\<dots> \<longleftrightarrow> set ?ids \<subseteq> {''''}" by (auto simp: blockers_def)
  also have "\<dots> \<longleftrightarrow> set blocker_ids \<subseteq> {''''} \<and> \<not> (2022 \<le> tax_year \<and> rows_before \<noteq> 0)"
    by (auto simp: OLD_RULES_BLOCKER_def split: if_splits)
  finally have given: "given \<longleftrightarrow> 2022 \<le> tax_year \<and> blockers = []" using assms(3) by blast
  have net: "cents (amounts_by_code rows) [172, 174] - cents (amounts_by_code rows) [176] = net"
    by (simp add: cents_def amounts_by_code_total assms(1))
  have "int_str 801 = ''801''" by code_simp
  then have prog: "dict_get (map (\<lambda>code. (int_str code, kennzahl_total rows code)) (filter (\<lambda>code. kennzahl_total rows code \<noteq> 0) [801])) ''801'' 0
      = kennzahl_total rows 801" by (simp add: dict_get_def)
  show ?thesis
    unfolding austrian_indicative_tax_def Let_def net applies amounts_by_code_total
    unfolding blockers_def [symmetric]
    using tax given prog by (cases given) auto
qed

theorem indicative_tax_exact_witness:
  "map_option it_estimate (austrian_indicative_tax 2024 [\<lparr>kr_kennzahl = Some 174, kr_amount_eur_cents = Some 1002\<rparr>,
       \<lparr>kr_kennzahl = Some 176, kr_amount_eur_cents = Some 1000\<rparr>, \<lparr>kr_kennzahl = Some 801, kr_amount_eur_cents = Some 7\<rparr>] [''''] 0)
   = Some (Some 1)"
proof -
  let ?rows = "[\<lparr>kr_kennzahl = Some 174, kr_amount_eur_cents = Some 1002\<rparr>,
       \<lparr>kr_kennzahl = Some 176, kr_amount_eur_cents = Some 1000\<rparr>, \<lparr>kr_kennzahl = Some 801, kr_amount_eur_cents = Some 7\<rparr>]"
  have "kennzahl_total ?rows 172 + kennzahl_total ?rows 174 - kennzahl_total ?rows 176 = 2" by (simp add: kennzahl_total_def)
  then obtain t where t: "austrian_indicative_tax 2024 ?rows [''''] 0 = Some t"
    "case it_estimate t of None \<Rightarrow> False | Some tax \<Rightarrow> 1000 * tax - 500 \<le> 550 \<and> 550 < 1000 * tax + 500"
    using indicative_tax_exact [of 2 ?rows True 2024 "['''']" 0] by (auto split: option.splits)
  then obtain tax where "it_estimate t = Some tax" "1000 * tax - 500 \<le> 550" "550 < 1000 * tax + 500" by (auto split: option.splits)
  moreover from this have "tax = 1" by linarith
  ultimately show ?thesis using t(1) by simp
qed

end
