(* ===== verification/Spec2Isabelle.thy ===== *)
theory Spec2Isabelle
  imports Projection Transfer_Flow Pairing Gap_Holds Component_Claims Htlc_Script Unlock_Policy Chronology Auth_Backoff Native_Soundness Address_Scripts Safe_Tar Log_Ring Egress_Ledger Access_Switches Swap_Rules Swap_Suggest Loan_Marks Coverage Bolt11 Austrian_Regimes Indicative_Tax
begin

text \<open>
  \<^bold>\<open>Kassiber: the custody core.\<close> Kassiber (\<open>kassiber/\<close>) keeps books for bitcoin wallets: importers
  and sync backends write transactions to a database, the custody core turns them into
  canonical observations and decides, msat by msat, where an outbound quantity went, and reports
  and tax engines read the result. This development models the custody core, the allocators it
  uses, the recognition of swap scripts and addresses that feeds it, the matcher that suggests swap
  pairs for review and its rules, the Austrian regimes of holdings with the indicative tax, loan marks, coverage of the source of
  funds and Lightning invoices, the policy and the throttle that guard the database, the switches for agents and for going online, the import of backup
  archives, and the two in-memory ledgers by which the desktop application can be audited.

  \<^bold>\<open>Data flow.\<close> A row becomes a \<open>QuantityObservation\<close> (\<open>core/custody_evidence.py\<close>). Claims about
  observations come from reviewed components (\<open>core/custody_component_claims.py\<close>), which call the
  FIFO allocator (\<open>core/custody_allocations.py\<close>), and from native and heuristic generators. The
  arbitrator (\<open>core/custody_quantity.py\<close>) validates bundles, decides every source segment, fails
  closed on doubly consumed targets and incomplete bundles, and emits balanced postings. Gap
  candidates hold whole observations until review (\<open>core/custody_gap_holds.py\<close>). Transfer pairs
  are split by \<open>core/pair_allocation.py\<close> and ordered by \<open>core/transfer_chronology.py\<close>. Reviewed
  bridges are checked against native routes by \<open>core/custody_native_reconciliation.py\<close>, which calls
  the component compiler, the chronology and the FIFO allocator. Independently of the custody
  decisions, \<open>core/transfer_matching.py\<close> suggests pairs of rows as swaps, marks which suggestions
  compete for a leg, and \<open>core/swap_rules.py\<close> picks those that a stored rule may pair unattended.
  \<open>core/austrian.py\<close> reads booked rows and reviewed transfers and tags each disposal with a regime.

  \<^bold>\<open>Theories.\<close>
  \<^item> \<open>Prelude\<close>: exceptions as \<open>py_error\<close>, fallible code as the sum \<open>result\<close>, dictionaries as
    association lists in insertion order, the string methods the code uses, and the lemmas on
    them every component shares.
  \<^item> \<open>Allocations\<close> (\<open>core/custody_allocations.py\<close>): \<open>_allocation_buckets\<close>, \<open>allocate_msat_fifo\<close>,
    \<open>infer_component_allocations\<close>. The FIFO loop terminates, fills sources and sinks in order, and
    returns a complete result or a typed error whose code names the failed check.
  \<^item> \<open>Evidence\<close> (\<open>core/custody_evidence.py\<close>): boundary amounts, event keys, the observation and its
    validation.
  \<^item> \<open>Quantity\<close>, \<open>Arbitration\<close>, \<open>Fail_Closed\<close>, \<open>Projection\<close> (\<open>core/custody_quantity.py\<close>): domains,
    slices and claims with their constructor checks; bundle validation and arbitration of the
    segments of a source; the two fail-closed passes; postings and \<open>project_quantities\<close>. The
    locale \<open>fail_closed_pass\<close> states what both passes promise (they only withdraw) and is
    interpreted on each. Shown: when the projection raises, that its postings are zero in every
    domain, that every outbound msat is decided once and no inbound msat is consumed twice, that
    bundles are atomic, who wins, and that the order of claims does not matter.
  \<^item> \<open>Bipartite_Flow\<close>, \<open>Flow_Network\<close>, \<open>Flow_Exact\<close>, \<open>Transfer_Flow\<close>, \<open>Pairing\<close>
    (\<open>core/pair_allocation.py\<close>): the Edmonds-Karp allocator, max-flow reasoning in the locale
    \<open>flow_network\<close>, exactness of the result, the transfer split verified against the locale
    \<open>exact_allocator\<close> that the allocator interprets, and the smaller operations (canonical order,
    clamping, fee portions, connected components).
  \<^item> \<open>Component_Routes\<close>, \<open>Component_Claims\<close> (\<open>core/custody_component_claims.py\<close>): flattening of
    transaction-less hops and compilation of a component into claims; what is compiled is
    accepted by the arbitrator.
  \<^item> \<open>Gap_Holds\<close> (\<open>core/custody_gap_holds.py\<close>, with the identity of a candidate from
    \<open>core/custody_gaps.py\<close>): validation of a candidate, exact holds, and every way it fails.
  \<^item> \<open>Bytes\<close>, \<open>Htlc_Script\<close> (\<open>core/htlc_parser.py\<close>): bytes as 8-bit words, the redeem-script parser
    against a printed grammar, claim and refund witnesses.
  \<^item> \<open>Chronology\<close> (\<open>core/transfer_chronology.py\<close>): chain dependencies, wallet hints and the
    topological order of same-time transfers.
  \<^item> \<open>Unlock_Policy\<close> (\<open>operator/modes.py\<close>, \<open>operator/policy.py\<close>, the settings operations of
    \<open>secrets/unlock_store.py\<close>): unlock modes over the managed settings; histories of settings are an
    inductive step relation with a rule for every writer, in which a check of the binding and the
    write after it are separate steps. Reusable modes fail closed, up to one proved race.
  \<^item> \<open>Native_Reconciliation\<close>, \<open>Native_Soundness\<close> (\<open>core/custody_native_reconciliation.py\<close>): the walk
    of native edges from the source of a reviewed bridge, the certificates it issues and the
    blockers it reports; a certificate accounts for the whole of a reviewed source.
  \<^item> \<open>Auth_Backoff\<close> (\<open>secrets/auth_backoff.py\<close>): the passphrase throttle over its object and its state
    file. It refines an abstract throttle, every lock ends, and the ways it raises are listed.
  \<^item> \<open>Address_Scripts\<close> (\<open>core/address_scripts.py\<close>): Base58Check, Bech32 and Bech32m decoding and the
    scripts; round trips of printed addresses and of the regrouping of bits.
  \<^item> \<open>Safe_Tar\<close> (\<open>backup/safe_tar.py\<close>): inspection of archive members and extraction onto a file
    system of directories and files. What passes, that nothing outside the destination changes, and
    what an extraction leaves on disk.
  \<^item> \<open>Ring_Buffer\<close>, \<open>Log_Ring\<close> (\<open>log_ring.py\<close>, \<open>redaction.py\<close>), \<open>Egress_Ledger\<close>
    (\<open>egress_ledger.py\<close>): the bounded buffer both classes keep, in the locale \<open>numbered_records\<close> that
    both interpret; snapshots as functions of everything ever recorded, the summary of the egress
    ledger, and what a stored log record can hold.
  \<^item> \<open>Access_Switches\<close> (\<open>agent_access.py\<close>, \<open>egress_policy.py\<close>, the reader of \<open>private_files.py\<close>): the
    switches for external agents and for offline mode. Exactly which preference files open access,
    and that updates keep what they do not name.
  \<^item> \<open>Swap_Rows\<close>, \<open>Swap_Heuristic\<close>, \<open>Merge_Find\<close>, \<open>Conflict_Sets\<close>, \<open>Swap_Suggest\<close>
    (\<open>core/transfer_matching.py\<close>): rows, fees and candidates; the time window with its binary searches,
    equivalent to testing all pairs; union-find on a dictionary with path halving, whose contract is the
    locale \<open>least_representatives\<close>; conflict sets as connected components of shared legs; and
    \<open>suggest_swap_candidates\<close>, whose suggestions use open rows only and are exact only on unique evidence.
  \<^item> \<open>Swap_Rules\<close> (\<open>core/swap_rules.py\<close>): decoding and validation of stored rules, matching and
    \<open>apply_rules\<close>. Rules fail closed, the most specific rule wins, and with the conflict sets no
    transaction is auto-paired twice.
  \<^item> \<open>Austrian_Regimes\<close> (\<open>core/austrian.py\<close>): the inventory of old and new holdings per wallet, the
    moves of transfers, and the split of reviewed groups with the allocators of \<open>Transfer_Flow\<close> and
    \<open>Pairing\<close>. The inference returns, moves conserve every regime, and disposals follow the inventory.
  \<^item> \<open>Indicative_Tax\<close> (\<open>core/tax_estimate.py\<close>, the form fields of \<open>core/austrian.py\<close>): the indicative
    figure of a year, exact to the cent, and when it is withheld.
  \<^item> \<open>Loan_Marks\<close> (\<open>core/loans.py\<close>): the table of loan marks with its operations as an inductive step
    relation; one active mark per transaction in every history, and the locks that are open.
  \<^item> \<open>Coverage\<close> (\<open>core/source_funds_coverage.py\<close>): classification of inbound rows into buckets that
    partition them in every breakdown.
  \<^item> \<open>Bolt11\<close> (\<open>core/lightning/bolt11.py\<close>): payment hashes of invoices, read back from what the grammar
    of BOLT 11 prints.

  \<^bold>\<open>Conventions.\<close> Python integers are \<open>int\<close> and unbounded. Database rows and JSON mappings are
  records of the keys the code reads. A Python set whose order the code does not use is a list
  without repetition. In the swap matcher a float is the rational it denotes and every operation
  rounds to 53 bits, half to even; its other clock readings and amounts are exact. Dataclass constructors that check their arguments are \<open>make_\<close> functions into
  \<open>result\<close>.

  \<^bold>\<open>Termination.\<close> Loops are structural recursion or \<open>function\<close> with a proved measure. The
  augmenting loop of the flow allocator and the search for a root in the conflict sets are
  \<open>partial_function (option)\<close>: that they return is part of the theorems on them. No fuel is used.

  \<^bold>\<open>Parameters.\<close> SHA-256 and hash160 are arguments, as are \<open>json.loads\<close> of a stored rule, the order in which a Python set
  yields two amounts, the project identity and the database identity read from disk, the secret floor of the log (\<open>redact_secret_text\<close>), the home directory,
  fresh identifiers of loan marks, the links and the report of a transaction in the coverage,
  and every clock reading (an exact rational in the throttle, an instant where Austrian rules compare it, a text elsewhere). Theorems that need a law of one of them name it as a hypothesis.

  \<^bold>\<open>Not modelled.\<close> The database layer and migrations, the daemon, the command line, the
  importers, the sync backends, the Lightning adapters, the reports and exports, the snapshot of
  the user interface, the AI and MCP clients, the operator broker and the key stores: they are
  I/O around external services, or presentation of database rows. Of the modelled files, the
  regular expressions of \<open>redaction.py\<close>, the URL reading of \<open>egress_ledger.py\<close> and the reading of raw
  JSON in \<open>core/transfer_matching.py\<close> (what it yields is a field of a row) are left out, as are the calendar of \<open>core/austrian.py\<close> in the
  Vienna time zone and the display form of an invoice. The parsing of
  raw JSON into observations, the search for gap candidates, the native claim generators and the
  preparation of events for the tax engines are program logic that is not modelled: they work on
  stored JSON documents and database rows whose shape is not fixed in one place.
\<close>

end
